(* ===== verification/Prelude.thy ===== *)
theory Prelude
  imports Main "HOL-Library.Word" "HOL-Library.Signed_Division"
begin

text \<open>
  What every component of the development shares: the machine types of the 32-bit build
  (\<open>Makefile\<close> of Level 3 compiles with \<open>gcc -m32\<close>), the ways a C operation of the
  modelled code can go wrong (\<open>fault\<close>), byte-addressed memory with its little-endian
  32-bit loads and stores, \<open>memset\<close> and \<open>memcpy\<close>, C division, the shift instructions,
  and the generic lemmas about them.  Two collections carry the component proofs:
  \<open>mem_simps\<close> (reads after writes at offsets from a common base) and \<open>c_arith\<close>
  (C division and remainder on non-negative operands).
\<close>

unbundle bit_operations_syntax

named_theorems mem_simps \<open>reads after writes, at offsets of one base address\<close>
named_theorems c_arith \<open>C integer operations on the ranges the code uses\<close>

subsection \<open>Types\<close>

type_synonym byte = "8 word"
type_synonym addr = "32 word"
type_synonym memory = "addr \<Rightarrow> byte"

text \<open>
  The ends of a C call that are not a return: a null pointer is dereferenced, an access
  leaves its object, a byte count is negative, a lock that is never released is taken
  again, a loop does not end, or the process calls \<open>exit\<close>.
\<close>

datatype fault = NullDeref | OutOfBounds | BadSize | Deadlock | Diverges | InvalidFree | UseAfterFree | Exit int

type_synonym 'a result = "fault + 'a"

primrec is_fault :: "'a result \<Rightarrow> bool" where
  "is_fault (Inl f) = True"
| "is_fault (Inr x) = False"

subsection \<open>C arithmetic\<close>

lemma sdiv_nonneg [c_arith]: "0 \<le> a \<Longrightarrow> 0 < b \<Longrightarrow> (a::int) sdiv b = a div b"
  by (cases "a = 0") (simp_all add: signed_divide_int_def)

lemma smod_nonneg [c_arith]: "0 \<le> a \<Longrightarrow> 0 < b \<Longrightarrow> (a::int) smod b = a mod b"
  by (cases "a = 0") (simp_all add: signed_modulo_int_def)

text \<open>
  The i386 shift instructions take the count modulo 32.  C leaves a shift by a negative
  count or by 32 and more undefined; the one place of the code that does it is named where
  it is modelled.
\<close>

definition shl32 :: "32 word \<Rightarrow> int \<Rightarrow> 32 word" where
  "shl32 x n = push_bit (nat (n mod 32)) x"

definition shr32 :: "32 word \<Rightarrow> int \<Rightarrow> 32 word" where
  "shr32 x n = drop_bit (nat (n mod 32)) x"

lemma radix_eq:
  assumes "(t::nat) < n" and "u < n"
  shows "h * n + t = g * n + u \<longleftrightarrow> h = g \<and> t = u"
proof
  assume e: "h * n + t = g * n + u"
  have "(h * n + t) div n = h" "(g * n + u) div n = g" using assms by simp_all
  with e show "h = g \<and> t = u" by simp
qed simp

subsection \<open>Addresses as offsets of a base\<close>

lemma addr_eq_iff [mem_simps]:
  assumes "k < 2 ^ 32" and "l < 2 ^ 32"
  shows "(b::addr) + of_nat k = b + of_nat l \<longleftrightarrow> k = l"
proof -
  have "(of_nat k :: addr) = of_nat l \<longleftrightarrow> k mod 2 ^ 32 = l mod 2 ^ 32"
    using word_unat_eq_iff [of "of_nat k :: addr" "of_nat l"] by (simp add: unat_of_nat)
  with assms show ?thesis by simp
qed

lemma unat_offset [mem_simps]: "k < 2 ^ 32 \<Longrightarrow> unat ((b::addr) + of_nat k - b) = k"
  by (simp add: unat_of_nat)

lemma unat_offset_diff:
  assumes "k < 2 ^ 32" and "l < 2 ^ 32"
  shows "unat ((b::addr) + of_nat k - (b + of_nat l)) = (if l \<le> k then k - l else 2 ^ 32 - (l - k))"
proof (cases "l \<le> k")
  case True
  then have "(b::addr) + of_nat k - (b + of_nat l) = of_nat (k - l)"
    by (simp add: of_nat_diff)
  then have "unat ((b::addr) + of_nat k - (b + of_nat l)) = unat (of_nat (k - l) :: addr)"
    by (rule arg_cong)
  also have "\<dots> = k - l" using assms by (simp only: unat_of_nat) simp
  finally show ?thesis using True by simp
next
  case False
  then have "(b::addr) + of_nat k - (b + of_nat l) = - of_nat (l - k)"
    by (simp add: of_nat_diff)
  also have "\<dots> = of_nat (2 ^ 32 - (l - k))"
    using False assms by (simp add: of_nat_diff)
  finally have "unat ((b::addr) + of_nat k - (b + of_nat l)) = unat (of_nat (2 ^ 32 - (l - k)) :: addr)"
    by (rule arg_cong)
  also have "\<dots> = 2 ^ 32 - (l - k)" using False assms by (simp only: unat_of_nat) simp
  finally show ?thesis using False by simp
qed

lemma unat_base_plus:
  assumes "unat (b::addr) + k < 2 ^ 32"
  shows "unat (b + of_nat k) = unat b + k"
  using assms by (simp add: unat_word_ariths unat_of_nat)

lemma word_of_nat_unat: "(of_nat (unat w) :: 'a::len word) = w"
  by (simp add: of_nat_unat)

lemma unat_take: "unat (take_bit n (x::32 word)) = unat x mod 2 ^ n"
  by (simp only: unsigned_take_bit_eq) (simp only: take_bit_eq_mod)

lemma unat_drop: "unat (drop_bit n (x::32 word)) = unat x div 2 ^ n"
  by (simp add: unat_drop_bit_eq) (simp add: drop_bit_eq_div)

lemma sint_index: "unat w < 2 ^ 31 \<Longrightarrow> sint (w :: 32 word) = int (unat w)"
proof -
  assume "unat w < 2 ^ 31"
  then have "int (unat w) < 2 ^ 31" by (simp only: of_nat_less_numeral_power_cancel_iff)
  then have "uint w < 2 ^ 31" by (simp only: uint_nat)
  moreover have "- (2 ^ 31) \<le> uint w" by (rule order_trans [OF _ uint_ge_0]) simp
  ultimately have "signed_take_bit 31 (uint w) = uint w" by (intro signed_take_bit_int_eq_self)
  then show ?thesis by (simp only: sint_uint uint_nat) simp
qed

subsection \<open>Byte memory\<close>

definition mem_write :: "memory \<Rightarrow> addr \<Rightarrow> byte list \<Rightarrow> memory" where
  "mem_write m a bs = (\<lambda>x. if unat (x - a) < length bs then bs ! unat (x - a) else m x)"

definition mem_read :: "memory \<Rightarrow> addr \<Rightarrow> nat \<Rightarrow> byte list" where
  "mem_read m a n = map (\<lambda>k. m (a + of_nat k)) [0..<n]"

definition mem_set0 :: "memory \<Rightarrow> addr \<Rightarrow> nat \<Rightarrow> memory" where
  "mem_set0 m a n = (\<lambda>x. if unat (x - a) < n then 0 else m x)"

definition le_bytes32 :: "32 word \<Rightarrow> byte list" where
  "le_bytes32 v = [ucast v, ucast (drop_bit 8 v), ucast (drop_bit 16 v), ucast (drop_bit 24 v)]"

definition load32 :: "memory \<Rightarrow> addr \<Rightarrow> 32 word" where
  "load32 m a = ucast (m a) OR push_bit 8 (ucast (m (a + 1)))
     OR push_bit 16 (ucast (m (a + 2))) OR push_bit 24 (ucast (m (a + 3)))"

definition store32 :: "memory \<Rightarrow> addr \<Rightarrow> 32 word \<Rightarrow> memory" where
  "store32 m a v = mem_write m a (le_bytes32 v)"

lemma length_le_bytes32 [simp]: "length (le_bytes32 v) = 4"
  by (simp add: le_bytes32_def)

lemma length_mem_read [simp]: "length (mem_read m a n) = n"
  by (simp add: mem_read_def)

lemma le_bytes32_join:
  "(ucast (ucast v :: byte) :: 32 word) OR push_bit 8 (ucast (ucast (drop_bit 8 v) :: byte))
     OR push_bit 16 (ucast (ucast (drop_bit 16 v) :: byte))
     OR push_bit 24 (ucast (ucast (drop_bit 24 v) :: byte)) = v"
proof (rule bit_word_eqI)
  fix n
  assume "n < LENGTH(32)"
  then consider "n < 8" | "8 \<le> n \<and> n < 16" | "16 \<le> n \<and> n < 24" | "24 \<le> n \<and> n < 32"
    by (simp, linarith)
  then show "bit ((ucast (ucast v :: byte) :: 32 word)
     OR push_bit 8 (ucast (ucast (drop_bit 8 v) :: byte))
     OR push_bit 16 (ucast (ucast (drop_bit 16 v) :: byte))
     OR push_bit 24 (ucast (ucast (drop_bit 24 v) :: byte))) n = bit v n"
    by cases (auto simp: bit_simps)
qed

lemma mem_write_off [mem_simps]:
  assumes "k < 2 ^ 31" and "l < 2 ^ 31" and "length bs \<le> 2 ^ 31"
  shows "mem_write m (b + of_nat l) bs (b + of_nat k) =
    (if l \<le> k \<and> k < l + length bs then bs ! (k - l) else m (b + of_nat k))"
  using assms unat_offset_diff [of k l b] by (auto simp: mem_write_def)

lemma mem_set0_off [mem_simps]:
  assumes "k < 2 ^ 31" and "l < 2 ^ 31" and "n \<le> 2 ^ 31"
  shows "mem_set0 m (b + of_nat l) n (b + of_nat k) =
    (if l \<le> k \<and> k < l + n then 0 else m (b + of_nat k))"
  using assms unat_offset_diff [of k l b] by (auto simp: mem_set0_def)

lemma load32_off:
  "load32 m (b + of_nat k) = ucast (m (b + of_nat k)) OR push_bit 8 (ucast (m (b + of_nat (k + 1))))
     OR push_bit 16 (ucast (m (b + of_nat (k + 2)))) OR push_bit 24 (ucast (m (b + of_nat (k + 3))))"
  by (simp add: load32_def algebra_simps)

lemma load32_cong:
  assumes "\<And>i. i < 4 \<Longrightarrow> m (a + of_nat i) = m' (a + of_nat i)"
  shows "load32 m a = load32 m' a"
  using assms [of 0] assms [of 1] assms [of 2] assms [of 3] by (simp add: load32_def)

lemma load32_store32_same [mem_simps]: "load32 (store32 m a v) a = v"
proof -
  have "unat (a + 1 - a) = 1" "unat (a + 2 - a) = 2" "unat (a + 3 - a) = 3" by simp_all
  then show ?thesis
    by (simp add: load32_def store32_def mem_write_def le_bytes32_def le_bytes32_join)
qed

lemma store32_off [mem_simps]:
  assumes "k < 2 ^ 31" and "l < 2 ^ 31"
  shows "store32 m (b + of_nat l) v (b + of_nat k) =
    (if l \<le> k \<and> k < l + 4 then le_bytes32 v ! (k - l) else m (b + of_nat k))"
  using assms by (simp add: store32_def mem_write_off)

lemma load32_agree_off:
  assumes "\<And>j. k \<le> j \<Longrightarrow> j < k + 4 \<Longrightarrow> m (b + of_nat j) = m' (b + of_nat j)"
  shows "load32 m (b + of_nat k) = load32 m' (b + of_nat k)"
  unfolding load32_off
  using assms [of k] assms [of "k + 1"] assms [of "k + 2"] assms [of "k + 3"] by simp

lemma load32_store32_off [mem_simps]:
  assumes "k < 2 ^ 30" and "l < 2 ^ 30" and "k + 4 \<le> l \<or> l + 4 \<le> k"
  shows "load32 (store32 m (b + of_nat l) v) (b + of_nat k) = load32 m (b + of_nat k)"
  by (rule load32_agree_off) (use assms in \<open>auto simp: store32_off\<close>)

lemma load32_zero: "(\<And>i. i < 4 \<Longrightarrow> m (a + of_nat i) = 0) \<Longrightarrow> load32 m a = 0"
  using load32_cong [of m a "\<lambda>_. 0"] by (simp add: load32_def)

lemma mem_read_write_same:
  assumes "length bs \<le> 2 ^ 31"
  shows "mem_read (mem_write m a bs) a (length bs) = bs"
proof (rule nth_equalityI)
  fix i assume "i < length (mem_read (mem_write m a bs) a (length bs))"
  then have "i < length bs" by simp
  with assms show "mem_read (mem_write m a bs) a (length bs) ! i = bs ! i"
    using mem_write_off [of i 0 bs m a] by (simp add: mem_read_def)
qed simp

subsection \<open>Overwriting a range of a byte list\<close>

definition splice :: "nat \<Rightarrow> byte list \<Rightarrow> byte list \<Rightarrow> byte list" where
  "splice pos bs val = take pos val @ bs @ drop (pos + length bs) val"

lemma splice_splice:
  assumes "pos + length bs + length cs \<le> length val"
  shows "splice (pos + length bs) cs (splice pos bs val) = splice pos (bs @ cs) val"
  using assms by (simp add: splice_def ac_simps)

lemma length_splice [simp]: "pos + length bs \<le> length val \<Longrightarrow> length (splice pos bs val) = length val"
  by (simp add: splice_def)

lemma splice_take: "pos + length bs \<le> length val \<Longrightarrow> n \<le> pos \<Longrightarrow> take n (splice pos bs val) = take n val"
  by (simp add: splice_def min_def)

lemma splice_nth:
  "pos + length bs \<le> length val \<Longrightarrow> i < length val \<Longrightarrow>
    splice pos bs val ! i = (if pos \<le> i \<and> i < pos + length bs then bs ! (i - pos) else val ! i)"
  by (auto simp: splice_def nth_append)

lemma splice_same: "pos + length bs \<le> length val \<Longrightarrow> take (length bs) (drop pos (splice pos bs val)) = bs"
  by (simp add: splice_def)

lemma splice_other:
  assumes "pos + length bs \<le> length val" and "off + n \<le> pos \<or> pos + length bs \<le> off" and "off + n \<le> length val"
  shows "take n (drop off (splice pos bs val)) = take n (drop off val)"
proof (rule nth_equalityI)
  fix i
  assume "i < length (take n (drop off (splice pos bs val)))"
  then have "i < n" by simp
  then show "take n (drop off (splice pos bs val)) ! i = take n (drop off val) ! i"
    using assms by (auto simp: splice_nth)
qed (use assms in simp)

subsection \<open>Little-endian integers\<close>

definition le_bytes :: "nat \<Rightarrow> 'a::len word \<Rightarrow> byte list" where
  "le_bytes n w = map (\<lambda>k. ucast (drop_bit (8 * k) w)) [0..<n]"

primrec un_bytes :: "byte list \<Rightarrow> 'a::len word" where
  "un_bytes [] = 0"
| "un_bytes (b # bs) = ucast b OR push_bit 8 (un_bytes bs)"

lemma length_le_bytes [simp]: "length (le_bytes n w) = n"
  by (simp add: le_bytes_def)

lemma bit_un_bytes:
  "k < LENGTH('a::len) \<Longrightarrow>
    bit (un_bytes bs :: 'a word) k \<longleftrightarrow> k div 8 < length bs \<and> bit (bs ! (k div 8)) (k mod 8)"
proof (induction bs arbitrary: k)
  case (Cons b bs)
  show ?case
  proof (cases "k < 8")
    case True
    then show ?thesis using Cons.prems by (simp add: bit_simps)
  next
    case False
    then have "\<not> bit b k" using bit_imp_le_length [of b k] by auto
    moreover have "k div 8 = Suc ((k - 8) div 8)" "k mod 8 = (k - 8) mod 8"
      using False by (simp_all add: div_if mod_if)
    ultimately show ?thesis
      using False Cons.prems Cons.IH [of "k - 8"] by (simp add: bit_simps)
  qed
qed simp

lemma un_le_bytes [simp]:
  assumes "LENGTH('a::len) \<le> 8 * n"
  shows "un_bytes (le_bytes n (w :: 'a word)) = w"
proof (rule bit_word_eqI)
  fix k
  assume k: "k < LENGTH('a)"
  then have "k div 8 < n" using assms by (simp add: less_mult_imp_div_less mult.commute)
  then show "bit (un_bytes (le_bytes n w) :: 'a word) k = bit w k"
    using k by (simp add: bit_un_bytes) (simp add: le_bytes_def bit_simps)
qed

lemma le_un_bytes:
  assumes "8 * length bs \<le> LENGTH('a::len)"
  shows "le_bytes (length bs) (un_bytes bs :: 'a word) = bs"
proof (rule nth_equalityI)
  fix j
  assume "j < length (le_bytes (length bs) (un_bytes bs :: 'a word))"
  then have j: "j < length bs" by simp
  show "le_bytes (length bs) (un_bytes bs :: 'a word) ! j = bs ! j"
  proof (rule bit_word_eqI)
    fix m
    assume m: "m < LENGTH(8)"
    then have "8 * j + m < LENGTH('a)" "(8 * j + m) div 8 = j" "(8 * j + m) mod 8 = m" using j assms by auto
    then show "bit (le_bytes (length bs) (un_bytes bs :: 'a word) ! j) m = bit (bs ! j) m"
      using m j bit_un_bytes [of "8 * j + m" bs, where 'a = 'a] by (simp add: le_bytes_def bit_simps)
  qed
qed simp

end
