(* ===== verification/Bit_Array.thy ===== *)
theory Bit_Array
  imports Prelude
begin

text \<open>
  The interface of a bitmap.  Two components of the repository keep one (the frame and page
  bitmaps of the memory manager, most significant bit first; the inode and block bitmaps of
  the file system, least significant bit first) and both allocate by scanning it for a clear
  bit and setting that bit.  \<open>bit_array\<close> holds the contract of reading and setting a bit,
  \<open>bit_array_clear\<close> adds clearing.  The lemmas inside are what an allocator relies on: which
  bits are free after an operation, and how many.
\<close>

definition free_bits :: "('b \<Rightarrow> nat) \<Rightarrow> ('b \<Rightarrow> int \<Rightarrow> int result) \<Rightarrow> 'b \<Rightarrow> nat set" where
  "free_bits capacity get b = {i. i < capacity b \<and> get b (int i) = Inr 0}"

text \<open>Setting the bits of a list of indices one after the other, as an allocation loop does.\<close>

primrec put_all :: "('b \<Rightarrow> int \<Rightarrow> 'b result) \<Rightarrow> 'b \<Rightarrow> nat list \<Rightarrow> 'b result" where
  "put_all put b [] = Inr b"
| "put_all put b (i # is) = (case put b (int i) of Inl f \<Rightarrow> Inl f | Inr b' \<Rightarrow> put_all put b' is)"

locale bit_array =
  fixes capacity :: "'b \<Rightarrow> nat"
    and get :: "'b \<Rightarrow> int \<Rightarrow> int result"
    and put :: "'b \<Rightarrow> int \<Rightarrow> 'b result"
  assumes get_bit: "i < capacity b \<Longrightarrow> get b (int i) = Inr 0 \<or> get b (int i) = Inr 1"
    and get_out: "capacity b \<le> i \<Longrightarrow> get b (int i) = Inl OutOfBounds"
    and put_in: "i < capacity b \<Longrightarrow> \<exists>b'. put b (int i) = Inr b'"
    and put_out: "capacity b \<le> i \<Longrightarrow> put b (int i) = Inl OutOfBounds"
    and put_capacity: "put b (int i) = Inr b' \<Longrightarrow> capacity b' = capacity b"
    and get_put: "put b (int i) = Inr b' \<Longrightarrow> j < capacity b \<Longrightarrow>
      get b' (int j) = (if j = i then Inr 1 else get b (int j))"
begin

lemma put_lt: "put b (int i) = Inr b' \<Longrightarrow> i < capacity b"
  by (metis Inl_Inr_False linorder_not_le put_out)

lemma free_put: "put b (int i) = Inr b' \<Longrightarrow> free_bits capacity get b' = free_bits capacity get b - {i}"
  by (auto simp: free_bits_def put_capacity get_put split: if_splits)

lemma put_idem: "put b (int i) = Inr b' \<Longrightarrow> get b' (int i) = Inr 1"
  by (simp add: get_put put_lt)

lemma finite_free: "finite (free_bits capacity get b)"
  by (simp add: free_bits_def)

lemma card_free_put:
  assumes "put b (int i) = Inr b'" and "i \<in> free_bits capacity get b"
  shows "Suc (card (free_bits capacity get b')) = card (free_bits capacity get b)"
  unfolding free_put [OF assms(1)] using finite_free assms(2) by (rule card_Suc_Diff1)

lemma put_all_spec:
  assumes "\<forall>i \<in> set is. i < capacity b"
  shows "\<exists>b'. put_all put b is = Inr b' \<and> capacity b' = capacity b
    \<and> free_bits capacity get b' = free_bits capacity get b - set is"
  using assms
proof (induction "is" arbitrary: b)
  case Nil
  then show ?case by simp
next
  case (Cons i js)
  from Cons.prems obtain c where c: "put b (int i) = Inr c" using put_in [of i b] by auto
  then have cap: "capacity c = capacity b" by (rule put_capacity)
  with Cons.prems have "\<forall>j \<in> set js. j < capacity c" by simp
  from Cons.IH [OF this] c cap free_put [OF c] show ?case by auto
qed

end

locale bit_array_clear = bit_array +
  fixes clear :: "'b \<Rightarrow> int \<Rightarrow> 'b result"
  assumes clear_in: "i < capacity b \<Longrightarrow> \<exists>b'. clear b (int i) = Inr b'"
    and clear_capacity: "clear b (int i) = Inr b' \<Longrightarrow> capacity b' = capacity b"
    and get_clear: "clear b (int i) = Inr b' \<Longrightarrow> j < capacity b \<Longrightarrow>
      get b' (int j) = (if j = i then Inr 0 else get b (int j))"
begin

lemma free_clear:
  assumes "clear b (int i) = Inr b'" and "i < capacity b"
  shows "free_bits capacity get b' = insert i (free_bits capacity get b)"
  using assms by (auto simp: free_bits_def clear_capacity get_clear)

lemma clear_put:
  assumes "put b (int i) = Inr b'" and "clear b' (int i) = Inr b''"
    and "i \<in> free_bits capacity get b"
  shows "free_bits capacity get b'' = free_bits capacity get b"
proof -
  have "i < capacity b'" using put_lt [OF assms(1)] put_capacity [OF assms(1)] by simp
  from free_clear [OF assms(2) this] free_put [OF assms(1)] assms(3) show ?thesis by auto
qed

end

end
