(* ===== verification/Bit_Shifting.thy ===== *)
theory Bit_Shifting
  imports Bit_Array
begin

text \<open>
  \<open>Level - 1/bit-shifting.c\<close>: the top bits of a 32-bit value, and reading and setting a bit
  of a byte array, most significant bit of a byte first.  The memory manager of Level 3
  repeats the two bitmap functions word for word, so the lemmas here serve it too.
\<close>

subsection \<open>Extracting the top bits\<close>

function binary_len_loop :: "32 word \<Rightarrow> int \<Rightarrow> int" where
  "binary_len_loop val_copy binary_len =
     (if val_copy \<noteq> 0 then binary_len_loop (shr32 val_copy 1) (binary_len + 1) else binary_len)"
  by pat_completeness auto
termination
proof (relation "measure (\<lambda>(v, n). unat v)", goal_cases)
  case (2 v n)
  then have "0 < unat v" by (simp add: unat_gt_0)
  then have "unat v div 2 < unat v" by simp
  moreover have "unat (shr32 v 1) = unat v div 2"
    by (simp add: shr32_def unat_drop_bit_eq) (simp add: drop_bit_eq_div)
  ultimately show ?case by simp
qed simp

declare binary_len_loop.simps [simp del]

definition get_top_bits :: "32 word \<Rightarrow> int \<Rightarrow> 32 word" where
  "get_top_bits value num_bits = shr32 value (binary_len_loop value 0 - num_bits)"

lemma binary_len_loop_bounds:
  "\<exists>n. binary_len_loop v k = k + int n \<and> unat v < 2 ^ n \<and> (v \<noteq> 0 \<longrightarrow> 0 < n \<and> 2 ^ (n - 1) \<le> unat v)"
proof (induction v k rule: binary_len_loop.induct)
  case (1 v k)
  show ?case
  proof (cases "v = 0")
    case True
    then show ?thesis by (intro exI [of _ 0]) (simp add: binary_len_loop.simps [of 0 k])
  next
    case False
    let ?w = "shr32 v 1"
    have w: "unat ?w = unat v div 2"
      by (simp add: shr32_def unat_drop_bit_eq) (simp add: drop_bit_eq_div)
    from "1.IH" False obtain n where n: "binary_len_loop ?w (k + 1) = k + 1 + int n"
      "unat ?w < 2 ^ n" "?w \<noteq> 0 \<longrightarrow> 0 < n \<and> 2 ^ (n - 1) \<le> unat ?w" by blast
    have up: "unat v < 2 ^ Suc n" using n(2) w by simp
    have low: "2 ^ n \<le> unat v"
    proof (cases "?w = 0")
      case True
      then have "unat v div 2 = 0" using w by simp
      moreover have "unat v \<noteq> 0" using False by (simp add: unat_eq_zero)
      ultimately have "unat v = 1" by simp
      moreover have "n = 0"
        using n(1) True by (simp add: binary_len_loop.simps [of 0])
      ultimately show ?thesis by simp
    next
      case w0: False
      with n(3) have "0 < n" and "2 ^ (n - 1) \<le> unat v div 2" using w by auto
      then have "2 * 2 ^ (n - 1) \<le> unat v" by simp
      with \<open>0 < n\<close> show ?thesis by (cases n) simp_all
    qed
    have "binary_len_loop v k = k + int (Suc n)"
      using n(1) False by (simp add: binary_len_loop.simps [of v k])
    with up low show ?thesis by (intro exI [of _ "Suc n"]) auto
  qed
qed

lemma binary_len_exists:
  obtains n where "binary_len_loop v 0 = int n" "unat v < 2 ^ n" "n \<le> 32"
    "v \<noteq> 0 \<Longrightarrow> 0 < n \<and> 2 ^ (n - 1) \<le> unat v"
proof -
  obtain n where n: "binary_len_loop v 0 = int n" "unat v < 2 ^ n"
    "v \<noteq> 0 \<longrightarrow> 0 < n \<and> 2 ^ (n - 1) \<le> unat v"
    using binary_len_loop_bounds [of v 0] by auto
  have "n \<le> 32"
  proof (cases "v = 0")
    case True
    then show ?thesis using n(1) by (simp add: binary_len_loop.simps [of 0])
  next
    case False
    then have "2 ^ (n - 1) < (2::nat) ^ 32"
      using n(3) unsigned_less [of v, where 'a = nat] by simp
    then show ?thesis using power_less_imp_less_exp [of "2::nat" "n - 1" 32] by simp
  qed
  with n that show ?thesis by blast
qed

subsection \<open>Bits of a byte array\<close>

definition set_bit_at_index_l1 :: "byte list \<Rightarrow> int \<Rightarrow> byte list result" where
  "set_bit_at_index_l1 bitmap index =
     (let byte_pos = index sdiv 8; bit_pos = index smod 8
      in if 0 \<le> byte_pos \<and> byte_pos < int (length bitmap) \<and> 0 \<le> bit_pos
         then Inr (bitmap[nat byte_pos := bitmap ! nat byte_pos OR ucast (shr32 128 bit_pos)])
         else Inl OutOfBounds)"

definition get_bit_at_index_l1 :: "byte list \<Rightarrow> int \<Rightarrow> int result" where
  "get_bit_at_index_l1 bitmap index =
     (let byte_pos = index sdiv 8; bit_pos = index smod 8
      in if 0 \<le> byte_pos \<and> byte_pos < int (length bitmap) \<and> 0 \<le> bit_pos
         then Inr (uint (signed_drop_bit (nat (8 - bit_pos - 1)) (bitmap ! nat byte_pos) AND 1))
         else Inl OutOfBounds)"

text \<open>The two operations on indices in range: byte \<open>i div 8\<close>, bit \<open>7 - i mod 8\<close> of it.\<close>

definition bm_get :: "byte list \<Rightarrow> nat \<Rightarrow> bool" where
  "bm_get b i = bit (b ! (i div 8)) (7 - i mod 8)"

definition bm_set :: "byte list \<Rightarrow> nat \<Rightarrow> byte list" where
  "bm_set b i = b[i div 8 := b ! (i div 8) OR drop_bit (i mod 8) 128]"

lemma int_div8: "int i sdiv 8 = int (i div 8)" "int i smod 8 = int (i mod 8)"
  by (simp_all add: c_arith zdiv_int zmod_int)

lemma length_bm_set [simp]: "length (bm_set b i) = length b"
  by (simp add: bm_set_def)

lemma signed_drop_bit_bit:
  assumes "k < 8"
  shows "uint (signed_drop_bit k (x::byte) AND 1) = of_bool (bit x k)"
proof -
  have "signed_drop_bit k x AND 1 = of_bool (bit x k)"
    by (rule bit_word_eqI) (use assms in \<open>auto simp: bit_simps\<close>)
  then show ?thesis by simp
qed

lemma bit_shr128: "j < 8 \<Longrightarrow> k < 8 \<Longrightarrow> bit (drop_bit j (128::byte)) k \<longleftrightarrow> j + k = 7"
proof -
  assume "j < 8" "k < 8"
  have "(128::byte) = push_bit 7 1" by simp
  then have "bit (128::byte) m \<longleftrightarrow> m = 7" for m
    by (simp only: bit_simps) auto
  then show ?thesis by (simp add: bit_drop_bit_eq)
qed

lemma get_bit_at_index_l1_in:
  "i < 8 * length b \<Longrightarrow> get_bit_at_index_l1 b (int i) = Inr (of_bool (bm_get b i))"
proof -
  assume i: "i < 8 * length b"
  then have "i div 8 < length b" by (simp add: less_mult_imp_div_less mult.commute)
  moreover have "nat (8 - int (i mod 8) - 1) = 7 - i mod 8" by (simp add: nat_diff_distrib)
  moreover have "7 - i mod 8 < 8" by simp
  ultimately show ?thesis
    by (simp only: get_bit_at_index_l1_def Let_def int_div8 bm_get_def signed_drop_bit_bit) simp
qed

lemma ucast_shr128: "k < 8 \<Longrightarrow> (ucast (shr32 128 (int k)) :: byte) = drop_bit k 128"
proof -
  assume "k < 8"
  then have "k \<in> {0, 1, 2, 3, 4, 5, 6, 7}" by auto
  then show ?thesis by (auto simp: shr32_def)
qed

lemma set_bit_at_index_l1_in:
  "i < 8 * length b \<Longrightarrow> set_bit_at_index_l1 b (int i) = Inr (bm_set b i)"
proof -
  assume i: "i < 8 * length b"
  then have "i div 8 < length b" by (simp add: less_mult_imp_div_less mult.commute)
  then show ?thesis
    by (simp only: set_bit_at_index_l1_def Let_def int_div8 bm_set_def) (simp add: ucast_shr128)
qed

lemma index_l1_out:
  assumes "8 * length b \<le> i"
  shows "set_bit_at_index_l1 b (int i) = Inl OutOfBounds"
    and "get_bit_at_index_l1 b (int i) = Inl OutOfBounds"
proof -
  have "length b \<le> i div 8" using assms by (simp add: less_eq_div_iff_mult_less_eq mult.commute)
  then show "set_bit_at_index_l1 b (int i) = Inl OutOfBounds"
    and "get_bit_at_index_l1 b (int i) = Inl OutOfBounds"
    by (simp_all only: set_bit_at_index_l1_def get_bit_at_index_l1_def Let_def int_div8) simp_all
qed

lemma bm_get_set:
  assumes "i < 8 * length b"
  shows "bm_get (bm_set b i) j \<longleftrightarrow> j = i \<or> bm_get b j"
proof (cases "j div 8 = i div 8")
  case True
  have len: "i div 8 < length b" using assms by (simp add: less_mult_imp_div_less mult.commute)
  have "i mod 8 < 8" "j mod 8 < 8" by simp_all
  then have "7 - j mod 8 + i mod 8 = 7 \<longleftrightarrow> i mod 8 = j mod 8" by linarith
  moreover have "i mod 8 = j mod 8 \<longleftrightarrow> j = i"
    using True by (metis div_mult_mod_eq)
  ultimately show ?thesis
    using True len by (auto simp: bm_get_def bm_set_def bit_or_iff bit_shr128 add.commute)
next
  case False
  then show ?thesis by (auto simp: bm_get_def bm_set_def)
qed

text \<open>The two functions satisfy the interface of a bitmap of \<open>8 * length\<close> bits.\<close>

interpretation l1: bit_array "\<lambda>b. 8 * length b" get_bit_at_index_l1 set_bit_at_index_l1
proof (unfold_locales, goal_cases)
  case (1 i b) then show ?case by (simp add: get_bit_at_index_l1_in)
next
  case (2 b i) then show ?case by (rule index_l1_out)
next
  case (3 i b) then show ?case by (simp add: set_bit_at_index_l1_in)
next
  case (4 b i) then show ?case by (rule index_l1_out)
next
  case (5 b i b')
  then have "i < 8 * length b" using index_l1_out(1) [of b i] by (cases "i < 8 * length b") auto
  with 5 show ?case by (auto simp: set_bit_at_index_l1_in)
next
  case (6 b i b' j)
  then have "i < 8 * length b" using index_l1_out(1) [of b i] by (cases "i < 8 * length b") auto
  with 6 have "b' = bm_set b i" by (simp add: set_bit_at_index_l1_in)
  with 6 \<open>i < 8 * length b\<close> show ?case by (simp add: get_bit_at_index_l1_in bm_get_set)
qed

subsection \<open>What the functions compute\<close>

lemma unat_shr32: "0 \<le> n \<Longrightarrow> n < 32 \<Longrightarrow> unat (shr32 x n) = unat x div 2 ^ nat n"
  by (simp add: shr32_def unat_drop_bit_eq) (simp add: drop_bit_eq_div)

text \<open>\<open>get_top_bits v n\<close> is the \<open>n\<close>-bit prefix of the binary representation of \<open>v\<close>: with
  \<open>len\<close> the number of binary digits the loop counts and \<open>0 < n \<le> len\<close>, it is \<open>v\<close> without
  its lowest \<open>len - n\<close> digits, and it has exactly \<open>n\<close> digits itself.\<close>

theorem get_top_bits_prefix:
  assumes "len = binary_len_loop v 0" and "0 < n" and "n \<le> len"
  shows "unat (get_top_bits v n) = unat v div 2 ^ nat (len - n)
    \<and> 2 ^ nat (n - 1) \<le> unat (get_top_bits v n) \<and> unat (get_top_bits v n) < 2 ^ nat n"
proof -
  obtain l where l: "len = int l" "unat v < 2 ^ l" "l \<le> 32" "v \<noteq> 0 \<Longrightarrow> 2 ^ (l - 1) \<le> unat v"
    using binary_len_exists [of v] assms(1) by metis
  define m where "m = nat n"
  have m: "0 < m" "m \<le> l" "n = int m" using assms(2,3) l(1) by (auto simp: m_def)
  have "v \<noteq> 0" using assms l(1) by (auto simp: binary_len_loop.simps [of 0])
  then have low: "2 ^ (l - 1) \<le> unat v" by (rule l(4))
  have eq: "unat (get_top_bits v n) = unat v div 2 ^ (l - m)"
    using m l(1,3) assms(1) by (simp add: get_top_bits_def unat_shr32 nat_diff_distrib)
  have split: "(2::nat) ^ l = 2 ^ (l - m) * 2 ^ m" "(2::nat) ^ (l - 1) = 2 ^ (m - 1) * 2 ^ (l - m)"
    using m by (simp_all add: power_add [symmetric])
  have "unat v div 2 ^ (l - m) < 2 ^ m"
    using l(2) split(1) by (simp add: less_mult_imp_div_less mult.commute)
  moreover have "2 ^ (m - 1) \<le> unat v div 2 ^ (l - m)"
    using low split(2) by (simp add: less_eq_div_iff_mult_less_eq)
  ultimately show ?thesis using eq m l(1) by (simp add: nat_diff_distrib)
qed

theorem get_top_bits_prefix_witness: "get_top_bits 4026544704 4 = 15"
proof -
  have len: "32 = binary_len_loop 4026544704 0"
    by (simp add: binary_len_loop.simps shr32_def)
  have "unat (get_top_bits 4026544704 4) = unat (4026544704 :: 32 word) div 2 ^ nat (32 - 4)"
    using get_top_bits_prefix [OF len, of 4] by simp
  then have "unat (get_top_bits 4026544704 4) = unat (15 :: 32 word)" by simp
  then show ?thesis by (simp only: word_unat_eq_iff)
qed

end
