(* ===== verification/Threads_Race.thy ===== *)
theory Threads_Race
  imports Prelude
begin

text \<open>
  \<open>Level - 1/threads.c\<close>: two threads increment the shared counter \<open>x\<close>, \<open>loop\<close> times each.
  The statement \<open>x=x+1\<close> reads \<open>x\<close> into a register and writes the register plus one back, and
  nothing keeps the other thread out in between, so a step of the machine is one of these
  accesses by one of the threads.  The counter never exceeds the intended total, it reaches
  the total when the threads run one after the other, and it can lose half of the increments.

  \<open>x\<close>, \<open>loop\<close> and \<open>i\<close> are 32-bit integers, compared as signed; \<open>loop\<close> is what \<open>atoi\<close> makes of the
  argument, and can be negative.  From \<open>loop = 2^30\<close> on, \<open>x=x+1\<close> can overflow, which C leaves undefined; the
  additions of the model wrap, and the theorems are about smaller values of \<open>loop\<close>, where no addition does.
\<close>

datatype race_pc = Loop_test | Load_x | Store_x | Returned

record race_thread =
  pc :: race_pc
  iter :: "32 word"
  reg :: "32 word"

record race =
  shared_x :: "32 word"
  loop_count :: "32 word"
  thr :: "bool \<Rightarrow> race_thread"

definition race_start :: "32 word \<Rightarrow> race" where
  "race_start n = \<lparr>shared_x = 0, loop_count = n,
     thr = (\<lambda>_. \<lparr>pc = Loop_test, iter = 0, reg = 0\<rparr>)\<rparr>"

text \<open>One access of thread \<open>t\<close> in \<open>inc_shared_counter\<close>; the loop counter is bumped with the
  write, since the \<open>printf\<close> in between does not change \<open>x\<close>.\<close>

definition inc_shared_counter_step :: "bool \<Rightarrow> race \<Rightarrow> race" where
  "inc_shared_counter_step t s =
     (let th = thr s t
      in case pc th of
           Loop_test \<Rightarrow> s\<lparr>thr := (thr s)(t := th\<lparr>pc := (if sint (iter th) < sint (loop_count s) then Load_x else Returned)\<rparr>)\<rparr>
         | Load_x \<Rightarrow> s\<lparr>thr := (thr s)(t := th\<lparr>pc := Store_x, reg := shared_x s\<rparr>)\<rparr>
         | Store_x \<Rightarrow> s\<lparr>shared_x := reg th + 1, thr := (thr s)(t := th\<lparr>pc := Loop_test, iter := iter th + 1\<rparr>)\<rparr>
         | Returned \<Rightarrow> s)"

inductive race_reach :: "race \<Rightarrow> race \<Rightarrow> bool" where
  race_refl: "race_reach s s"
| race_step: "race_reach s t \<Longrightarrow> race_reach s (inc_shared_counter_step i t)"

definition race_done :: "race \<Rightarrow> bool" where
  "race_done s \<longleftrightarrow> pc (thr s False) = Returned \<and> pc (thr s True) = Returned"

lemma race_trans: "race_reach t u \<Longrightarrow> race_reach s t \<Longrightarrow> race_reach s u"
  by (induction rule: race_reach.induct) (auto intro: race_reach.intros)

text \<open>The number of rounds of a thread, and numbers that fit.\<close>

definition rounds :: "32 word \<Rightarrow> nat" where
  "rounds n = nat (sint n)"

lemma rounds_bound: "rounds n < 2 ^ 31"
  using sint_lt [of n] by (simp add: rounds_def nat_less_iff)

lemma loop_test: "unat i < 2 ^ 31 \<Longrightarrow> sint i < sint n \<longleftrightarrow> unat i < rounds n" for i n :: "32 word"
  by (simp add: sint_index rounds_def zless_nat_eq_int_zless)

lemma unat_bump: "unat w < 2 ^ 31 \<Longrightarrow> unat (w + 1) = Suc (unat w)" for w :: "32 word"
  by (simp add: unat_word_ariths)

lemma sint_small: "m < 2 ^ 31 \<Longrightarrow> sint (of_nat m :: 32 word) = int m"
  by (simp add: sint_index unsigned_of_nat take_bit_nat_eq_self)

subsection \<open>The counter is bounded by the increments made\<close>

definition race_inv :: "32 word \<Rightarrow> race \<Rightarrow> bool" where
  "race_inv n s \<longleftrightarrow> loop_count s = n
     \<and> unat (shared_x s) \<le> unat (iter (thr s False)) + unat (iter (thr s True))
     \<and> (\<forall>t. unat (iter (thr s t)) \<le> rounds n
          \<and> (pc (thr s t) \<in> {Load_x, Store_x} \<longrightarrow> unat (iter (thr s t)) < rounds n)
          \<and> (pc (thr s t) = Store_x \<longrightarrow> unat (reg (thr s t)) \<le> unat (iter (thr s False)) + unat (iter (thr s True))))"

lemma race_inv_start: "race_inv n (race_start n)"
  by (simp add: race_inv_def race_start_def)

lemma race_inv_step:
  assumes "race_inv n s" and "rounds n < 2 ^ 30"
  shows "race_inv n (inc_shared_counter_step t s)"
proof -
  have small: "unat (iter (thr s u)) < 2 ^ 31" for u using assms by (auto simp: race_inv_def intro: le_less_trans)
  have "unat (reg (thr s t) + 1) = Suc (unat (reg (thr s t)))" if "pc (thr s t) = Store_x"
  proof (rule unat_bump)
    have "unat (iter (thr s False)) \<le> rounds n" "unat (iter (thr s True)) \<le> rounds n"
        "unat (reg (thr s t)) \<le> unat (iter (thr s False)) + unat (iter (thr s True))"
      using assms(1) that by (simp_all add: race_inv_def)
    then show "unat (reg (thr s t)) < 2 ^ 31" using assms(2) by simp
  qed
  then show ?thesis
    using assms(1) small
    by (cases "pc (thr s t)"; cases t)
       (auto simp: race_inv_def inc_shared_counter_step_def Let_def all_bool_eq loop_test unat_bump)
qed

lemma race_reach_inv: "race_reach s t \<Longrightarrow> race_inv n s \<Longrightarrow> rounds n < 2 ^ 30 \<Longrightarrow> race_inv n t"
  by (induction rule: race_reach.induct) (auto intro: race_inv_step)

text \<open>C24: In every interleaving of the two threads the shared counter, read as the signed 32-bit integer it is, stays
  between 0 and the intended total \<open>2 * loop\<close>, for every \<open>loop\<close> below \<open>2^30\<close>; with a negative \<open>loop\<close> it stays 0.\<close>

theorem race_counter_bound:
  assumes "race_reach (race_start n) s" and "sint n < 2 ^ 30"
  shows "0 \<le> sint (shared_x s) \<and> sint (shared_x s) \<le> 2 * max 0 (sint n)"
proof -
  have n: "rounds n < 2 ^ 30" "int (rounds n) = max 0 (sint n)" using assms(2) by (simp_all add: rounds_def nat_less_iff)
  from race_reach_inv [OF assms(1) race_inv_start n(1)] have inv: "race_inv n s" .
  then have "unat (iter (thr s False)) \<le> rounds n" and "unat (iter (thr s True)) \<le> rounds n"
    and "unat (shared_x s) \<le> unat (iter (thr s False)) + unat (iter (thr s True))"
    by (simp_all add: race_inv_def)
  then have "unat (shared_x s) \<le> 2 * rounds n" by linarith
  moreover from this have "unat (shared_x s) < 2 ^ 31" using n(1) by simp
  ultimately show ?thesis using n(2) sint_index [of "shared_x s"] by linarith
qed

theorem race_counter_bound_witness:
  "sint (shared_x (inc_shared_counter_step True (inc_shared_counter_step True (race_start 3)))) \<le> 6"
  using race_counter_bound [OF race_step [OF race_step [OF race_refl [of "race_start 3"]]],
      of True True] by simp

subsection \<open>A thread running alone, and the lost updates\<close>

lemma race_round:
  assumes "pc (thr s t) = Loop_test" and "sint (iter (thr s t)) < sint (loop_count s)"
  shows "race_reach s (s\<lparr>shared_x := shared_x s + 1,
     thr := (thr s)(t := \<lparr>pc = Loop_test, iter = iter (thr s t) + 1, reg = shared_x s\<rparr>)\<rparr>)"
proof -
  let ?f = "inc_shared_counter_step t"
  have "race_reach s (?f (?f (?f s)))"
    by (intro race_step race_refl)
  moreover have "?f (?f (?f s)) = s\<lparr>shared_x := shared_x s + 1,
     thr := (thr s)(t := \<lparr>pc = Loop_test, iter = iter (thr s t) + 1, reg = shared_x s\<rparr>)\<rparr>"
    using assms by (cases "thr s t") (simp add: inc_shared_counter_step_def Let_def)
  ultimately show ?thesis by simp
qed

lemma race_solo:
  assumes "pc (thr s t) = Loop_test" and "unat (iter (thr s t)) + k = rounds (loop_count s)"
  shows "\<exists>i r. race_reach s (s\<lparr>shared_x := shared_x s + of_nat k,
     thr := (thr s)(t := \<lparr>pc = Returned, iter = i, reg = r\<rparr>)\<rparr>)"
  using assms
proof (induction k arbitrary: s)
  case 0
  have "race_reach s (inc_shared_counter_step t s)" by (intro race_step race_refl)
  moreover have "inc_shared_counter_step t s = s\<lparr>shared_x := shared_x s + of_nat 0,
     thr := (thr s)(t := \<lparr>pc = Returned, iter = iter (thr s t), reg = reg (thr s t)\<rparr>)\<rparr>"
    using 0 rounds_bound [of "loop_count s"] by (cases "thr s t") (simp add: inc_shared_counter_step_def Let_def loop_test)
  ultimately show ?case by metis
next
  case (Suc k)
  have small: "unat (iter (thr s t)) < 2 ^ 31" using Suc.prems(2) rounds_bound [of "loop_count s"] by linarith
  let ?s = "s\<lparr>shared_x := shared_x s + 1,
     thr := (thr s)(t := \<lparr>pc = Loop_test, iter = iter (thr s t) + 1, reg = shared_x s\<rparr>)\<rparr>"
  have "race_reach s ?s" using Suc.prems small by (intro race_round) (simp_all add: loop_test)
  moreover obtain i r where "race_reach ?s (?s\<lparr>shared_x := shared_x ?s + of_nat k,
     thr := (thr ?s)(t := \<lparr>pc = Returned, iter = i, reg = r\<rparr>)\<rparr>)"
    using Suc.IH [of ?s] Suc.prems small
    by (simp del: fun_upd_apply fun_upd_upd add: fun_upd_same unat_bump) blast
  ultimately have "race_reach s (?s\<lparr>shared_x := shared_x ?s + of_nat k,
     thr := (thr ?s)(t := \<lparr>pc = Returned, iter = i, reg = r\<rparr>)\<rparr>)"
    by (rule race_trans [rotated])
  moreover have "?s\<lparr>shared_x := shared_x ?s + of_nat k,
     thr := (thr ?s)(t := \<lparr>pc = Returned, iter = i, reg = r\<rparr>)\<rparr>
    = s\<lparr>shared_x := shared_x s + of_nat (Suc k),
     thr := (thr s)(t := \<lparr>pc = Returned, iter = i, reg = r\<rparr>)\<rparr>"
    by (cases s) (auto simp: fun_eq_iff)
  ultimately show ?case by metis
qed

text \<open>C25: The interleaving decides the result: for every \<open>loop\<close> below \<open>2^30\<close> the threads can end
  with the intended total \<open>2 * loop\<close>, and (for \<open>0 < loop\<close>) they can also both return with \<open>x = loop\<close>,
  half of the increments lost, because the increment is not synchronised.  A negative \<open>loop\<close> counts as 0.\<close>

theorem race_outcomes:
  assumes "sint n < 2 ^ 30"
  shows "\<exists>s s'. race_reach (race_start n) s \<and> race_done s \<and> sint (shared_x s) = 2 * max 0 (sint n)
     \<and> race_reach (race_start n) s' \<and> race_done s' \<and> sint (shared_x s') = max 0 (sint n)"
proof -
  let ?s0 = "race_start n" and ?n = "rounds n"
  have n: "?n < 2 ^ 30" "int ?n = max 0 (sint n)" using assms by (simp_all add: rounds_def nat_less_iff)
  have total: "sint (of_nat (2 * ?n) :: 32 word) = 2 * max 0 (sint n)" "sint (of_nat ?n :: 32 word) = max 0 (sint n)"
    using sint_small [of "2 * ?n"] sint_small [of ?n] n by (simp_all del: of_nat_mult)
  obtain i r where 1: "race_reach ?s0 (?s0\<lparr>shared_x := of_nat ?n,
     thr := (thr ?s0)(True := \<lparr>pc = Returned, iter = i, reg = r\<rparr>)\<rparr>)" (is "race_reach _ ?s1")
    using race_solo [of ?s0 True ?n] by (auto simp: race_start_def)
  obtain i' r' where 2: "race_reach ?s1 (?s1\<lparr>shared_x := of_nat ?n + of_nat ?n,
     thr := (thr ?s1)(False := \<lparr>pc = Returned, iter = i', reg = r'\<rparr>)\<rparr>)" (is "race_reach _ ?s2")
    using race_solo [of ?s1 False ?n] by (auto simp: race_start_def)
  have "shared_x ?s2 = of_nat (2 * ?n)" by (simp only: mult_2 of_nat_add) simp
  then have fst: "race_reach ?s0 ?s2" "race_done ?s2" "sint (shared_x ?s2) = 2 * max 0 (sint n)"
    using race_trans [OF 2 1] total(1) by (simp_all only:) (simp add: race_done_def)
  show ?thesis
  proof (cases ?n)
    case 0
    then have "max 0 (sint n) = 0" using n(2) by simp
    then show ?thesis using fst by (intro exI [of _ ?s2]) simp
  next
    case (Suc m)
    then have pos: "sint (0 :: 32 word) < sint n" using n(2) by (simp add: max_def split: if_splits)
    let ?f = "inc_shared_counter_step False"
    let ?a = "?f (?f ?s0)"
    have a: "?a = ?s0\<lparr>thr := (thr ?s0)(False := \<lparr>pc = Store_x, iter = 0, reg = 0\<rparr>)\<rparr>"
      using pos by (simp add: race_start_def inc_shared_counter_step_def Let_def)
    have ra: "race_reach ?s0 ?a" by (intro race_step race_refl)
    obtain j q where 3: "race_reach ?a (?a\<lparr>shared_x := of_nat ?n,
       thr := (thr ?a)(True := \<lparr>pc = Returned, iter = j, reg = q\<rparr>)\<rparr>)" (is "race_reach _ ?b")
      using race_solo [of ?a True ?n] unfolding a by (auto simp: race_start_def)
    let ?c = "?f ?b"
    have c: "pc (thr ?c False) = Loop_test" "iter (thr ?c False) = 1" "shared_x ?c = 1"
      "loop_count ?c = n" "pc (thr ?c True) = Returned"
      unfolding a by (simp_all add: race_start_def inc_shared_counter_step_def Let_def)
    have rc: "race_reach ?b ?c" by (intro race_step race_refl)
    obtain j' q' where 4: "race_reach ?c (?c\<lparr>shared_x := shared_x ?c + of_nat m,
       thr := (thr ?c)(False := \<lparr>pc = Returned, iter = j', reg = q'\<rparr>)\<rparr>)"
       (is "race_reach _ ?d")
      using race_solo [of ?c False m] c Suc by auto
    have "race_reach ?s0 ?d" by (rule race_trans [OF 4 race_trans [OF rc race_trans [OF 3 ra]]])
    moreover have "shared_x ?d = of_nat ?n" using c(3) by (simp add: Suc)
    then have "race_done ?d" "sint (shared_x ?d) = max 0 (sint n)" using c(5) total(2) by (simp_all add: race_done_def)
    ultimately show ?thesis using fst by blast
  qed
qed

text \<open>With three rounds each, \<open>x\<close> can end as 6 or as 3.\<close>

theorem race_outcomes_witness:
  "\<exists>s s'. race_reach (race_start 3) s \<and> race_done s \<and> sint (shared_x s) = 6
     \<and> race_reach (race_start 3) s' \<and> race_done s' \<and> sint (shared_x s') = 3"
  using race_outcomes [of 3] by simp

end
