(* ===== verification/Vm_Address.thy ===== *)
theory Vm_Address
  imports Prelude
begin

text \<open>
  Virtual addresses of the memory manager (\<open>Level -3/my_vm.c\<close>, \<open>my_vm.h\<close>): the split of a
  32-bit address into directory index, table index and offset that \<open>calculate_entries_bits\<close>
  computes, the extraction of a field, the composition of an address from two indices, and
  the step to the next page.  The lemmas relate all of them to the page number
  \<open>page_no va = va div 65536\<close> and show that composing and extracting are inverse.
\<close>

subsection \<open>The macros of the header and the widths the code derives\<close>

definition PGSIZE :: nat where "PGSIZE = 65536"
definition MEMSIZE :: nat where "MEMSIZE = 1024 * 1024 * 1024"
definition TLB_ENTRIES :: nat where "TLB_ENTRIES = 512"
definition BITS :: int where "BITS = 32"
definition LEVELS :: int where "LEVELS = 2"

text \<open>\<open>sizeof(pte_t)\<close> and \<open>sizeof(pde_t)\<close>: an \<open>unsigned long\<close> of the 32-bit build.\<close>
definition sizeof_pte :: nat where "sizeof_pte = 4"

record geometry =
  page_dir_bits :: int
  page_table_bits :: int
  offset_bits :: int
  page_dir_entries :: int
  page_table_entries :: int

definition no_geometry :: geometry where
  "no_geometry = \<lparr>page_dir_bits = 0, page_table_bits = 0, offset_bits = 0,
     page_dir_entries = 0, page_table_entries = 0\<rparr>"

text \<open>\<open>(int) log2(n)\<close>, truncated.\<close>

fun ilog2 :: "nat \<Rightarrow> int" where
  "ilog2 n = (if n < 2 then 0 else 1 + ilog2 (n div 2))"

declare ilog2.simps [simp del]

definition calculate_entries_bits :: geometry where
  "calculate_entries_bits =
     (let ob = ilog2 PGSIZE;
          pte = int (PGSIZE div sizeof_pte);
          pde = int (PGSIZE div sizeof_pte);
          remaining_bits = BITS - ob;
          ptb = ilog2 (nat pte);
          (ptb, pte, remaining_bits) =
            (if ptb > remaining_bits
             then let bits_per_level = (BITS - ob) sdiv LEVELS
                  in (bits_per_level,
                      if pte > 2 ^ nat bits_per_level then 2 ^ nat bits_per_level else pte,
                      remaining_bits - bits_per_level)
             else (ptb, pte, remaining_bits - ptb));
          pde = (if pde > 2 ^ nat remaining_bits then 2 ^ nat remaining_bits else pde)
      in \<lparr>page_dir_bits = remaining_bits, page_table_bits = ptb, offset_bits = ob,
          page_dir_entries = pde, page_table_entries = pte\<rparr>)"

text \<open>The values for the 64 KB pages of \<open>my_vm.h\<close>.\<close>

definition geo :: geometry where
  "geo = \<lparr>page_dir_bits = 2, page_table_bits = 14, offset_bits = 16,
     page_dir_entries = 4, page_table_entries = 16384\<rparr>"

lemma calculate_entries_bits_geo: "calculate_entries_bits = geo"
  by (simp add: calculate_entries_bits_def geo_def PGSIZE_def sizeof_pte_def BITS_def ilog2.simps)

subsection \<open>Fields of an address\<close>

text \<open>
  \<open>(1 << bits_len) - 1\<close> and the right shift are 32-bit operations.  \<open>get_next_page\<close> calls
  this with a width of 32 and a start of 21, where both shift counts leave the range C
  defines; the i386 instructions then use the counts 0 and 12, and the mask is 0.
\<close>

definition extract_bits :: "32 word \<Rightarrow> int \<Rightarrow> int \<Rightarrow> 32 word" where
  "extract_bits num start bits_len =
     (let mask = shl32 1 bits_len - 1;
          num = shr32 num (32 - bits_len - start + 1)
      in num AND mask)"

primrec shift_right_loop :: "nat \<Rightarrow> addr \<Rightarrow> addr" where
  "shift_right_loop 0 virt_addr = virt_addr"
| "shift_right_loop (Suc n) virt_addr = shift_right_loop n (drop_bit 1 virt_addr)"

primrec index_bits_loop :: "nat \<Rightarrow> 32 word \<Rightarrow> addr \<Rightarrow> addr" where
  "index_bits_loop 0 index virt_addr = virt_addr"
| "index_bits_loop (Suc n) index virt_addr =
     (let extr_bit = index AND 1;
          index = signed_drop_bit 1 index;
          extr_bit = push_bit 31 extr_bit
      in index_bits_loop n index (drop_bit 1 virt_addr OR extr_bit))"

definition form_virtual_address :: "geometry \<Rightarrow> 32 word \<Rightarrow> 32 word \<Rightarrow> addr" where
  "form_virtual_address g page_dir_index page_table_index =
     (let virt_addr = shift_right_loop (nat (offset_bits g)) 4294967295;
          virt_addr = index_bits_loop (nat (page_table_bits g)) page_table_index virt_addr
      in index_bits_loop (nat (page_dir_bits g)) page_dir_index virt_addr)"

definition get_next_page :: "geometry \<Rightarrow> addr \<Rightarrow> addr" where
  "get_next_page g va =
     (let page_dir_index = extract_bits va 1 (page_dir_bits g);
          page_table_index = extract_bits va (page_dir_bits g + 1) (page_table_bits g);
          offset = extract_bits va 21 32
      in if page_table_index = of_int (page_table_entries g - 1)
         then if page_dir_index = of_int (page_dir_entries g - 1) then 0
              else form_virtual_address g (page_dir_index + 1) 0
         else va + (of_nat PGSIZE - offset))"

subsection \<open>Page numbers\<close>

definition page_no :: "addr \<Rightarrow> nat" where
  "page_no va = unat va div 65536"

definition page_va :: "nat \<Rightarrow> addr" where
  "page_va p = of_nat (p * 65536)"

definition page_off :: "addr \<Rightarrow> nat" where
  "page_off va = unat va mod 65536"

abbreviation dir_index :: "addr \<Rightarrow> 32 word" where
  "dir_index va \<equiv> extract_bits va 1 (page_dir_bits geo)"

abbreviation table_index :: "addr \<Rightarrow> 32 word" where
  "table_index va \<equiv> extract_bits va (page_dir_bits geo + 1) (page_table_bits geo)"

lemma page_no_lt: "page_no va < 65536"
  using unsigned_less [of va, where 'a = nat] by (simp add: page_no_def less_mult_imp_div_less)

lemma page_off_lt: "page_off va < 65536"
  by (simp add: page_off_def)

lemma unat_page_split: "unat va = page_no va * 65536 + page_off va"
  by (simp add: page_no_def page_off_def)

lemma unat_page_va: "p < 65536 \<Longrightarrow> unat (page_va p) = p * 65536"
  by (simp only: page_va_def unat_of_nat) simp

lemma page_no_va [simp]: "p < 65536 \<Longrightarrow> page_no (page_va p) = p"
  by (simp add: page_no_def unat_page_va)

lemma page_off_va [simp]: "p < 65536 \<Longrightarrow> page_off (page_va p) = 0"
  by (simp add: page_off_def unat_page_va)

lemma va_split: "va = page_va (page_no va) + of_nat (page_off va)"
  by (metis of_nat_add page_va_def unat_page_split word_of_nat_unat)

lemma unat_and_mask14: "unat ((x::32 word) AND 16383) = unat x mod 16384"
proof -
  have "x AND 16383 = take_bit 14 x" by (simp add: take_bit_eq_mask mask_eq_exp_minus_1)
  then show ?thesis by (simp only: unat_take) simp
qed

lemma unat_dir_index: "unat (dir_index va) = page_no va div 16384"
proof -
  have "drop_bit 30 va AND 3 = drop_bit 30 va"
  proof -
    have "drop_bit 30 va AND 3 = take_bit 2 (drop_bit 30 va)"
      by (simp add: take_bit_eq_mask mask_eq_exp_minus_1)
    also have "\<dots> = drop_bit 30 va"
      by (rule bit_word_eqI) (auto simp: bit_simps dest: bit_imp_le_length)
    finally show ?thesis .
  qed
  then have "dir_index va = drop_bit 30 va"
    by (simp add: extract_bits_def geo_def shl32_def shr32_def)
  then show ?thesis by (simp add: unat_drop page_no_def flip: div_mult2_eq)
qed

lemma unat_table_index: "unat (table_index va) = page_no va mod 16384"
proof -
  have "table_index va = drop_bit 16 va AND 16383"
    by (simp add: extract_bits_def geo_def shl32_def shr32_def)
  then show ?thesis by (simp only: unat_and_mask14 unat_drop page_no_def) simp
qed

lemma unat_offset_field: "unat (extract_bits va 17 16) = page_off va"
proof -
  have "extract_bits va 17 16 = take_bit 16 va"
    by (simp add: extract_bits_def shl32_def shr32_def take_bit_eq_mask mask_eq_exp_minus_1)
  then show ?thesis by (simp only: unat_take page_off_def) simp
qed

subsection \<open>Composing an address\<close>

lemma bit_shift_in:
  "bit (drop_bit 1 va OR push_bit 31 ((index::32 word) AND 1)) m =
     (if m < 31 then bit va (m + 1) else m = 31 \<and> bit index 0)"
proof (cases "m < 31")
  case True
  then show ?thesis by (auto simp: bit_simps)
next
  case False
  then show ?thesis by (cases "m = 31") (auto simp: bit_simps dest: bit_imp_le_length)
qed

lemma bit_index_bits_loop:
  "n \<le> 31 \<Longrightarrow> k < 32 \<Longrightarrow>
   bit (index_bits_loop n index va) k = (if k + n < 32 then bit va (k + n) else bit index (k + n - 32))"
proof (induction n arbitrary: index va)
  case 0
  then show ?case by simp
next
  case (Suc n)
  let ?index = "signed_drop_bit 1 index"
  have index: "bit ?index j \<longleftrightarrow> bit index (j + 1)" if "j < 31" for j
    using that by (auto simp: bit_simps)
  have "bit (index_bits_loop (Suc n) index va) k =
    (if k + n < 32 then bit (drop_bit 1 va OR push_bit 31 (index AND 1)) (k + n)
     else bit ?index (k + n - 32))"
    using Suc by (simp only: index_bits_loop.simps Let_def)
  also have "\<dots> = (if k + Suc n < 32 then bit va (k + Suc n) else bit index (k + Suc n - 32))"
  proof (cases "32 \<le> k + n")
    case True
    then have "k + n - 32 + 1 = k + Suc n - 32" by simp
    then show ?thesis using True Suc.prems index [of "k + n - 32"] by simp
  next
    case False
    then show ?thesis using Suc.prems by (simp only: bit_shift_in) auto
  qed
  finally show ?case .
qed

lemma shift_right_loop_eq: "shift_right_loop n va = drop_bit n va"
  by (induction n arbitrary: va) (simp_all add: drop_bit_Suc flip: drop_bit_drop_bit)

lemma form_virtual_address_bits:
  assumes "t < (2::32 word) ^ 14"
  shows "form_virtual_address geo d t = push_bit 30 d OR push_bit 16 t"
proof (rule bit_word_eqI)
  fix k
  assume k: "k < LENGTH(32)"
  have t: "bit t j \<Longrightarrow> j < 14" for j
    using assms bit_take_bit_iff [of 14 t j]
    by (metis less_mask_eq take_bit_eq_mask mask_eq_exp_minus_1)
  have ones: "shift_right_loop 16 (4294967295 :: addr) = 65535"
    by (simp add: shift_right_loop_eq)
  have no: "\<not> bit (65535 :: addr) j" if "16 \<le> j" for j
  proof -
    have "(65535 :: addr) = mask 16" by (simp add: mask_eq_exp_minus_1)
    with that show ?thesis by (simp only: bit_mask_iff) simp
  qed
  show "bit (form_virtual_address geo d t) k = bit (push_bit 30 d OR push_bit 16 t) k"
    using k t [of "k - 16"] no [of "16 + k"]
    by (auto simp: form_virtual_address_def Let_def geo_def bit_index_bits_loop ones bit_simps
        add.assoc)
qed

lemma form_virtual_address_geo:
  assumes "d < 4" and "t < 16384"
  shows "form_virtual_address geo (of_nat d) (of_nat t) = page_va (d * 16384 + t)"
proof -
  have t: "(of_nat t :: 32 word) < 2 ^ 14"
    using assms(2) by (simp add: word_less_nat_alt unat_of_nat)
  have "push_bit 30 (of_nat d) OR push_bit 16 (of_nat t) = (push_bit 30 (of_nat d) + push_bit 16 (of_nat t) :: 32 word)"
  proof (rule disjunctive_add [symmetric])
    fix n
    have "bit (of_nat t :: 32 word) j \<Longrightarrow> j < 14" for j
      using t by (metis bit_take_bit_iff less_mask_eq take_bit_eq_mask mask_eq_exp_minus_1)
    then show "\<not> bit (push_bit 30 (of_nat d) :: 32 word) n \<or> \<not> bit (push_bit 16 (of_nat t) :: 32 word) n"
      by (fastforce simp: bit_simps)
  qed
  also have "\<dots> = page_va (d * 16384 + t)"
    by (simp add: page_va_def push_bit_eq_mult algebra_simps)
  finally show ?thesis using form_virtual_address_bits [OF t] by simp
qed

lemma form_virtual_address_indices:
  "form_virtual_address geo (dir_index va) (table_index va) = page_va (page_no va)"
proof -
  have "page_no va div 16384 < 4" using page_no_lt [of va] by simp
  moreover have "page_no va mod 16384 < 16384" by simp
  ultimately have "form_virtual_address geo (of_nat (page_no va div 16384)) (of_nat (page_no va mod 16384))
      = page_va (page_no va div 16384 * 16384 + page_no va mod 16384)"
    by (rule form_virtual_address_geo)
  moreover have "dir_index va = of_nat (page_no va div 16384)"
    by (metis unat_dir_index word_of_nat_unat)
  moreover have "table_index va = of_nat (page_no va mod 16384)"
    by (metis unat_table_index word_of_nat_unat)
  ultimately show ?thesis by simp
qed

subsection \<open>The next page\<close>

lemma page_va_wrap: "page_va 65536 = 0"
  by (simp only: page_va_def word_unat_eq_iff unat_of_nat) simp

lemma get_next_page_geo:
  "get_next_page geo va =
     (if page_no va mod 16384 = 16383
      then if page_no va = 65535 then 0 else page_va (page_no va + 1)
      else va + 65536)"
proof -
  let ?d = "page_no va div 16384" and ?t = "page_no va mod 16384"
  have d4: "?d < 4" using page_no_lt [of va] by simp
  have last_t: "table_index va = of_int (page_table_entries geo - 1) \<longleftrightarrow> ?t = 16383"
    by (simp add: geo_def [of ] word_unat_eq_iff unat_table_index [unfolded geo_def, simplified])
  have last_d: "dir_index va = of_int (page_dir_entries geo - 1) \<longleftrightarrow> ?d = 3"
    by (simp add: geo_def word_unat_eq_iff unat_dir_index [unfolded geo_def, simplified])
  have off: "extract_bits va 21 32 = 0" by (simp add: extract_bits_def shl32_def)
  have d: "dir_index va + 1 = of_nat (?d + 1)"
    by (metis of_nat_1 of_nat_add unat_dir_index word_of_nat_unat)
  have next_table: "form_virtual_address geo (dir_index va + 1) 0 = page_va (page_no va + 1)"
    if "?t = 16383" "?d \<noteq> 3"
  proof -
    have "?d + 1 < 4" using d4 that by simp
    have "form_virtual_address geo (dir_index va + 1) 0 = form_virtual_address geo (of_nat (?d + 1)) (of_nat 0)"
      by (simp only: d) simp
    also have "\<dots> = page_va ((?d + 1) * 16384 + 0)"
      using \<open>?d + 1 < 4\<close> by (rule form_virtual_address_geo) simp
    also have "(?d + 1) * 16384 + 0 = page_no va + 1"
      using that(1) div_mult_mod_eq [of "page_no va" 16384] by simp
    finally show ?thesis .
  qed
  have p3: "?t = 16383 \<Longrightarrow> ?d = 3 \<longleftrightarrow> page_no va = 65535"
    using d4 div_mult_mod_eq [of "page_no va" 16384] by auto
  show ?thesis
    unfolding get_next_page_def Let_def off last_t last_d
    using next_table p3 by (auto simp: PGSIZE_def)
qed

lemma get_next_page_va: "p < 65536 \<Longrightarrow> get_next_page geo (page_va p) = page_va (p + 1)"
  using page_va_wrap by (auto simp: get_next_page_geo) (simp_all add: page_va_def algebra_simps)

lemma page_no_next: "page_no (get_next_page geo va) = (page_no va + 1) mod 65536"
proof (cases "page_no va mod 16384 = 16383")
  case True
  then show ?thesis using page_no_lt [of va] page_no_va [of "page_no va + 1"]
    by (auto simp: get_next_page_geo page_no_def [of 0])
next
  case False
  then have p: "page_no va \<noteq> 65535" by auto
  have "unat (va + 65536) = unat va + 65536"
    using p page_no_lt [of va] unat_page_split [of va] page_off_lt [of va]
    by (simp add: unat_word_ariths)
  with False p page_no_lt [of va] show ?thesis by (simp add: get_next_page_geo page_no_def)
qed

end
