(* ===== verification/Vm_Bitmap.thy ===== *)
theory Vm_Bitmap
  imports Vm_Address Bit_Shifting
begin

text \<open>
  The frame and page bitmaps of \<open>Level -3/my_vm.c\<close>: setting, reading and clearing a bit, the
  search for free physical frames (\<open>find_free_physical_page\<close>) and for a run of free virtual
  pages (\<open>get_next_avail\<close>).  The searches are nested byte and bit loops; the lemmas give them
  their meaning as a filter over the frame numbers and as the first sufficiently long run.
\<close>

subsection \<open>Setting, reading and clearing a bit\<close>

definition set_bit_at_index :: "byte list \<Rightarrow> int \<Rightarrow> byte list result" where
  "set_bit_at_index bitmap index =
     (let byte_pos = index sdiv 8; bit_pos = index smod 8
      in if 0 \<le> byte_pos \<and> byte_pos < int (length bitmap) \<and> 0 \<le> bit_pos
         then Inr (bitmap[nat byte_pos := bitmap ! nat byte_pos OR ucast (shr32 128 bit_pos)])
         else Inl OutOfBounds)"

definition get_bit_at_index :: "byte list \<Rightarrow> int \<Rightarrow> int result" where
  "get_bit_at_index bitmap index =
     (let byte_pos = index sdiv 8; bit_pos = index smod 8
      in if 0 \<le> byte_pos \<and> byte_pos < int (length bitmap) \<and> 0 \<le> bit_pos
         then Inr (uint (signed_drop_bit (nat (8 - bit_pos - 1)) (bitmap ! nat byte_pos) AND 1))
         else Inl OutOfBounds)"

text \<open>The mask (\<open>bits\<close>) is built from the loop counter and \<open>index\<close>, not from the position in the byte.\<close>

function unset_mask_loop :: "int \<Rightarrow> int \<Rightarrow> 32 word \<Rightarrow> 32 word" where
  "unset_mask_loop index i bits =
     (if i < 8
      then if i = index then unset_mask_loop index (i + 1) (push_bit 1 bits OR 0)
           else unset_mask_loop index (i + 1) (push_bit 1 bits OR 1)
      else bits)"
  by pat_completeness auto
termination by (relation "measure (\<lambda>(index, i, bits). nat (8 - i))") auto

declare unset_mask_loop.simps [simp del]

definition unset_bit_at_index :: "byte list \<Rightarrow> int \<Rightarrow> byte list result" where
  "unset_bit_at_index bitmap index =
     (let byte_pos = index sdiv 8;
          bits = unset_mask_loop index 0 0
      in if 0 \<le> byte_pos \<and> byte_pos < int (length bitmap)
         then Inr (bitmap[nat byte_pos := bitmap ! nat byte_pos AND ucast bits])
         else Inl OutOfBounds)"

lemma vm_bit_ops: "set_bit_at_index = set_bit_at_index_l1" "get_bit_at_index = get_bit_at_index_l1"
  by (simp_all add: fun_eq_iff set_bit_at_index_def set_bit_at_index_l1_def
      get_bit_at_index_def get_bit_at_index_l1_def)

lemma set_bit_in [simp]: "i < 8 * length b \<Longrightarrow> set_bit_at_index b (int i) = Inr (bm_set b i)"
  by (simp add: vm_bit_ops set_bit_at_index_l1_in)

interpretation vmb: bit_array "\<lambda>b. 8 * length b" get_bit_at_index set_bit_at_index
  unfolding vm_bit_ops by (rule l1.bit_array_axioms)

lemma unset_mask_loop_byte:
  "ucast (unset_mask_loop (int i) 0 0) = (if i < 8 then NOT (drop_bit i 128) else (255::byte))"
proof (cases "i < 8")
  case True
  then have "i \<in> {0, 1, 2, 3, 4, 5, 6, 7}" by auto
  then show ?thesis by (auto simp: unset_mask_loop.simps)
next
  case False
  then have "unset_mask_loop (int i) 0 0 = 255"
    by (simp add: unset_mask_loop.simps)
  with False show ?thesis by simp
qed

lemma unset_bit_in:
  assumes "i < 8 * length b"
  shows "\<exists>b'. unset_bit_at_index b (int i) = Inr b' \<and> length b' = length b
    \<and> (\<forall>j. bm_get b' j \<longleftrightarrow> bm_get b j \<and> \<not> (i < 8 \<and> j = i))"
proof -
  have len: "i div 8 < length b" using assms by (simp add: less_mult_imp_div_less mult.commute)
  let ?m = "if i < 8 then NOT (drop_bit i 128) else (255::byte)"
  let ?b = "b[i div 8 := b ! (i div 8) AND ?m]"
  have eq: "unset_bit_at_index b (int i) = Inr ?b"
    using len by (simp only: unset_bit_at_index_def Let_def int_div8 unset_mask_loop_byte) simp
  have m8: "(255::byte) = mask 8" by (simp add: mask_eq_exp_minus_1)
  have full: "x AND (255::byte) = x" for x
    unfolding m8 by (rule bit_word_eqI) (simp add: bit_and_iff bit_mask_iff)
  have "bm_get ?b j \<longleftrightarrow> bm_get b j \<and> \<not> (i < 8 \<and> j = i)" for j
  proof (cases "i < 8 \<and> j div 8 = i div 8")
    case True
    then have "i div 8 = 0" "j < 8" by auto
    then have k: "i mod 8 = i" "j mod 8 = j" using True by auto
    have "bit (drop_bit i (128::byte)) (7 - j) \<longleftrightarrow> i = j"
      using bit_shr128 [of i "7 - j"] True \<open>j < 8\<close> by auto
    then show ?thesis using True len \<open>i div 8 = 0\<close> \<open>j < 8\<close> k
      by (auto simp: bm_get_def bit_and_iff bit_not_iff)
  next
    case False
    then show ?thesis using full by (cases "i < 8") (auto simp: bm_get_def nth_list_update)
  qed
  then show ?thesis using eq by auto
qed

subsection \<open>Free physical frames\<close>

definition bit_of_char :: "byte \<Rightarrow> nat \<Rightarrow> int" where
  "bit_of_char num j = uint (signed_drop_bit (8 - j - 1) num AND 1)"

lemma bit_of_char_get: "j < 8 \<Longrightarrow> bit_of_char (b ! i) j = of_bool (bm_get b (8 * i + j))"
  by (simp add: bit_of_char_def bm_get_def signed_drop_bit_bit)

text \<open>
  The array \<open>page_pointers\<close> has room for \<open>num_pages\<close> entries; writing past it, which the
  code does when it is asked for no page at all, is out of bounds.
\<close>

function find_free_loop :: "addr \<Rightarrow> byte list \<Rightarrow> int \<Rightarrow> nat \<Rightarrow> nat \<Rightarrow> addr list \<Rightarrow> addr list option result" where
  "find_free_loop memory_start phy_bitmap num_pages i j page_pointers =
     (if i < MEMSIZE div (8 * PGSIZE)
      then if j < 8
        then if bit_of_char (phy_bitmap ! i) j = 0
          then if int (length page_pointers) < num_pages
            then let page_pointers = page_pointers @ [memory_start + of_nat ((8 * i + j) * PGSIZE)]
              in if int (length page_pointers) = num_pages then Inr (Some page_pointers)
                 else find_free_loop memory_start phy_bitmap num_pages i (Suc j) page_pointers
            else Inl OutOfBounds
          else find_free_loop memory_start phy_bitmap num_pages i (Suc j) page_pointers
        else find_free_loop memory_start phy_bitmap num_pages (Suc i) 0 page_pointers
      else Inr None)"
  by pat_completeness auto
termination
  by (relation "measures [\<lambda>(m, b, n, i, j, ps). MEMSIZE div (8 * PGSIZE) - i,
        \<lambda>(m, b, n, i, j, ps). 8 - j]") auto

declare find_free_loop.simps [simp del]

definition find_free_physical_page :: "addr \<Rightarrow> byte list \<Rightarrow> int \<Rightarrow> addr list option result" where
  "find_free_physical_page memory_start phy_bitmap num_pages =
     find_free_loop memory_start phy_bitmap num_pages 0 0 []"

definition num_frames :: nat where "num_frames = 16384"

definition frame_addr :: "addr \<Rightarrow> nat \<Rightarrow> addr" where
  "frame_addr memory_start f = memory_start + of_nat (f * 65536)"

definition free_frames :: "byte list \<Rightarrow> nat list" where
  "free_frames bm = filter (\<lambda>f. \<not> bm_get bm f) [0..<num_frames]"

lemma no_chars_phy: "MEMSIZE div (8 * PGSIZE) = 2048"
  by (simp add: MEMSIZE_def PGSIZE_def)

lemma find_free_loop_spec:
  assumes "j \<le> 8" and "i < 2048 \<or> i = 2048 \<and> j = 0" and "int (length ps) < n"
  shows "find_free_loop ms bm n i j ps =
    (let fs = filter (\<lambda>f. \<not> bm_get bm f) [8 * i + j..<num_frames]; need = nat n - length ps
     in Inr (if need \<le> length fs then Some (ps @ map (frame_addr ms) (take need fs)) else None))"
  using assms
proof (induction ms bm n i j ps rule: find_free_loop.induct)
  case (1 ms bm n i j ps)
  note step = find_free_loop.simps [of ms bm n i j ps, unfolded no_chars_phy]
  note IH = "1.IH" [unfolded no_chars_phy]
  consider "i = 2048" | "i < 2048" "j = 8" | "i < 2048" "j < 8" using "1.prems" by linarith
  then show ?case
  proof cases
    case 1
    then show ?thesis using "1.prems" step by (simp add: num_frames_def Let_def)
  next
    case 2
    then have "find_free_loop ms bm n i j ps = find_free_loop ms bm n (Suc i) 0 ps"
      using step by simp
    moreover have "Suc i < 2048 \<or> Suc i = 2048 \<and> (0::nat) = 0" and "8 * i + j = 8 * Suc i + 0"
      using 2 by auto
    ultimately show ?thesis using IH(3) 2 "1.prems" by (simp del: mult_Suc_right)
  next
    case 3
    let ?p = "8 * i + j"
    have cons: "[?p..<num_frames] = ?p # [?p + 1..<num_frames]"
      using 3 by (simp add: upt_conv_Cons num_frames_def)
    have b: "bit_of_char (bm ! i) j = of_bool (bm_get bm ?p)" using 3 by (simp add: bit_of_char_get)
    show ?thesis
    proof (cases "bm_get bm ?p")
      case True
      then have "find_free_loop ms bm n i j ps = find_free_loop ms bm n i (Suc j) ps"
        using step 3 b by simp
      with IH(2) 3 "1.prems" True b show ?thesis by (simp add: cons)
    next
      case False
      let ?ps = "ps @ [ms + of_nat (?p * PGSIZE)]"
      have fa: "ms + of_nat (?p * PGSIZE) = frame_addr ms ?p" by (simp only: frame_addr_def PGSIZE_def)
      show ?thesis
      proof (cases "int (length ?ps) = n")
        case True
        then have "nat n = Suc (length ps)" by auto
        moreover have "find_free_loop ms bm n i j ps = Inr (Some ?ps)"
          using step 3 b False "1.prems" True by simp
        ultimately show ?thesis using False fa by (simp add: cons Let_def)
      next
        case more: False
        then have lt: "int (length ?ps) < n" using "1.prems" by simp
        have "find_free_loop ms bm n i j ps = find_free_loop ms bm n i (Suc j) ?ps"
          using step 3 b False "1.prems" more by simp
        also have "\<dots> = (let fs = filter (\<lambda>f. \<not> bm_get bm f) [8 * i + Suc j..<num_frames];
              need = nat n - length ?ps
            in Inr (if need \<le> length fs then Some (?ps @ map (frame_addr ms) (take need fs)) else None))"
          using IH(1) [OF _ _ _ _ refl] 3 b False "1.prems" more lt by (simp add: PGSIZE_def)
        also have "nat n - length ps = Suc (nat n - length ?ps)" using lt by auto
        ultimately show ?thesis
          using False fa \<open>nat n - length ps = Suc (nat n - length ?ps)\<close> by (simp add: cons Let_def)
      qed
    qed
  qed
qed

lemma find_free_physical_page_spec:
  assumes "0 < n"
  shows "find_free_physical_page ms bm n =
    Inr (if nat n \<le> length (free_frames bm)
         then Some (map (frame_addr ms) (take (nat n) (free_frames bm))) else None)"
  using assms find_free_loop_spec [of 0 0 "[]" n ms bm]
  by (simp add: find_free_physical_page_def free_frames_def Let_def)

text \<open>Asked for no page, the search writes past its array as soon as a frame is free.\<close>

lemma find_free_zero_overrun:
  "\<not> bm_get bm 0 \<Longrightarrow> find_free_physical_page ms bm 0 = Inl OutOfBounds"
  using bit_of_char_get [of 0 bm 0]
  by (simp add: find_free_physical_page_def find_free_loop.simps no_chars_phy)

subsection \<open>Free virtual pages\<close>

function next_avail_loop :: "geometry \<Rightarrow> byte list \<Rightarrow> int \<Rightarrow> nat \<Rightarrow> nat \<Rightarrow> nat \<Rightarrow> int \<Rightarrow> nat \<Rightarrow> addr" where
  "next_avail_loop g virt_bitmap num_pages no_chars i j page_count start_page =
     (if i < no_chars
      then if j < 8
        then if bit_of_char (virt_bitmap ! i) j = 0
          then if page_count = 0
            then next_avail_loop g virt_bitmap num_pages no_chars i (Suc j) (page_count + 1) (8 * i + j)
            else if page_count = num_pages - 1 \<or> page_count = num_pages
            then form_virtual_address g (of_int (int start_page sdiv page_table_entries g))
                   (of_int (int start_page smod page_table_entries g))
            else next_avail_loop g virt_bitmap num_pages no_chars i (Suc j) (page_count + 1) start_page
          else next_avail_loop g virt_bitmap num_pages no_chars i (Suc j) 0 start_page
        else next_avail_loop g virt_bitmap num_pages no_chars (Suc i) 0 page_count start_page
      else 0)"
  by pat_completeness auto
termination
  by (relation "measures [\<lambda>(g, b, n, nc, i, j, c, s). nc - i, \<lambda>(g, b, n, nc, i, j, c, s). 8 - j]") auto

declare next_avail_loop.simps [simp del]

definition get_next_avail :: "geometry \<Rightarrow> byte list \<Rightarrow> int \<Rightarrow> addr" where
  "get_next_avail g virt_bitmap num_pages =
     next_avail_loop g virt_bitmap num_pages
       (nat ((page_dir_entries g * page_table_entries g) sdiv 8)) 0 0 0 0"

definition num_vpages :: nat where "num_vpages = 65536"

text \<open>The length of the run the search waits for: one page needs two free pages in a row.\<close>

definition run_length :: "int \<Rightarrow> nat" where
  "run_length n = nat (max 2 n)"

definition free_run :: "byte list \<Rightarrow> nat \<Rightarrow> nat \<Rightarrow> bool" where
  "free_run bm len p \<longleftrightarrow> (\<forall>k < len. \<not> bm_get bm (p + k))"

definition first_run :: "byte list \<Rightarrow> nat \<Rightarrow> nat \<Rightarrow> nat option" where
  "first_run bm len a = find (free_run bm len) [a..<num_vpages + 1 - len]"

lemma find_upt_skip:
  assumes "a \<le> b" and "\<And>p. a \<le> p \<Longrightarrow> p < b \<Longrightarrow> \<not> P p"
  shows "find P [a..<n] = find P [b..<n]"
  using assms
proof (induction "b - a" arbitrary: a)
  case 0
  then show ?case by simp
next
  case (Suc d)
  then have lt: "a < b" by simp
  have "find P [a..<n] = find P [Suc a..<n]"
    using Suc.prems(2) [of a] lt by (cases "a < n") (simp_all add: upt_conv_Cons)
  also have "\<dots> = find P [b..<n]" by (rule Suc.hyps(1)) (use Suc lt in auto)
  finally show ?case .
qed

lemma start_page_va:
  assumes "s < num_vpages"
  shows "form_virtual_address geo (of_int (int s sdiv page_table_entries geo))
     (of_int (int s smod page_table_entries geo)) = page_va s"
proof -
  have "int s sdiv 16384 = int (s div 16384)" "int s smod 16384 = int (s mod 16384)"
    by (simp_all add: c_arith zdiv_int zmod_int)
  moreover have "s div 16384 < 4" using assms by (simp add: num_vpages_def)
  then have "form_virtual_address geo (of_nat (s div 16384)) (of_nat (s mod 16384)) = page_va s"
    using form_virtual_address_geo [of "s div 16384" "s mod 16384"] by simp
  ultimately show ?thesis by (simp add: geo_def)
qed

lemma next_avail_loop_spec:
  assumes "j \<le> 8" and "i < 8192 \<or> i = 8192 \<and> j = 0" and "1 \<le> n" and "c \<le> int (run_length n) - 1"
    and "0 \<le> c" and "0 < c \<longrightarrow> int s + c = int (8 * i + j)" and "0 < c \<longrightarrow> free_run bm (nat c) s"
    and "g = geo" and "nc = 8192"
  shows "next_avail_loop g bm n nc i j c s =
    (case first_run bm (run_length n) (if c = 0 then 8 * i + j else s) of None \<Rightarrow> 0 | Some p \<Rightarrow> page_va p)"
  using assms
proof (induction g bm n nc i j c s rule: next_avail_loop.induct)
  case (1 g bm n nc i j c s)
  let ?N = "run_length n" and ?q = "8 * i + j"
  note step = next_avail_loop.simps [of g bm n nc i j c s]
  note IH = "1.IH"
  have N: "2 \<le> ?N" "int ?N = max 2 n" by (simp_all add: run_length_def)
  have hit: "c = n - 1 \<or> c = n \<longleftrightarrow> c = int ?N - 1" if "0 < c"
    using that N(2) "1.prems"(3,4) by auto
  consider "i = 8192" | "i < 8192" "j = 8" | "i < 8192" "j < 8" using "1.prems"(1,2) by linarith
  then show ?case
  proof cases
    case 1
    then have "num_vpages + 1 - ?N \<le> (if c = 0 then ?q else s)"
      using "1.prems" N by (auto simp: num_vpages_def)
    then show ?thesis using 1 "1.prems" step by (simp add: first_run_def)
  next
    case 2
    then have "i < 8191 \<or> i = 8191" and "8 * Suc i + 0 = 8 * i + 8" by auto
    with 2 show ?thesis using step IH(4) "1.prems" by (auto simp: add.commute)
  next
    case 3
    have q: "?q < num_vpages" using 3 by (simp add: num_vpages_def)
    have b: "bit_of_char (bm ! i) j = of_bool (bm_get bm ?q)" using 3 by (simp add: bit_of_char_get)
    show ?thesis
    proof (cases "bm_get bm ?q")
      case True
      have "first_run bm ?N (if c = 0 then ?q else s) = first_run bm ?N (?q + 1)"
        unfolding first_run_def
      proof (rule find_upt_skip)
        show "(if c = 0 then ?q else s) \<le> ?q + 1" using "1.prems" by auto
        fix p
        assume p: "(if c = 0 then ?q else s) \<le> p" "p < ?q + 1"
        then have "?q - p < ?N" using "1.prems" N by (auto split: if_splits)
        moreover have "p + (?q - p) = ?q" using p by simp
        ultimately show "\<not> free_run bm ?N p" using True by (metis free_run_def)
      qed
      then show ?thesis
        using step 3 b True IH(3) "1.prems" N by simp
    next
      case False
      consider "c = 0" | "0 < c" "c = int ?N - 1" | "0 < c" "c < int ?N - 1"
        using "1.prems" by linarith
      then show ?thesis
      proof cases
        case 1
        have "free_run bm 1 ?q" using False by (simp add: free_run_def)
        then show ?thesis using step 3 b False 1 IH(1) "1.prems" N by simp
      next
        case 2
        then have sN: "s + ?N = ?q + 1" using "1.prems" by auto
        have "free_run bm ?N s"
          unfolding free_run_def
        proof (intro allI impI)
          fix k assume "k < ?N"
          then have "k < nat c \<or> s + k = ?q" using 2 sN by auto
          then show "\<not> bm_get bm (s + k)"
            using False "1.prems"(7) 2(1) by (auto simp: free_run_def)
        qed
        then have "first_run bm ?N s = Some s"
          using sN q by (simp add: first_run_def upt_conv_Cons)
        moreover have "next_avail_loop g bm n nc i j c s = page_va s"
          using step 3 b False 2 "1.prems"(8,9) hit start_page_va [of s] sN q N by auto
        ultimately show ?thesis using 2 by simp
      next
        case c3: 3
        have "free_run bm (nat (c + 1)) s"
          unfolding free_run_def
        proof (intro allI impI)
          fix k assume "k < nat (c + 1)"
          then have "k < nat c \<or> s + k = ?q" using c3 "1.prems"(6) by auto
          then show "\<not> bm_get bm (s + k)"
            using False "1.prems"(7) c3(1) by (auto simp: free_run_def)
        qed
        then show ?thesis
          using step 3 b False c3 hit IH(2) "1.prems" by simp
      qed
    qed
  qed
qed

lemma get_next_avail_spec:
  assumes "1 \<le> n"
  shows "get_next_avail geo bm n =
    (case first_run bm (run_length n) 0 of None \<Rightarrow> 0 | Some p \<Rightarrow> page_va p)"
proof -
  have "nat ((page_dir_entries geo * page_table_entries geo) sdiv 8) = 8192"
    by (simp add: geo_def c_arith)
  moreover have "0 \<le> int (run_length n) - 1" by (simp add: run_length_def max_def)
  ultimately show ?thesis
    using next_avail_loop_spec [of 0 0 n 0 0 bm geo 8192] assms by (simp add: get_next_avail_def)
qed

lemma first_run_Some:
  assumes "first_run bm len 0 = Some p"
  shows "free_run bm len p \<and> p + len \<le> num_vpages \<and> (\<forall>q < p. \<not> free_run bm len q)"
proof -
  obtain k where k: "k < num_vpages + 1 - len" "p = k" "free_run bm len k"
    "\<forall>q < k. \<not> free_run bm len q"
    using assms by (auto simp: first_run_def find_Some_iff)
  then show ?thesis by auto
qed

end
