(* ===== verification/Vm_TLB.thy ===== *)
theory Vm_TLB
  imports Vm_Address
begin

text \<open>
  The translation lookaside buffer of \<open>Level -3/my_vm.c\<close>: a singly linked list of nodes with
  the most recently used one in front.  A node keeps its address, because the code compares
  node pointers (\<open>head == tail\<close>) and its \<open>tail\<close> pointer may be stale; \<open>chain\<close> is the list
  of nodes reached from \<open>head\<close>, and the head pointer is the address of its first node.
  The interface \<open>xlat_cache\<close> states what address translation relies on.
\<close>

subsection \<open>The interface of a translation cache\<close>

definition coherent :: "('v \<times> 'p) set \<Rightarrow> ('v \<Rightarrow> 'p option) \<Rightarrow> bool" where
  "coherent E w \<longleftrightarrow> (\<forall>(v, p) \<in> E. w v = Some p)"

locale xlat_cache =
  fixes ok :: "'c \<Rightarrow> bool"
    and entries :: "'c \<Rightarrow> ('v \<times> 'p) set"
    and look :: "'c \<Rightarrow> 'v \<Rightarrow> ('p option \<times> 'c) result"
    and ins :: "'c \<Rightarrow> 'v \<Rightarrow> 'p \<Rightarrow> 'c result"
    and del :: "'c \<Rightarrow> 'v \<Rightarrow> 'c result"
  assumes look_total: "ok c \<Longrightarrow> \<exists>r c'. look c v = Inr (r, c')"
    and look_hit: "ok c \<Longrightarrow> look c v = Inr (Some p, c') \<Longrightarrow> (v, p) \<in> entries c"
    and look_miss: "ok c \<Longrightarrow> look c v = Inr (None, c') \<Longrightarrow> (v, p) \<notin> entries c"
    and look_keeps: "ok c \<Longrightarrow> look c v = Inr (r, c') \<Longrightarrow> ok c' \<and> entries c' = entries c"
    and ins_ok: "ok c \<Longrightarrow> \<forall>q. (v, q) \<notin> entries c \<Longrightarrow>
      \<exists>c'. ins c v p = Inr c' \<and> ok c' \<and> entries c' \<subseteq> insert (v, p) (entries c)"
    and del_ok: "ok c \<Longrightarrow>
      \<exists>c'. del c v = Inr c' \<and> ok c' \<and> entries c' \<subseteq> {e \<in> entries c. fst e \<noteq> v}"
begin

lemma look_coherent:
  assumes "ok c" and "coherent (entries c) w"
  shows "\<exists>r c'. look c v = Inr (r, c') \<and> ok c' \<and> coherent (entries c') w
    \<and> (\<forall>p. r = Some p \<longrightarrow> w v = Some p) \<and> (r = None \<longrightarrow> (\<forall>q. (v, q) \<notin> entries c'))"
proof -
  obtain r c' where l: "look c v = Inr (r, c')" using look_total [OF assms(1)] by blast
  then have k: "ok c'" "entries c' = entries c" using look_keeps [OF assms(1)] by simp_all
  have "w v = Some p" if "r = Some p" for p
  proof -
    have "(v, p) \<in> entries c" using look_hit [OF assms(1)] l that by blast
    with assms(2) show ?thesis by (auto simp: coherent_def)
  qed
  moreover have "(v, q) \<notin> entries c'" if "r = None" for q
    using look_miss [OF assms(1)] l that k by simp
  ultimately show ?thesis using l k assms(2) by auto
qed

lemma ins_coherent:
  assumes "ok c" and "coherent (entries c) w" and "\<forall>q. (v, q) \<notin> entries c" and "w v = Some p"
  shows "\<exists>c'. ins c v p = Inr c' \<and> ok c' \<and> coherent (entries c') w"
  using ins_ok [OF assms(1,3), of p] assms(2,4) by (fastforce simp: coherent_def)

lemma del_coherent:
  assumes "ok c" and "coherent (entries c) w"
  shows "\<exists>c'. del c v = Inr c' \<and> ok c' \<and> coherent (entries c') (w(v := None))"
proof -
  obtain c' where c': "del c v = Inr c'" "ok c'" "entries c' \<subseteq> {e \<in> entries c. fst e \<noteq> v}"
    using del_ok [OF assms(1)] by blast
  then have "coherent (entries c') (w(v := None))"
    using assms(2) by (fastforce simp: coherent_def)
  with c' show ?thesis by blast
qed

end

subsection \<open>State\<close>

record tlb_node =
  nd_addr :: addr
  nd_va :: addr
  nd_pa :: addr

record tlb =
  chain :: "tlb_node list"
  tlb_tail :: addr
  tlb_length :: int

text \<open>
  \<open>tlb_store\<close> is None while the pointer is null.  \<open>node_allocs\<close> are the answers the allocator
  gives to the requests for a node, one after the other (0 and an exhausted list: no memory),
  so that every statement holds for every behaviour of the allocator, reuse of a freed
  address included.
\<close>

record tlb_state =
  tlb_store :: "tlb option"
  tlb_hit :: int
  tlb_miss :: int
  node_allocs :: "addr list"

definition head_ptr :: "tlb \<Rightarrow> addr" where
  "head_ptr t = (case chain t of [] \<Rightarrow> 0 | n # _ \<Rightarrow> nd_addr n)"

definition malloc_node :: "tlb_state \<Rightarrow> addr \<times> tlb_state" where
  "malloc_node c = (case node_allocs c of [] \<Rightarrow> (0, c) | a # as \<Rightarrow> (a, c\<lparr>node_allocs := as\<rparr>))"

subsection \<open>Operations\<close>

definition add_TLB :: "tlb_state \<Rightarrow> addr \<Rightarrow> addr \<Rightarrow> (int \<times> tlb_state) result" where
  "add_TLB c va pa =
     (let (a, c) = malloc_node c
      in if a = 0 then Inr (-1, c)
         else case tlb_store c of
           None \<Rightarrow> Inl NullDeref
         | Some t \<Rightarrow>
             let node = \<lparr>nd_addr = a, nd_va = va, nd_pa = pa\<rparr>;
                 t' = (if chain t = []
                       then t\<lparr>chain := [node], tlb_tail := a, tlb_length := tlb_length t + 1\<rparr>
                       else if tlb_length t < int TLB_ENTRIES
                       then t\<lparr>chain := node # chain t, tlb_length := tlb_length t + 1\<rparr>
                       else t\<lparr>chain := node # tl (chain t)\<rparr>)
             in Inr (0, c\<lparr>tlb_store := Some t'\<rparr>))"

text \<open>The loop of \<open>arrange\<close> walks from the head to the node; the node must be in the list.\<close>

definition arrange :: "tlb \<Rightarrow> addr \<Rightarrow> tlb result" where
  "arrange t node_to_arrange =
     (if head_ptr t = tlb_tail t then Inr t
      else case List.extract (\<lambda>n. nd_addr n = node_to_arrange) (chain t) of
        None \<Rightarrow> Inl NullDeref
      | Some (before, cur, after) \<Rightarrow>
          if before = [] then Inr t else Inr (t\<lparr>chain := cur # before @ after\<rparr>))"

definition check_TLB :: "tlb_state \<Rightarrow> addr \<Rightarrow> (addr option \<times> tlb_state) result" where
  "check_TLB c va =
     (case tlb_store c of
        None \<Rightarrow> Inr (None, c)
      | Some t \<Rightarrow>
          (case find (\<lambda>n. nd_va n = va) (chain t) of
             None \<Rightarrow> Inr (None, c\<lparr>tlb_miss := tlb_miss c + 1\<rparr>)
           | Some present \<Rightarrow>
               (case arrange t (nd_addr present) of
                  Inl f \<Rightarrow> Inl f
                | Inr t' \<Rightarrow> Inr (Some (nd_pa present),
                    c\<lparr>tlb_store := Some t', tlb_hit := tlb_hit c + 1\<rparr>))))"

definition delete_from_tlb :: "tlb_state \<Rightarrow> addr \<Rightarrow> tlb_state result" where
  "delete_from_tlb c va =
     (case tlb_store c of
        None \<Rightarrow> Inl NullDeref
      | Some t \<Rightarrow>
          (case chain t of
             [] \<Rightarrow> Inr c
           | n # _ \<Rightarrow>
               if head_ptr t = tlb_tail t \<and> nd_va n = va
               then Inr (c\<lparr>tlb_store := Some (t\<lparr>chain := [], tlb_tail := 0,
                      tlb_length := tlb_length t - 1\<rparr>)\<rparr>)
               else case List.extract (\<lambda>n. nd_va n = va) (chain t) of
                  None \<Rightarrow> Inr c
                | Some (before, present, after) \<Rightarrow>
                    let t' = (if before = [] then t\<lparr>chain := after\<rparr>
                              else if tlb_tail t = nd_addr present
                              then t\<lparr>chain := before, tlb_tail := nd_addr (last before)\<rparr>
                              else t\<lparr>chain := before @ after\<rparr>)
                    in Inr (c\<lparr>tlb_store := Some (t'\<lparr>tlb_length := tlb_length t - 1\<rparr>)\<rparr>)))"

text \<open>The fresh store that \<open>set_physical_mem\<close> allocates.\<close>

definition empty_tlb :: tlb where
  "empty_tlb = \<lparr>chain = [], tlb_tail = 0, tlb_length = 0\<rparr>"

subsection \<open>The operations keep the cache well formed\<close>

definition nd_pair :: "tlb_node \<Rightarrow> addr \<times> addr" where
  "nd_pair n = (nd_va n, nd_pa n)"

definition tlb_entries :: "tlb_state \<Rightarrow> (addr \<times> addr) set" where
  "tlb_entries c = (case tlb_store c of None \<Rightarrow> {} | Some t \<Rightarrow> nd_pair ` set (chain t))"

text \<open>
  No address is cached twice; the counter is never below the number of nodes (it can be
  above, since a stale tail makes a deletion drop more than one node), and it never exceeds
  the capacity.
\<close>

definition tlb_wf :: "tlb \<Rightarrow> bool" where
  "tlb_wf t \<longleftrightarrow> distinct (map nd_va (chain t)) \<and> int (length (chain t)) \<le> tlb_length t
     \<and> tlb_length t \<le> int TLB_ENTRIES \<and> (chain t = [] \<longrightarrow> tlb_length t < int TLB_ENTRIES)"

definition tlb_ok :: "tlb_state \<Rightarrow> bool" where
  "tlb_ok c \<longleftrightarrow> (\<exists>t. tlb_store c = Some t \<and> tlb_wf t)"

lemma tlb_wf_empty [simp]: "tlb_wf empty_tlb"
  by (simp add: tlb_wf_def empty_tlb_def TLB_ENTRIES_def)

lemma arrange_spec:
  assumes "present \<in> set (chain t)"
  shows "\<exists>t'. arrange t (nd_addr present) = Inr t' \<and> set (chain t') = set (chain t)
    \<and> (tlb_wf t \<longrightarrow> tlb_wf t')"
proof (cases "head_ptr t = tlb_tail t")
  case True
  then show ?thesis by (simp add: arrange_def)
next
  case False
  obtain ys y zs where e: "List.extract (\<lambda>n. nd_addr n = nd_addr present) (chain t) = Some (ys, y, zs)"
    using assms by (cases "List.extract (\<lambda>n. nd_addr n = nd_addr present) (chain t)")
      (auto simp: extract_None_iff)
  then have "chain t = ys @ y # zs" by (simp add: extract_Some_iff)
  then show ?thesis using False e by (auto simp: arrange_def tlb_wf_def)
qed

lemma check_TLB_spec:
  assumes "tlb_ok c"
  shows "\<exists>r c'. check_TLB c va = Inr (r, c') \<and> tlb_ok c' \<and> tlb_entries c' = tlb_entries c
    \<and> (\<forall>p. r = Some p \<longrightarrow> (va, p) \<in> tlb_entries c) \<and> (r = None \<longrightarrow> (\<forall>p. (va, p) \<notin> tlb_entries c))"
proof -
  obtain t where t: "tlb_store c = Some t" "tlb_wf t" using assms by (auto simp: tlb_ok_def)
  show ?thesis
  proof (cases "find (\<lambda>n. nd_va n = va) (chain t)")
    case None
    then have "\<forall>n \<in> set (chain t). nd_va n \<noteq> va" by (auto simp: find_None_iff)
    then show ?thesis
      using None t by (auto simp: check_TLB_def tlb_ok_def tlb_entries_def nd_pair_def)
  next
    case (Some present)
    then have p: "present \<in> set (chain t)" "nd_va present = va"
      by (auto simp: find_Some_iff)
    obtain t' where t': "arrange t (nd_addr present) = Inr t'" "set (chain t') = set (chain t)" "tlb_wf t'"
      using arrange_spec [OF p(1)] t(2) by blast
    have "nd_pair present = (va, nd_pa present)" using p by (simp add: nd_pair_def)
    with p(1) have "(va, nd_pa present) \<in> nd_pair ` set (chain t)" by (metis image_eqI)
    then show ?thesis
      using Some t t' by (auto simp: check_TLB_def tlb_ok_def tlb_entries_def)
  qed
qed

lemma add_TLB_spec:
  assumes "tlb_ok c" and "\<forall>q. (va, q) \<notin> tlb_entries c"
  shows "\<exists>r c'. add_TLB c va pa = Inr (r, c') \<and> tlb_ok c'
    \<and> tlb_entries c' \<subseteq> insert (va, pa) (tlb_entries c)"
proof -
  obtain t where t: "tlb_store c = Some t" "tlb_wf t" using assms(1) by (auto simp: tlb_ok_def)
  obtain a c1 where m: "malloc_node c = (a, c1)" by (cases "malloc_node c")
  then have c1: "tlb_store c1 = Some t" using t by (auto simp: malloc_node_def split: list.splits)
  have fresh: "va \<notin> nd_va ` set (chain t)"
    using assms(2) t by (auto simp: tlb_entries_def nd_pair_def image_iff)
  show ?thesis
  proof (cases "a = 0")
    case True
    then show ?thesis using m c1 t by (auto simp: add_TLB_def tlb_ok_def tlb_entries_def)
  next
    case False
    have "set (tl (chain t)) \<subseteq> set (chain t)" by (cases "chain t") auto
    with False show ?thesis
      using m c1 t fresh
      by (cases "chain t")
         (auto simp: add_TLB_def tlb_ok_def tlb_entries_def tlb_wf_def nd_pair_def Let_def TLB_ENTRIES_def)
  qed
qed

lemma delete_from_tlb_spec:
  assumes "tlb_ok c"
  shows "\<exists>c'. delete_from_tlb c va = Inr c' \<and> tlb_ok c'
    \<and> tlb_entries c' \<subseteq> {e \<in> tlb_entries c. fst e \<noteq> va}"
proof -
  obtain t where t: "tlb_store c = Some t" "tlb_wf t" using assms(1) by (auto simp: tlb_ok_def)
  show ?thesis
  proof (cases "chain t")
    case Nil
    then show ?thesis using t by (auto simp: delete_from_tlb_def tlb_ok_def tlb_entries_def)
  next
    case (Cons n ns)
    consider "head_ptr t = tlb_tail t \<and> nd_va n = va"
      | "\<not> (head_ptr t = tlb_tail t \<and> nd_va n = va)" "List.extract (\<lambda>n. nd_va n = va) (chain t) = None"
      | ys y zs where "\<not> (head_ptr t = tlb_tail t \<and> nd_va n = va)"
          "List.extract (\<lambda>n. nd_va n = va) (chain t) = Some (ys, y, zs)"
      by (cases "List.extract (\<lambda>n. nd_va n = va) (chain t)") auto
    then show ?thesis
    proof cases
      case 1
      then show ?thesis using t Cons
        by (auto simp: delete_from_tlb_def tlb_ok_def tlb_entries_def tlb_wf_def)
    next
      case 2
      then have "\<forall>m \<in> set (chain t). nd_va m \<noteq> va" by (auto simp: extract_None_iff)
      then show ?thesis using t 2 Cons
        by (auto simp: delete_from_tlb_def tlb_ok_def tlb_entries_def nd_pair_def)
    next
      case 3
      then have split: "chain t = ys @ y # zs" "nd_va y = va" by (auto simp: extract_Some_iff)
      with t(2) have rest: "va \<notin> nd_va ` set ys" "va \<notin> nd_va ` set zs"
        by (auto simp: tlb_wf_def)
      define t' where "t' = (if ys = [] then t\<lparr>chain := zs\<rparr>
          else if tlb_tail t = nd_addr y then t\<lparr>chain := ys, tlb_tail := nd_addr (last ys)\<rparr>
          else t\<lparr>chain := ys @ zs\<rparr>)"
      let ?t = "t'\<lparr>tlb_length := tlb_length t - 1\<rparr>"
      have guard: "(head_ptr t = tlb_tail t \<and> nd_va n = va) = False" using 3(1) by blast
      have del: "delete_from_tlb c va = Inr (c\<lparr>tlb_store := Some ?t\<rparr>)"
        unfolding delete_from_tlb_def t'_def t(1) Cons 3(2) [unfolded Cons] option.case list.case
          guard if_False prod.case Let_def ..
      have "set (chain t') \<subseteq> set ys \<union> set zs" by (auto simp: t'_def)
      also have "\<dots> \<subseteq> {m \<in> set (chain t). nd_va m \<noteq> va}" using split(1) rest by auto
      finally have "nd_pair ` set (chain t') \<subseteq> nd_pair ` {m \<in> set (chain t). nd_va m \<noteq> va}"
        by (rule image_mono)
      also have "\<dots> \<subseteq> {e \<in> nd_pair ` set (chain t). fst e \<noteq> va}" by (auto simp: nd_pair_def)
      finally have "nd_pair ` set (chain t') \<subseteq> {e \<in> nd_pair ` set (chain t). fst e \<noteq> va}" .
      moreover have "tlb_wf ?t" using t(2) split by (auto simp: tlb_wf_def t'_def)
      ultimately show ?thesis using del t by (auto simp: tlb_ok_def tlb_entries_def)
    qed
  qed
qed

interpretation tlbc: xlat_cache tlb_ok tlb_entries check_TLB
  "\<lambda>c v p. map_sum id snd (add_TLB c v p)" delete_from_tlb
proof (unfold_locales, goal_cases)
  case (1 c v) then show ?case using check_TLB_spec [of c v] by blast
next
  case (2 c v p c') then show ?case using check_TLB_spec [of c v] by auto
next
  case (3 c v c' p) then show ?case using check_TLB_spec [of c v] by auto
next
  case (4 c v r c') then show ?case using check_TLB_spec [of c v] by auto
next
  case (5 c v p) then show ?case using add_TLB_spec [of c v p] by fastforce
next
  case (6 c v) then show ?case by (rule delete_from_tlb_spec)
qed

end
