(* ===== verification/Vm_Paging.thy ===== *)
theory Vm_Paging
  imports Vm_Bitmap Vm_TLB
begin

text \<open>
  The state of the memory manager (\<open>Level -3/my_vm.c\<close>) and its paging core: the setup of the
  simulated physical memory, the page walk behind the TLB (\<open>translate\<close>) and the installation
  of a mapping (\<open>page_map\<close>).  The page directory and the page tables live in the simulated
  physical memory like the data pages, as 32-bit words of the byte memory.

  \<open>vm_rel s pt dm\<close> relates a state to the abstract picture of it: \<open>pt\<close> gives the frame of the
  page table of a directory entry and \<open>dm\<close> the frame a virtual page is mapped to.
\<close>

subsection \<open>State\<close>

record vm =
  geom :: geometry
  memory_start :: addr
  num_pages :: int
  phy_bitmap :: "byte list"
  virt_bitmap :: "byte list"
  page_dir :: addr
  cache :: tlb_state
  mutex_locked :: bool
  mem :: memory
  heap_block :: addr \<comment> \<open>what \<open>malloc(MEMSIZE)\<close> returns, 0 if it fails\<close>

text \<open>The static initialisers of the globals.\<close>

definition vm_start :: "addr \<Rightarrow> addr list \<Rightarrow> memory \<Rightarrow> vm" where
  "vm_start block nodes m = \<lparr>geom = no_geometry, memory_start = 0, num_pages = 0,
     phy_bitmap = [], virt_bitmap = [], page_dir = 0,
     cache = \<lparr>tlb_store = None, tlb_hit = 0, tlb_miss = 0, node_allocs = nodes\<rparr>,
     mutex_locked = False, mem = m, heap_block = block\<rparr>"

subsection \<open>Operations\<close>

text \<open>\<open>a[i]\<close> of an array of page table or directory entries.\<close>

definition entry_addr :: "addr \<Rightarrow> 32 word \<Rightarrow> addr" where
  "entry_addr a i = a + 4 * i"

text \<open>\<open>(p - memory_start) / PGSIZE\<close>.\<close>

definition frame_index :: "addr \<Rightarrow> addr \<Rightarrow> int" where
  "frame_index ms p = sint (p - ms) sdiv int PGSIZE"

text \<open>\<open>find_free_physical_page(1)[0]\<close>: the result is dereferenced without a test.\<close>

definition first_free_page :: "addr \<Rightarrow> byte list \<Rightarrow> addr result" where
  "first_free_page ms bm =
     (case find_free_physical_page ms bm 1 of
        Inl f \<Rightarrow> Inl f
      | Inr None \<Rightarrow> Inl NullDeref
      | Inr (Some ps) \<Rightarrow> Inr (ps ! 0))"

text \<open>\<open>for (i = 0; i < n; i++) table[i] = 0;\<close>\<close>

primrec zero_entries :: "nat \<Rightarrow> addr \<Rightarrow> memory \<Rightarrow> memory" where
  "zero_entries 0 table m = m"
| "zero_entries (Suc i) table m = store32 (zero_entries i table m) (entry_addr table (of_nat i)) 0"

definition set_physical_mem :: "vm \<Rightarrow> vm result" where
  "set_physical_mem s =
     (let s = s\<lparr>geom := calculate_entries_bits, memory_start := heap_block s\<rparr>
      in if memory_start s = 0 then Inl NullDeref
         else
         let s = s\<lparr>mem := mem_set0 (mem s) (memory_start s) MEMSIZE,
                num_pages := int (MEMSIZE div PGSIZE),
                phy_bitmap := replicate (MEMSIZE div (8 * PGSIZE)) 0,
                virt_bitmap := replicate (nat ((page_dir_entries (geom s) * page_table_entries (geom s)) sdiv 8)) 0\<rparr>
         in case first_free_page (memory_start s) (phy_bitmap s) of
           Inl f \<Rightarrow> Inl f
         | Inr pd \<Rightarrow>
             (case set_bit_at_index (phy_bitmap s) (frame_index (memory_start s) pd) of
                Inl f \<Rightarrow> Inl f
              | Inr bm \<Rightarrow>
                  let s = s\<lparr>page_dir := pd, phy_bitmap := bm,
                        mem := zero_entries (nat (page_dir_entries (geom s))) pd (mem s)\<rparr>
                  in Inr (case tlb_store (cache s) of
                       None \<Rightarrow> s\<lparr>cache := (cache s)\<lparr>tlb_store := Some empty_tlb\<rparr>\<rparr>
                     | Some t \<Rightarrow> s)))"

text \<open>
  The pointer that \<open>translate\<close> returns is read at once by every caller, so the model returns
  the entry it points to (None for a null pointer).
\<close>

definition translate :: "vm \<Rightarrow> addr \<Rightarrow> (addr option \<times> vm) result" where
  "translate s va =
     (let g = geom s;
          page_dir_index = extract_bits va 1 (page_dir_bits g);
          page_table_index = extract_bits va (page_dir_bits g + 1) (page_table_bits g);
          key = form_virtual_address g page_dir_index page_table_index
      in case check_TLB (cache s) key of
           Inl f \<Rightarrow> Inl f
         | Inr (Some pa, c) \<Rightarrow> Inr (Some pa, s\<lparr>cache := c\<rparr>)
         | Inr (None, c) \<Rightarrow>
             let page_table = load32 (mem s) (entry_addr (page_dir s) page_dir_index)
             in if page_table = 0 then Inr (None, s\<lparr>cache := c\<rparr>)
                else let pte = load32 (mem s) (entry_addr page_table page_table_index)
                  in if pte = 0 then Inr (None, s\<lparr>cache := c\<rparr>)
                     else case add_TLB c key pte of
                       Inl f \<Rightarrow> Inl f
                     | Inr (_, c) \<Rightarrow> Inr (Some pte, s\<lparr>cache := c\<rparr>))"

definition page_map :: "vm \<Rightarrow> addr \<Rightarrow> addr \<Rightarrow> (int \<times> vm) result" where
  "page_map s va pa =
     (let g = geom s;
          page_dir_index = extract_bits va 1 (page_dir_bits g);
          page_table_index = extract_bits va (page_dir_bits g + 1) (page_table_bits g);
          dir_entry = entry_addr (page_dir s) page_dir_index
      in case (if load32 (mem s) dir_entry = 0
               then case first_free_page (memory_start s) (phy_bitmap s) of
                   Inl f \<Rightarrow> Inl f
                 | Inr new_page_table \<Rightarrow>
                     (case set_bit_at_index (phy_bitmap s) (frame_index (memory_start s) new_page_table) of
                        Inl f \<Rightarrow> Inl f
                      | Inr bm \<Rightarrow>
                          Inr (s\<lparr>phy_bitmap := bm,
                             mem := zero_entries (nat (page_table_entries g)) new_page_table
                                      (store32 (mem s) dir_entry new_page_table)\<rparr>))
               else Inr s) of
           Inl f \<Rightarrow> Inl f
         | Inr s \<Rightarrow>
             let page_table = load32 (mem s) dir_entry;
                 pte = entry_addr page_table page_table_index
             in if load32 (mem s) pte \<noteq> 0 then Inr (-1, s)
                else Inr (0, s\<lparr>mem := store32 (mem s) pte pa\<rparr>))"

subsection \<open>What the tables mean\<close>

text \<open>The page walk without the cache, and the memory a program sees through it.\<close>

definition walk :: "vm \<Rightarrow> nat \<Rightarrow> addr option" where
  "walk s p =
     (let pd = load32 (mem s) (entry_addr (page_dir s) (of_nat (p div 16384)))
      in if pd = 0 then None
         else let pte = load32 (mem s) (entry_addr pd (of_nat (p mod 16384)))
           in if pte = 0 then None else Some pte)"

definition vread :: "vm \<Rightarrow> addr \<Rightarrow> byte option" where
  "vread s va = map_option (\<lambda>a. mem s (a + of_nat (page_off va))) (walk s (page_no va))"

text \<open>The \<open>i\<close>-th 32-bit word of the physical memory.\<close>

definition slot :: "memory \<Rightarrow> addr \<Rightarrow> nat \<Rightarrow> 32 word" where
  "slot m ms i = load32 m (ms + of_nat (4 * i))"

definition frame_opt :: "addr \<Rightarrow> nat option \<Rightarrow> addr" where
  "frame_opt ms f = (case f of None \<Rightarrow> 0 | Some f \<Rightarrow> frame_addr ms f)"

definition tables_rel :: "memory \<Rightarrow> addr \<Rightarrow> (nat \<Rightarrow> nat option) \<Rightarrow> (nat \<Rightarrow> nat option) \<Rightarrow> bool" where
  "tables_rel m ms pt dm \<longleftrightarrow>
     (\<forall>d < 4. slot m ms d = frame_opt ms (pt d))
     \<and> (\<forall>d f t. pt d = Some f \<longrightarrow> t < 16384 \<longrightarrow>
          slot m ms (f * 16384 + t) = frame_opt ms (dm (d * 16384 + t)))"

text \<open>Every frame in use is marked and has one use only; every mapped page is marked.\<close>

definition frames_rel :: "byte list \<Rightarrow> byte list \<Rightarrow> (nat \<Rightarrow> nat option) \<Rightarrow> (nat \<Rightarrow> nat option) \<Rightarrow> bool" where
  "frames_rel pb vb pt dm \<longleftrightarrow>
     length pb = 2048 \<and> length vb = 8192 \<and> bm_get pb 0
     \<and> (\<forall>d f. pt d = Some f \<longrightarrow> d < 4 \<and> 0 < f \<and> f < num_frames \<and> bm_get pb f)
     \<and> (\<forall>p f. dm p = Some f \<longrightarrow> p < num_vpages \<and> 0 < f \<and> f < num_frames \<and> bm_get pb f
          \<and> bm_get vb p \<and> pt (p div 16384) \<noteq> None)
     \<and> inj_on pt (dom pt) \<and> inj_on dm (dom dm) \<and> ran pt \<inter> ran dm = {}"

definition cache_map :: "addr \<Rightarrow> (nat \<Rightarrow> nat option) \<Rightarrow> addr \<Rightarrow> addr option" where
  "cache_map ms dm v = (if page_off v = 0 then map_option (frame_addr ms) (dm (page_no v)) else None)"

definition block_ok :: "addr \<Rightarrow> bool" where
  "block_ok ms \<longleftrightarrow> ms \<noteq> 0 \<and> unat ms + 2 ^ 30 \<le> 2 ^ 32"

definition vm_rel :: "vm \<Rightarrow> (nat \<Rightarrow> nat option) \<Rightarrow> (nat \<Rightarrow> nat option) \<Rightarrow> bool" where
  "vm_rel s pt dm \<longleftrightarrow>
     geom s = geo \<and> block_ok (memory_start s) \<and> page_dir s = memory_start s
     \<and> frames_rel (phy_bitmap s) (virt_bitmap s) pt dm
     \<and> tables_rel (mem s) (memory_start s) pt dm
     \<and> tlb_ok (cache s) \<and> coherent (tlb_entries (cache s)) (cache_map (memory_start s) dm)"

definition vm_inv :: "vm \<Rightarrow> bool" where
  "vm_inv s \<longleftrightarrow> (\<exists>pt dm. vm_rel s pt dm)"

subsection \<open>Words of the physical memory\<close>

lemma frame_addr_nonzero:
  assumes "block_ok ms" and "f < num_frames"
  shows "frame_addr ms f \<noteq> 0"
proof -
  have "unat ms + f * 65536 < 2 ^ 32" using assms by (simp add: block_ok_def num_frames_def)
  then have "unat (frame_addr ms f) = unat ms + f * 65536"
    unfolding frame_addr_def by (rule unat_base_plus)
  moreover have "unat ms \<noteq> 0" using assms by (simp add: block_ok_def unat_eq_zero)
  ultimately show ?thesis by auto
qed

lemma frame_addr_inj:
  "f < num_frames \<Longrightarrow> g < num_frames \<Longrightarrow> frame_addr ms f = frame_addr ms g \<longleftrightarrow> f = g"
  using addr_eq_iff [of "f * 65536" "g * 65536" ms]
  by (simp only: frame_addr_def num_frames_def) simp

lemma frame_index_addr: "f < num_frames \<Longrightarrow> frame_index ms (frame_addr ms f) = int f"
proof -
  assume "f < num_frames"
  then have lt: "f * 65536 < 2 ^ 30" by (simp add: num_frames_def)
  have "sint (of_nat (f * 65536) :: addr) = int (f * 65536)"
  proof -
    have "sint (of_nat (f * 65536) :: addr) = signed_take_bit 31 (int (f * 65536))"
      by (simp only: signed_of_nat) simp
    also have "\<dots> = int (f * 65536)"
      using lt by (simp add: signed_take_bit_int_eq_self)
    finally show ?thesis .
  qed
  then show ?thesis by (simp add: frame_index_def frame_addr_def PGSIZE_def c_arith)
qed

lemma entry_addr_nat: "entry_addr a (of_nat i) = a + of_nat (4 * i)"
  by (simp add: entry_addr_def)

lemma entry_frame: "entry_addr (frame_addr ms f) (of_nat t) = ms + of_nat (4 * (f * 16384 + t))"
  by (simp add: entry_addr_def frame_addr_def algebra_simps)

lemma slot_store:
  assumes "i < 2 ^ 28" and "j < 2 ^ 28"
  shows "slot (store32 m (ms + of_nat (4 * j)) v) ms i = (if i = j then v else slot m ms i)"
proof (cases "i = j")
  case True
  then show ?thesis by (simp only: slot_def load32_store32_same) simp
next
  case False
  then have "4 * i + 4 \<le> 4 * j \<or> 4 * j + 4 \<le> 4 * i" by linarith
  then show ?thesis
    using False assms load32_store32_off [of "4 * i" "4 * j" m ms v] by (simp only: slot_def) simp
qed

lemma slot_zero_entries:
  assumes "j + n \<le> 2 ^ 28" and "i < 2 ^ 28"
  shows "slot (zero_entries n (ms + of_nat (4 * j)) m) ms i =
    (if j \<le> i \<and> i < j + n then 0 else slot m ms i)"
  using assms
proof (induction n)
  case 0
  then show ?case by auto
next
  case (Suc n)
  have "entry_addr (ms + of_nat (4 * j)) (of_nat n) = ms + of_nat (4 * (j + n))"
    by (simp add: entry_addr_def algebra_simps)
  then have "slot (zero_entries (Suc n) (ms + of_nat (4 * j)) m) ms i =
      (if i = j + n then 0 else slot (zero_entries n (ms + of_nat (4 * j)) m) ms i)"
    using Suc.prems by (simp only: zero_entries.simps slot_store)
  then show ?case using Suc by auto
qed

lemma slot_agree:
  assumes "\<And>k. 4 * i \<le> k \<Longrightarrow> k < 4 * i + 4 \<Longrightarrow> m (ms + of_nat k) = m' (ms + of_nat k)"
  shows "slot m ms i = slot m' ms i"
  unfolding slot_def using assms by (rule load32_agree_off)

lemma zero_entries_off:
  assumes "4 * (j + n) \<le> 2 ^ 30" and "k < 2 ^ 30" and "k < 4 * j \<or> 4 * (j + n) \<le> k"
  shows "zero_entries n (ms + of_nat (4 * j)) m (ms + of_nat k) = m (ms + of_nat k)"
  using assms
proof (induction n)
  case 0
  then show ?case by simp
next
  case (Suc n)
  have "entry_addr (ms + of_nat (4 * j)) (of_nat n) = ms + of_nat (4 * (j + n))"
    by (simp add: entry_addr_def algebra_simps)
  then have "zero_entries (Suc n) (ms + of_nat (4 * j)) m (ms + of_nat k) =
      store32 (zero_entries n (ms + of_nat (4 * j)) m) (ms + of_nat (4 * (j + n))) 0 (ms + of_nat k)"
    by (simp only: zero_entries.simps)
  also have "\<dots> = zero_entries n (ms + of_nat (4 * j)) m (ms + of_nat k)"
    using Suc.prems store32_off [of k "4 * (j + n)"] by auto
  also have "\<dots> = m (ms + of_nat k)" using Suc by auto
  finally show ?case .
qed

subsection \<open>The page walk reads the relation\<close>

lemma dir_index_nat: "dir_index va = of_nat (page_no va div 16384)"
  by (metis unat_dir_index word_of_nat_unat)

lemma table_index_nat: "table_index va = of_nat (page_no va mod 16384)"
  by (metis unat_table_index word_of_nat_unat)

lemma vm_relD:
  assumes "vm_rel s pt dm"
  shows "geom s = geo" "block_ok (memory_start s)" "page_dir s = memory_start s"
    "frames_rel (phy_bitmap s) (virt_bitmap s) pt dm" "tables_rel (mem s) (memory_start s) pt dm"
    "tlb_ok (cache s)" "coherent (tlb_entries (cache s)) (cache_map (memory_start s) dm)"
  using assms by (simp_all add: vm_rel_def)

lemma frames_relD:
  assumes "frames_rel pb vb pt dm"
  shows "length pb = 2048" "length vb = 8192" "bm_get pb 0"
    "pt d = Some f \<Longrightarrow> d < 4 \<and> 0 < f \<and> f < num_frames \<and> bm_get pb f"
    "dm p = Some f \<Longrightarrow> p < num_vpages \<and> 0 < f \<and> f < num_frames \<and> bm_get pb f
       \<and> bm_get vb p \<and> pt (p div 16384) \<noteq> None"
    "inj_on pt (dom pt)" "inj_on dm (dom dm)" "ran pt \<inter> ran dm = {}"
  using assms by (auto simp: frames_rel_def)

lemma pt_inj:
  assumes "frames_rel pb vb pt dm" and "pt d = Some f" and "pt e = Some f"
  shows "d = e"
  using frames_relD(6) [OF assms(1)] assms(2,3) by (auto simp: inj_on_def dom_def)

lemma dm_inj:
  assumes "frames_rel pb vb pt dm" and "dm p = Some f" and "dm q = Some f"
  shows "p = q"
  using frames_relD(7) [OF assms(1)] assms(2,3) by (auto simp: inj_on_def dom_def)

lemma pt_dm_disjoint:
  assumes "frames_rel pb vb pt dm" and "pt d = Some f" and "dm p = Some g"
  shows "f \<noteq> g"
  using frames_relD(8) [OF assms(1)] assms(2,3) by (auto simp: ran_def)

lemma frame_opt_zero:
  assumes "block_ok ms" and "\<And>f. x = Some f \<Longrightarrow> f < num_frames"
  shows "frame_opt ms x = 0 \<longleftrightarrow> x = None"
  using frame_addr_nonzero [OF assms(1)] assms(2) by (auto simp: frame_opt_def split: option.splits)

lemma dir_slot:
  "entry_addr ms (of_nat d) = ms + of_nat (4 * d)"
  by (simp add: entry_addr_def)

text \<open>The two table words a walk reads, for a page below the limit.\<close>

lemma walk_words:
  assumes "frames_rel pb vb pt dm" and "tables_rel m ms pt dm" and "block_ok ms" and "p < num_vpages"
  shows "load32 m (entry_addr ms (of_nat (p div 16384))) = frame_opt ms (pt (p div 16384))"
    and "pt (p div 16384) = Some f \<Longrightarrow>
      load32 m (entry_addr (frame_addr ms f) (of_nat (p mod 16384))) = frame_opt ms (dm p)"
proof -
  have "p div 16384 < 4" using assms(4) by (simp add: num_vpages_def)
  with assms(2) have "slot m ms (p div 16384) = frame_opt ms (pt (p div 16384))"
    by (simp add: tables_rel_def)
  then show "load32 m (entry_addr ms (of_nat (p div 16384))) = frame_opt ms (pt (p div 16384))"
    by (simp only: slot_def dir_slot)
next
  assume f: "pt (p div 16384) = Some f"
  have "slot m ms (f * 16384 + p mod 16384) = frame_opt ms (dm (p div 16384 * 16384 + p mod 16384))"
    using assms(2) f unfolding tables_rel_def by (metis mod_less_divisor zero_less_numeral)
  then show "load32 m (entry_addr (frame_addr ms f) (of_nat (p mod 16384))) = frame_opt ms (dm p)"
    by (simp only: slot_def entry_frame div_mult_mod_eq)
qed

lemma walk_rel:
  assumes rel: "vm_rel s pt dm" and "p < num_vpages"
  shows "walk s p = map_option (frame_addr (memory_start s)) (dm p)"
proof -
  note D = vm_relD [OF rel] and F = frames_relD [OF vm_relD(4) [OF rel]]
  note W = walk_words [OF D(4) D(5) D(2) assms(2)]
  have z: "frame_opt (memory_start s) (pt (p div 16384)) = 0 \<longleftrightarrow> pt (p div 16384) = None"
    using frame_opt_zero [OF D(2)] F(4) by blast
  have z': "frame_opt (memory_start s) (dm p) = 0 \<longleftrightarrow> dm p = None"
    using frame_opt_zero [OF D(2)] F(5) by blast
  show ?thesis
  proof (cases "pt (p div 16384)")
    case None
    then have "dm p = None" using F(5) [of p] by (cases "dm p") auto
    then show ?thesis using None z W(1) D(3) by (simp add: walk_def Let_def)
  next
    case (Some f)
    then have pd: "load32 (mem s) (entry_addr (page_dir s) (of_nat (p div 16384))) = frame_addr (memory_start s) f"
      using W(1) D(3) by (simp add: frame_opt_def)
    moreover have "frame_addr (memory_start s) f \<noteq> 0" using F(4) [OF Some] D(2) frame_addr_nonzero by blast
    ultimately have "walk s p = (if frame_opt (memory_start s) (dm p) = 0 then None
        else Some (frame_opt (memory_start s) (dm p)))"
      using W(2) [OF Some] by (simp add: walk_def Let_def)
    then show ?thesis using z' by (cases "dm p") (simp_all add: frame_opt_def)
  qed
qed

lemma walk_bound:
  assumes "vm_rel s pt dm" and "walk s p = Some a" and "p < num_vpages"
  shows "\<exists>f. dm p = Some f \<and> a = frame_addr (memory_start s) f"
  using walk_rel [OF assms(1,3)] assms(2) by (cases "dm p") auto

text \<open>Translation succeeds exactly on mapped pages, and changes nothing but the cache.\<close>

lemma translate_rel:
  assumes rel: "vm_rel s pt dm"
  shows "\<exists>c. translate s va = Inr (map_option (frame_addr (memory_start s)) (dm (page_no va)), s\<lparr>cache := c\<rparr>)
    \<and> vm_rel (s\<lparr>cache := c\<rparr>) pt dm"
proof -
  note D = vm_relD [OF rel] and F = frames_relD [OF vm_relD(4) [OF rel]]
  let ?p = "page_no va" and ?ms = "memory_start s" and ?key = "page_va (page_no va)"
  have p: "?p < num_vpages" using page_no_lt [of va] by (simp add: num_vpages_def)
  note W = walk_words [OF D(4) D(5) D(2) p]
  have key: "form_virtual_address geo (dir_index va) (table_index va) = ?key"
    by (rule form_virtual_address_indices)
  have cm: "cache_map ?ms dm ?key = map_option (frame_addr ?ms) (dm ?p)"
    using page_no_lt [of va] by (simp add: cache_map_def)
  have keep: "vm_rel (s\<lparr>cache := c\<rparr>) pt dm"
    if "tlb_ok c" "coherent (tlb_entries c) (cache_map ?ms dm)" for c
    using rel that by (simp add: vm_rel_def)
  obtain r c where c: "check_TLB (cache s) ?key = Inr (r, c)" "tlb_ok c"
      "coherent (tlb_entries c) (cache_map ?ms dm)" "\<forall>q. r = Some q \<longrightarrow> cache_map ?ms dm ?key = Some q"
      "r = None \<longrightarrow> (\<forall>q. (?key, q) \<notin> tlb_entries c)"
    using tlbc.look_coherent [OF D(6) D(7), of ?key] by blast
  note unf = translate_def Let_def D(1) D(3) key [folded dir_index_nat] c(1)
  show ?thesis
  proof (cases r)
    case (Some q)
    then have "map_option (frame_addr ?ms) (dm ?p) = Some q" using c(4) cm by simp
    then show ?thesis using Some c keep by (auto simp: unf)
  next
    case None
    have miss: "translate s va = (let page_table = frame_opt ?ms (pt (?p div 16384))
        in if page_table = 0 then Inr (None, s\<lparr>cache := c\<rparr>)
           else let pte = load32 (mem s) (entry_addr page_table (of_nat (?p mod 16384)))
             in if pte = 0 then Inr (None, s\<lparr>cache := c\<rparr>)
                else case add_TLB c ?key pte of
                  Inl f \<Rightarrow> Inl f
                | Inr (_, c) \<Rightarrow> Inr (Some pte, s\<lparr>cache := c\<rparr>))"
      using None by (simp add: unf W(1) [folded dir_index_nat] table_index_nat [symmetric])
    show ?thesis
    proof (cases "dm ?p")
      case None
      have "translate s va = Inr (None, s\<lparr>cache := c\<rparr>)"
      proof (cases "pt (?p div 16384)")
        case pt: (Some f)
        then have "frame_addr ?ms f \<noteq> 0" using F(4) D(2) frame_addr_nonzero by blast
        then show ?thesis using W(2) [OF pt] None by (simp add: miss Let_def frame_opt_def pt)
      qed (simp add: miss frame_opt_def)
      then show ?thesis using None keep [OF c(2,3)] by auto
    next
      case dm: (Some g)
      then obtain f where pt: "pt (?p div 16384) = Some f" using F(5) by blast
      have nz: "frame_addr ?ms f \<noteq> 0" "frame_addr ?ms g \<noteq> 0"
        using F(4) [OF pt] F(5) [OF dm] D(2) frame_addr_nonzero by blast+
      obtain c' where c': "map_sum id snd (add_TLB c ?key (frame_addr ?ms g)) = Inr c'" "tlb_ok c'"
          "coherent (tlb_entries c') (cache_map ?ms dm)"
        using tlbc.ins_coherent [OF c(2,3), of ?key "frame_addr ?ms g"] c(5) None cm dm by auto
      then obtain x where "add_TLB c ?key (frame_addr ?ms g) = Inr (x, c')"
        by (cases "add_TLB c ?key (frame_addr ?ms g)") auto
      then have "translate s va = Inr (Some (frame_addr ?ms g), s\<lparr>cache := c'\<rparr>)"
        using W(2) [OF pt] dm nz by (simp add: miss Let_def frame_opt_def pt)
      then show ?thesis using dm keep [OF c'(2,3)] by auto
    qed
  qed
qed

subsection \<open>Marking frames and pages\<close>

lemma first_free_page_spec:
  "first_free_page ms bm = (case free_frames bm of [] \<Rightarrow> Inl NullDeref | f # _ \<Rightarrow> Inr (frame_addr ms f))"
  by (auto simp: first_free_page_def find_free_physical_page_spec split: list.splits)

lemma free_framesD: "f \<in> set (free_frames bm) \<Longrightarrow> f < num_frames \<and> \<not> bm_get bm f"
  by (auto simp: free_frames_def)

lemma frames_mark:
  assumes "frames_rel pb vb pt dm" and "f < num_frames"
  shows "frames_rel (bm_set pb f) vb pt dm"
  using assms by (auto simp: frames_rel_def bm_get_set num_frames_def)

lemma frames_mark_page:
  assumes "frames_rel pb vb pt dm" and "p < num_vpages"
  shows "frames_rel pb (bm_set vb p) pt dm"
  using assms by (auto simp: frames_rel_def bm_get_set num_vpages_def)

lemma unmarked_unused:
  assumes "frames_rel pb vb pt dm" and "\<not> bm_get pb f"
  shows "f \<noteq> 0" and "f \<notin> ran pt" and "f \<notin> ran dm"
  using assms by (auto simp: frames_rel_def ran_def)

lemma frames_add_table:
  assumes "frames_rel pb vb pt dm" and "d < 4" and "0 < f" and "f < num_frames" and "bm_get pb f"
    and "f \<notin> ran pt" and "f \<notin> ran dm" and "pt d = None"
  shows "frames_rel pb vb (pt(d \<mapsto> f)) dm"
proof -
  note F = frames_relD [OF assms(1)]
  have "inj_on (pt(d \<mapsto> f)) (dom (pt(d \<mapsto> f)))"
    using F(6) assms(6) by (auto simp: inj_on_def dom_def ran_def)
  moreover have "ran (pt(d \<mapsto> f)) \<inter> ran dm = {}"
    using F(8) assms(7,8) by (simp add: ran_map_upd)
  moreover have "dm p = Some g \<Longrightarrow> (pt(d \<mapsto> f)) (p div 16384) \<noteq> None" for p g
    using F(5) by simp
  ultimately show ?thesis using assms F(1-5) unfolding frames_rel_def by (simp add: fun_upd_apply)
qed

lemma frames_add_page:
  assumes "frames_rel pb vb pt dm" and "p < num_vpages" and "0 < f" and "f < num_frames"
    and "bm_get pb f" and "bm_get vb p" and "pt (p div 16384) \<noteq> None"
    and "f \<notin> ran pt" and "f \<notin> ran dm" and "dm p = None"
  shows "frames_rel pb vb pt (dm(p \<mapsto> f))"
proof -
  note F = frames_relD [OF assms(1)]
  have "inj_on (dm(p \<mapsto> f)) (dom (dm(p \<mapsto> f)))"
    using F(7) assms(9) by (auto simp: inj_on_def dom_def ran_def)
  moreover have "ran pt \<inter> ran (dm(p \<mapsto> f)) = {}"
    using F(8) assms(8,10) by (simp add: ran_map_upd)
  ultimately show ?thesis using assms F(1-5) unfolding frames_rel_def by (simp add: fun_upd_apply)
qed

lemma coherent_add_page:
  assumes "coherent E (cache_map ms dm)" and "dm p = None"
  shows "coherent E (cache_map ms (dm(p \<mapsto> f)))"
proof -
  have "cache_map ms (dm(p \<mapsto> f)) v = Some q" if "cache_map ms dm v = Some q" for v q
    using that assms(2) by (auto simp: cache_map_def split: if_splits)
  with assms(1) show ?thesis by (auto simp: coherent_def)
qed

subsection \<open>Writes outside a frame\<close>

definition same_frame :: "memory \<Rightarrow> memory \<Rightarrow> addr \<Rightarrow> nat \<Rightarrow> bool" where
  "same_frame m m' ms g \<longleftrightarrow> (\<forall>k < 65536. m (frame_addr ms g + of_nat k) = m' (frame_addr ms g + of_nat k))"

lemma frame_off: "frame_addr ms f + of_nat k = ms + of_nat (f * 65536 + k)"
  by (simp add: frame_addr_def)

lemma same_frame_refl [simp]: "same_frame m m ms g"
  by (simp add: same_frame_def)

lemma same_frame_trans: "same_frame m m' ms g \<Longrightarrow> same_frame m' m'' ms g \<Longrightarrow> same_frame m m'' ms g"
  by (simp add: same_frame_def)

lemma same_frame_store:
  assumes "j < 2 ^ 28" and "g < num_frames" and "j div 16384 \<noteq> g"
  shows "same_frame (store32 m (ms + of_nat (4 * j)) v) m ms g"
  unfolding same_frame_def frame_off
proof (intro allI impI)
  fix k :: nat
  assume k: "k < 65536"
  have "j < g * 16384 \<or> (g + 1) * 16384 \<le> j"
    using assms(3) by (metis Suc_eq_plus1 div_nat_eqI linorder_not_less mult.commute)
  then have "\<not> (4 * j \<le> g * 65536 + k \<and> g * 65536 + k < 4 * j + 4)" using k by auto
  then show "store32 m (ms + of_nat (4 * j)) v (ms + of_nat (g * 65536 + k)) = m (ms + of_nat (g * 65536 + k))"
    using assms k store32_off [of "g * 65536 + k" "4 * j" m ms v] by (auto simp: num_frames_def)
qed

lemma same_frame_zero:
  assumes "h < num_frames" and "g < num_frames" and "h \<noteq> g"
  shows "same_frame (zero_entries 16384 (frame_addr ms h) m) m ms g"
  unfolding same_frame_def frame_off
proof (intro allI impI)
  fix k :: nat
  assume k: "k < 65536"
  have h: "frame_addr ms h = ms + of_nat (4 * (h * 16384))" by (simp add: frame_addr_def)
  have "g * 65536 + k < 4 * (h * 16384) \<or> 4 * (h * 16384 + 16384) \<le> g * 65536 + k"
    using assms(3) k by auto
  then show "zero_entries 16384 (frame_addr ms h) m (ms + of_nat (g * 65536 + k)) = m (ms + of_nat (g * 65536 + k))"
    unfolding h using assms(1,2) k by (intro zero_entries_off) (auto simp: num_frames_def)
qed

subsection \<open>Table updates\<close>

lemma tables_set_page:
  assumes F: "frames_rel pb vb pt dm" and T: "tables_rel m ms pt dm" and p: "p < num_vpages"
    and pt: "pt (p div 16384) = Some g"
  shows "tables_rel (store32 m (entry_addr (frame_addr ms g) (of_nat (p mod 16384))) (frame_opt ms x)) ms pt
    (dm(p := x))"
proof -
  let ?j = "g * 16384 + p mod 16384"
  let ?m = "store32 m (ms + of_nat (4 * ?j)) (frame_opt ms x)"
  have g: "0 < g" "g < num_frames" using frames_relD(4) [OF F pt] by auto
  have j: "?j < 2 ^ 28" using g by (simp add: num_frames_def)
  have st: "slot ?m ms i = (if i = ?j then frame_opt ms x else slot m ms i)" if "i < 2 ^ 28" for i
    using slot_store [OF that j] .
  have dir: "slot ?m ms d = frame_opt ms (pt d)" if "d < 4" for d
    using st [of d] T that g by (auto simp: tables_rel_def)
  have tab: "slot ?m ms (h * 16384 + t) = frame_opt ms ((dm(p := x)) (d * 16384 + t))"
    if h: "pt d = Some h" and t: "t < 16384" for d h t
  proof -
    have lt: "h * 16384 + t < 2 ^ 28" using frames_relD(4) [OF F h] t by (simp add: num_frames_def)
    have "h * 16384 + t = ?j \<longleftrightarrow> h = g \<and> t = p mod 16384"
      using t by (intro radix_eq) simp_all
    moreover have "h = g \<longleftrightarrow> d = p div 16384" 
      using pt_inj [OF F h, of "p div 16384"] pt h by (metis option.inject)
    moreover have "d * 16384 + t = p \<longleftrightarrow> d = p div 16384 \<and> t = p mod 16384"
      using radix_eq [of t 16384 "p mod 16384" d "p div 16384"] t by (simp only: div_mult_mod_eq)
    moreover have "slot m ms (h * 16384 + t) = frame_opt ms (dm (d * 16384 + t))"
      using T h t by (auto simp: tables_rel_def)
    ultimately show ?thesis using st [OF lt] by simp
  qed
  show ?thesis unfolding entry_frame tables_rel_def using dir tab by blast
qed

lemma tables_add_page:
  assumes "frames_rel pb vb pt dm" and "tables_rel m ms pt dm" and "p < num_vpages"
    and "pt (p div 16384) = Some g"
  shows "tables_rel (store32 m (entry_addr (frame_addr ms g) (of_nat (p mod 16384))) (frame_addr ms f)) ms pt
    (dm(p \<mapsto> f))"
  using tables_set_page [OF assms, of "Some f"] by (simp add: frame_opt_def)

text \<open>Clearing a data page touches no table.\<close>

lemma same_frame_set0:
  assumes "f < num_frames" and "g < num_frames" and "f \<noteq> g"
  shows "same_frame (mem_set0 m (frame_addr ms f) PGSIZE) m ms g"
  unfolding same_frame_def frame_off
proof (intro allI impI)
  fix k :: nat
  assume k: "k < 65536"
  have "\<not> (f * 65536 \<le> g * 65536 + k \<and> g * 65536 + k < f * 65536 + PGSIZE)"
    using assms(3) k by (auto simp: PGSIZE_def)
  moreover have "g * 65536 + k < 2 ^ 31" "f * 65536 < 2 ^ 31" "PGSIZE \<le> 2 ^ 31"
    using assms(1,2) k by (simp_all add: num_frames_def PGSIZE_def)
  ultimately show "mem_set0 m (frame_addr ms f) PGSIZE (ms + of_nat (g * 65536 + k)) = m (ms + of_nat (g * 65536 + k))"
    unfolding frame_addr_def by (simp only: mem_set0_off if_False)
qed

lemma slot_same_frame:
  assumes "same_frame m m' ms g" and "t < 16384"
  shows "slot m ms (g * 16384 + t) = slot m' ms (g * 16384 + t)"
proof (rule slot_agree)
  fix k
  assume k: "4 * (g * 16384 + t) \<le> k" "k < 4 * (g * 16384 + t) + 4"
  define j where "j = k - g * 65536"
  have "k = g * 65536 + j" "j < 65536" using k assms(2) by (simp_all add: j_def)
  then show "m (ms + of_nat k) = m' (ms + of_nat k)" using assms(1) by (simp add: same_frame_def frame_off)
qed

lemma tables_same_frames:
  assumes "tables_rel m ms pt dm" and "same_frame m' m ms 0"
    and "\<And>d g. pt d = Some g \<Longrightarrow> same_frame m' m ms g"
  shows "tables_rel m' ms pt dm"
proof -
  have "slot m' ms d = frame_opt ms (pt d)" if "d < 4" for d
    using slot_same_frame [OF assms(2), of d] assms(1) that by (simp add: tables_rel_def)
  moreover have "slot m' ms (g * 16384 + t) = frame_opt ms (dm (d * 16384 + t))"
    if "pt d = Some g" "t < 16384" for d g t
    using slot_same_frame [OF assms(3) [OF that(1)] that(2)] assms(1) that by (simp add: tables_rel_def)
  ultimately show ?thesis by (simp add: tables_rel_def)
qed

lemma tables_add_table:
  assumes F: "frames_rel pb vb pt dm" and T: "tables_rel m ms pt dm" and d: "d < 4" "pt d = None"
    and g: "0 < g" "g < num_frames" "g \<notin> ran pt"
  shows "tables_rel (zero_entries 16384 (frame_addr ms g) (store32 m (entry_addr ms (of_nat d)) (frame_addr ms g)))
    ms (pt(d \<mapsto> g)) dm"
proof -
  let ?m1 = "store32 m (ms + of_nat (4 * d)) (frame_addr ms g)"
  let ?m = "zero_entries 16384 (ms + of_nat (4 * (g * 16384))) ?m1"
  have fg: "frame_addr ms g = ms + of_nat (4 * (g * 16384))" by (simp add: frame_addr_def)
  have st: "slot ?m ms i = (if g * 16384 \<le> i \<and> i < g * 16384 + 16384 then 0
      else if i = d then frame_addr ms g else slot m ms i)" if "i < 2 ^ 28" for i
  proof -
    have "slot ?m ms i = (if g * 16384 \<le> i \<and> i < g * 16384 + 16384 then 0 else slot ?m1 ms i)"
      using g that by (intro slot_zero_entries) (simp_all add: num_frames_def)
    moreover have "slot ?m1 ms i = (if i = d then frame_addr ms g else slot m ms i)"
      using d that by (intro slot_store) simp_all
    ultimately show ?thesis by (simp only:)
  qed
  have dir: "slot ?m ms e = frame_opt ms ((pt(d \<mapsto> g)) e)" if "e < 4" for e
    using st [of e] T that g by (auto simp: tables_rel_def frame_opt_def)
  have tab: "slot ?m ms (h * 16384 + t) = frame_opt ms (dm (e * 16384 + t))"
    if h: "(pt(d \<mapsto> g)) e = Some h" and t: "t < 16384" for e h t
  proof (cases "e = d")
    case True
    then have "h = g" using h by simp
    moreover have "(d * 16384 + t) div 16384 = d" using t by simp
    then have "dm (d * 16384 + t) = None"
      using frames_relD(5) [OF F, of "d * 16384 + t"] d by (cases "dm (d * 16384 + t)") auto
    ultimately show ?thesis
      using True st [of "g * 16384 + t"] t g by (simp add: frame_opt_def num_frames_def)
  next
    case False
    then have h': "pt e = Some h" using h by simp
    then have hb: "0 < h" "h < num_frames" "h \<noteq> g" using frames_relD(4) [OF F h'] g by (auto simp: ran_def)
    have "h * 16384 + t < 2 ^ 28" using hb t by (simp add: num_frames_def)
    moreover have "\<not> (g * 16384 \<le> h * 16384 + t \<and> h * 16384 + t < g * 16384 + 16384)" "h * 16384 + t \<noteq> d"
      using hb t d by auto
    ultimately have "slot ?m ms (h * 16384 + t) = slot m ms (h * 16384 + t)"
      using st by (simp only: if_False)
    then show ?thesis using T h' t by (simp add: tables_rel_def)
  qed
  show ?thesis unfolding dir_slot tables_rel_def using dir tab unfolding fg by blast
qed

subsection \<open>Installing a mapping\<close>

text \<open>
  The state after \<open>page_map\<close>: a missing page table takes the first free frame; the mapping is
  entered unless the page already has one.
\<close>

definition table_frame :: "byte list \<Rightarrow> (nat \<Rightarrow> nat option) \<Rightarrow> nat \<Rightarrow> (nat \<Rightarrow> nat option)" where
  "table_frame pb pt d = (if pt d = None then pt(d \<mapsto> hd (free_frames pb)) else pt)"

lemma page_map_enter:
  assumes rel: "vm_rel s pt dm" and p: "page_no va = p" and pt: "pt (p div 16384) = Some g"
    and f: "0 < f" "f < num_frames" "bm_get (phy_bitmap s) f" "f \<notin> ran pt" "f \<notin> ran dm"
    and vb: "bm_get (virt_bitmap s) p"
  shows "\<exists>m. page_map s va (frame_addr (memory_start s) f) = Inr (if dm p = None then 0 else -1, s\<lparr>mem := m\<rparr>)
    \<and> vm_rel (s\<lparr>mem := m\<rparr>) pt (if dm p = None then dm(p \<mapsto> f) else dm)
    \<and> (\<forall>h < num_frames. h \<noteq> g \<longrightarrow> same_frame m (mem s) (memory_start s) h)"
proof -
  note D = vm_relD [OF rel] and F = frames_relD [OF vm_relD(4) [OF rel]]
  let ?ms = "memory_start s"
  have pn: "p < num_vpages" using p page_no_lt [of va] by (simp add: num_vpages_def)
  note W = walk_words [OF D(4) D(5) D(2) pn]
  have g: "g < num_frames" "frame_addr ?ms g \<noteq> 0"
    using F(4) [OF pt] D(2) frame_addr_nonzero by blast+
  have z: "frame_opt ?ms (dm p) = 0 \<longleftrightarrow> dm p = None"
    using frame_opt_zero [OF D(2)] F(5) by blast
  let ?pte = "entry_addr (frame_addr ?ms g) (of_nat (p mod 16384))"
  have run: "page_map s va (frame_addr ?ms f) =
    (if dm p \<noteq> None then Inr (-1, s) else Inr (0, s\<lparr>mem := store32 (mem s) ?pte (frame_addr ?ms f)\<rparr>))"
    using W(1) W(2) [OF pt] pt g z
    by (simp add: page_map_def Let_def D(1) D(3) dir_index_nat table_index_nat p frame_opt_def
        split: option.splits)
  show ?thesis
  proof (cases "dm p")
    case None
    let ?m = "store32 (mem s) ?pte (frame_addr ?ms f)"
    have "tables_rel ?m ?ms pt (dm(p \<mapsto> f))" by (rule tables_add_page [OF D(4) D(5) pn pt])
    moreover have "frames_rel (phy_bitmap s) (virt_bitmap s) pt (dm(p \<mapsto> f))"
      using frames_add_page [OF D(4) pn f(1-3) vb _ f(4,5) None] pt by simp
    ultimately have "vm_rel (s\<lparr>mem := ?m\<rparr>) pt (dm(p \<mapsto> f))"
      using D coherent_add_page [OF D(7) None] by (simp add: vm_rel_def)
    moreover have "same_frame ?m (mem s) ?ms h" if "h < num_frames" "h \<noteq> g" for h
      unfolding entry_frame using that g(1)
      by (intro same_frame_store) (simp_all add: num_frames_def)
    ultimately show ?thesis using run None by auto
  next
    case (Some q)
    then show ?thesis using run rel by (intro exI [of _ "mem s"]) simp
  qed
qed

lemma page_map_new_table:
  assumes rel: "vm_rel s pt dm" and p: "page_no va = p" and pt: "pt (p div 16384) = None"
    and ff: "free_frames (phy_bitmap s) = g # gs"
  shows "\<exists>m. page_map s va pa = page_map (s\<lparr>phy_bitmap := bm_set (phy_bitmap s) g, mem := m\<rparr>) va pa
    \<and> vm_rel (s\<lparr>phy_bitmap := bm_set (phy_bitmap s) g, mem := m\<rparr>) (pt(p div 16384 \<mapsto> g)) dm
    \<and> (\<forall>h < num_frames. h \<noteq> 0 \<longrightarrow> h \<noteq> g \<longrightarrow> same_frame m (mem s) (memory_start s) h)"
proof -
  note D = vm_relD [OF rel] and F = frames_relD [OF vm_relD(4) [OF rel]]
  let ?ms = "memory_start s" and ?d = "p div 16384"
  have pn: "p < num_vpages" using p page_no_lt [of va] by (simp add: num_vpages_def)
  have d: "?d < 4" using pn by (simp add: num_vpages_def)
  note W = walk_words [OF D(4) D(5) D(2) pn]
  have g: "g < num_frames" "\<not> bm_get (phy_bitmap s) g"
    using free_framesD [of g "phy_bitmap s"] ff by auto
  note un = unmarked_unused [OF D(4) g(2)]
  have gz: "frame_addr ?ms g \<noteq> 0" using g D(2) frame_addr_nonzero by blast
  define m where "m = zero_entries 16384 (frame_addr ?ms g)
    (store32 (mem s) (entry_addr ?ms (of_nat ?d)) (frame_addr ?ms g))"
  let ?s = "s\<lparr>phy_bitmap := bm_set (phy_bitmap s) g, mem := m\<rparr>"
  have T: "tables_rel m ?ms (pt(?d \<mapsto> g)) dm"
    unfolding m_def using un g by (intro tables_add_table [OF D(4) D(5) d pt]) auto
  have "frames_rel (bm_set (phy_bitmap s) g) (virt_bitmap s) (pt(?d \<mapsto> g)) dm"
    using un g pt d F(1) bm_get_set [of g "phy_bitmap s"]
    by (intro frames_add_table frames_mark D(4)) (auto simp: num_frames_def)
  then have rel': "vm_rel ?s (pt(?d \<mapsto> g)) dm" using D T by (simp add: vm_rel_def)
  note D' = vm_relD [OF rel']
  have "load32 m (entry_addr ?ms (of_nat ?d)) = frame_addr ?ms g"
    using walk_words(1) [OF D'(4) D'(5) D'(2) pn] by (simp add: frame_opt_def)
  moreover have "set_bit_at_index (phy_bitmap s) (frame_index ?ms (frame_addr ?ms g)) = Inr (bm_set (phy_bitmap s) g)"
    using g F(1) by (simp add: frame_index_addr num_frames_def)
  moreover have "nat (page_table_entries geo) = 16384" by (simp add: geo_def)
  ultimately have "page_map s va pa = page_map ?s va pa"
    using W(1) pt gz ff
    by (simp add: page_map_def Let_def D(1) D(3) dir_index_nat p frame_opt_def first_free_page_spec
        m_def [symmetric])
  moreover have "same_frame m (mem s) ?ms h" if "h < num_frames" "h \<noteq> 0" "h \<noteq> g" for h
  proof (rule same_frame_trans)
    show "same_frame m (store32 (mem s) (entry_addr ?ms (of_nat ?d)) (frame_addr ?ms g)) ?ms h"
      unfolding m_def using that g by (intro same_frame_zero) auto
    show "same_frame (store32 (mem s) (entry_addr ?ms (of_nat ?d)) (frame_addr ?ms g)) (mem s) ?ms h"
      unfolding dir_slot using that d by (intro same_frame_store) auto
  qed
  ultimately show ?thesis using rel' by blast
qed

lemma page_map_rel:
  assumes rel: "vm_rel s pt dm" and p: "page_no va = p"
    and f: "0 < f" "f < num_frames" "bm_get (phy_bitmap s) f" "f \<notin> ran pt" "f \<notin> ran dm"
    and vb: "bm_get (virt_bitmap s) p"
    and ff: "pt (p div 16384) = None \<Longrightarrow> free_frames (phy_bitmap s) \<noteq> []"
  shows "\<exists>pb m. page_map s va (frame_addr (memory_start s) f) =
      Inr (if dm p = None then 0 else -1, s\<lparr>phy_bitmap := pb, mem := m\<rparr>)
    \<and> vm_rel (s\<lparr>phy_bitmap := pb, mem := m\<rparr>) (table_frame (phy_bitmap s) pt (p div 16384))
        (if dm p = None then dm(p \<mapsto> f) else dm)
    \<and> pb = (if pt (p div 16384) = None then bm_set (phy_bitmap s) (hd (free_frames (phy_bitmap s))) else phy_bitmap s)
    \<and> (\<forall>h < num_frames. h \<noteq> 0 \<longrightarrow> h \<notin> ran (table_frame (phy_bitmap s) pt (p div 16384)) \<longrightarrow>
         same_frame m (mem s) (memory_start s) h)"
proof (cases "pt (p div 16384)")
  case (Some g)
  then have "table_frame (phy_bitmap s) pt (p div 16384) = pt" by (simp add: table_frame_def)
  moreover have "g \<in> ran pt" using Some by (rule ranI)
  ultimately show ?thesis
    using page_map_enter [OF rel p Some f vb] Some by (intro exI [of _ "phy_bitmap s"]) auto
next
  case None
  then obtain g gs where g: "free_frames (phy_bitmap s) = g # gs" using ff by (meson list.exhaust)
  obtain m where m: "page_map s va (frame_addr (memory_start s) f) =
      page_map (s\<lparr>phy_bitmap := bm_set (phy_bitmap s) g, mem := m\<rparr>) va (frame_addr (memory_start s) f)"
    and rel': "vm_rel (s\<lparr>phy_bitmap := bm_set (phy_bitmap s) g, mem := m\<rparr>) (pt(p div 16384 \<mapsto> g)) dm"
    and same: "\<forall>h < num_frames. h \<noteq> 0 \<longrightarrow> h \<noteq> g \<longrightarrow> same_frame m (mem s) (memory_start s) h"
    using page_map_new_table [OF rel p None g] by blast
  have fg: "f \<noteq> g" using free_framesD [of g "phy_bitmap s"] g f(3) by auto
  have tf: "table_frame (phy_bitmap s) pt (p div 16384) = pt(p div 16384 \<mapsto> g)"
    using None g by (simp add: table_frame_def)
  have ran: "f \<notin> ran (pt(p div 16384 \<mapsto> g))" using None f(4) fg by (simp add: ran_map_upd)
  have used: "bm_get (bm_set (phy_bitmap s) g) f"
    using free_framesD [of g "phy_bitmap s"] g f(3) vm_relD(4) [OF rel]
    by (simp add: bm_get_set frames_rel_def num_frames_def)
  have gin: "g \<in> ran (pt(p div 16384 \<mapsto> g))" using None by (simp add: ran_map_upd)
  from page_map_enter [OF rel' p _ f(1,2) _ ran f(5)] used vb
  obtain m' where "page_map (s\<lparr>phy_bitmap := bm_set (phy_bitmap s) g, mem := m\<rparr>) va (frame_addr (memory_start s) f)
      = Inr (if dm p = None then 0 else -1, s\<lparr>phy_bitmap := bm_set (phy_bitmap s) g, mem := m'\<rparr>)"
    "vm_rel (s\<lparr>phy_bitmap := bm_set (phy_bitmap s) g, mem := m'\<rparr>) (pt(p div 16384 \<mapsto> g))
       (if dm p = None then dm(p \<mapsto> f) else dm)"
    "\<forall>h < num_frames. h \<noteq> g \<longrightarrow> same_frame m' m (memory_start s) h"
    by auto
  then show ?thesis
    using m tf None g same gin
    by (intro exI [of _ "bm_set (phy_bitmap s) g"] exI [of _ m']) (auto intro: same_frame_trans)
qed

subsection \<open>Setting the memory up\<close>

lemma bm_get_zeros: "i < 8 * n \<Longrightarrow> \<not> bm_get (replicate n 0) i"
  by (simp add: bm_get_def less_mult_imp_div_less mult.commute)

lemma free_frames_zeros: "free_frames (replicate 2048 0) = [0..<num_frames]"
  by (simp add: free_frames_def bm_get_zeros num_frames_def filter_id_conv)

lemma slot_set0: "i < 2 ^ 28 \<Longrightarrow> slot (mem_set0 m ms MEMSIZE) ms i = 0"
  unfolding slot_def
proof (rule load32_zero)
  fix k :: nat
  assume "i < 2 ^ 28" "k < 4"
  then have "mem_set0 m (ms + of_nat 0) MEMSIZE (ms + of_nat (4 * i + k)) = 0"
    by (subst mem_set0_off) (simp_all add: MEMSIZE_def)
  then show "mem_set0 m ms MEMSIZE (ms + of_nat (4 * i) + of_nat k) = 0"
    by (simp add: add.assoc)
qed

lemma set_physical_mem_rel:
  assumes "block_ok (heap_block s)" and "tlb_store (cache s) = None"
  shows "\<exists>s'. set_physical_mem s = Inr s' \<and> vm_rel s' Map.empty Map.empty
    \<and> phy_bitmap s' = bm_set (replicate 2048 0) 0 \<and> virt_bitmap s' = replicate 8192 0
    \<and> memory_start s' = heap_block s \<and> mutex_locked s' = mutex_locked s"
proof -
  let ?ms = "heap_block s" and ?pb = "replicate 2048 (0::byte)"
  let ?m = "zero_entries 4 ?ms (mem_set0 (mem s) ?ms MEMSIZE)"
  let ?s = "s\<lparr>geom := geo, memory_start := ?ms, num_pages := 16384, phy_bitmap := bm_set ?pb 0,
     virt_bitmap := replicate 8192 0, page_dir := ?ms, mem := ?m,
     cache := (cache s)\<lparr>tlb_store := Some empty_tlb\<rparr>\<rparr>"
  have nz: "?ms \<noteq> 0" using assms(1) by (simp add: block_ok_def)
  have sizes: "MEMSIZE div PGSIZE = 16384" "MEMSIZE div (8 * PGSIZE) = 2048"
    "nat ((page_dir_entries geo * page_table_entries geo) sdiv 8) = 8192" "nat (page_dir_entries geo) = 4"
    by (simp_all add: MEMSIZE_def PGSIZE_def geo_def c_arith)
  have "0 < num_frames" by (simp add: num_frames_def)
  then have upt: "[0..<num_frames] = 0 # [1..<num_frames]" using upt_conv_Cons [of 0 num_frames] by simp
  have f0: "first_free_page ?ms ?pb = Inr ?ms"
    by (simp add: first_free_page_spec free_frames_zeros upt) (simp add: frame_addr_def)
  have fi: "frame_index ?ms ?ms = int 0"
    using frame_index_addr [of 0 ?ms] by (simp add: num_frames_def frame_addr_def)
  have run: "set_physical_mem s = Inr ?s"
    using assms nz f0 set_bit_in [of 0 ?pb]
    by (simp add: set_physical_mem_def Let_def calculate_entries_bits_geo sizes fi)
  have "slot ?m ?ms d = 0" if "d < 4" for d
    using slot_zero_entries [of 0 4 d ?ms] that by simp
  then have "tables_rel ?m ?ms Map.empty Map.empty" by (simp add: tables_rel_def frame_opt_def)
  moreover have "frames_rel (bm_set ?pb 0) (replicate 8192 0) Map.empty Map.empty"
    using bm_get_set [of 0 ?pb 0] by (simp add: frames_rel_def)
  moreover have "tlb_ok (cache ?s)" "tlb_entries (cache ?s) = {}"
    by (simp_all add: tlb_ok_def tlb_entries_def) (simp add: empty_tlb_def)
  ultimately have "vm_rel ?s Map.empty Map.empty"
    using assms(1) by (simp add: vm_rel_def coherent_def)
  then show ?thesis using run by auto
qed

end
