(* ===== verification/Vm_Alloc.thy ===== *)
theory Vm_Alloc
  imports Vm_Paging
begin

text \<open>
  Allocation of pages: \<open>t_malloc\<close> of \<open>Level -3/my_vm.c\<close>, and the mutex of the library.

  Every operation holds the one mutex from its first line to its return; locking it while it is already
  held by the only thread of the model never returns (\<open>Deadlock\<close>).  The page count is
  \<open>ceil(n / (float)PGSIZE)\<close>; the program is built with \<open>-m32\<close>, where the quotient by a power of
  two is evaluated without rounding, so the count is the exact ceiling.
\<close>

subsection \<open>Operations\<close>

definition lock :: "vm \<Rightarrow> vm result" where
  "lock s = (if mutex_locked s then Inl Deadlock else Inr (s\<lparr>mutex_locked := True\<rparr>))"

definition unlock :: "vm \<Rightarrow> vm" where
  "unlock s = s\<lparr>mutex_locked := False\<rparr>"

definition pages_of :: "int \<Rightarrow> int" where
  "pages_of n = - ((- n) div int PGSIZE)"

text \<open>The loop of \<open>t_malloc\<close>, with the number of pages that are left.\<close>

primrec t_malloc_loop :: "nat \<Rightarrow> addr \<Rightarrow> addr \<Rightarrow> vm \<Rightarrow> vm result" where
  "t_malloc_loop 0 va phy_page s = Inr s"
| "t_malloc_loop (Suc k) va phy_page s =
     (let g = geom s;
          page_dir_index = sint (extract_bits va 1 (page_dir_bits g));
          page_table_index = sint (extract_bits va (page_dir_bits g + 1) (page_table_bits g))
      in case set_bit_at_index (virt_bitmap s) (page_dir_index * page_table_entries g + page_table_index) of
           Inl f \<Rightarrow> Inl f
         | Inr vb \<Rightarrow>
        (case set_bit_at_index (phy_bitmap s) (frame_index (memory_start s) phy_page) of
           Inl f \<Rightarrow> Inl f
         | Inr pb \<Rightarrow>
        (case page_map (s\<lparr>virt_bitmap := vb, phy_bitmap := pb\<rparr>) va phy_page of
           Inl f \<Rightarrow> Inl f
         | Inr (page_map_status, s) \<Rightarrow>
        (case first_free_page (memory_start s) (phy_bitmap s) of
           Inl f \<Rightarrow> Inl f
         | Inr phy_page \<Rightarrow>
             t_malloc_loop k (if k \<noteq> 0 then get_next_page g va else va) phy_page s))))"

definition t_malloc :: "vm \<Rightarrow> 32 word \<Rightarrow> (addr \<times> vm) result" where
  "t_malloc s num_bytes =
     (case lock s of
        Inl f \<Rightarrow> Inl f
      | Inr s \<Rightarrow>
          let pages_required = pages_of (uint num_bytes)
          in case (if memory_start s = 0 then set_physical_mem s else Inr s) of
               Inl f \<Rightarrow> Inl f
             | Inr s \<Rightarrow>
                 if memory_start s = 0 then Inr (0, unlock s)
                 else
                 let va = get_next_avail (geom s) (virt_bitmap s) pages_required
                 in case find_free_physical_page (memory_start s) (phy_bitmap s) pages_required of
                      Inl f \<Rightarrow> Inl f
                    | Inr None \<Rightarrow> Inr (0, unlock s)
                    | Inr (Some phy_pages) \<Rightarrow>
                   (case first_free_page (memory_start s) (phy_bitmap s) of
                      Inl f \<Rightarrow> Inl f
                    | Inr phy_page \<Rightarrow>
                   (case t_malloc_loop (nat pages_required) va phy_page s of
                      Inl f \<Rightarrow> Inl f
                    | Inr s \<Rightarrow> Inr (va, unlock s))))"

subsection \<open>Locking\<close>

lemma lock_free [simp]: "\<not> mutex_locked s \<Longrightarrow> lock s = Inr (s\<lparr>mutex_locked := True\<rparr>)"
  by (simp add: lock_def)

lemma lock_held [simp]: "mutex_locked s \<Longrightarrow> lock s = Inl Deadlock"
  by (simp add: lock_def)

lemma vm_rel_mutex [simp]: "vm_rel (s\<lparr>mutex_locked := b\<rparr>) pt dm \<longleftrightarrow> vm_rel s pt dm"
  by (simp add: vm_rel_def)

lemma vm_rel_unlock [simp]: "vm_rel (unlock s) pt dm \<longleftrightarrow> vm_rel s pt dm"
  by (simp add: unlock_def)

lemma unlock_simps [simp]:
  "mem (unlock s) = mem s" "memory_start (unlock s) = memory_start s" "\<not> mutex_locked (unlock s)"
  "phy_bitmap (unlock s) = phy_bitmap s" "virt_bitmap (unlock s) = virt_bitmap s"
  "heap_block (unlock s) = heap_block s"
  by (simp_all add: unlock_def)

subsection \<open>The free frames\<close>

lemma free_frames_set_hd:
  assumes "free_frames bm = f # fs" and "length bm = 2048"
  shows "free_frames (bm_set bm f) = fs"
proof -
  have f: "f < num_frames" "\<not> bm_get bm f" using free_framesD [of f bm] assms(1) by auto
  have "bm_get (bm_set bm f) h \<longleftrightarrow> h = f \<or> bm_get bm h" if "h < num_frames" for h
    using that f assms(2) bm_get_set [of f bm h] by (auto simp: num_frames_def)
  then have "free_frames (bm_set bm f) = filter (\<lambda>h. h \<noteq> f) (free_frames bm)"
    by (auto simp: free_frames_def intro!: filter_cong)
  moreover have "distinct (free_frames bm)" by (simp add: free_frames_def)
  ultimately show ?thesis using assms(1) by (auto simp: filter_id_conv)
qed

text \<open>The directory entries without a page table, each of which may cost one more frame.\<close>

definition missing :: "(nat \<Rightarrow> nat option) \<Rightarrow> nat" where
  "missing pt = card {d. d < 4 \<and> pt d = None}"

lemma missing_le: "missing pt \<le> 4"
proof -
  have "missing pt \<le> card {d::nat. d < 4}" unfolding missing_def by (intro card_mono) auto
  then show ?thesis by simp
qed

lemma missing_add:
  assumes "d < 4" and "pt d = None"
  shows "missing pt = Suc (missing (pt(d \<mapsto> g)))"
proof -
  have "{e. e < 4 \<and> pt e = None} = insert d {e. e < 4 \<and> (pt(d \<mapsto> g)) e = None}" using assms by auto
  moreover have "finite {e. e < 4 \<and> (pt(d \<mapsto> g)) e = None}" by simp
  ultimately show ?thesis by (simp add: missing_def)
qed

subsection \<open>One round of the allocation loop\<close>

lemma page_index:
  "sint (dir_index va) * page_table_entries geo + sint (table_index va) = int (page_no va)"
proof -
  have "unat (dir_index va) < 2 ^ 31" "unat (table_index va) < 2 ^ 31"
    using page_no_lt [of va] by (simp_all add: unat_dir_index unat_table_index)
  then have "sint (dir_index va) * page_table_entries geo + sint (table_index va) =
      int (page_no va div 16384) * 16384 + int (page_no va mod 16384)"
    by (simp only: sint_index unat_dir_index unat_table_index) (simp add: geo_def)
  also have "\<dots> = int (page_no va)" using div_mult_mod_eq [of "page_no va" 16384] by linarith
  finally show ?thesis .
qed

lemma t_malloc_step:
  assumes rel: "vm_rel s pt dm" and p: "page_no va = p" and fresh: "dm p = None"
    and ff: "free_frames (phy_bitmap s) = f # fs" and room: "Suc k + missing pt < length (f # fs)"
  shows "\<exists>s' pt' f' fs'. t_malloc_loop (Suc k) va (frame_addr (memory_start s) f) s =
        t_malloc_loop k (if k \<noteq> 0 then get_next_page geo va else va) (frame_addr (memory_start s) f') s'
    \<and> vm_rel s' pt' (dm(p \<mapsto> f)) \<and> free_frames (phy_bitmap s') = f' # fs'
    \<and> k + missing pt' < length (f' # fs') \<and> memory_start s' = memory_start s
    \<and> mutex_locked s' = mutex_locked s \<and> virt_bitmap s' = bm_set (virt_bitmap s) p
    \<and> length (f # fs) + missing pt' = Suc (length (f' # fs') + missing pt)
    \<and> pt' = table_frame (bm_set (phy_bitmap s) f) pt (p div 16384)
    \<and> f' # fs' = (if pt (p div 16384) = None then tl fs else fs)
    \<and> (\<forall>h < num_frames. bm_get (phy_bitmap s) h \<longrightarrow> bm_get (phy_bitmap s') h
         \<and> (h \<notin> ran pt \<longrightarrow> h \<notin> ran pt' \<and> (h \<noteq> 0 \<longrightarrow> same_frame (mem s') (mem s) (memory_start s) h)))"
proof -
  note D = vm_relD [OF rel] and F = frames_relD [OF vm_relD(4) [OF rel]]
  let ?ms = "memory_start s" and ?d = "p div 16384"
  have pn: "p < num_vpages" using p page_no_lt [of va] by (simp add: num_vpages_def)
  have f: "f < num_frames" "\<not> bm_get (phy_bitmap s) f" using free_framesD [of f "phy_bitmap s"] ff by auto
  note un = unmarked_unused [OF D(4) f(2)]
  let ?vb = "bm_set (virt_bitmap s) p" and ?pb = "bm_set (phy_bitmap s) f"
  define s1 where "s1 = s\<lparr>virt_bitmap := ?vb, phy_bitmap := ?pb\<rparr>"
  have s1: "phy_bitmap s1 = ?pb" "virt_bitmap s1 = ?vb" "mem s1 = mem s" "memory_start s1 = ?ms"
    "mutex_locked s1 = mutex_locked s" by (simp_all add: s1_def)
  have rel1: "vm_rel s1 pt dm"
    using rel frames_mark [OF frames_mark_page [OF D(4) pn] f(1)] by (simp add: vm_rel_def s1_def)
  have ff1: "free_frames ?pb = fs" by (rule free_frames_set_hd [OF ff F(1)])
  have used: "bm_get ?pb f" using f F(1) by (simp add: bm_get_set num_frames_def)
  have vset: "bm_get ?vb p" using pn F(2) by (simp add: bm_get_set num_vpages_def)
  let ?pt = "table_frame ?pb pt ?d"
  have fs: "fs \<noteq> []" using room by auto
  obtain pb m where map: "page_map s1 va (frame_addr ?ms f) = Inr (0, s1\<lparr>phy_bitmap := pb, mem := m\<rparr>)"
    and rel2: "vm_rel (s1\<lparr>phy_bitmap := pb, mem := m\<rparr>) ?pt (dm(p \<mapsto> f))"
    and pb: "pb = (if pt ?d = None then bm_set ?pb (hd fs) else ?pb)"
    and same: "\<forall>h < num_frames. h \<noteq> 0 \<longrightarrow> h \<notin> ran ?pt \<longrightarrow> same_frame m (mem s) ?ms h"
    using page_map_rel [OF rel1 p _ f(1) _ un(2,3)] un(1) used vset fresh ff1 fs unfolding s1 by auto
  have "\<exists>f' fs'. free_frames pb = f' # fs' \<and> k + missing ?pt < length (f' # fs')
    \<and> length (f # fs) + missing ?pt = Suc (length (f' # fs') + missing pt)
    \<and> f' # fs' = (if pt ?d = None then tl fs else fs)"
  proof (cases "pt ?d = None")
    case True
    obtain g gs where g: "fs = g # gs" using fs by (meson list.exhaust)
    have "?d < 4" using pn by (simp add: num_vpages_def)
    then have "missing pt = Suc (missing ?pt)"
      unfolding table_frame_def using True missing_add [of ?d pt] by simp
    moreover have "free_frames pb = gs"
      using True pb g free_frames_set_hd [of ?pb g gs] ff1 frames_relD(1) [OF vm_relD(4) [OF rel1], unfolded s1] by simp
    ultimately show ?thesis using room g True by (cases gs) auto
  next
    case False
    then have "?pt = pt" "pb = ?pb" unfolding pb by (auto simp: table_frame_def)
    then show ?thesis using ff1 room False by (cases fs) auto
  qed
  then obtain f' fs' where f': "free_frames pb = f' # fs'" "k + missing ?pt < length (f' # fs')"
      "length (f # fs) + missing ?pt = Suc (length (f' # fs') + missing pt)"
      "f' # fs' = (if pt ?d = None then tl fs else fs)" by blast
  have old: "bm_get pb h \<and> (h \<notin> ran pt \<longrightarrow> h \<notin> ran ?pt)" if "h < num_frames" "bm_get (phy_bitmap s) h" for h
  proof (cases "pt ?d = None")
    case True
    have g: "hd fs < num_frames" "\<not> bm_get ?pb (hd fs)" using free_framesD [of "hd fs" ?pb] ff1 fs by auto
    have "bm_get ?pb h" using that f F(1) by (simp add: bm_get_set num_frames_def)
    moreover have "bm_get pb h"
      using True pb g frames_relD(1) [OF vm_relD(4) [OF rel1], unfolded s1] calculation
      by (simp add: bm_get_set num_frames_def)
    ultimately show ?thesis using True g ff1 by (auto simp: table_frame_def ran_map_upd)
  next
    case False
    then have "?pt = pt" "pb = ?pb" unfolding pb by (auto simp: table_frame_def)
    then show ?thesis using that f F(1) by (simp add: bm_get_set num_frames_def)
  qed
  define s2 where "s2 = s1\<lparr>phy_bitmap := pb, mem := m\<rparr>"
  have s2: "phy_bitmap s2 = pb" "virt_bitmap s2 = ?vb" "mem s2 = m" "memory_start s2 = ?ms" "mutex_locked s2 = mutex_locked s"
    by (simp_all add: s2_def s1)
  have "set_bit_at_index (virt_bitmap s) (int p) = Inr ?vb"
    "set_bit_at_index (phy_bitmap s) (int f) = Inr ?pb"
    using pn f F(1,2) by (simp_all add: num_vpages_def num_frames_def)
  then have run: "t_malloc_loop (Suc k) va (frame_addr ?ms f) s =
      t_malloc_loop k (if k \<noteq> 0 then get_next_page geo va else va) (frame_addr ?ms f') s2"
    using map f'(1) D(1) f s1(4) by (simp add: page_index p frame_index_addr first_free_page_spec s1_def [symmetric] s2_def)
  have kept: "\<forall>h < num_frames. bm_get (phy_bitmap s) h \<longrightarrow> bm_get (phy_bitmap s2) h
      \<and> (h \<notin> ran pt \<longrightarrow> h \<notin> ran ?pt \<and> (h \<noteq> 0 \<longrightarrow> same_frame (mem s2) (mem s) ?ms h))"
    using old same by (simp only: s2) blast
  show ?thesis
    by (rule exI [of _ s2], rule exI [of _ ?pt], rule exI [of _ f'], rule exI [of _ fs'])
      (intro conjI run rel2 [folded s2_def] f'(1) [folded s2(1)] f'(2-4) s2(2,4,5) refl kept)
qed

subsection \<open>Allocation\<close>

lemma t_malloc_loop_spec:
  assumes "vm_rel s pt dm" and "p + k \<le> num_vpages" and "k \<noteq> 0 \<longrightarrow> va = page_va p"
    and "\<forall>q \<in> {p..<p + k}. dm q = None"
    and "free_frames (phy_bitmap s) = f # fs" and "k + missing pt < length (f # fs)"
  shows "\<exists>s' pt' dm'. t_malloc_loop k va (frame_addr (memory_start s) f) s = Inr s'
    \<and> vm_rel s' pt' dm' \<and> memory_start s' = memory_start s \<and> mutex_locked s' = mutex_locked s
    \<and> (\<forall>q. q \<notin> {p..<p + k} \<longrightarrow> dm' q = dm q)
    \<and> (\<forall>q \<in> {p..<p + k}. \<exists>g. dm' q = Some g \<and> \<not> bm_get (phy_bitmap s) g)
    \<and> (\<forall>q < num_vpages. bm_get (virt_bitmap s') q \<longleftrightarrow> bm_get (virt_bitmap s) q \<or> q \<in> {p..<p + k})
    \<and> length (free_frames (phy_bitmap s)) + missing pt' = length (free_frames (phy_bitmap s')) + k + missing pt
    \<and> (\<forall>h < num_frames. bm_get (phy_bitmap s) h \<longrightarrow> bm_get (phy_bitmap s') h
         \<and> (h \<noteq> 0 \<longrightarrow> h \<notin> ran pt \<longrightarrow> same_frame (mem s') (mem s) (memory_start s) h))"
  using assms
proof (induction k arbitrary: s pt dm p va f fs)
  case 0
  then show ?case by (intro exI [of _ s]) auto
next
  case (Suc k)
  note D = vm_relD [OF Suc.prems(1)] and F = frames_relD [OF vm_relD(4) [OF Suc.prems(1)]]
  have pn: "p < 65536" using Suc.prems(2) by (simp add: num_vpages_def)
  have va: "page_no va = p" using Suc.prems(3) pn by simp
  have fresh: "dm p = None" using Suc.prems(4) by auto
  obtain s1 pt1 f1 fs1 where step: "t_malloc_loop (Suc k) va (frame_addr (memory_start s) f) s =
        t_malloc_loop k (if k \<noteq> 0 then get_next_page geo va else va) (frame_addr (memory_start s) f1) s1"
    and rel: "vm_rel s1 pt1 (dm(p \<mapsto> f))" and ff: "free_frames (phy_bitmap s1) = f1 # fs1"
    and room: "k + missing pt1 < length (f1 # fs1)" and ms: "memory_start s1 = memory_start s"
    and lk: "mutex_locked s1 = mutex_locked s" and vb: "virt_bitmap s1 = bm_set (virt_bitmap s) p"
    and num: "length (f # fs) + missing pt1 = Suc (length (f1 # fs1) + missing pt)"
    and old: "\<forall>h < num_frames. bm_get (phy_bitmap s) h \<longrightarrow> bm_get (phy_bitmap s1) h
       \<and> (h \<notin> ran pt \<longrightarrow> h \<notin> ran pt1 \<and> (h \<noteq> 0 \<longrightarrow> same_frame (mem s1) (mem s) (memory_start s) h))"
    using t_malloc_step [OF Suc.prems(1) va fresh Suc.prems(5), of k] Suc.prems(6) by auto
  have "p + 1 + k \<le> num_vpages" "\<forall>q \<in> {p + 1..<p + 1 + k}. (dm(p \<mapsto> f)) q = None"
    "k \<noteq> 0 \<longrightarrow> (if k \<noteq> 0 then get_next_page geo va else va) = page_va (p + 1)"
    using Suc.prems(2,3,4) get_next_page_va [OF pn] by auto
  from Suc.IH [OF rel this(1) this(3) this(2) ff room]
  obtain s' pt' dm' where s': "t_malloc_loop k (if k \<noteq> 0 then get_next_page geo va else va)
        (frame_addr (memory_start s1) f1) s1 = Inr s'" "vm_rel s' pt' dm'"
      "memory_start s' = memory_start s1" "mutex_locked s' = mutex_locked s1"
    and dm': "\<forall>q. q \<notin> {p + 1..<p + 1 + k} \<longrightarrow> dm' q = (dm(p \<mapsto> f)) q"
      "\<forall>q \<in> {p + 1..<p + 1 + k}. \<exists>g. dm' q = Some g \<and> \<not> bm_get (phy_bitmap s1) g"
    and vb': "\<forall>q < num_vpages. bm_get (virt_bitmap s') q \<longleftrightarrow> bm_get (virt_bitmap s1) q \<or> q \<in> {p + 1..<p + 1 + k}"
    and num': "length (free_frames (phy_bitmap s1)) + missing pt' = length (free_frames (phy_bitmap s')) + k + missing pt1"
    and old': "\<forall>h < num_frames. bm_get (phy_bitmap s1) h \<longrightarrow> bm_get (phy_bitmap s') h
       \<and> (h \<noteq> 0 \<longrightarrow> h \<notin> ran pt1 \<longrightarrow> same_frame (mem s') (mem s1) (memory_start s1) h)"
    by blast
  have f: "f < num_frames" "\<not> bm_get (phy_bitmap s) f"
    using free_framesD [of f "phy_bitmap s"] Suc.prems(5) by auto
  have mapped: "\<exists>g. dm' q = Some g \<and> \<not> bm_get (phy_bitmap s) g" if q: "q \<in> {p..<p + Suc k}" for q
  proof (cases "q = p")
    case True
    then show ?thesis using dm'(1) f by simp
  next
    case False
    then have "q \<in> {p + 1..<p + 1 + k}" using q by auto
    then obtain g where g: "dm' q = Some g" "\<not> bm_get (phy_bitmap s1) g" using dm'(2) by blast
    have "g < num_frames" using frames_relD(5) [OF vm_relD(4) [OF s'(2)] g(1)] by simp
    then show ?thesis using g old by blast
  qed
  have others: "dm' q = dm q" if "q \<notin> {p..<p + Suc k}" for q using that dm'(1) by auto
  have virt: "bm_get (virt_bitmap s') q \<longleftrightarrow> bm_get (virt_bitmap s) q \<or> q \<in> {p..<p + Suc k}"
    if "q < num_vpages" for q
  proof -
    have "bm_get (virt_bitmap s1) q \<longleftrightarrow> q = p \<or> bm_get (virt_bitmap s) q"
      using that pn F(2) vb by (simp add: bm_get_set num_vpages_def)
    moreover have "q \<in> {p..<p + Suc k} \<longleftrightarrow> q = p \<or> q \<in> {p + 1..<p + 1 + k}" by auto
    ultimately show ?thesis using vb' that by blast
  qed
  have kept: "bm_get (phy_bitmap s') h \<and> (h \<noteq> 0 \<longrightarrow> h \<notin> ran pt \<longrightarrow> same_frame (mem s') (mem s) (memory_start s) h)"
    if "h < num_frames" "bm_get (phy_bitmap s) h" for h
    using old old' that ms same_frame_trans by metis
  have "length (free_frames (phy_bitmap s)) + missing pt' = length (free_frames (phy_bitmap s')) + Suc k + missing pt"
    using num num' unfolding Suc.prems(5) ff by linarith
  then show ?case
    using step s' ms lk mapped others virt kept
    by (intro exI [of _ s'] exI [of _ pt'] exI [of _ dm']) simp
qed

lemma pages_of_pos: "0 < n \<Longrightarrow> 0 < pages_of n"
  by (simp add: pages_of_def PGSIZE_def)

text \<open>A page whose bitmap entry is clear is not mapped.\<close>

lemma free_run_unmapped:
  assumes "vm_rel s pt dm" and "free_run (virt_bitmap s) len p" and "q \<in> {p..<p + len}"
  shows "dm q = None"
proof (cases "dm q")
  case (Some f)
  then have "bm_get (virt_bitmap s) q" using frames_relD(5) [OF vm_relD(4) [OF assms(1)]] by blast
  moreover have "\<not> bm_get (virt_bitmap s) q" if "q = p + i" "i < len" for i
    using assms(2) that by (simp add: free_run_def)
  ultimately show ?thesis using assms(3) by (metis add_diff_inverse_nat atLeastLessThan_iff less_diff_conv2 linorder_not_less add.commute)
qed simp

text \<open>With a run of virtual pages and enough frames, an allocation is its loop.\<close>

lemma t_malloc_by_loop:
  assumes rel: "vm_rel s0 pt dm" and lk: "\<not> mutex_locked s"
    and start: "(if memory_start s = 0 then set_physical_mem (s\<lparr>mutex_locked := True\<rparr>)
      else Inr (s\<lparr>mutex_locked := True\<rparr>)) = Inr s0"
    and n: "n = pages_of (uint num_bytes)" "1 \<le> n"
    and run: "first_run (virt_bitmap s0) (run_length n) 0 = Some p"
    and ff: "free_frames (phy_bitmap s0) = f # fs" and room: "nat n \<le> length (f # fs)"
  shows "t_malloc s num_bytes = map_sum id (\<lambda>s. (page_va p, unlock s))
    (t_malloc_loop (nat n) (page_va p) (frame_addr (memory_start s0) f) s0)"
proof -
  note D = vm_relD [OF rel]
  have ms: "memory_start s0 \<noteq> 0" using D(2) by (simp add: block_ok_def)
  have "find_free_physical_page (memory_start s0) (phy_bitmap s0) n =
      Inr (Some (map (frame_addr (memory_start s0)) (take (nat n) (free_frames (phy_bitmap s0)))))"
    using n(2) room ff by (simp add: find_free_physical_page_spec)
  moreover have "get_next_avail (geom s0) (virt_bitmap s0) n = page_va p"
    using D(1) get_next_avail_spec [OF n(2)] run by simp
  ultimately show ?thesis
    using lk start ms ff by (simp add: t_malloc_def n(1) [symmetric] first_free_page_spec Let_def split: sum.split)
qed

text \<open>What a successful allocation gives, from either start.\<close>

lemma t_malloc_mapped:
  assumes rel: "vm_rel s0 pt dm" and lk: "\<not> mutex_locked s"
    and start: "(if memory_start s = 0 then set_physical_mem (s\<lparr>mutex_locked := True\<rparr>)
      else Inr (s\<lparr>mutex_locked := True\<rparr>)) = Inr s0" and lk0: "mutex_locked s0"
    and n: "n = pages_of (uint num_bytes)" "1 \<le> n"
    and run: "first_run (virt_bitmap s0) (run_length n) 0 = Some p"
    and room: "nat n + 4 < length (free_frames (phy_bitmap s0))"
  shows "\<exists>s' pt' dm'. t_malloc s num_bytes = Inr (page_va p, s') \<and> vm_rel s' pt' dm'
    \<and> \<not> mutex_locked s' \<and> memory_start s' = memory_start s0
    \<and> (\<forall>q. q \<notin> {p..<p + nat n} \<longrightarrow> dm' q = dm q)
    \<and> (\<forall>q \<in> {p..<p + nat n}. dm q = None \<and> (\<exists>g. dm' q = Some g \<and> \<not> bm_get (phy_bitmap s0) g))
    \<and> (\<forall>q < num_vpages. bm_get (virt_bitmap s') q \<longleftrightarrow> bm_get (virt_bitmap s0) q \<or> q \<in> {p..<p + nat n})
    \<and> length (free_frames (phy_bitmap s0)) + missing pt' = length (free_frames (phy_bitmap s')) + nat n + missing pt
    \<and> (\<forall>h < num_frames. bm_get (phy_bitmap s0) h \<longrightarrow> bm_get (phy_bitmap s') h
         \<and> (h \<noteq> 0 \<longrightarrow> h \<notin> ran pt \<longrightarrow> same_frame (mem s') (mem s0) (memory_start s0) h))"
proof -
  obtain f fs where ff: "free_frames (phy_bitmap s0) = f # fs" using room by (cases "free_frames (phy_bitmap s0)") auto
  have r: "free_run (virt_bitmap s0) (run_length n) p" "p + run_length n \<le> num_vpages"
    using first_run_Some [OF run] by auto
  have len: "nat n \<le> run_length n" by (simp add: run_length_def)
  have fresh: "\<forall>q \<in> {p..<p + nat n}. dm q = None"
    using free_run_unmapped [OF rel r(1)] len by auto
  have frames: "nat n + missing pt < length (f # fs)" using room missing_le [of pt] unfolding ff by linarith
  obtain s' pt' dm' where s': "t_malloc_loop (nat n) (page_va p) (frame_addr (memory_start s0) f) s0 = Inr s'"
      "vm_rel s' pt' dm'" "memory_start s' = memory_start s0"
    and post: "\<forall>q. q \<notin> {p..<p + nat n} \<longrightarrow> dm' q = dm q"
      "\<forall>q \<in> {p..<p + nat n}. \<exists>g. dm' q = Some g \<and> \<not> bm_get (phy_bitmap s0) g"
      "\<forall>q < num_vpages. bm_get (virt_bitmap s') q \<longleftrightarrow> bm_get (virt_bitmap s0) q \<or> q \<in> {p..<p + nat n}"
      "length (free_frames (phy_bitmap s0)) + missing pt' = length (free_frames (phy_bitmap s')) + nat n + missing pt"
      "\<forall>h < num_frames. bm_get (phy_bitmap s0) h \<longrightarrow> bm_get (phy_bitmap s') h
         \<and> (h \<noteq> 0 \<longrightarrow> h \<notin> ran pt \<longrightarrow> same_frame (mem s') (mem s0) (memory_start s0) h)"
    using t_malloc_loop_spec [OF rel _ _ fresh ff frames, of "page_va p"] r(2) len by auto
  have "t_malloc s num_bytes = Inr (page_va p, unlock s')"
    using t_malloc_by_loop [OF rel lk start n run ff] room s'(1) unfolding ff by simp
  then show ?thesis
    using s' post fresh by (intro exI [of _ "unlock s'"] exI [of _ pt'] exI [of _ dm']) simp
qed

subsection \<open>What a program sees\<close>

lemma walk_none: "vm_rel s pt dm \<Longrightarrow> q < num_vpages \<Longrightarrow> walk s q = None \<longleftrightarrow> dm q = None"
  by (simp add: walk_rel)

lemma page_no_vpages [simp]: "page_no va < num_vpages"
  using page_no_lt [of va] by (simp add: num_vpages_def)

lemma vread_rel:
  assumes "vm_rel s pt dm"
  shows "vread s va = map_option (\<lambda>f. mem s (frame_addr (memory_start s) f + of_nat (page_off va))) (dm (page_no va))"
  using walk_rel [OF assms, of "page_no va"] by (simp add: vread_def option.map_comp o_def)

lemma vread_same:
  assumes "vm_rel s pt dm" and "vm_rel s' pt' dm'" and "memory_start s' = memory_start s"
    and "dm' (page_no va) = dm (page_no va)"
    and "\<And>f. dm (page_no va) = Some f \<Longrightarrow> same_frame (mem s') (mem s) (memory_start s) f"
  shows "vread s' va = vread s va"
  using assms(3-5) page_off_lt [of va]
  by (cases "dm (page_no va)") (auto simp: vread_rel [OF assms(1)] vread_rel [OF assms(2)] same_frame_def)

lemma marked_frames_vread:
  assumes "vm_rel s pt dm" and "vm_rel s' pt' dm'" and "memory_start s' = memory_start s" and "dm' (page_no va) = dm (page_no va)"
    and "\<forall>h < num_frames. bm_get (phy_bitmap s) h \<longrightarrow>
      (h \<noteq> 0 \<longrightarrow> h \<notin> ran pt \<longrightarrow> same_frame (mem s') (mem s) (memory_start s) h)"
  shows "vread s' va = vread s va"
proof (rule vread_same [OF assms(1-4)])
  fix f
  assume f: "dm (page_no va) = Some f"
  show "same_frame (mem s') (mem s) (memory_start s) f"
    using assms(5) frames_relD(5) [OF vm_relD(4) [OF assms(1)] f] pt_dm_disjoint [OF vm_relD(4) [OF assms(1)] _ f]
    by (auto simp: ran_def)
qed

lemma vread_mutex [simp]: "vread (s\<lparr>mutex_locked := b\<rparr>) = vread s"
  by (simp add: fun_eq_iff vread_def walk_def Let_def)

lemma walk_inj:
  assumes "vm_rel s pt dm" and "q < num_vpages" and "r < num_vpages" and "walk s q = Some a" and "walk s r = Some a"
  shows "q = r"
proof -
  obtain f g where "dm q = Some f" "dm r = Some g" and a: "frame_addr (memory_start s) f = frame_addr (memory_start s) g"
    using walk_bound [OF assms(1,4,2)] walk_bound [OF assms(1,5,3)] by auto
  moreover have "f = g"
    using a calculation frames_relD(5) [OF vm_relD(4) [OF assms(1)]] frame_addr_inj by metis
  ultimately show ?thesis using dm_inj [OF vm_relD(4) [OF assms(1)]] by blast
qed

text \<open>C5: On a state of the memory manager in which \<open>n\<close> consecutive virtual pages and enough
  frames are free, \<open>t_malloc\<close> returns the address of the first run of free pages that
  \<open>get_next_avail\<close> accepts, keeps the invariant of the page tables, the bitmaps and the TLB,
  releases the mutex, maps exactly the \<open>n\<close> pages of the block, which were unmapped, gives no
  frame to two pages, and changes no byte that was readable before.\<close>

theorem t_malloc_maps_block:
  assumes "vm_inv s" and "\<not> mutex_locked s" and "num_bytes \<noteq> 0" and "n = pages_of (uint num_bytes)"
    and "first_run (virt_bitmap s) (run_length n) 0 = Some p"
    and "nat n + 4 < length (free_frames (phy_bitmap s))"
  shows "\<exists>s'. t_malloc s num_bytes = Inr (page_va p, s') \<and> vm_inv s' \<and> \<not> mutex_locked s'
    \<and> (\<forall>q \<in> {p..<p + nat n}. walk s q = None \<and> walk s' q \<noteq> None)
    \<and> (\<forall>q < num_vpages. q \<notin> {p..<p + nat n} \<longrightarrow> walk s' q = walk s q)
    \<and> (\<forall>q < num_vpages. \<forall>r < num_vpages. walk s' q = walk s' r \<longrightarrow> walk s' q = None \<or> q = r)
    \<and> (\<forall>va. vread s va \<noteq> None \<longrightarrow> vread s' va = vread s va)"
proof -
  obtain pt dm where rel: "vm_rel s pt dm" using assms(1) by (auto simp: vm_inv_def)
  have ms: "memory_start s \<noteq> 0" using vm_relD(2) [OF rel] by (simp add: block_ok_def)
  have n: "1 \<le> n" using pages_of_pos [of "uint num_bytes"] assms(3,4) by (simp add: word_neq_0_conv word_less_def)
  obtain s' pt' dm' where s': "t_malloc s num_bytes = Inr (page_va p, s')" "vm_rel s' pt' dm'"
      "\<not> mutex_locked s'" "memory_start s' = memory_start s"
      "\<forall>q. q \<notin> {p..<p + nat n} \<longrightarrow> dm' q = dm q"
    and new: "\<forall>q \<in> {p..<p + nat n}. dm q = None \<and> (\<exists>g. dm' q = Some g \<and> \<not> bm_get (phy_bitmap s) g)"
    and old: "\<forall>h < num_frames. bm_get (phy_bitmap s) h \<longrightarrow>
      (h \<noteq> 0 \<longrightarrow> h \<notin> ran pt \<longrightarrow> same_frame (mem s') (mem s) (memory_start s) h)"
    using t_malloc_mapped [of "s\<lparr>mutex_locked := True\<rparr>" pt dm s n num_bytes p] rel ms assms n by auto
  have bound: "q < num_vpages" if "q \<in> {p..<p + nat n}" for q
    using first_run_Some [OF assms(5)] that n by (auto simp: run_length_def)
  have block: "\<forall>q \<in> {p..<p + nat n}. walk s q = None \<and> walk s' q \<noteq> None"
    using new bound by (auto simp: walk_rel [OF rel] walk_rel [OF s'(2)])
  have same: "vread s' va = vread s va" if "vread s va \<noteq> None" for va
  proof (rule marked_frames_vread [OF rel s'(2,4) _ old])
    have "page_no va \<notin> {p..<p + nat n}" using that new by (auto simp: vread_rel [OF rel])
    then show "dm' (page_no va) = dm (page_no va)" using s'(5) by simp
  qed
  have inj: "\<forall>q < num_vpages. \<forall>r < num_vpages. walk s' q = walk s' r \<longrightarrow> walk s' q = None \<or> q = r"
    using walk_inj [OF s'(2)] by (metis option.exhaust)
  have others: "\<forall>q < num_vpages. q \<notin> {p..<p + nat n} \<longrightarrow> walk s' q = walk s q"
    using s'(4,5) by (simp add: walk_rel [OF rel] walk_rel [OF s'(2)])
  have "vm_inv s'" using s'(2) by (auto simp: vm_inv_def)
  then show ?thesis
    using s'(1,3) block same inj others by (intro exI [of _ s']) blast
qed

subsection \<open>The first allocation\<close>

lemma first_run_zeros: "0 < len \<Longrightarrow> len \<le> num_vpages \<Longrightarrow> first_run (replicate 8192 0) len 0 = Some 0"
proof -
  assume "0 < len" "len \<le> num_vpages"
  moreover have "free_run (replicate 8192 0) len 0"
    using calculation by (simp add: free_run_def bm_get_zeros num_vpages_def)
  moreover have "[0..<num_vpages + 1 - len] = 0 # [1..<num_vpages + 1 - len]"
    using calculation upt_conv_Cons [of 0 "num_vpages + 1 - len"] by simp
  ultimately show ?thesis by (simp add: first_run_def)
qed

lemma free_frames_boot: "free_frames (bm_set (replicate 2048 0) 0) = [1..<num_frames]"
proof -
  have "0 < num_frames" by (simp add: num_frames_def)
  then have "free_frames (replicate 2048 0) = 0 # [1..<num_frames]"
    using upt_conv_Cons [of 0 num_frames] free_frames_zeros by simp
  then show ?thesis by (intro free_frames_set_hd) simp_all
qed

lemma length_free_frames_zeros: "length (free_frames (bm_set (replicate 2048 0) 0)) = 16383"
  by (simp add: free_frames_boot num_frames_def)

lemma t_malloc_boot:
  assumes "block_ok block" and "num_bytes \<noteq> 0" and "n = pages_of (uint num_bytes)" and "n < 16379"
  shows "\<exists>s' pt dm. t_malloc (vm_start block nodes m) num_bytes = Inr (0, s') \<and> vm_rel s' pt dm
    \<and> \<not> mutex_locked s' \<and> memory_start s' = block
    \<and> (\<forall>q. dm q \<noteq> None \<longleftrightarrow> q < nat n)
    \<and> (\<forall>q < num_vpages. bm_get (virt_bitmap s') q \<longleftrightarrow> q < nat n)"
proof -
  let ?s = "vm_start block nodes m"
  obtain s0 where s0: "set_physical_mem (?s\<lparr>mutex_locked := True\<rparr>) = Inr s0" "vm_rel s0 Map.empty Map.empty"
      "phy_bitmap s0 = bm_set (replicate 2048 0) 0" "virt_bitmap s0 = replicate 8192 0"
      "memory_start s0 = block" "mutex_locked s0"
    using set_physical_mem_rel [of "?s\<lparr>mutex_locked := True\<rparr>"] assms(1) by (auto simp: vm_start_def)
  have n: "1 \<le> n" using pages_of_pos [of "uint num_bytes"] assms(2,3) by (simp add: word_neq_0_conv word_less_def)
  have run: "first_run (virt_bitmap s0) (run_length n) 0 = Some 0"
    using s0(4) assms(4) first_run_zeros [of "run_length n"] by (auto simp: run_length_def num_vpages_def)
  have "\<not> mutex_locked ?s" "memory_start ?s = 0" by (simp_all add: vm_start_def)
  moreover have "nat n + 4 < length (free_frames (phy_bitmap s0))"
    using assms(4) s0(3) length_free_frames_zeros by simp
  ultimately obtain s' pt dm where s': "t_malloc ?s num_bytes = Inr (page_va 0, s')" "vm_rel s' pt dm"
      "\<not> mutex_locked s'" "memory_start s' = memory_start s0"
    and dm: "\<forall>q. q \<notin> {0..<0 + nat n} \<longrightarrow> dm q = Map.empty q" "\<forall>q \<in> {0..<0 + nat n}. \<exists>g. dm q = Some g \<and> \<not> bm_get (phy_bitmap s0) g"
    and vb: "\<forall>q < num_vpages. bm_get (virt_bitmap s') q \<longleftrightarrow> bm_get (virt_bitmap s0) q \<or> q \<in> {0..<0 + nat n}"
    using t_malloc_mapped [where s = ?s, OF s0(2) _ _ s0(6) assms(3) n run] s0(1) by auto
  have "page_va 0 = 0" by (simp add: page_va_def)
  moreover have "dm q \<noteq> None \<longleftrightarrow> q < nat n" for q using dm by (cases "q < nat n") auto
  moreover have "bm_get (virt_bitmap s') q \<longleftrightarrow> q < nat n" if "q < num_vpages" for q
    using vb that s0(4) bm_get_zeros [of q 8192] by (simp add: num_vpages_def)
  ultimately show ?thesis using s' s0(5) by (intro exI [of _ s'] exI [of _ pt] exI [of _ dm]) simp
qed

text \<open>The first allocation of a program, which also sets the memory up, succeeds and maps
  pages 0 to \<open>n - 1\<close> in a state that satisfies the invariant; but it returns the virtual
  address 0, which a caller cannot tell from the null pointer that reports a failure.\<close>

theorem t_malloc_first_returns_zero:
  assumes "block_ok block" and "num_bytes \<noteq> 0" and "n = pages_of (uint num_bytes)" and "n < 16379"
  shows "\<exists>s'. t_malloc (vm_start block nodes m) num_bytes = Inr (0, s') \<and> vm_inv s' \<and> \<not> mutex_locked s'
    \<and> (\<forall>q < num_vpages. walk s' q \<noteq> None \<longleftrightarrow> q < nat n)"
proof -
  obtain s' pt dm where s': "t_malloc (vm_start block nodes m) num_bytes = Inr (0, s')" "vm_rel s' pt dm"
      "\<not> mutex_locked s'" "\<forall>q. dm q \<noteq> None \<longleftrightarrow> q < nat n"
    using t_malloc_boot [OF assms] by metis
  then show ?thesis by (intro exI [of _ s']) (auto simp: vm_inv_def walk_rel [OF s'(2)])
qed

theorem t_malloc_first_returns_zero_witness:
  "\<exists>s'. t_malloc (vm_start 65536 [] (\<lambda>_. 0)) 100000 = Inr (0, s') \<and> vm_inv s' \<and> \<not> mutex_locked s'
    \<and> (\<forall>q < num_vpages. walk s' q \<noteq> None \<longleftrightarrow> q < 2)"
  using t_malloc_first_returns_zero [of 65536 100000 2 "[]" "\<lambda>_. 0"]
  by (simp add: block_ok_def pages_of_def PGSIZE_def)

text \<open>A memory manager that has been set up and has allocated nothing yet.\<close>

lemma vm_fresh:
  "\<exists>s. vm_rel s Map.empty Map.empty \<and> \<not> mutex_locked s \<and> memory_start s = 65536
     \<and> phy_bitmap s = bm_set (replicate 2048 0) 0 \<and> virt_bitmap s = replicate 8192 0"
  using set_physical_mem_rel [of "vm_start 65536 [] (\<lambda>_. 0)"] by (auto simp: vm_start_def block_ok_def)

theorem t_malloc_maps_block_witness:
  "\<exists>s s'. t_malloc s 200000 = Inr (page_va 0, s') \<and> vm_inv s' \<and> (\<forall>q \<in> {0..<4}. walk s' q \<noteq> None)"
proof -
  obtain s where s: "vm_rel s Map.empty Map.empty" "\<not> mutex_locked s"
      "phy_bitmap s = bm_set (replicate 2048 0) 0" "virt_bitmap s = replicate 8192 0"
    using vm_fresh by blast
  have "vm_inv s" using s(1) by (auto simp: vm_inv_def)
  moreover have "first_run (virt_bitmap s) (run_length 4) 0 = Some 0"
    using s(4) first_run_zeros [of "run_length 4"] by (simp add: run_length_def num_vpages_def)
  moreover have "nat 4 + 4 < length (free_frames (phy_bitmap s))"
    using s(3) length_free_frames_zeros by simp
  moreover have "(200000 :: 32 word) \<noteq> 0" "(4 :: int) = pages_of (uint (200000 :: 32 word))"
    by (simp_all add: pages_of_def PGSIZE_def)
  ultimately obtain s' where "t_malloc s 200000 = Inr (page_va 0, s')" "vm_inv s'"
      "\<forall>q \<in> {0..<0 + nat 4}. walk s q = None \<and> walk s' q \<noteq> None"
    using t_malloc_maps_block [of s 200000 4 0] s(2) by blast
  then show ?thesis by (intro exI [of _ s] exI [of _ s']) simp
qed

subsection \<open>Exhaustion\<close>

text \<open>A request for more frames than are free is answered with the null pointer; nothing
  is changed and the mutex is released.\<close>

theorem t_malloc_out_of_frames:
  assumes "vm_inv s" and "\<not> mutex_locked s"
    and "length (free_frames (phy_bitmap s)) < nat (pages_of (uint num_bytes))"
  shows "t_malloc s num_bytes = Inr (0, s)"
proof -
  obtain pt dm where rel: "vm_rel s pt dm" using assms(1) by (auto simp: vm_inv_def)
  have "memory_start s \<noteq> 0" using vm_relD(2) [OF rel] by (simp add: block_ok_def)
  moreover have "0 < pages_of (uint num_bytes)" using assms(3) by simp
  moreover have "s\<lparr>mutex_locked := False\<rparr> = s" using assms(2) by simp
  ultimately show ?thesis
    using assms(2,3) by (simp add: t_malloc_def Let_def find_free_physical_page_spec unlock_def)
qed

theorem t_malloc_out_of_frames_witness:
  "\<exists>s. vm_inv s \<and> t_malloc s 0x80000000 = Inr (0, s)"
proof -
  obtain s where s: "vm_rel s Map.empty Map.empty" "\<not> mutex_locked s"
      "phy_bitmap s = bm_set (replicate 2048 0) 0"
    using vm_fresh by blast
  have inv: "vm_inv s" using s(1) by (auto simp: vm_inv_def)
  moreover have "length (free_frames (phy_bitmap s)) < nat (pages_of (uint (0x80000000 :: 32 word)))"
    by (simp add: s(3) length_free_frames_zeros) (simp add: pages_of_def PGSIZE_def)
  ultimately show ?thesis using t_malloc_out_of_frames [of s "0x80000000"] s(2) by blast
qed

text \<open>C23: Allocating the last free frame never returns: the loop looks for the frame of a next
  page even after the last one and dereferences the null pointer that the search returns.\<close>

theorem t_malloc_last_frame_crashes:
  assumes "vm_inv s" and "\<not> mutex_locked s" and "pages_of (uint num_bytes) = 1"
    and "free_frames (phy_bitmap s) = [f]"
  shows "t_malloc s num_bytes = Inl NullDeref"
proof -
  obtain pt dm where rel: "vm_rel s pt dm" using assms(1) by (auto simp: vm_inv_def)
  note D = vm_relD [OF rel] and F = frames_relD [OF vm_relD(4) [OF rel]]
  let ?va = "get_next_avail geo (virt_bitmap s) 1"
  let ?s = "s\<lparr>mutex_locked := True, virt_bitmap := bm_set (virt_bitmap s) (page_no ?va),
    phy_bitmap := bm_set (phy_bitmap s) f\<rparr>"
  have ms: "memory_start s \<noteq> 0" using D(2) by (simp add: block_ok_def)
  have f: "f < num_frames" using free_framesD [of f "phy_bitmap s"] assms(4) by simp
  have none: "free_frames (bm_set (phy_bitmap s) f) = []" by (rule free_frames_set_hd [OF assms(4) F(1)])
  have sets: "set_bit_at_index (virt_bitmap s) (int (page_no ?va)) = Inr (bm_set (virt_bitmap s) (page_no ?va))"
    "set_bit_at_index (phy_bitmap s) (int f) = Inr (bm_set (phy_bitmap s) f)"
    using page_no_lt [of ?va] f F(1,2) by (simp_all add: num_frames_def)
  have "(case page_map ?s ?va (frame_addr (memory_start s) f) of Inl e \<Rightarrow> Inl e
      | Inr (st, s') \<Rightarrow> (case first_free_page (memory_start s') (phy_bitmap s') of
            Inl e \<Rightarrow> Inl e | Inr a \<Rightarrow> t_malloc_loop 0 ?va a s')) = Inl NullDeref"
    using none by (simp add: page_map_def Let_def first_free_page_spec)
  then have "t_malloc_loop (Suc 0) ?va (frame_addr (memory_start s) f) (s\<lparr>mutex_locked := True\<rparr>) = Inl NullDeref"
    using sets f D(1) by (simp add: page_index frame_index_addr)
  then show ?thesis
    using assms ms D(1) by (simp add: t_malloc_def Let_def find_free_physical_page_spec first_free_page_spec)
qed

theorem t_malloc_last_frame_crashes_witness:
  "\<exists>s. vm_inv s \<and> free_frames (phy_bitmap s) = [16383] \<and> t_malloc s 1 = Inl NullDeref"
proof -
  obtain s where s: "vm_rel s Map.empty Map.empty" "\<not> mutex_locked s" using vm_fresh by blast
  let ?pb = "replicate 2047 255 @ [254 :: byte]"
  have "bm_get ?pb i \<longleftrightarrow> i \<noteq> 16383" if "i < num_frames" for i
  proof (cases "i < 16376")
    case True
    then have "?pb ! (i div 8) = 255" by (simp add: nth_append less_mult_imp_div_less)
    moreover have "7 - i mod 8 \<in> {0, 1, 2, 3, 4, 5, 6, 7}" by (simp; linarith)
    then have "bit (255 :: byte) (7 - i mod 8)" by (elim insertE emptyE) simp_all
    ultimately have "bm_get ?pb i" by (simp add: bm_get_def)
    then show ?thesis using True by simp
  next
    case False
    then have "i \<in> {16376, 16377, 16378, 16379, 16380, 16381, 16382, 16383}" using that by (auto simp: num_frames_def)
    then show ?thesis by (auto simp: bm_get_def nth_append)
  qed
  note bits = this
  have "filter (\<lambda>i. \<not> bm_get ?pb i) [0..<num_frames] = filter (\<lambda>i. i = 16383) [0..<Suc 16383]"
    using bits by (intro filter_cong) (auto simp: num_frames_def)
  also have "\<dots> = [16383]" by (subst upt_Suc_append) (simp_all add: filter_empty_conv)
  finally have ff: "free_frames ?pb = [16383]" by (simp add: free_frames_def)
  have "frames_rel ?pb (virt_bitmap s) Map.empty Map.empty"
    using s(1) bits [of 0] by (simp add: vm_rel_def frames_rel_def num_frames_def)
  then have "vm_inv (s\<lparr>phy_bitmap := ?pb\<rparr>)"
    using s(1) by (auto simp: vm_inv_def vm_rel_def)
  moreover have "pages_of (uint (1 :: 32 word)) = 1" by (simp add: pages_of_def PGSIZE_def)
  ultimately have "t_malloc (s\<lparr>phy_bitmap := ?pb\<rparr>) 1 = Inl NullDeref"
    using t_malloc_last_frame_crashes [of "s\<lparr>phy_bitmap := ?pb\<rparr>" 1 16383] s(2) ff by simp
  then show ?thesis using ff \<open>vm_inv (s\<lparr>phy_bitmap := ?pb\<rparr>)\<close>
    by (intro exI [of _ "s\<lparr>phy_bitmap := ?pb\<rparr>"]) simp
qed

end
