(* ===== verification/Vm_Free.thy ===== *)
theory Vm_Free
  imports Vm_Alloc
begin

text \<open>
  Release of pages: \<open>t_free\<close> of \<open>Level -3/my_vm.c\<close>.  The pages of a block are taken out of the
  page table, the TLB and, as far as \<open>unset_bit_at_index\<close> goes, the bitmaps.
\<close>

subsection \<open>Operations\<close>

text \<open>The two loops of \<open>t_free\<close>: the test of the entries, then the release.\<close>

primrec all_mapped_loop :: "nat \<Rightarrow> memory \<Rightarrow> addr \<Rightarrow> 32 word \<Rightarrow> bool" where
  "all_mapped_loop 0 m page_table i = True"
| "all_mapped_loop (Suc k) m page_table i =
     (if load32 m (entry_addr page_table i) = 0 then False
      else all_mapped_loop k m page_table (i + 1))"

primrec t_free_loop :: "nat \<Rightarrow> nat \<Rightarrow> 32 word \<Rightarrow> 32 word \<Rightarrow> addr \<Rightarrow> int \<Rightarrow> vm \<Rightarrow> vm result" where
  "t_free_loop 0 i page_dir_index page_table_index page_table start s = Inr s"
| "t_free_loop (Suc k) i page_dir_index page_table_index page_table start s =
     (let pte = entry_addr page_table (page_table_index + of_nat i)
      in case delete_from_tlb (cache s)
             (form_virtual_address (geom s) page_dir_index (page_table_index + of_nat i)) of
           Inl f \<Rightarrow> Inl f
         | Inr c \<Rightarrow>
             let m = store32 (mem_set0 (mem s) (load32 (mem s) pte) PGSIZE) pte 0
             in case unset_bit_at_index (phy_bitmap s) (start + int i) of
                  Inl f \<Rightarrow> Inl f
                | Inr pb \<Rightarrow>
               (case unset_bit_at_index (virt_bitmap s)
                    (sint (page_dir_index * of_int (page_table_entries (geom s)) + page_table_index + of_nat i)) of
                  Inl f \<Rightarrow> Inl f
                | Inr vb \<Rightarrow>
                    t_free_loop k (Suc i) page_dir_index page_table_index page_table start
                      (s\<lparr>cache := c, mem := m, phy_bitmap := pb, virt_bitmap := vb\<rparr>)))"

definition t_free :: "vm \<Rightarrow> addr \<Rightarrow> int \<Rightarrow> vm result" where
  "t_free s va sz =
     (case lock s of
        Inl f \<Rightarrow> Inl f
      | Inr s \<Rightarrow>
          if memory_start s = 0 then Inr (unlock s)
          else
          let g = geom s;
              pages_free = nat (pages_of sz);
              page_dir_index = extract_bits va 1 (page_dir_bits g);
              page_table_index = extract_bits va (page_dir_bits g + 1) (page_table_bits g);
              page_table = load32 (mem s) (entry_addr (page_dir s) page_dir_index)
          in if page_table = 0 then Inr (unlock s)
             else if \<not> all_mapped_loop pages_free (mem s) page_table page_table_index then Inr (unlock s)
             else
             let physical_addr = load32 (mem s) (entry_addr page_table page_table_index);
                 start_page_physical = frame_index (memory_start s) physical_addr
             in map_sum id unlock
                  (t_free_loop pages_free 0 page_dir_index page_table_index page_table
                     start_page_physical s))"

subsection \<open>One page\<close>

lemma frames_remove_page:
  assumes F: "frames_rel pb vb pt dm" and p: "dm p = Some f"
    and pb: "length pb' = length pb" "\<And>j. j \<noteq> f \<Longrightarrow> bm_get pb' j \<longleftrightarrow> bm_get pb j"
    and vb: "length vb' = length vb" "\<And>j. j \<noteq> p \<Longrightarrow> bm_get vb' j \<longleftrightarrow> bm_get vb j"
  shows "frames_rel pb' vb' pt (dm(p := None))"
proof -
  note D = frames_relD [OF F]
  have f: "f \<noteq> 0" using D(5) [OF p] by simp
  have table: "d < 4 \<and> 0 < g \<and> g < num_frames \<and> bm_get pb' g" if "pt d = Some g" for d g
    using D(4) [OF that] pt_dm_disjoint [OF F that p] pb(2) by blast
  have page: "q < num_vpages \<and> 0 < g \<and> g < num_frames \<and> bm_get pb' g \<and> bm_get vb' q \<and> pt (q div 16384) \<noteq> None"
    if "(dm(p := None)) q = Some g" for q g
  proof -
    have q: "q \<noteq> p" "dm q = Some g" using that by (auto split: if_splits)
    then have "g \<noteq> f" using dm_inj [OF F q(2)] p by blast
    then show ?thesis using D(5) [OF q(2)] pb(2) vb(2) q(1) by blast
  qed
  have "inj_on (dm(p := None)) (dom (dm(p := None)))" using D(7) by (auto simp: inj_on_def dom_def)
  moreover have "ran pt \<inter> ran (dm(p := None)) = {}"
    using D(8) by (auto simp: ran_def split: if_splits)
  ultimately show ?thesis
    unfolding frames_rel_def using D(1-3,6) f pb vb(1) table page by auto
qed

lemma cache_map_remove:
  assumes "p < num_vpages"
  shows "(cache_map ms dm)(page_va p := None) = cache_map ms (dm(p := None))"
proof
  fix v
  show "((cache_map ms dm)(page_va p := None)) v = cache_map ms (dm(p := None)) v"
  proof (cases "page_no v = p \<and> page_off v = 0")
    case True
    then have "page_va (page_no v) + of_nat (page_off v) = page_va p" by simp
    then have "v = page_va p" by (rule trans [OF va_split])
    then show ?thesis using assms by (simp add: cache_map_def num_vpages_def)
  next
    case False
    then have "v \<noteq> page_va p" using assms by (auto simp: num_vpages_def)
    then show ?thesis using False by (auto simp: cache_map_def)
  qed
qed

lemma remove_page_rel:
  assumes rel: "vm_rel s pt dm" and p: "dm p = Some f" and pt: "pt (p div 16384) = Some g"
    and c: "tlb_ok c" "coherent (tlb_entries c) ((cache_map (memory_start s) dm)(page_va p := None))"
    and pb: "length pb = length (phy_bitmap s)" "\<And>j. j \<noteq> f \<Longrightarrow> bm_get pb j \<longleftrightarrow> bm_get (phy_bitmap s) j"
    and vb: "length vb = length (virt_bitmap s)" "\<And>j. j \<noteq> p \<Longrightarrow> bm_get vb j \<longleftrightarrow> bm_get (virt_bitmap s) j"
    and m: "m = store32 (mem_set0 (mem s) (frame_addr (memory_start s) f) PGSIZE)
      (entry_addr (frame_addr (memory_start s) g) (of_nat (p mod 16384))) 0"
  shows "vm_rel (s\<lparr>cache := c, mem := m, phy_bitmap := pb, virt_bitmap := vb\<rparr>) pt (dm(p := None))"
    and "\<forall>h < num_frames. h \<noteq> f \<longrightarrow> h \<noteq> g \<longrightarrow> same_frame m (mem s) (memory_start s) h"
proof -
  note D = vm_relD [OF rel]
  let ?ms = "memory_start s" and ?m0 = "mem_set0 (mem s) (frame_addr (memory_start s) f) PGSIZE"
  have f: "0 < f" "f < num_frames" "p < num_vpages" using frames_relD(5) [OF D(4) p] by auto
  have g: "g < num_frames" using frames_relD(4) [OF D(4) pt] by auto
  have "tables_rel ?m0 ?ms pt dm"
  proof (rule tables_same_frames [OF D(5)])
    show "same_frame ?m0 (mem s) ?ms 0"
      using f by (intro same_frame_set0) (simp_all add: num_frames_def)
    show "same_frame ?m0 (mem s) ?ms h" if "pt d = Some h" for d h
      using f frames_relD(4) [OF D(4) that] pt_dm_disjoint [OF D(4) that p]
      by (intro same_frame_set0) auto
  qed
  from tables_set_page [OF D(4) this f(3) pt, of None]
  have "tables_rel m ?ms pt (dm(p := None))" by (simp add: frame_opt_def m)
  then show "vm_rel (s\<lparr>cache := c, mem := m, phy_bitmap := pb, virt_bitmap := vb\<rparr>) pt (dm(p := None))"
    using D c frames_remove_page [OF D(4) p pb vb] cache_map_remove [OF f(3)] by (simp add: vm_rel_def)
  show "\<forall>h < num_frames. h \<noteq> f \<longrightarrow> h \<noteq> g \<longrightarrow> same_frame m (mem s) ?ms h"
  proof (intro allI impI)
    fix h assume h: "h < num_frames" "h \<noteq> f" "h \<noteq> g"
    have "same_frame m ?m0 ?ms h"
      unfolding m entry_frame using h g by (intro same_frame_store) (simp_all add: num_frames_def)
    then show "same_frame m (mem s) ?ms h"
      using same_frame_set0 [OF f(2) h(1) h(2) [symmetric]] same_frame_trans by blast
  qed
qed

subsection \<open>The loop\<close>

text \<open>
  One round.  The frame that the page had need not be the one whose bit is cleared, which is counted from the first
  frame of the block; up to that bit the state is the one without the page.
\<close>

lemma t_free_step:
  assumes rel: "vm_rel s pt dm" and pt: "pt d = Some g" and "t + i < 16384" and "d < 4"
    and f: "dm (d * 16384 + t + i) = Some f" and st: "st + i < num_frames"
  shows "\<exists>s'. t_free_loop (Suc k) i (of_nat d) (of_nat t) (frame_addr (memory_start s) g) (int st) s =
        t_free_loop k (Suc i) (of_nat d) (of_nat t) (frame_addr (memory_start s) g) (int st) s'
    \<and> memory_start s' = memory_start s
    \<and> vm_rel (s'\<lparr>phy_bitmap := phy_bitmap s\<rparr>) pt (dm(d * 16384 + t + i := None))
    \<and> (f = st + i \<longrightarrow> vm_rel s' pt (dm(d * 16384 + t + i := None)))
    \<and> (\<forall>j. bm_get (virt_bitmap s') j \<longleftrightarrow> bm_get (virt_bitmap s) j \<and> \<not> (d * 16384 + t + i < 8 \<and> j = d * 16384 + t + i))
    \<and> (\<forall>j. bm_get (phy_bitmap s') j \<longleftrightarrow> bm_get (phy_bitmap s) j \<and> \<not> (st + i < 8 \<and> j = st + i))
    \<and> (\<forall>h < num_frames. h \<noteq> f \<longrightarrow> h \<noteq> g \<longrightarrow> same_frame (mem s') (mem s) (memory_start s) h)"
proof -
  note D = vm_relD [OF rel] and F = frames_relD [OF vm_relD(4) [OF rel]]
  let ?p = "d * 16384 + t + i" and ?ms = "memory_start s"
  have pd: "?p div 16384 = d" "?p mod 16384 = t + i" "?p < num_vpages"
    using assms(3,4) by (simp_all add: num_vpages_def div_nat_eqI add.assoc)
  have idx: "of_nat t + of_nat i = (of_nat (t + i) :: 32 word)" "int st + int i = int (st + i)" by simp_all
  have key: "form_virtual_address geo (of_nat d) (of_nat (t + i)) = page_va ?p"
    using form_virtual_address_geo [of d "t + i"] assms(3,4) by (simp add: add.assoc)
  obtain c where c: "delete_from_tlb (cache s) (page_va ?p) = Inr c" "tlb_ok c"
      "coherent (tlb_entries c) ((cache_map ?ms dm)(page_va ?p := None))"
    using tlbc.del_coherent [OF D(6,7)] by blast
  obtain pb where pb: "unset_bit_at_index (phy_bitmap s) (int (st + i)) = Inr pb" "length pb = length (phy_bitmap s)"
      "\<forall>j. bm_get pb j \<longleftrightarrow> bm_get (phy_bitmap s) j \<and> \<not> (st + i < 8 \<and> j = st + i)"
    using unset_bit_in [of "st + i" "phy_bitmap s"] st F(1) by (auto simp: num_frames_def)
  obtain vb where vb: "unset_bit_at_index (virt_bitmap s) (int ?p) = Inr vb" "length vb = length (virt_bitmap s)"
      "\<forall>j. bm_get vb j \<longleftrightarrow> bm_get (virt_bitmap s) j \<and> \<not> (?p < 8 \<and> j = ?p)"
    using unset_bit_in [of ?p "virt_bitmap s"] pd F(2) by (auto simp: num_vpages_def)
  have g: "pt (?p div 16384) = Some g" using pt pd by simp
  have word: "load32 (mem s) (entry_addr (frame_addr ?ms g) (of_nat (t + i))) = frame_addr ?ms f"
    using walk_words(2) [OF D(4) D(5) D(2) pd(3) g] pd f by (simp add: frame_opt_def)
  have six: "sint (of_nat d * of_int (page_table_entries geo) + of_nat t + of_nat i :: 32 word) = int ?p"
  proof -
    have "of_nat d * of_int (page_table_entries geo) + of_nat t + of_nat i = (of_nat ?p :: 32 word)"
      by (simp add: geo_def)
    moreover have "unat (of_nat ?p :: 32 word) = ?p"
      using pd(3) by (simp only: unat_of_nat) (simp add: num_vpages_def)
    ultimately show ?thesis using sint_index [of "of_nat ?p"] pd(3) by (simp only:) (simp add: num_vpages_def)
  qed
  define m where "m = store32 (mem_set0 (mem s) (frame_addr ?ms f) PGSIZE)
      (entry_addr (frame_addr ?ms g) (of_nat (t + i))) 0"
  define s1 where "s1 = s\<lparr>cache := c, mem := m, phy_bitmap := pb, virt_bitmap := vb\<rparr>"
  have s1: "memory_start s1 = ?ms" "mem s1 = m" "phy_bitmap s1 = pb" "virt_bitmap s1 = vb"
    "s1\<lparr>phy_bitmap := phy_bitmap s\<rparr> = s\<lparr>cache := c, mem := m, phy_bitmap := phy_bitmap s, virt_bitmap := vb\<rparr>"
    by (simp_all add: s1_def)
  have vb': "bm_get vb j \<longleftrightarrow> bm_get (virt_bitmap s) j" if "j \<noteq> ?p" for j using vb(3) that by simp
  have m: "m = store32 (mem_set0 (mem s) (frame_addr ?ms f) PGSIZE)
      (entry_addr (frame_addr ?ms g) (of_nat (?p mod 16384))) 0"
    unfolding m_def pd(2) ..
  have "vm_rel (s1\<lparr>phy_bitmap := phy_bitmap s\<rparr>) pt (dm(?p := None))"
    unfolding s1(5) by (rule remove_page_rel(1) [OF rel f g c(2,3) refl refl vb(2) vb' m])
  moreover have "vm_rel s1 pt (dm(?p := None))" if "f = st + i"
    unfolding s1_def using pb(3) that by (intro remove_page_rel(1) [OF rel f g c(2,3) pb(2) _ vb(2) vb' m]) simp_all
  moreover have "\<forall>h < num_frames. h \<noteq> f \<longrightarrow> h \<noteq> g \<longrightarrow> same_frame m (mem s) ?ms h"
    by (rule remove_page_rel(2) [OF rel f g c(2,3) refl refl vb(2) vb' m])
  moreover have "t_free_loop (Suc k) i (of_nat d) (of_nat t) (frame_addr ?ms g) (int st) s =
      t_free_loop k (Suc i) (of_nat d) (of_nat t) (frame_addr ?ms g) (int st) s1"
    using c(1) pb(1) vb(1) word
    by (simp only: t_free_loop.simps Let_def idx D(1) key six s1_def m_def sum.case)
  ultimately show ?thesis using pb(3) vb(3) s1(1-4) by (intro exI [of _ s1]) simp
qed

lemma t_free_loop_spec:
  assumes "vm_rel s pt dm" and "pt d = Some g" and "t + i + k \<le> 16384" and "d < 4"
    and "\<forall>j \<in> {i..<i + k}. dm (d * 16384 + t + j) = Some (f + j)"
  shows "\<exists>s' dm'. t_free_loop k i (of_nat d) (of_nat t) (frame_addr (memory_start s) g) (int f) s = Inr s'
    \<and> vm_rel s' pt dm' \<and> memory_start s' = memory_start s
    \<and> (\<forall>q. dm' q = (if \<exists>j \<in> {i..<i + k}. q = d * 16384 + t + j then None else dm q))
    \<and> (\<forall>j. bm_get (virt_bitmap s') j \<longleftrightarrow> bm_get (virt_bitmap s) j
         \<and> \<not> (j < 8 \<and> d * 16384 + t + i \<le> j \<and> j < d * 16384 + t + i + k))
    \<and> (\<forall>j. bm_get (phy_bitmap s') j \<longleftrightarrow> bm_get (phy_bitmap s) j \<and> \<not> (j < 8 \<and> f + i \<le> j \<and> j < f + i + k))
    \<and> (\<forall>h < num_frames. h \<noteq> g \<longrightarrow> h \<notin> {f + i..<f + i + k} \<longrightarrow> same_frame (mem s') (mem s) (memory_start s) h)"
  using assms
proof (induction k arbitrary: s dm i)
  case 0
  then show ?case by (intro exI [of _ s] exI [of _ dm]) simp
next
  case (Suc k)
  note rel = Suc.prems(1)
  let ?p = "d * 16384 + t + i" and ?f = "f + i" and ?ms = "memory_start s"
  have p: "dm ?p = Some ?f" using Suc.prems(5) by auto
  have "?f < num_frames" "t + i < 16384"
    using frames_relD(5) [OF vm_relD(4) [OF rel] p] Suc.prems(3) by simp_all
  from t_free_step [OF rel Suc.prems(2) this(2) Suc.prems(4) p this(1), of k] obtain s1 where
    step: "t_free_loop (Suc k) i (of_nat d) (of_nat t) (frame_addr ?ms g) (int f) s =
        t_free_loop k (Suc i) (of_nat d) (of_nat t) (frame_addr ?ms g) (int f) s1"
    and s1: "memory_start s1 = ?ms" and R: "vm_rel s1 pt (dm(?p := None))"
    and vb: "\<forall>j. bm_get (virt_bitmap s1) j \<longleftrightarrow> bm_get (virt_bitmap s) j \<and> \<not> (?p < 8 \<and> j = ?p)"
    and pb: "\<forall>j. bm_get (phy_bitmap s1) j \<longleftrightarrow> bm_get (phy_bitmap s) j \<and> \<not> (?f < 8 \<and> j = ?f)"
    and same: "\<forall>h < num_frames. h \<noteq> ?f \<longrightarrow> h \<noteq> g \<longrightarrow> same_frame (mem s1) (mem s) ?ms h"
    by blast
  have "\<forall>j \<in> {Suc i..<Suc i + k}. (dm(?p := None)) (d * 16384 + t + j) = Some (f + j)"
    using Suc.prems(5) by auto
  from Suc.IH [OF R Suc.prems(2) _ Suc.prems(4) this] Suc.prems(3)
  obtain s' dm' where s': "t_free_loop k (Suc i) (of_nat d) (of_nat t) (frame_addr ?ms g) (int f) s1 = Inr s'"
      "vm_rel s' pt dm'" "memory_start s' = ?ms"
    and dm': "\<forall>q. dm' q = (if \<exists>j \<in> {Suc i..<Suc i + k}. q = d * 16384 + t + j then None else (dm(?p := None)) q)"
    and bits: "\<forall>j. bm_get (virt_bitmap s') j \<longleftrightarrow> bm_get (virt_bitmap s1) j
         \<and> \<not> (j < 8 \<and> d * 16384 + t + Suc i \<le> j \<and> j < d * 16384 + t + Suc i + k)"
      "\<forall>j. bm_get (phy_bitmap s') j \<longleftrightarrow> bm_get (phy_bitmap s1) j \<and> \<not> (j < 8 \<and> f + Suc i \<le> j \<and> j < f + Suc i + k)"
    and same': "\<forall>h < num_frames. h \<noteq> g \<longrightarrow> h \<notin> {f + Suc i..<f + Suc i + k} \<longrightarrow> same_frame (mem s') (mem s1) ?ms h"
    unfolding s1 by auto
  have run: "t_free_loop (Suc k) i (of_nat d) (of_nat t) (frame_addr ?ms g) (int f) s = Inr s'"
    using step s'(1) by (rule trans)
  have pages: "dm' q = (if \<exists>j \<in> {i..<i + Suc k}. q = d * 16384 + t + j then None else dm q)" for q
  proof -
    have "{i..<i + Suc k} = insert i {Suc i..<Suc i + k}" by auto
    then show ?thesis using dm' by simp
  qed
  have virt: "bm_get (virt_bitmap s') j \<longleftrightarrow> bm_get (virt_bitmap s) j
      \<and> \<not> (j < 8 \<and> ?p \<le> j \<and> j < ?p + Suc k)" for j
    unfolding bits(1) [rule_format] vb [rule_format] by (cases "j = ?p") auto
  have phys: "bm_get (phy_bitmap s') j \<longleftrightarrow> bm_get (phy_bitmap s) j
      \<and> \<not> (j < 8 \<and> ?f \<le> j \<and> j < ?f + Suc k)" for j
    unfolding bits(2) [rule_format] pb [rule_format] by (cases "j = ?f") auto
  have frames: "same_frame (mem s') (mem s) ?ms h"
    if "h < num_frames" "h \<noteq> g" "h \<notin> {?f..<?f + Suc k}" for h
  proof -
    have "h \<noteq> ?f" "h \<notin> {f + Suc i..<f + Suc i + k}" using that(3) by auto
    then show ?thesis using same same' that(1,2) same_frame_trans by blast
  qed
  show ?case
    using run s'(2,3) pages virt phys frames by (intro exI [of _ s'] exI [of _ dm']) blast
qed

lemma all_mapped_loop_rel:
  assumes rel: "vm_rel s pt dm" and pt: "pt d = Some g" and "d < 4" and "t + k \<le> 16384"
  shows "all_mapped_loop k (mem s) (frame_addr (memory_start s) g) (of_nat t) \<longleftrightarrow>
    (\<forall>j < k. dm (d * 16384 + t + j) \<noteq> None)"
  using assms(4)
proof (induction k arbitrary: t)
  case (Suc k)
  note D = vm_relD [OF rel]
  let ?p = "d * 16384 + t"
  have p: "?p div 16384 = d" "?p mod 16384 = t" "?p < num_vpages"
    using assms(3) Suc.prems by (simp_all add: num_vpages_def div_nat_eqI)
  have "load32 (mem s) (entry_addr (frame_addr (memory_start s) g) (of_nat t)) = frame_opt (memory_start s) (dm ?p)"
    using walk_words(2) [OF D(4) D(5) D(2) p(3)] p pt by simp
  moreover have "frame_opt (memory_start s) (dm ?p) = 0 \<longleftrightarrow> dm ?p = None"
    using frame_opt_zero [OF D(2)] frames_relD(5) [OF D(4)] by blast
  moreover have "all_mapped_loop k (mem s) (frame_addr (memory_start s) g) (of_nat t + 1) \<longleftrightarrow>
      (\<forall>j < k. dm (d * 16384 + t + Suc j) \<noteq> None)"
    using Suc.IH [of "t + 1"] Suc.prems by (simp add: add.commute)
  moreover have "(\<forall>j < Suc k. dm (?p + j) \<noteq> None) \<longleftrightarrow> dm ?p \<noteq> None \<and> (\<forall>j < k. dm (?p + Suc j) \<noteq> None)"
    by (simp only: All_less_Suc2 add_0_right)
  ultimately show ?case by simp
qed simp

subsection \<open>What a program sees\<close>

lemma walk_unlock [simp]: "walk (unlock s) q = walk s q"
  by (simp add: walk_def unlock_def Let_def)

lemma vread_unlock [simp]: "vread (unlock s) v = vread s v"
  by (simp add: vread_def)

lemma t_free_by_loop:
  assumes rel: "vm_rel s pt dm" and "\<not> mutex_locked s" and "n = nat (pages_of sz)" and "0 < n"
    and "p = page_no va" and "p mod 16384 + n \<le> 16384" and maps: "\<forall>i < n. dm (p + i) \<noteq> None"
    and f: "dm p = Some f" and pt: "pt (p div 16384) = Some g"
  shows "t_free s va sz = map_sum id unlock (t_free_loop n 0 (of_nat (p div 16384)) (of_nat (p mod 16384))
    (frame_addr (memory_start s) g) (int f) (s\<lparr>mutex_locked := True\<rparr>))"
proof -
  note D = vm_relD [OF rel] and F = frames_relD [OF vm_relD(4) [OF rel]]
  let ?d = "p div 16384" and ?t = "p mod 16384" and ?ms = "memory_start s"
  have d: "?d < 4" using page_no_lt [of va] assms(5) by simp
  have pd: "?d * 16384 + ?t = p" by simp
  have pn: "p < num_vpages" "f < num_frames" using F(5) [OF f] by simp_all
  have g: "frame_addr ?ms g \<noteq> 0" using F(4) [OF pt] D(2) frame_addr_nonzero by blast
  have words: "load32 (mem s) (entry_addr ?ms (of_nat ?d)) = frame_addr ?ms g"
    "load32 (mem s) (entry_addr (frame_addr ?ms g) (of_nat ?t)) = frame_addr ?ms f"
    using walk_words [OF D(4) D(5) D(2) pn(1)] pt f by (simp_all add: frame_opt_def)
  have "all_mapped_loop n (mem s) (frame_addr ?ms g) (of_nat ?t)"
    using all_mapped_loop_rel [OF rel pt d assms(6)] maps by (simp only: pd)
  then show ?thesis
    using assms(2,3) D(1,3) words g D(2) pn(2)
    by (simp add: t_free_def Let_def dir_index_nat table_index_nat assms(5) [symmetric] frame_index_addr block_ok_def)
qed

lemma t_free_rel:
  assumes rel: "vm_rel s pt dm" and "\<not> mutex_locked s" and "n = nat (pages_of sz)" and "0 < n"
    and "p = page_no va" and "p mod 16384 + n \<le> 16384" and maps: "\<forall>i < n. dm (p + i) = Some (f + i)"
  shows "\<exists>s' dm'. t_free s va sz = Inr s' \<and> vm_rel s' pt dm' \<and> \<not> mutex_locked s' \<and> memory_start s' = memory_start s
    \<and> (\<forall>q. dm' q = (if q \<in> {p..<p + n} then None else dm q))
    \<and> (\<forall>v. page_no v \<notin> {p..<p + n} \<longrightarrow> vread s' v = vread s v)
    \<and> (\<forall>j. bm_get (virt_bitmap s') j \<longleftrightarrow> bm_get (virt_bitmap s) j \<and> \<not> (j < 8 \<and> j \<in> {p..<p + n}))
    \<and> (\<forall>j. bm_get (phy_bitmap s') j \<longleftrightarrow> bm_get (phy_bitmap s) j \<and> \<not> (j < 8 \<and> j \<in> {f..<f + n}))"
proof -
  note D = vm_relD [OF rel] and F = frames_relD [OF vm_relD(4) [OF rel]]
  let ?d = "p div 16384" and ?t = "p mod 16384" and ?ms = "memory_start s" and ?s = "s\<lparr>mutex_locked := True\<rparr>"
  have d: "?d < 4" using page_no_lt [of va] assms(5) by simp
  have pd: "?d * 16384 + ?t = p" by simp
  have f0: "dm p = Some f" using maps assms(4) by force
  obtain g where pt: "pt ?d = Some g" using F(5) [OF f0] by auto
  have rel': "vm_rel ?s pt dm" using rel by simp
  have "\<forall>j \<in> {0..<0 + n}. dm (?d * 16384 + ?t + j) = Some (f + j)" using maps by (simp only: pd) simp
  from t_free_loop_spec [OF rel' pt _ d this] assms(6) obtain s' dm' where
    run: "t_free_loop n 0 (of_nat ?d) (of_nat ?t) (frame_addr ?ms g) (int f) ?s = Inr s'"
    and r: "vm_rel s' pt dm'" and ms': "memory_start s' = ?ms"
    and dm': "\<forall>q. dm' q = (if \<exists>j \<in> {0..<0 + n}. q = p + j then None else dm q)"
    and bits: "\<forall>j. bm_get (virt_bitmap s') j \<longleftrightarrow> bm_get (virt_bitmap s) j \<and> \<not> (j < 8 \<and> p + 0 \<le> j \<and> j < p + 0 + n)"
      "\<forall>j. bm_get (phy_bitmap s') j \<longleftrightarrow> bm_get (phy_bitmap s) j \<and> \<not> (j < 8 \<and> f + 0 \<le> j \<and> j < f + 0 + n)"
    and same: "\<forall>h < num_frames. h \<noteq> g \<longrightarrow> h \<notin> {f + 0..<f + 0 + n} \<longrightarrow> same_frame (mem s') (mem s) ?ms h"
    unfolding pd by auto
  have dm_eq: "dm' q = (if q \<in> {p..<p + n} then None else dm q)" for q
  proof -
    have "(\<exists>j \<in> {0..<0 + n}. q = p + j) \<longleftrightarrow> q \<in> {p..<p + n}"
      by (auto intro: bexI [of _ "q - p"])
    then show ?thesis using dm' by simp
  qed
  have free: "t_free s va sz = Inr (unlock s')"
    using t_free_by_loop [OF rel assms(2-6) _ f0 pt] maps run by simp
  have reads: "vread s' v = vread s v" if v: "page_no v \<notin> {p..<p + n}" for v
  proof (rule vread_same [OF rel r ms'])
    show "dm' (page_no v) = dm (page_no v)" by (simp only: dm_eq v if_False)
    show "same_frame (mem s') (mem s) ?ms h" if h: "dm (page_no v) = Some h" for h
    proof -
      have "h \<notin> {f..<f + n}"
      proof
        assume "h \<in> {f..<f + n}"
        then obtain i where "i < n" "h = f + i" by (metis atLeastLessThan_iff le_add_diff_inverse nat_add_left_cancel_less)
        then have "page_no v = p + i" using dm_inj [OF D(4) h] maps by blast
        then show False using v \<open>i < n\<close> by simp
      qed
      then show ?thesis using same F(5) [OF h] pt_dm_disjoint [OF D(4) pt h] by auto
    qed
  qed
  show ?thesis
    using free r reads bits dm_eq ms' by (intro exI [of _ "unlock s'"] exI [of _ dm']) auto
qed

text \<open>C6: Releasing a block of mapped pages that lie in one page table and whose frames are
  consecutive unmaps exactly these pages and keeps the invariant of tables, bitmaps and TLB (no
  stale translation survives); every other page keeps its frame and its contents.  In the
  bitmaps, however, only the entries below index 8 are cleared: the pages and frames of a later
  block stay marked as used.  Both conditions are needed: the frames of the first block of two pages that a program
  allocates are not consecutive, and its release breaks the invariant, as the last theorem of this theory shows.\<close>

theorem t_free_unmaps_block:
  assumes "vm_inv s" and "\<not> mutex_locked s" and "n = nat (pages_of sz)" and "0 < n"
    and "p = page_no va" and "p mod 16384 + n \<le> 16384"
    and "\<forall>i < n. walk s (p + i) = Some (frame_addr (memory_start s) (f + i))" and "f + n \<le> num_frames"
  shows "\<exists>s'. t_free s va sz = Inr s' \<and> vm_inv s' \<and> \<not> mutex_locked s'
    \<and> (\<forall>q < num_vpages. walk s' q = (if q \<in> {p..<p + n} then None else walk s q))
    \<and> (\<forall>v. page_no v \<notin> {p..<p + n} \<longrightarrow> vread s' v = vread s v)
    \<and> (\<forall>j. bm_get (virt_bitmap s') j \<longleftrightarrow> bm_get (virt_bitmap s) j \<and> \<not> (j < 8 \<and> j \<in> {p..<p + n}))
    \<and> (\<forall>j. bm_get (phy_bitmap s') j \<longleftrightarrow> bm_get (phy_bitmap s) j \<and> \<not> (j < 8 \<and> j \<in> {f..<f + n}))"
proof -
  obtain pt dm where rel: "vm_rel s pt dm" using assms(1) by (auto simp: vm_inv_def)
  have "dm (p + i) = Some (f + i)" if i: "i < n" for i
  proof -
    have "p div 16384 < 4" "p div 16384 * 16384 + p mod 16384 = p" using page_no_lt [of va] assms(5) by simp_all
    then have "p + i < num_vpages" using assms(6) i unfolding num_vpages_def by linarith
    then obtain g where g: "dm (p + i) = Some g" "frame_addr (memory_start s) (f + i) = frame_addr (memory_start s) g"
      using walk_bound [OF rel assms(7) [rule_format, OF i]] by blast
    then have "f + i = g"
      using frame_addr_inj [of "f + i" g] frames_relD(5) [OF vm_relD(4) [OF rel] g(1)] i assms(8) by simp
    then show ?thesis using g(1) by simp
  qed
  then obtain s' dm' where s': "t_free s va sz = Inr s'" "vm_rel s' pt dm'" "\<not> mutex_locked s'" "memory_start s' = memory_start s"
      "\<forall>q. dm' q = (if q \<in> {p..<p + n} then None else dm q)" "\<forall>v. page_no v \<notin> {p..<p + n} \<longrightarrow> vread s' v = vread s v"
    and bits: "\<forall>j. bm_get (virt_bitmap s') j \<longleftrightarrow> bm_get (virt_bitmap s) j \<and> \<not> (j < 8 \<and> j \<in> {p..<p + n})"
      "\<forall>j. bm_get (phy_bitmap s') j \<longleftrightarrow> bm_get (phy_bitmap s) j \<and> \<not> (j < 8 \<and> j \<in> {f..<f + n})"
    using t_free_rel [OF rel assms(2-6)] by blast
  have "walk s' q = (if q \<in> {p..<p + n} then None else walk s q)" if "q < num_vpages" for q
    using that s'(4,5) by (simp add: walk_rel [OF s'(2)] walk_rel [OF rel])
  then show ?thesis using s' bits by (intro exI [of _ s']) (auto simp: vm_inv_def)
qed

theorem t_free_unmaps_block_witness:
  "\<exists>s s'. walk s 0 \<noteq> None \<and> t_free s 0 65536 = Inr s' \<and> vm_inv s' \<and> walk s' 0 = None"
proof -
  obtain s pt dm where s: "vm_rel s pt dm" "\<not> mutex_locked s" "\<forall>q. dm q \<noteq> None \<longleftrightarrow> q < nat 1"
    using t_malloc_boot [of 65536 1 1 "[]" "\<lambda>_. 0"] by (auto simp: block_ok_def pages_of_def PGSIZE_def)
  obtain f where f: "dm 0 = Some f" using s(3) by auto
  have fb: "f + 1 \<le> num_frames" using frames_relD(5) [OF vm_relD(4) [OF s(1)] f] by simp
  have w: "walk s 0 = Some (frame_addr (memory_start s) f)"
    using walk_rel [OF s(1), of 0] f by (simp add: num_vpages_def)
  have inv: "vm_inv s" using s(1) by (auto simp: vm_inv_def)
  have n: "1 = nat (pages_of 65536)" by (simp add: pages_of_def PGSIZE_def)
  have p: "0 = page_no 0" by (simp add: page_no_def)
  have ws: "\<forall>i < 1. walk s (0 + i) = Some (frame_addr (memory_start s) (f + i))"
    using w by simp
  obtain s' where "t_free s 0 65536 = Inr s'" "vm_inv s'"
      "\<forall>q < num_vpages. walk s' q = (if q \<in> {0..<0 + 1} then None else walk s q)"
    using t_free_unmaps_block [OF inv s(2) n _ p _ ws fb] by (metis mod_0 add_0 one_le_numeral zero_less_one)
  then show ?thesis using w by (intro exI [of _ s] exI [of _ s']) (simp add: num_vpages_def)
qed

text \<open>\<open>t_free\<close> of a page that is not mapped changes nothing at all and releases the mutex,
  whether its page table is missing or only its entry is empty.\<close>

theorem t_free_unmapped_page:
  assumes "vm_inv s" and "\<not> mutex_locked s" and "0 < pages_of sz" and "walk s (page_no va) = None"
  shows "t_free s va sz = Inr s"
proof -
  obtain pt dm where rel: "vm_rel s pt dm" using assms(1) by (auto simp: vm_inv_def)
  note D = vm_relD [OF rel] and F = frames_relD [OF vm_relD(4) [OF rel]]
  note W = walk_words [OF D(4) D(5) D(2), of "page_no va"]
  obtain k where k: "nat (pages_of sz) = Suc k" using assms(3) by (metis gr0_implies_Suc zero_less_nat_eq)
  have dm: "dm (page_no va) = None" using assms(4) walk_none [OF rel] by simp
  have unlocked: "unlock (s\<lparr>mutex_locked := True\<rparr>) = s" using assms(2) by (simp add: unlock_def)
  have ms: "memory_start s \<noteq> 0" using D(2) by (simp add: block_ok_def)
  show ?thesis
  proof (cases "pt (page_no va div 16384)")
    case None
    then show ?thesis
      using W(1) ms assms(2) D(1,3) unlocked by (simp add: t_free_def Let_def dir_index_nat frame_opt_def)
  next
    case (Some g)
    then have "frame_addr (memory_start s) g \<noteq> 0" using F(4) D(2) frame_addr_nonzero by blast
    then show ?thesis
      using W(1) W(2) [OF _ Some] Some dm k ms assms(2) D(1,3) unlocked
      by (simp add: t_free_def Let_def dir_index_nat table_index_nat frame_opt_def)
  qed
qed

theorem t_free_unmapped_page_witness:
  "\<exists>s. vm_inv s \<and> t_free s 0x20000 1 = Inr s"
proof -
  obtain s where s: "vm_rel s Map.empty Map.empty" "\<not> mutex_locked s" using vm_fresh by blast
  then have "vm_inv s" by (auto simp: vm_inv_def)
  moreover have "walk s (page_no 0x20000) = None" using walk_none [OF s(1)] by simp
  moreover have "0 < pages_of 1" by (simp add: pages_of_def PGSIZE_def)
  ultimately show ?thesis using t_free_unmapped_page [of s 1 "0x20000"] s(2) by blast
qed

subsection \<open>Frames that are not consecutive\<close>

text \<open>The first block: its page table is entered between its first page and its second one.\<close>

lemma first_two_pages:
  assumes "block_ok block" and "pages_of (uint n) = 2"
  shows "\<exists>s pt dm. t_malloc (vm_start block nodes m) n = Inr (0, s) \<and> vm_rel s pt dm \<and> \<not> mutex_locked s
    \<and> memory_start s = block \<and> pt 0 = Some 2 \<and> dm 0 = Some 1 \<and> dm 1 = Some 3"
proof -
  let ?s = "vm_start block nodes m"
  obtain s0 where s0: "set_physical_mem (?s\<lparr>mutex_locked := True\<rparr>) = Inr s0" "vm_rel s0 Map.empty Map.empty"
      "phy_bitmap s0 = bm_set (replicate 2048 0) 0" "virt_bitmap s0 = replicate 8192 0" "memory_start s0 = block"
    using set_physical_mem_rel [of "?s\<lparr>mutex_locked := True\<rparr>"] assms(1) by (auto simp: vm_start_def)
  define fs where "fs = [4..<num_frames]"
  have "1 < num_frames" "2 < num_frames" "3 < num_frames" by (simp_all add: num_frames_def)
  then have "[1..<num_frames] = 1 # 2 # 3 # fs" by (simp add: fs_def upt_conv_Cons numeral_eq_Suc)
  then have ff: "free_frames (phy_bitmap s0) = 1 # 2 # 3 # fs" by (simp add: s0(3) free_frames_boot)
  have len: "length fs = 16380" by (simp only: fs_def length_upt) (simp add: num_frames_def)
  have run: "first_run (virt_bitmap s0) (run_length 2) 0 = Some 0"
    using s0(4) first_run_zeros [of "run_length 2"] by (simp add: run_length_def num_vpages_def)
  have "t_malloc ?s n = map_sum id (\<lambda>s. (page_va 0, unlock s))
      (t_malloc_loop (nat 2) (page_va 0) (frame_addr (memory_start s0) 1) s0)"
    using s0(1) len by (intro t_malloc_by_loop [OF s0(2) _ _ assms(2) [symmetric] _ run ff]) (simp_all add: vm_start_def)
  moreover have "page_va 0 = 0" by (simp add: page_va_def)
  ultimately have mall: "t_malloc ?s n = map_sum id (\<lambda>s. (0, unlock s)) (t_malloc_loop (Suc 1) 0 (frame_addr block 1) s0)"
    using s0(5) by (simp add: numeral_2_eq_2)
  have missing: "missing Map.empty \<le> 4" by (rule missing_le)
  have p0: "page_no 0 = 0" by (simp add: page_no_def)
  obtain s1 pt1 f1 fs1 where s1: "t_malloc_loop (Suc 1) 0 (frame_addr block 1) s0 =
        t_malloc_loop 1 (get_next_page geo 0) (frame_addr block f1) s1" "vm_rel s1 pt1 [0 \<mapsto> 1]"
      "free_frames (phy_bitmap s1) = f1 # fs1" "1 + missing pt1 < length (f1 # fs1)" "memory_start s1 = block"
      "pt1 = table_frame (bm_set (phy_bitmap s0) 1) Map.empty 0" "f1 # fs1 = 3 # fs"
    using t_malloc_step [OF s0(2) p0 _ ff, of 1] len missing s0(5) by auto
  have "length (phy_bitmap s0) = 2048" using frames_relD(1) [OF vm_relD(4) [OF s0(2)]] .
  then have "pt1 = [0 \<mapsto> 2]" using s1(6) free_frames_set_hd [OF ff] by (simp add: table_frame_def)
  then have pt1: "pt1 = [0 \<mapsto> 2]" .
  have "get_next_page geo 0 = page_va 1" using get_next_page_va [of 0] by (simp add: page_va_def)
  then have p1: "page_no (get_next_page geo 0) = 1" by simp
  obtain s2 pt2 f2 fs2 where s2: "t_malloc_loop (Suc 0) (get_next_page geo 0) (frame_addr block f1) s1 =
        t_malloc_loop 0 (get_next_page geo 0) (frame_addr block f2) s2" "vm_rel s2 pt2 [0 \<mapsto> 1, 1 \<mapsto> f1]"
      "memory_start s2 = block" "pt2 = table_frame (bm_set (phy_bitmap s1) f1) pt1 (1 div 16384)"
    using t_malloc_step [OF s1(2) p1 _ s1(3), of 0] s1(4,5) by auto
  have "pt2 = [0 \<mapsto> 2]" using s2(4) pt1 by (simp add: table_frame_def)
  moreover have "t_malloc ?s n = Inr (0, unlock s2)" using mall s1(1) s2(1) by simp
  ultimately show ?thesis
    using s2(2,3) s1(7) by (intro exI [of _ "unlock s2"] exI [of _ pt2] exI [of _ "[0 \<mapsto> 1, 1 \<mapsto> f1]"]) simp
qed

text \<open>C40: \<open>t_free\<close> clears the bits of consecutive frames from that of the first page on, but the first block of two pages
  that a program allocates has its page table in between.  Releasing this block marks the frame of the page table as free
  although the directory still points to it: the invariant is gone, and the frame can be handed out again as memory.\<close>

theorem t_free_frees_table:
  assumes "block_ok block" and "pages_of (uint n) = 2"
  shows "\<exists>s1 s2. t_malloc (vm_start block nodes m) n = Inr (0, s1) \<and> vm_inv s1 \<and> t_free s1 0 (uint n) = Inr s2
    \<and> load32 (mem s2) (entry_addr (page_dir s2) 0) = frame_addr block 2 \<and> 2 \<in> set (free_frames (phy_bitmap s2)) \<and> \<not> vm_inv s2"
proof -
  obtain s pt dm where s: "t_malloc (vm_start block nodes m) n = Inr (0, s)" "vm_rel s pt dm" "\<not> mutex_locked s"
      "memory_start s = block" "pt 0 = Some 2" "dm 0 = Some 1" "dm 1 = Some 3"
    using first_two_pages [OF assms] by blast
  let ?s = "s\<lparr>mutex_locked := True\<rparr>"
  have rel: "vm_rel ?s pt dm" using s(2) by simp
  note D = vm_relD [OF s(2)] and F = frames_relD [OF vm_relD(4) [OF s(2)]]
  obtain s1 where s1: "t_free_loop (Suc 1) 0 (of_nat 0) (of_nat 0) (frame_addr block 2) (int 1) ?s =
        t_free_loop 1 (Suc 0) (of_nat 0) (of_nat 0) (frame_addr block 2) (int 1) s1"
      "memory_start s1 = block" "vm_rel s1 pt (dm(0 := None))"
    using t_free_step [OF rel s(5), of 0 0 1 1 1] s(4,6) by (auto simp: num_frames_def)
  have dm1: "(dm(0 := None)) (0 * 16384 + 0 + 1) = Some 3" using s(7) by simp
  have b: "0 + 1 < (16384 :: nat)" "0 < (4 :: nat)" "1 + 1 < num_frames" by (simp_all add: num_frames_def)
  obtain s2 where s2: "t_free_loop (Suc 0) 1 (of_nat 0) (of_nat 0) (frame_addr (memory_start s1) 2) (int 1) s1 =
        t_free_loop 0 (Suc 1) (of_nat 0) (of_nat 0) (frame_addr (memory_start s1) 2) (int 1) s2" "memory_start s2 = memory_start s1"
      "vm_rel (s2\<lparr>phy_bitmap := phy_bitmap s1\<rparr>) pt ((dm(0 := None))(0 * 16384 + 0 + 1 := None))"
      "\<forall>j. bm_get (phy_bitmap s2) j \<longleftrightarrow> bm_get (phy_bitmap s1) j \<and> \<not> ((1 :: nat) + 1 < 8 \<and> j = 1 + 1)"
    using t_free_step [OF s1(3) s(5) b(1,2) dm1 b(3), of 0] by blast
  have run: "t_free_loop (Suc 1) 0 (of_nat 0) (of_nat 0) (frame_addr block 2) (int 1) ?s = Inr s2"
    using s1(1,2) s2(1) by (simp only: One_nat_def t_free_loop.simps(1))
  have ms: "memory_start s2 = block" using s1(2) s2(2) by simp
  have clear: "\<not> bm_get (phy_bitmap s2) 2" using s2(4) by simp
  note D2 = vm_relD [OF s2(3)]
  have entry0: "load32 (mem s2) (entry_addr block 0) = frame_addr block 2"
    using walk_words(1) [OF D2(4) D2(5) D2(2), of 0] s(5) ms by (simp add: frame_opt_def num_vpages_def)
  have pd: "page_dir s2 = block" using D2(3) ms by simp
  have "t_free s 0 (uint n) = Inr (unlock s2)"
    using t_free_by_loop [OF s(2,3) _ _ _ _ _ s(6), of 2 "uint n" 0 2] assms(2) s(4-7) run
    by (simp add: page_no_def numeral_2_eq_2 less_Suc_eq)
  moreover have "\<not> vm_inv (unlock s2)"
  proof
    assume "vm_inv (unlock s2)"
    then obtain pt' dm' where R: "vm_rel s2 pt' dm'" by (auto simp: vm_inv_def)
    note E = vm_relD [OF R]
    have e: "frame_opt block (pt' 0) = frame_addr block 2"
      using walk_words(1) [OF E(4) E(5) E(2), of 0] entry0 ms by (simp add: num_vpages_def)
    moreover have "frame_addr block 2 \<noteq> 0" using frame_addr_nonzero [OF assms(1)] by (simp add: num_frames_def)
    ultimately obtain h where h: "pt' 0 = Some h" "frame_addr block h = frame_addr block 2"
      by (auto simp: frame_opt_def split: option.splits)
    then have "h = 2" using frame_addr_inj frames_relD(4) [OF E(4) h(1)] by (auto simp: num_frames_def)
    then show False using clear frames_relD(4) [OF E(4) h(1)] by simp
  qed
  moreover have "2 \<in> set (free_frames (phy_bitmap s2))" using clear by (simp add: free_frames_def num_frames_def)
  ultimately show ?thesis
    using s(1,2) entry0 pd by (intro exI [of _ s] exI [of _ "unlock s2"]) (auto simp: vm_inv_def unlock_def)
qed

theorem t_free_frees_table_witness:
  "\<exists>s1 s2. t_malloc (vm_start 65536 [] (\<lambda>_. 0)) 131072 = Inr (0, s1) \<and> vm_inv s1 \<and> t_free s1 0 131072 = Inr s2 \<and> \<not> vm_inv s2"
proof -
  have "block_ok 65536" "pages_of (uint (131072 :: 32 word)) = 2" by (simp_all add: block_ok_def pages_of_def PGSIZE_def)
  from t_free_frees_table [OF this, of "[]" "\<lambda>_. 0"] show ?thesis by auto
qed

end
