(* ===== verification/Vm_Access.thy ===== *)
theory Vm_Access
  imports Vm_Free
begin

text \<open>
  Access to the virtual memory: \<open>put_value\<close> and \<open>get_value\<close> of \<open>Level -3/my_vm.c\<close>.  The caller's
  buffer is a list of bytes; touching a byte behind its end is out of bounds.  A negative size
  reaches \<open>memcpy\<close> as a huge unsigned one.

  The lemmas show that through these two functions the mapped pages behave as one flat array of
  bytes, the function \<open>vread s\<close> from virtual addresses to bytes.
\<close>

subsection \<open>Operations\<close>

definition offset_of :: "vm \<Rightarrow> addr \<Rightarrow> int" where
  "offset_of s va = sint (extract_bits va
     (page_table_bits (geom s) * (LEVELS - 1) + page_dir_bits (geom s) + 1) (offset_bits (geom s)))"

text \<open>The first loop of both functions: is every page of the range mapped?\<close>

function check_range_loop :: "int \<Rightarrow> int \<Rightarrow> addr \<Rightarrow> vm \<Rightarrow> (bool \<times> vm) result" where
  "check_range_loop size_copy offset_copy va_copy s =
     (if size_copy > 0
      then case translate s va_copy of
          Inl f \<Rightarrow> Inl f
        | Inr (None, s) \<Rightarrow> Inr (False, s)
        | Inr (Some pa, s) \<Rightarrow>
            check_range_loop (size_copy - (int PGSIZE - offset_copy)) 0 (get_next_page (geom s) va_copy) s
      else Inr (True, s))"
  by pat_completeness auto

termination
  by (relation "measures [\<lambda>(_, off, _, _). if off = 0 then 0 else 1, \<lambda>(sz, _, _, _). nat sz]")
    (auto simp: PGSIZE_def)

declare check_range_loop.simps [simp del]

text \<open>\<open>size_copy > PGSIZE - offset ? PGSIZE - offset : size_copy\<close>\<close>

definition chunk :: "int \<Rightarrow> int \<Rightarrow> int" where
  "chunk size_copy offset =
     (if size_copy > int PGSIZE - offset then int PGSIZE - offset else size_copy)"

text \<open>\<open>memcpy(dst, val, n)\<close> and \<open>memcpy(val + pos, src, n)\<close>.\<close>

definition copy_in :: "memory \<Rightarrow> addr \<Rightarrow> byte list \<Rightarrow> int \<Rightarrow> memory result" where
  "copy_in m dst val n =
     (if n < 0 then Inl BadSize
      else if nat n > length val then Inl OutOfBounds
      else Inr (mem_write m dst (take (nat n) val)))"

definition copy_out :: "memory \<Rightarrow> addr \<Rightarrow> byte list \<Rightarrow> nat \<Rightarrow> int \<Rightarrow> byte list result" where
  "copy_out m src val pos n =
     (if n < 0 then Inl BadSize
      else if pos + nat n > length val then Inl OutOfBounds
      else Inr (splice pos (mem_read m src (nat n)) val))"

function put_loop :: "int \<Rightarrow> int \<Rightarrow> addr \<Rightarrow> byte list \<Rightarrow> vm \<Rightarrow> vm result" where
  "put_loop size_copy offset va val s =
     (if size_copy > 0
      then case translate s va of
          Inl f \<Rightarrow> Inl f
        | Inr (None, s) \<Rightarrow> Inr s
        | Inr (Some pa, s) \<Rightarrow>
            (case copy_in (mem s) (pa + of_int offset) val (chunk size_copy offset) of
               Inl f \<Rightarrow> Inl f
             | Inr m \<Rightarrow>
                 put_loop (size_copy - (int PGSIZE - offset)) 0 (get_next_page (geom s) va)
                   (drop (nat (chunk size_copy offset)) val) (s\<lparr>mem := m\<rparr>))
      else Inr s)"
  by pat_completeness auto

termination
  by (relation "measures [\<lambda>(_, off, _, _, _). if off = 0 then 0 else 1, \<lambda>(sz, _, _, _, _). nat sz]")
    (auto simp: PGSIZE_def)

declare put_loop.simps [simp del]

definition put_value :: "vm \<Rightarrow> addr \<Rightarrow> byte list \<Rightarrow> int \<Rightarrow> vm result" where
  "put_value s va val sz =
     (case lock s of
        Inl f \<Rightarrow> Inl f
      | Inr s \<Rightarrow>
          if memory_start s = 0 then Inr (unlock s)
          else
          let offset = offset_of s va
          in if int PGSIZE - offset > sz
             then case translate s va of
                 Inl f \<Rightarrow> Inl f
               | Inr (None, s) \<Rightarrow> Inr s
               | Inr (Some pa, s) \<Rightarrow>
                   (case copy_in (mem s) (pa + of_int offset) val sz of
                      Inl f \<Rightarrow> Inl f
                    | Inr m \<Rightarrow> Inr (unlock (s\<lparr>mem := m\<rparr>)))
             else case check_range_loop sz offset va s of
                 Inl f \<Rightarrow> Inl f
               | Inr (False, s) \<Rightarrow> Inr (unlock s)
               | Inr (True, s) \<Rightarrow> map_sum id unlock (put_loop sz offset va val s))"

text \<open>
  In \<open>get_value\<close> the step of the buffer pointer is written \<open>PGSIZE - offset ? PGSIZE - offset :
  size_copy\<close>, without the comparison of the copy itself.
\<close>

function get_loop :: "int \<Rightarrow> int \<Rightarrow> addr \<Rightarrow> nat \<Rightarrow> byte list \<Rightarrow> vm \<Rightarrow> (byte list \<times> vm) result" where
  "get_loop size_copy offset va pos val s =
     (if size_copy > 0
      then case translate s va of
          Inl f \<Rightarrow> Inl f
        | Inr (None, s) \<Rightarrow> Inr (val, s)
        | Inr (Some pa, s) \<Rightarrow>
            (case copy_out (mem s) (pa + of_int offset) val pos (chunk size_copy offset) of
               Inl f \<Rightarrow> Inl f
             | Inr val \<Rightarrow>
                 get_loop (size_copy - (int PGSIZE - offset)) 0 (get_next_page (geom s) va)
                   (pos + nat (if int PGSIZE - offset \<noteq> 0 then int PGSIZE - offset else size_copy)) val s)
      else Inr (val, s))"
  by pat_completeness auto

termination
  by (relation "measures [\<lambda>(_, off, _, _, _, _). if off = 0 then 0 else 1, \<lambda>(sz, _, _, _, _, _). nat sz]")
    (auto simp: PGSIZE_def)

declare get_loop.simps [simp del]

definition get_value :: "vm \<Rightarrow> addr \<Rightarrow> byte list \<Rightarrow> int \<Rightarrow> (byte list \<times> vm) result" where
  "get_value s va val sz =
     (case lock s of
        Inl f \<Rightarrow> Inl f
      | Inr s \<Rightarrow>
          if memory_start s = 0 then Inr (val, unlock s)
          else
          let offset = offset_of s va
          in if int PGSIZE - offset > sz
             then case translate s va of
                 Inl f \<Rightarrow> Inl f
               | Inr (None, s) \<Rightarrow> Inr (val, s)
               | Inr (Some pa, s) \<Rightarrow>
                   (case copy_out (mem s) (pa + of_int offset) val 0 sz of
                      Inl f \<Rightarrow> Inl f
                    | Inr val \<Rightarrow> Inr (val, unlock s))
             else case check_range_loop sz offset va s of
                 Inl f \<Rightarrow> Inl f
               | Inr (False, s) \<Rightarrow> Inr (val, unlock s)
               | Inr (True, s) \<Rightarrow>
                   map_sum id (\<lambda>(val, s). (val, unlock s)) (get_loop sz offset va 0 val s))"

subsection \<open>One chunk\<close>

lemma offset_of_geo: "geom s = geo \<Longrightarrow> offset_of s va = int (page_off va)"
  using sint_index [of "extract_bits va 17 16"] page_off_lt [of va] unat_offset_field [of va]
  by (simp add: offset_of_def geo_def LEVELS_def)

lemma frame_addr_field: "frame_addr ms f + of_nat k = ms + of_nat (f * 65536 + k)"
  by (rule frame_off)

lemma write_same_frame:
  assumes "f < num_frames" and "h < num_frames" and "f \<noteq> h" and "off + length bs \<le> 65536"
  shows "same_frame (mem_write m (frame_addr ms f + of_nat off) bs) m ms h"
  unfolding same_frame_def frame_off
proof (intro allI impI)
  fix k :: nat
  assume k: "k < 65536"
  have "\<not> (f * 65536 + off \<le> h * 65536 + k \<and> h * 65536 + k < f * 65536 + off + length bs)"
    using assms(3,4) k by auto
  moreover have "h * 65536 + k < 2 ^ 31" "f * 65536 + off < 2 ^ 31 \<or> bs = []" "length bs \<le> 2 ^ 31"
    using assms k by (auto simp: num_frames_def)
  moreover have "mem_write m a [] = m" for a by (simp add: mem_write_def)
  ultimately show "mem_write m (ms + of_nat (f * 65536 + off)) bs (ms + of_nat (h * 65536 + k))
      = m (ms + of_nat (h * 65536 + k))"
    by (cases "bs = []") (simp_all only: mem_write_off if_False simp_thms)
qed

text \<open>Writing into a page changes exactly these bytes of the virtual memory.\<close>

lemma write_chunk_rel:
  assumes rel: "vm_rel s pt dm" and p: "dm p = Some f" and off: "off + length bs \<le> 65536"
    and m: "m = mem_write (mem s) (frame_addr (memory_start s) f + of_nat off) bs"
  shows "vm_rel (s\<lparr>mem := m\<rparr>) pt dm"
    and "vread (s\<lparr>mem := m\<rparr>) v = (if p * 65536 + off \<le> unat v \<and> unat v < p * 65536 + off + length bs
      then Some (bs ! (unat v - (p * 65536 + off))) else vread s v)"
proof -
  note D = vm_relD [OF rel]
  let ?ms = "memory_start s"
  have f: "0 < f" "f < num_frames" using frames_relD(5) [OF D(4) p] by auto
  have other: "same_frame m (mem s) ?ms h" if "h < num_frames" "h \<noteq> f" for h
    unfolding m using that f off by (intro write_same_frame) auto
  have "tables_rel m ?ms pt dm"
  proof (rule tables_same_frames [OF D(5)])
    show "same_frame m (mem s) ?ms 0" using f by (intro other) (simp_all add: num_frames_def)
    show "same_frame m (mem s) ?ms g" if "pt d = Some g" for d g
      using frames_relD(4) [OF D(4) that] pt_dm_disjoint [OF D(4) that p] by (intro other) auto
  qed
  then show rel': "vm_rel (s\<lparr>mem := m\<rparr>) pt dm" using D by (simp add: vm_rel_def)
  let ?o = "page_off v"
  have v: "unat v = page_no v * 65536 + ?o" "?o < 65536" by (rule unat_page_split, rule page_off_lt)
  show "vread (s\<lparr>mem := m\<rparr>) v = (if p * 65536 + off \<le> unat v \<and> unat v < p * 65536 + off + length bs
      then Some (bs ! (unat v - (p * 65536 + off))) else vread s v)"
  proof (cases "page_no v = p")
    case True
    have "m (frame_addr ?ms f + of_nat ?o) = (if off \<le> ?o \<and> ?o < off + length bs
        then bs ! (?o - off) else mem s (frame_addr ?ms f + of_nat ?o))"
      unfolding m using off v(2) by (intro mem_write_off) auto
    then show ?thesis
      using True p v by (auto simp: vread_rel [OF rel'] vread_rel [OF rel])
  next
    case False
    then have "\<not> (p * 65536 + off \<le> unat v \<and> unat v < p * 65536 + off + length bs)"
      using v off by auto
    moreover have "vread (s\<lparr>mem := m\<rparr>) v = vread s v"
    proof (rule vread_same [OF rel rel'])
      show "same_frame (mem (s\<lparr>mem := m\<rparr>)) (mem s) ?ms h" if h: "dm (page_no v) = Some h" for h
        using dm_inj [OF D(4) h] p False frames_relD(5) [OF D(4) h] other by auto
    qed simp_all
    ultimately show ?thesis by (simp only: if_False)
  qed
qed

subsection \<open>The loops\<close>

text \<open>The pages of the \<open>n\<close> bytes from offset \<open>off\<close> of page \<open>p\<close> on.\<close>

definition range_mapped :: "(nat \<Rightarrow> nat option) \<Rightarrow> nat \<Rightarrow> nat \<Rightarrow> nat \<Rightarrow> bool" where
  "range_mapped dm p off n \<longleftrightarrow>
     off < 65536 \<and> p * 65536 + off + n \<le> 2 ^ 32
     \<and> (\<forall>q. p \<le> q \<longrightarrow> q * 65536 < p * 65536 + off + n \<longrightarrow> dm q \<noteq> None)"

lemma range_mapped_first:
  assumes "range_mapped dm p off n" and "0 < n"
  shows "\<exists>f. dm p = Some f"
  using assms by (auto simp: range_mapped_def)

lemma range_mapped_next:
  assumes "range_mapped dm (page_no va) off n" and "65536 - off < n"
  shows "page_no (get_next_page geo va) = page_no va + 1"
    and "range_mapped dm (page_no (get_next_page geo va)) 0 (n - (65536 - off))"
proof -
  have "off < 65536" "page_no va * 65536 + off + n \<le> 2 ^ 32" using assms(1) by (auto simp: range_mapped_def)
  then have "page_no va + 1 < 65536" using assms(2) by simp
  then show nxt: "page_no (get_next_page geo va) = page_no va + 1" by (simp add: page_no_next)
  have "(page_no va + 1) * 65536 + (n - (65536 - off)) = page_no va * 65536 + off + n"
    using assms by (simp add: range_mapped_def)
  then show "range_mapped dm (page_no (get_next_page geo va)) 0 (n - (65536 - off))"
    using assms(1) unfolding nxt range_mapped_def by auto
qed

lemma translate_mapped:
  assumes "vm_rel s pt dm" and "dm (page_no va) = Some f"
  shows "\<exists>c. translate s va = Inr (Some (frame_addr (memory_start s) f), s\<lparr>cache := c\<rparr>)
    \<and> vm_rel (s\<lparr>cache := c\<rparr>) pt dm"
  using translate_rel [OF assms(1), of va] assms(2) by simp

lemma vread_cache [simp]: "vread (s\<lparr>cache := c\<rparr>) = vread s"
  by (simp add: fun_eq_iff vread_def walk_def Let_def)

lemma range_mapped_step:
  assumes "off < 65536" and "p * 65536 + off + n \<le> 2 ^ 32" and "0 < n"
  shows "range_mapped dm p off n \<longleftrightarrow>
    dm p \<noteq> None \<and> (65536 - off < n \<longrightarrow> range_mapped dm (p + 1) 0 (n - (65536 - off)))"
proof -
  have first: "p * 65536 < p * 65536 + off + n" using assms(3) by simp
  have rest: "q * 65536 < p * 65536 + off + n \<longleftrightarrow>
      65536 - off < n \<and> q * 65536 < (p + 1) * 65536 + 0 + (n - (65536 - off))" if "p + 1 \<le> q" for q
  proof -
    have "(p + 1) * 65536 \<le> q * 65536" using that by (rule mult_le_mono1)
    then show ?thesis using assms(1) by auto
  qed
  have bound: "(p + 1) * 65536 + 0 + (n - (65536 - off)) \<le> 2 ^ 32" if "65536 - off < n"
    using that assms(1,2) by simp
  have "(\<forall>q. p \<le> q \<longrightarrow> P q) \<longleftrightarrow> P p \<and> (\<forall>q. p + 1 \<le> q \<longrightarrow> P q)" for P
    by (metis Suc_eq_plus1 le_refl not_less_eq_eq le_SucI le_antisym)
  then show ?thesis
    unfolding range_mapped_def using assms(1,2) first rest bound by auto
qed

lemma check_range_loop_spec:
  assumes "vm_rel s pt dm" and "off < 65536" and "page_no va * 65536 + off + n \<le> 2 ^ 32"
  shows "\<exists>c. check_range_loop (int n) (int off) va s =
      Inr (n = 0 \<or> range_mapped dm (page_no va) off n, s\<lparr>cache := c\<rparr>) \<and> vm_rel (s\<lparr>cache := c\<rparr>) pt dm"
  using assms
proof (induction n arbitrary: s va off rule: less_induct)
  case (less n)
  show ?case
  proof (cases "n = 0")
    case True
    then show ?thesis using less.prems(1) by (intro exI [of _ "cache s"]) (simp add: check_range_loop.simps)
  next
    case False
    note step = range_mapped_step [OF less.prems(2,3), of dm]
    obtain c where c: "translate s va = Inr (map_option (frame_addr (memory_start s)) (dm (page_no va)), s\<lparr>cache := c\<rparr>)"
      "vm_rel (s\<lparr>cache := c\<rparr>) pt dm" using translate_rel [OF less.prems(1), of va] by blast
    have g: "geom s = geo" using vm_relD(1) [OF less.prems(1)] .
    have run: "check_range_loop (int n) (int off) va s = (if dm (page_no va) = None then Inr (False, s\<lparr>cache := c\<rparr>)
        else check_range_loop (int n - (65536 - int off)) 0 (get_next_page geo va) (s\<lparr>cache := c\<rparr>))"
      using False c(1) g by (subst check_range_loop.simps) (auto simp: PGSIZE_def split: option.splits)
    show ?thesis
    proof (cases "dm (page_no va) = None")
      case True
      then show ?thesis using run c(2) step False by (intro exI [of _ c]) simp
    next
      case mapped: False
      show ?thesis
      proof (cases "65536 - off < n")
        case True
        let ?n = "n - (65536 - off)"
        have n: "int n - (65536 - int off) = int ?n" "?n < n" "?n \<noteq> 0" using True less.prems(2) by auto
        have "page_no va + 1 < 65536" using less.prems(2,3) True by simp
        then have nxt: "page_no (get_next_page geo va) = page_no va + 1" by (simp add: page_no_next)
        have "page_no (get_next_page geo va) * 65536 + 0 + ?n \<le> 2 ^ 32"
          unfolding nxt using less.prems(2,3) True by simp
        from less.IH [OF n(2) c(2) _ this] n(3)
        obtain c' where "check_range_loop (int ?n) (int 0) (get_next_page geo va) (s\<lparr>cache := c\<rparr>)
            = Inr (range_mapped dm (page_no va + 1) 0 ?n, s\<lparr>cache := c'\<rparr>)" "vm_rel (s\<lparr>cache := c'\<rparr>) pt dm"
          by (auto simp: nxt)
        then show ?thesis using run mapped step True False n(1) by (intro exI [of _ c']) simp
      next
        case short: False
        then have "\<not> 0 < int n - (65536 - int off)" using less.prems(2) by auto
        then show ?thesis using run mapped step short False c(2)
          by (intro exI [of _ c]) (simp add: check_range_loop.simps)
      qed
    qed
  qed
qed

lemma put_loop_spec:
  assumes "vm_rel s pt dm" and "range_mapped dm (page_no va) off n" and "n \<le> length val"
  shows "\<exists>s'. put_loop (int n) (int off) va val s = Inr s' \<and> vm_rel s' pt dm
    \<and> memory_start s' = memory_start s \<and> phy_bitmap s' = phy_bitmap s \<and> virt_bitmap s' = virt_bitmap s
    \<and> (\<forall>v. vread s' v = (if page_no va * 65536 + off \<le> unat v \<and> unat v < page_no va * 65536 + off + n
        then Some (val ! (unat v - (page_no va * 65536 + off))) else vread s v))"
  using assms
proof (induction n arbitrary: s va off val rule: less_induct)
  case (less n)
  let ?A = "page_no va * 65536 + off" and ?ms = "memory_start s"
  show ?case
  proof (cases "n = 0")
    case True
    then show ?thesis using less.prems(1) by (intro exI [of _ s]) (auto simp: put_loop.simps)
  next
    case False
    then obtain f where f: "dm (page_no va) = Some f" using range_mapped_first [OF less.prems(2)] by auto
    obtain c where c: "translate s va = Inr (Some (frame_addr ?ms f), s\<lparr>cache := c\<rparr>)"
      "vm_rel (s\<lparr>cache := c\<rparr>) pt dm" using translate_mapped [OF less.prems(1) f] by blast
    have g: "geom s = geo" using vm_relD(1) [OF less.prems(1)] .
    have off: "off < 65536" using less.prems(2) by (simp add: range_mapped_def)
    define k where "k = min n (65536 - off)"
    have k: "chunk (int n) (int off) = int k" "k \<le> length val" "off + k \<le> 65536" "k \<le> n"
      using off less.prems(3) by (auto simp: chunk_def k_def PGSIZE_def)
    define m where "m = mem_write (mem s) (frame_addr ?ms f + of_nat off) (take k val)"
    define s1 where "s1 = s\<lparr>cache := c, mem := m\<rparr>"
    have len: "length (take k val) = k" using k(2) by simp
    have R: "vm_rel s1 pt dm"
      and V: "vread s1 v = (if ?A \<le> unat v \<and> unat v < ?A + k then Some (take k val ! (unat v - ?A)) else vread s v)" for v
      using write_chunk_rel(1) [OF c(2) f, of off "take k val" m] k(3) len m_def
        write_chunk_rel(2) [OF c(2) f, of off "take k val" m v] by (simp_all add: s1_def)
    have "copy_in (mem s) (frame_addr ?ms f + of_int (int off)) val (int k) = Inr m"
      using k(2) by (simp add: copy_in_def m_def)
    then have step: "put_loop (int n) (int off) va val s =
        put_loop (int n - (65536 - int off)) 0 (get_next_page geo va) (drop k val) s1"
      using False c(1) g k(1) by (subst put_loop.simps) (simp add: PGSIZE_def s1_def)
    show ?thesis
    proof (cases "65536 - off < n")
      case True
      let ?n = "n - (65536 - off)" and ?B = "page_no (get_next_page geo va) * 65536 + 0"
      have kk: "k = 65536 - off" using True by (simp add: k_def)
      have nxt: "?B = ?A + k" using range_mapped_next(1) [OF less.prems(2) True] kk off by simp
      have sub: "int n - (65536 - int off) = int ?n" "?n < n" "?n \<le> length (drop k val)"
        using True off less.prems(3) kk by auto
      obtain s' where s': "put_loop (int ?n) (int 0) (get_next_page geo va) (drop k val) s1 = Inr s'" "vm_rel s' pt dm"
          "memory_start s' = memory_start s1" "phy_bitmap s' = phy_bitmap s1" "virt_bitmap s' = virt_bitmap s1"
        and V': "\<forall>v. vread s' v = (if ?B \<le> unat v \<and> unat v < ?B + ?n
            then Some (drop k val ! (unat v - ?B)) else vread s1 v)"
        using less.IH [OF sub(2) R range_mapped_next(2) [OF less.prems(2) True] sub(3)] by blast
      have "vread s' v = (if ?A \<le> unat v \<and> unat v < ?A + n then Some (val ! (unat v - ?A)) else vread s v)" for v
        using V' [rule_format, of v] V [of v] nxt kk True k(2) less.prems(3) by auto
      then show ?thesis using step s' sub(1) by (intro exI [of _ s']) (simp add: s1_def)
    next
      case False
      then have k_n: "\<not> 0 < int n - (65536 - int off)" "k = n" using off by (auto simp: k_def)
      have stop: "put_loop (int n - (65536 - int off)) 0 (get_next_page geo va) (drop k val) s1 = Inr s1"
        using k_n by (subst put_loop.simps) simp
      have "vread s1 v = (if ?A \<le> unat v \<and> unat v < ?A + n then Some (val ! (unat v - ?A)) else vread s v)" for v
        using V [of v] k_n(2) by auto
      then show ?thesis using step stop R by (intro exI [of _ s1]) (simp add: s1_def)
    qed
  qed
qed

text \<open>The \<open>n\<close> bytes from address \<open>A\<close> on, as a program reads them.\<close>

definition vbytes :: "vm \<Rightarrow> nat \<Rightarrow> nat \<Rightarrow> byte list" where
  "vbytes s A n = map (\<lambda>i. the (vread s (of_nat (A + i)))) [0..<n]"

lemma length_vbytes [simp]: "length (vbytes s A n) = n"
  by (simp add: vbytes_def)

lemma vbytes_add: "vbytes s A (k + n) = vbytes s A k @ vbytes s (A + k) n"
proof -
  have "[0..<k + n] = [0..<k] @ [k..<k + n]" by (rule upt_add_eq_append) simp
  moreover have "[k..<k + n] = map (\<lambda>i. i + k) [0..<n]"
    unfolding map_add_upt by (simp only: add.commute)
  ultimately show ?thesis by (simp add: vbytes_def ac_simps)
qed

lemma vbytes_cong: "(\<And>v. vread s v = vread s' v) \<Longrightarrow> vbytes s A n = vbytes s' A n"
  by (simp add: vbytes_def)

lemma read_chunk_rel:
  assumes rel: "vm_rel s pt dm" and p: "dm p = Some f" and off: "off + k \<le> 65536"
  shows "mem_read (mem s) (frame_addr (memory_start s) f + of_nat off) k = vbytes s (p * 65536 + off) k"
proof (rule nth_equalityI)
  fix i
  assume "i < length (mem_read (mem s) (frame_addr (memory_start s) f + of_nat off) k)"
  then have i: "i < k" by simp
  have "p < 65536" using frames_relD(5) [OF vm_relD(4) [OF rel] p] by (simp add: num_vpages_def)
  then have lt: "p * 65536 + off + i < 2 ^ 32" using off i by simp
  let ?v = "of_nat (p * 65536 + off + i) :: addr"
  have "unat ?v = p * 65536 + (off + i)" using lt by (simp only: unat_of_nat) simp
  then have "page_no ?v = p" "page_off ?v = off + i"
    using off i by (simp_all add: page_no_def page_off_def)
  then show "mem_read (mem s) (frame_addr (memory_start s) f + of_nat off) k ! i = vbytes s (p * 65536 + off) k ! i"
    using i p by (simp add: mem_read_def vbytes_def vread_rel [OF rel] add.assoc)
qed simp

lemma get_loop_spec:
  assumes "vm_rel s pt dm" and "range_mapped dm (page_no va) off n" and "pos + n \<le> length val"
  shows "\<exists>c. get_loop (int n) (int off) va pos val s =
      Inr (splice pos (vbytes s (page_no va * 65536 + off) n) val, s\<lparr>cache := c\<rparr>) \<and> vm_rel (s\<lparr>cache := c\<rparr>) pt dm"
  using assms
proof (induction n arbitrary: s va off pos val rule: less_induct)
  case (less n)
  let ?A = "page_no va * 65536 + off" and ?ms = "memory_start s"
  show ?case
  proof (cases "n = 0")
    case True
    then show ?thesis using less.prems(1)
      by (intro exI [of _ "cache s"]) (simp add: get_loop.simps splice_def vbytes_def)
  next
    case False
    then obtain f where f: "dm (page_no va) = Some f" using range_mapped_first [OF less.prems(2)] by auto
    obtain c where c: "translate s va = Inr (Some (frame_addr ?ms f), s\<lparr>cache := c\<rparr>)"
      "vm_rel (s\<lparr>cache := c\<rparr>) pt dm" using translate_mapped [OF less.prems(1) f] by blast
    have g: "geom s = geo" using vm_relD(1) [OF less.prems(1)] .
    have off: "off < 65536" using less.prems(2) by (simp add: range_mapped_def)
    define k where "k = min n (65536 - off)"
    have k: "chunk (int n) (int off) = int k" "off + k \<le> 65536" "k \<le> n"
      using off by (auto simp: chunk_def k_def PGSIZE_def)
    define val1 where "val1 = splice pos (vbytes s ?A k) val"
    have "mem_read (mem s) (frame_addr ?ms f + of_nat off) k = vbytes s ?A k"
      by (rule read_chunk_rel [OF less.prems(1) f k(2)])
    then have "copy_out (mem s) (frame_addr ?ms f + of_int (int off)) val pos (int k) = Inr val1"
      using k(3) less.prems(3) by (simp add: copy_out_def val1_def)
    then have step: "get_loop (int n) (int off) va pos val s =
        get_loop (int n - (65536 - int off)) 0 (get_next_page geo va) (pos + (65536 - off)) val1 (s\<lparr>cache := c\<rparr>)"
      using False c(1) g k(1) off by (subst get_loop.simps) (simp add: PGSIZE_def nat_diff_distrib)
    have len1: "length val1 = length val" using k(3) less.prems(3) by (simp add: val1_def)
    show ?thesis
    proof (cases "65536 - off < n")
      case True
      let ?n = "n - (65536 - off)" and ?B = "page_no (get_next_page geo va) * 65536 + 0"
      have kk: "k = 65536 - off" using True by (simp add: k_def)
      have nxt: "?B = ?A + k" using range_mapped_next(1) [OF less.prems(2) True] kk off by simp
      have sub: "int n - (65536 - int off) = int ?n" "?n < n" "pos + k + ?n \<le> length val1"
        using True off less.prems(3) kk len1 by auto
      obtain c' where c': "get_loop (int ?n) (int 0) (get_next_page geo va) (pos + k) val1 (s\<lparr>cache := c\<rparr>) =
          Inr (splice (pos + k) (vbytes (s\<lparr>cache := c\<rparr>) ?B ?n) val1, s\<lparr>cache := c'\<rparr>)" "vm_rel (s\<lparr>cache := c'\<rparr>) pt dm"
        using less.IH [OF sub(2) c(2) range_mapped_next(2) [OF less.prems(2) True] sub(3)] by auto
      have "splice (pos + k) (vbytes s ?B ?n) val1 = splice pos (vbytes s ?A n) val"
        using splice_splice [of pos "vbytes s ?A k" "vbytes s (?A + k) ?n" val] less.prems(3) kk True nxt
          vbytes_add [of s ?A k ?n] by (simp add: val1_def)
      moreover have "vbytes (s\<lparr>cache := c\<rparr>) ?B ?n = vbytes s ?B ?n" by (rule vbytes_cong) simp
      ultimately show ?thesis using step c' sub(1) kk by (intro exI [of _ c']) simp
    next
      case False
      then have k_n: "\<not> 0 < int n - (65536 - int off)" "k = n" using off by (auto simp: k_def)
      have "get_loop (int n - (65536 - int off)) 0 (get_next_page geo va) (pos + (65536 - off)) val1 (s\<lparr>cache := c\<rparr>)
          = Inr (val1, s\<lparr>cache := c\<rparr>)" using k_n by (subst get_loop.simps) simp
      then show ?thesis using step c(2) k_n(2) by (intro exI [of _ c]) (simp add: val1_def)
    qed
  qed
qed

subsection \<open>The two functions\<close>

lemma range_mapped_vread:
  assumes rel: "vm_rel s pt dm" and fits: "unat va + n \<le> 2 ^ 32" and n: "0 < n"
  shows "range_mapped dm (page_no va) (page_off va) n \<longleftrightarrow> (\<forall>i < n. vread s (va + of_nat i) \<noteq> None)"
proof -
  have A: "page_no va * 65536 + page_off va = unat va" by (rule unat_page_split [symmetric])
  have at: "vread s (va + of_nat i) \<noteq> None \<longleftrightarrow> dm ((unat va + i) div 65536) \<noteq> None" if "i < n" for i
  proof -
    have "unat (va + of_nat i) = unat va + i" using that fits by (intro unat_base_plus) simp
    then show ?thesis by (simp add: vread_rel [OF rel] page_no_def)
  qed
  have "(\<forall>q. page_no va \<le> q \<longrightarrow> q * 65536 < unat va + n \<longrightarrow> dm q \<noteq> None) \<longleftrightarrow>
      (\<forall>i < n. dm ((unat va + i) div 65536) \<noteq> None)"
  proof (intro iffI allI impI)
    fix i assume "\<forall>q. page_no va \<le> q \<longrightarrow> q * 65536 < unat va + n \<longrightarrow> dm q \<noteq> None" "i < n"
    moreover have "page_no va \<le> (unat va + i) div 65536" by (simp add: page_no_def div_le_mono)
    moreover have "(unat va + i) div 65536 * 65536 \<le> unat va + i" by simp
    ultimately show "dm ((unat va + i) div 65536) \<noteq> None" by (metis add_strict_left_mono le_less_trans)
  next
    fix q assume all: "\<forall>i < n. dm ((unat va + i) div 65536) \<noteq> None" and q: "page_no va \<le> q" "q * 65536 < unat va + n"
    define i where "i = q * 65536 - unat va"
    have "i < n \<and> (unat va + i) div 65536 = q"
    proof (cases "unat va \<le> q * 65536")
      case True
      then show ?thesis using q by (auto simp: i_def)
    next
      case False
      then have "i = 0" by (simp add: i_def)
      moreover have "q \<le> unat va div 65536" using False by (simp add: less_eq_div_iff_mult_less_eq)
      ultimately show ?thesis using q(1) n by (simp add: page_no_def)
    qed
    then show "dm q \<noteq> None" using all by auto
  qed
  moreover have "page_no va * 65536 + page_off va + n \<le> 2 ^ 32" using fits A by simp
  ultimately show ?thesis using at by (simp add: range_mapped_def A page_off_lt)
qed

lemma put_value_rel:
  assumes rel: "vm_rel s pt dm" and "\<not> mutex_locked s" and "0 < n" and "n \<le> length val"
    and r: "range_mapped dm (page_no va) (page_off va) n"
  shows "\<exists>s'. put_value s va val (int n) = Inr s' \<and> vm_rel s' pt dm \<and> \<not> mutex_locked s'
    \<and> memory_start s' = memory_start s \<and> phy_bitmap s' = phy_bitmap s \<and> virt_bitmap s' = virt_bitmap s
    \<and> (\<forall>v. vread s' v = (if unat va \<le> unat v \<and> unat v < unat va + n
        then Some (val ! (unat v - unat va)) else vread s v))"
proof -
  let ?s = "s\<lparr>mutex_locked := True\<rparr>" and ?ms = "memory_start s"
  have rel': "vm_rel ?s pt dm" using rel by simp
  note D = vm_relD [OF rel']
  have ms: "?ms \<noteq> 0" using D(2) by (simp add: block_ok_def)
  have off: "offset_of ?s va = int (page_off va)" by (rule offset_of_geo [OF D(1)])
  have A: "page_no va * 65536 + page_off va = unat va" by (rule unat_page_split [symmetric])
  have vs: "vread ?s = vread s" by (simp add: fun_eq_iff vread_def walk_def Let_def)
  show ?thesis
  proof (cases "int PGSIZE - int (page_off va) > int n")
    case True
    obtain f where f: "dm (page_no va) = Some f" using range_mapped_first [OF r assms(3)] by auto
    obtain c where c: "translate ?s va = Inr (Some (frame_addr ?ms f), ?s\<lparr>cache := c\<rparr>)"
      "vm_rel (?s\<lparr>cache := c\<rparr>) pt dm" using translate_mapped [OF rel' f] by auto
    define m where "m = mem_write (mem s) (frame_addr ?ms f + of_nat (page_off va)) (take n val)"
    have len: "length (take n val) = n" "page_off va + n \<le> 65536" using True assms(4) by (simp_all add: PGSIZE_def)
    have R: "vm_rel (?s\<lparr>cache := c, mem := m\<rparr>) pt dm"
      using write_chunk_rel(1) [OF c(2) f, of "page_off va" "take n val" m] len by (simp add: m_def)
    have V: "vread (?s\<lparr>cache := c, mem := m\<rparr>) v = (if unat va \<le> unat v \<and> unat v < unat va + n
        then Some (take n val ! (unat v - unat va)) else vread s v)" for v
      using write_chunk_rel(2) [OF c(2) f, of "page_off va" "take n val" m v] len vs by (simp add: m_def A)
    have "put_value s va val (int n) = Inr (unlock (?s\<lparr>cache := c, mem := m\<rparr>))"
      using True off ms c(1) assms(2,4)
      by (simp add: put_value_def Let_def copy_in_def m_def)
    then show ?thesis using R V by (intro exI [of _ "unlock (?s\<lparr>cache := c, mem := m\<rparr>)"]) auto
  next
    case False
    have "page_no va * 65536 + page_off va + n \<le> 2 ^ 32" using r by (simp add: range_mapped_def)
    from check_range_loop_spec [OF rel' page_off_lt this] r
    obtain c where c: "check_range_loop (int n) (int (page_off va)) va ?s = Inr (True, ?s\<lparr>cache := c\<rparr>)"
      "vm_rel (?s\<lparr>cache := c\<rparr>) pt dm" by auto
    obtain s' where s': "put_loop (int n) (int (page_off va)) va val (?s\<lparr>cache := c\<rparr>) = Inr s'" "vm_rel s' pt dm"
      "memory_start s' = ?ms" "phy_bitmap s' = phy_bitmap s" "virt_bitmap s' = virt_bitmap s"
      and V: "\<forall>v. vread s' v = (if unat va \<le> unat v \<and> unat v < unat va + n
        then Some (val ! (unat v - unat va)) else vread s v)"
      using put_loop_spec [OF c(2) r assms(4)] vs by (auto simp: A)
    have "put_value s va val (int n) = Inr (unlock s')"
      using False off ms c(1) s'(1) assms(2) by (simp add: put_value_def Let_def)
    then show ?thesis using s' V by (intro exI [of _ "unlock s'"]) simp
  qed
qed

lemma get_value_rel:
  assumes rel: "vm_rel s pt dm" and "\<not> mutex_locked s" and "0 < n" and "n \<le> length buf"
    and r: "range_mapped dm (page_no va) (page_off va) n"
  shows "\<exists>c. get_value s va buf (int n) = Inr (vbytes s (unat va) n @ drop n buf, s\<lparr>cache := c\<rparr>)
    \<and> vm_rel (s\<lparr>cache := c\<rparr>) pt dm"
proof -
  let ?s = "s\<lparr>mutex_locked := True\<rparr>" and ?ms = "memory_start s"
  have rel': "vm_rel ?s pt dm" using rel by simp
  note D = vm_relD [OF rel']
  have ms: "?ms \<noteq> 0" using D(2) by (simp add: block_ok_def)
  have off: "offset_of ?s va = int (page_off va)" by (rule offset_of_geo [OF D(1)])
  have A: "page_no va * 65536 + page_off va = unat va" by (rule unat_page_split [symmetric])
  have vs: "vbytes (?s\<lparr>cache := c\<rparr>) a n = vbytes s a n" "vbytes ?s a n = vbytes s a n" for c a
    by (rule vbytes_cong, simp add: vread_def walk_def Let_def)+
  have restored: "unlock (?s\<lparr>cache := c\<rparr>) = s\<lparr>cache := c\<rparr>" for c
    using assms(2) by (simp add: unlock_def)
  have keep: "vm_rel (s\<lparr>cache := c\<rparr>) pt dm" if "vm_rel (?s\<lparr>cache := c\<rparr>) pt dm" for c
    using that vm_rel_unlock [of "?s\<lparr>cache := c\<rparr>"] restored by simp
  show ?thesis
  proof (cases "int PGSIZE - int (page_off va) > int n")
    case True
    obtain f where f: "dm (page_no va) = Some f" using range_mapped_first [OF r assms(3)] by auto
    obtain c where c: "translate ?s va = Inr (Some (frame_addr ?ms f), ?s\<lparr>cache := c\<rparr>)"
      "vm_rel (?s\<lparr>cache := c\<rparr>) pt dm" using translate_mapped [OF rel' f] by auto
    have "page_off va + n \<le> 65536" using True by (simp add: PGSIZE_def)
    then have "mem_read (mem s) (frame_addr ?ms f + of_nat (page_off va)) n = vbytes s (unat va) n"
      using read_chunk_rel [OF rel f] A by simp
    then have "get_value s va buf (int n) = Inr (vbytes s (unat va) n @ drop n buf, s\<lparr>cache := c\<rparr>)"
      using True off ms c(1) assms(2,4) restored
      by (simp add: get_value_def Let_def copy_out_def splice_def)
    then show ?thesis using keep [OF c(2)] by blast
  next
    case False
    have "page_no va * 65536 + page_off va + n \<le> 2 ^ 32" using r by (simp add: range_mapped_def)
    from check_range_loop_spec [OF rel' page_off_lt this] r
    obtain c where c: "check_range_loop (int n) (int (page_off va)) va ?s = Inr (True, ?s\<lparr>cache := c\<rparr>)"
      "vm_rel (?s\<lparr>cache := c\<rparr>) pt dm" by auto
    obtain c' where c': "get_loop (int n) (int (page_off va)) va 0 buf (?s\<lparr>cache := c\<rparr>) =
        Inr (splice 0 (vbytes s (unat va) n) buf, ?s\<lparr>cache := c'\<rparr>)" "vm_rel (?s\<lparr>cache := c'\<rparr>) pt dm"
      using get_loop_spec [OF c(2) r, of 0 buf] assms(4) vs(1) by (auto simp: A)
    then have "get_value s va buf (int n) = Inr (vbytes s (unat va) n @ drop n buf, s\<lparr>cache := c'\<rparr>)"
      using False off ms c(1) assms(2) restored by (simp add: get_value_def Let_def splice_def)
    then show ?thesis using keep [OF c'(2)] by blast
  qed
qed

subsection \<open>What a program sees\<close>

text \<open>\<open>put_value\<close> on a range of readable virtual addresses stores the first \<open>size\<close> bytes of the
  buffer there, across page boundaries and wherever the pages' frames lie; every other byte of
  the virtual memory is unchanged, the invariant holds and the mutex is released.\<close>

theorem put_value_writes_range:
  assumes "vm_inv s" and "\<not> mutex_locked s" and "0 < n" and "n \<le> length val" and "unat va + n \<le> 2 ^ 32"
    and "\<forall>i < n. vread s (va + of_nat i) \<noteq> None"
  shows "\<exists>s'. put_value s va val (int n) = Inr s' \<and> vm_inv s' \<and> \<not> mutex_locked s'
    \<and> (\<forall>v. vread s' v = (if unat va \<le> unat v \<and> unat v < unat va + n
        then Some (val ! (unat v - unat va)) else vread s v))"
proof -
  obtain pt dm where rel: "vm_rel s pt dm" using assms(1) by (auto simp: vm_inv_def)
  have "range_mapped dm (page_no va) (page_off va) n"
    using range_mapped_vread [OF rel assms(5,3)] assms(6) by blast
  from put_value_rel [OF rel assms(2-4) this] show ?thesis unfolding vm_inv_def by blast
qed

text \<open>\<open>get_value\<close> on a range of readable virtual addresses returns exactly the bytes of the
  virtual memory in the first \<open>size\<close> bytes of the buffer, leaves the rest of the buffer, and
  changes nothing but the TLB.\<close>

theorem get_value_reads_range:
  assumes "vm_inv s" and "\<not> mutex_locked s" and "0 < n" and "n \<le> length buf" and "unat va + n \<le> 2 ^ 32"
    and "\<forall>i < n. vread s (va + of_nat i) \<noteq> None"
  shows "\<exists>c. get_value s va buf (int n) =
      Inr (map (\<lambda>i. the (vread s (va + of_nat i))) [0..<n] @ drop n buf, s\<lparr>cache := c\<rparr>)
    \<and> vm_inv (s\<lparr>cache := c\<rparr>)"
proof -
  obtain pt dm where rel: "vm_rel s pt dm" using assms(1) by (auto simp: vm_inv_def)
  have r: "range_mapped dm (page_no va) (page_off va) n"
    using range_mapped_vread [OF rel assms(5,3)] assms(6) by blast
  have "vbytes s (unat va) n = map (\<lambda>i. the (vread s (va + of_nat i))) [0..<n]"
    by (simp add: vbytes_def word_of_nat_unat)
  then show ?thesis using get_value_rel [OF rel assms(2-4) r] by (auto simp: vm_inv_def)
qed

text \<open>C4: What \<open>put_value\<close> stores, a \<open>get_value\<close> of the same range reads back.\<close>

theorem put_get_roundtrip:
  assumes "vm_inv s" and "\<not> mutex_locked s" and "0 < n" and "n \<le> length val" and "length buf = n"
    and "unat va + n \<le> 2 ^ 32" and "\<forall>i < n. vread s (va + of_nat i) \<noteq> None"
  shows "\<exists>s' s''. put_value s va val (int n) = Inr s' \<and> get_value s' va buf (int n) = Inr (take n val, s'')
    \<and> vm_inv s''"
proof -
  obtain pt dm where rel: "vm_rel s pt dm" using assms(1) by (auto simp: vm_inv_def)
  have r: "range_mapped dm (page_no va) (page_off va) n"
    using range_mapped_vread [OF rel assms(6,3)] assms(7) by blast
  obtain s' where s': "put_value s va val (int n) = Inr s'" "vm_rel s' pt dm" "\<not> mutex_locked s'"
      "\<forall>v. vread s' v = (if unat va \<le> unat v \<and> unat v < unat va + n
        then Some (val ! (unat v - unat va)) else vread s v)"
    using put_value_rel [OF rel assms(2-4) r] by blast
  obtain c where c: "get_value s' va buf (int n) = Inr (vbytes s' (unat va) n @ drop n buf, s'\<lparr>cache := c\<rparr>)"
      "vm_rel (s'\<lparr>cache := c\<rparr>) pt dm"
    using get_value_rel [OF s'(2,3) assms(3) _ r, of buf] assms(5) by auto
  have "vbytes s' (unat va) n = take n val"
  proof (rule nth_equalityI)
    fix i assume "i < length (vbytes s' (unat va) n)"
    then have i: "i < n" by simp
    then have "unat (of_nat (unat va + i) :: addr) = unat va + i"
      using assms(6) by (simp only: unat_of_nat) simp
    then show "vbytes s' (unat va) n ! i = take n val ! i"
      using i s'(4) by (simp add: vbytes_def)
  qed (use assms(4) in simp)
  then show ?thesis using s'(1) c assms(5) by (intro exI [of _ s'] exI [of _ "s'\<lparr>cache := c\<rparr>"]) (auto simp: vm_inv_def)
qed

lemma vm_booted:
  assumes "0 < k" and "k < 10"
  shows "\<exists>s. vm_inv s \<and> \<not> mutex_locked s \<and> (\<forall>q < num_vpages. walk s q \<noteq> None \<longleftrightarrow> q < k)"
proof -
  have "pages_of (uint (of_nat (k * 65536) :: 32 word)) = int k"
  proof -
    have "uint (of_nat (k * 65536) :: 32 word) = int (k * 65536)"
      using assms(2) by (simp only: uint_nat unat_of_nat) simp
    then show ?thesis by (simp add: pages_of_def PGSIZE_def)
  qed
  moreover have "(of_nat (k * 65536) :: 32 word) \<noteq> 0"
  proof -
    have "unat (of_nat (k * 65536) :: 32 word) \<noteq> 0" using assms by (simp only: unat_of_nat) simp
    then show ?thesis by (metis unat_0)
  qed
  ultimately obtain s pt dm where s: "vm_rel s pt dm" "\<not> mutex_locked s" "\<forall>q. dm q \<noteq> None \<longleftrightarrow> q < nat (int k)"
    using t_malloc_boot [of 65536 "of_nat (k * 65536)" "int k" "[]" "\<lambda>_. 0"] assms(2)
    by (auto simp: block_ok_def)
  then show ?thesis by (intro exI [of _ s]) (auto simp: vm_inv_def walk_none [OF s(1)])
qed

lemma vread_walk: "vread s v \<noteq> None \<longleftrightarrow> walk s (page_no v) \<noteq> None"
  by (simp add: vread_def)

lemma vm_booted_range:
  assumes "unat va + n \<le> 2 * 65536"
  shows "\<exists>s. vm_inv s \<and> \<not> mutex_locked s \<and> (\<forall>i < n. vread s (va + of_nat i) \<noteq> None)"
proof -
  obtain s where s: "vm_inv s" "\<not> mutex_locked s" "\<forall>q < num_vpages. walk s q \<noteq> None \<longleftrightarrow> q < 2"
    using vm_booted [of 2] by auto
  have "page_no (va + of_nat i) < 2" if "i < n" for i
  proof -
    have "unat (va + of_nat i) = unat va + i" using that assms by (intro unat_base_plus) simp
    then show ?thesis using that assms by (simp add: page_no_def less_mult_imp_div_less)
  qed
  then show ?thesis unfolding vread_walk using s page_no_vpages by blast
qed

theorem put_value_writes_range_witness:
  "\<exists>s s'. put_value s 65534 [1, 2, 3, 4] 4 = Inr s' \<and> vm_inv s' \<and> vread s' 65537 = Some 4"
proof -
  obtain s where s: "vm_inv s" "\<not> mutex_locked s" "\<forall>i < 4. vread s (65534 + of_nat i) \<noteq> None"
    using vm_booted_range [of 65534 4] by auto
  obtain s' where "put_value s 65534 [1, 2, 3, 4] (int 4) = Inr s'" "vm_inv s'"
      "\<forall>v. vread s' v = (if unat (65534 :: addr) \<le> unat v \<and> unat v < unat (65534 :: addr) + 4
        then Some ([1, 2, 3, 4] ! (unat v - unat (65534 :: addr))) else vread s v)"
    using put_value_writes_range [OF s(1,2) _ _ _ s(3), of "[1, 2, 3, 4]"] by auto
  then show ?thesis by (intro exI [of _ s] exI [of _ s']) simp
qed

theorem get_value_reads_range_witness:
  "\<exists>s s' bs. get_value s 65534 [9, 9, 9, 9, 9] 4 = Inr (bs @ [9], s') \<and> length bs = 4 \<and> vm_inv s'"
proof -
  obtain s where s: "vm_inv s" "\<not> mutex_locked s" "\<forall>i < 4. vread s (65534 + of_nat i) \<noteq> None"
    using vm_booted_range [of 65534 4] by auto
  obtain c where "get_value s 65534 [9, 9, 9, 9, 9] (int 4) =
      Inr (map (\<lambda>i. the (vread s (65534 + of_nat i))) [0..<4] @ drop 4 [9, 9, 9, 9, 9], s\<lparr>cache := c\<rparr>)"
      "vm_inv (s\<lparr>cache := c\<rparr>)"
    using get_value_reads_range [OF s(1,2) _ _ _ s(3), of "[9, 9, 9, 9, 9]"] by auto
  then show ?thesis
    by (intro exI [of _ s] exI [of _ "s\<lparr>cache := c\<rparr>"] exI [of _ "map (\<lambda>i. the (vread s (65534 + of_nat i))) [0..<4]"]) simp
qed

theorem put_get_roundtrip_witness:
  "\<exists>s s' s''. put_value s 65534 [1, 2, 3, 4] 4 = Inr s' \<and> get_value s' 65534 [0, 0, 0, 0] 4 = Inr ([1, 2, 3, 4], s'')"
proof -
  obtain s where s: "vm_inv s" "\<not> mutex_locked s" "\<forall>i < 4. vread s (65534 + of_nat i) \<noteq> None"
    using vm_booted_range [of 65534 4] by auto
  have "\<exists>s' s''. put_value s 65534 [1, 2, 3, 4] (int 4) = Inr s'
      \<and> get_value s' 65534 [0, 0, 0, 0] (int 4) = Inr (take 4 [1, 2, 3, 4], s'') \<and> vm_inv s''"
    by (rule put_get_roundtrip [OF s(1,2) _ _ _ _ s(3)]) simp_all
  then show ?thesis by auto
qed

lemma value_refused:
  assumes rel: "vm_rel s pt dm" and "\<not> mutex_locked s" and "0 < n" and "unat va + n \<le> 2 ^ 32"
    and "65536 \<le> page_off va + n" and "\<not> range_mapped dm (page_no va) (page_off va) n"
  shows "\<exists>c. put_value s va val (int n) = Inr (s\<lparr>cache := c\<rparr>) \<and> get_value s va val (int n) = Inr (val, s\<lparr>cache := c\<rparr>)
    \<and> vm_rel (s\<lparr>cache := c\<rparr>) pt dm"
proof -
  let ?s = "s\<lparr>mutex_locked := True\<rparr>"
  have rel': "vm_rel ?s pt dm" using rel by simp
  have ms: "memory_start s \<noteq> 0" using vm_relD(2) [OF rel] by (simp add: block_ok_def)
  have fits: "page_no va * 65536 + page_off va + n \<le> 2 ^ 32"
    using assms(4) by (simp flip: unat_page_split)
  obtain c where c: "check_range_loop (int n) (int (page_off va)) va ?s = Inr (False, ?s\<lparr>cache := c\<rparr>)"
      "vm_rel (?s\<lparr>cache := c\<rparr>) pt dm"
    using check_range_loop_spec [OF rel' page_off_lt fits] assms(3,6) by auto
  have "unlock (?s\<lparr>cache := c\<rparr>) = s\<lparr>cache := c\<rparr>" using assms(2) by (simp add: unlock_def)
  moreover have "vm_rel (s\<lparr>cache := c\<rparr>) pt dm" using c(2) vm_rel_unlock calculation by metis
  moreover have "put_value s va val (int n) = Inr (unlock (?s\<lparr>cache := c\<rparr>))"
    "get_value s va val (int n) = Inr (val, unlock (?s\<lparr>cache := c\<rparr>))"
    using c(1) ms assms(2,5) offset_of_geo [OF vm_relD(1) [OF rel']]
    by (simp_all add: put_value_def get_value_def Let_def PGSIZE_def)
  ultimately show ?thesis by (intro exI [of _ c]) auto
qed

text \<open>A transfer that reaches the end of its page and meets an unmapped page anywhere in the
  range stores nothing at all: the whole range is tested first, and the mutex is released.\<close>

theorem put_value_all_or_nothing:
  assumes "vm_inv s" and "\<not> mutex_locked s" and "0 < n" and "unat va + n \<le> 2 ^ 32"
    and "65536 \<le> page_off va + n" and "i < n" and "vread s (va + of_nat i) = None"
  shows "\<exists>c. put_value s va val (int n) = Inr (s\<lparr>cache := c\<rparr>) \<and> vm_inv (s\<lparr>cache := c\<rparr>)"
proof -
  obtain pt dm where rel: "vm_rel s pt dm" using assms(1) by (auto simp: vm_inv_def)
  have "\<not> range_mapped dm (page_no va) (page_off va) n"
    using range_mapped_vread [OF rel assms(4,3)] assms(6,7) by blast
  from value_refused [OF rel assms(2-5) this, of val] show ?thesis by (auto simp: vm_inv_def)
qed

theorem put_value_all_or_nothing_witness:
  "\<exists>s c. put_value s 65536 [] 70000 = Inr (s\<lparr>cache := c\<rparr>)"
proof -
  obtain s where s: "vm_inv s" "\<not> mutex_locked s" "\<forall>q < num_vpages. walk s q \<noteq> None \<longleftrightarrow> q < 1"
    using vm_booted [of 1] by auto
  have "vread s (65536 + of_nat 0) = None"
    using s(3) [rule_format, of 1] vread_walk [of s 65536] by (simp add: page_no_def num_vpages_def)
  from put_value_all_or_nothing [OF s(1,2) _ _ _ _ this, of 70000 "[]"] show ?thesis by auto
qed

text \<open>C27: A transfer that stays inside one page which is not mapped returns without releasing the
  mutex; every later call of the library then waits for it forever.\<close>

theorem put_value_error_keeps_mutex:
  assumes "vm_inv s" and "\<not> mutex_locked s" and "page_off va + n < 65536" and "walk s (page_no va) = None"
  shows "\<exists>s'. put_value s va val (int n) = Inr s' \<and> mutex_locked s'
    \<and> (\<forall>u buf k. put_value s' u buf k = Inl Deadlock \<and> get_value s' u buf k = Inl Deadlock
         \<and> t_free s' u k = Inl Deadlock \<and> t_malloc s' u = Inl Deadlock)"
proof -
  obtain pt dm where rel: "vm_rel s pt dm" using assms(1) by (auto simp: vm_inv_def)
  let ?s = "s\<lparr>mutex_locked := True\<rparr>"
  have rel': "vm_rel ?s pt dm" using rel by simp
  have ms: "memory_start s \<noteq> 0" using vm_relD(2) [OF rel] by (simp add: block_ok_def)
  have "dm (page_no va) = None" using assms(4) walk_none [OF rel] by simp
  then obtain c where c: "translate ?s va = Inr (None, ?s\<lparr>cache := c\<rparr>)"
    using translate_rel [OF rel', of va] by auto
  then have "put_value s va val (int n) = Inr (?s\<lparr>cache := c\<rparr>)"
    using ms assms(2,3) offset_of_geo [OF vm_relD(1) [OF rel']]
    by (simp add: put_value_def Let_def PGSIZE_def)
  then show ?thesis
    by (intro exI [of _ "?s\<lparr>cache := c\<rparr>"]) (simp add: put_value_def get_value_def t_free_def t_malloc_def)
qed

theorem put_value_error_keeps_mutex_witness:
  "\<exists>s s'. put_value s 65536 [7] 1 = Inr s' \<and> t_malloc s' 1 = Inl Deadlock"
proof -
  obtain s where s: "vm_inv s" "\<not> mutex_locked s" "\<forall>q < num_vpages. walk s q \<noteq> None \<longleftrightarrow> q < 1"
    using vm_booted [of 1] by auto
  have "walk s (page_no 65536) = None" using s(3) [rule_format, of 1] by (simp add: page_no_def num_vpages_def)
  then obtain s' where "put_value s 65536 [7] (int 1) = Inr s'" "\<forall>u buf k. put_value s' u buf k = Inl Deadlock
      \<and> get_value s' u buf k = Inl Deadlock \<and> t_free s' u k = Inl Deadlock \<and> t_malloc s' u = Inl Deadlock"
    using put_value_error_keeps_mutex [OF s(1,2), of 65536 1 "[7]"] by (auto simp: page_off_def)
  then show ?thesis by (intro exI [of _ s] exI [of _ s']) simp
qed

end
