(* ===== verification/Vm_Matrix.thy ===== *)
theory Vm_Matrix
  imports Vm_Access
begin

text \<open>
  \<open>mat_mult\<close> of \<open>Level -3/my_vm.c\<close>: the product of two square matrices of 32-bit words in the
  virtual memory, element by element through \<open>get_value\<close> and \<open>put_value\<close>.  The locals \<open>a\<close> and
  \<open>b\<close> are not initialised; their first contents are parameters.
\<close>

subsection \<open>Operations\<close>

definition word_of_bytes :: "byte list \<Rightarrow> 32 word" where
  "word_of_bytes bs = ucast (bs ! 0) OR push_bit 8 (ucast (bs ! 1))
     OR push_bit 16 (ucast (bs ! 2)) OR push_bit 24 (ucast (bs ! 3))"

definition elem_addr :: "addr \<Rightarrow> nat \<Rightarrow> nat \<Rightarrow> nat \<Rightarrow> addr" where
  "elem_addr mat sz r c = mat + of_nat (r * sz) * 4 + of_nat c * 4"

text \<open>The loop over \<open>k\<close>; its first argument counts the rounds that are left.\<close>

primrec dot_loop :: "nat \<Rightarrow> nat \<Rightarrow> addr \<Rightarrow> addr \<Rightarrow> nat \<Rightarrow> nat \<Rightarrow> nat \<Rightarrow> byte list \<Rightarrow> byte list \<Rightarrow> 32 word
    \<Rightarrow> vm \<Rightarrow> (32 word \<times> vm) result" where
  "dot_loop 0 k mat1 mat2 sz i j a b c s = Inr (c, s)"
| "dot_loop (Suc n) k mat1 mat2 sz i j a b c s =
     (case get_value s (elem_addr mat1 sz i k) a 4 of
        Inl f \<Rightarrow> Inl f
      | Inr (a, s) \<Rightarrow>
          (case get_value s (elem_addr mat2 sz k j) b 4 of
             Inl f \<Rightarrow> Inl f
           | Inr (b, s) \<Rightarrow>
               dot_loop n (Suc k) mat1 mat2 sz i j a b (c + word_of_bytes a * word_of_bytes b) s))"

primrec col_loop :: "nat \<Rightarrow> nat \<Rightarrow> addr \<Rightarrow> addr \<Rightarrow> addr \<Rightarrow> nat \<Rightarrow> nat \<Rightarrow> byte list \<Rightarrow> byte list
    \<Rightarrow> vm \<Rightarrow> vm result" where
  "col_loop 0 j mat1 mat2 answer sz i a b s = Inr s"
| "col_loop (Suc n) j mat1 mat2 answer sz i a b s =
     (case dot_loop sz 0 mat1 mat2 sz i j a b 0 s of
        Inl f \<Rightarrow> Inl f
      | Inr (c, s) \<Rightarrow>
          (case put_value s (elem_addr answer sz i j) (le_bytes32 c) 4 of
             Inl f \<Rightarrow> Inl f
           | Inr s \<Rightarrow> col_loop n (Suc j) mat1 mat2 answer sz i a b s))"

primrec row_loop :: "nat \<Rightarrow> nat \<Rightarrow> addr \<Rightarrow> addr \<Rightarrow> addr \<Rightarrow> nat \<Rightarrow> byte list \<Rightarrow> byte list \<Rightarrow> vm \<Rightarrow> vm result" where
  "row_loop 0 i mat1 mat2 answer sz a b s = Inr s"
| "row_loop (Suc n) i mat1 mat2 answer sz a b s =
     (case col_loop sz 0 mat1 mat2 answer sz i a b s of
        Inl f \<Rightarrow> Inl f
      | Inr s \<Rightarrow> row_loop n (Suc i) mat1 mat2 answer sz a b s)"

definition mat_mult :: "vm \<Rightarrow> addr \<Rightarrow> addr \<Rightarrow> int \<Rightarrow> addr \<Rightarrow> byte list \<Rightarrow> byte list \<Rightarrow> vm result" where
  "mat_mult s mat1 mat2 sz answer a b = row_loop (nat sz) 0 mat1 mat2 answer (nat sz) a b s"

subsection \<open>Elements\<close>

lemma word_of_le_bytes [simp]: "word_of_bytes (le_bytes32 v) = v"
  using le_bytes32_join [of v] by (simp add: word_of_bytes_def le_bytes32_def)

definition vword :: "vm \<Rightarrow> nat \<Rightarrow> 32 word" where
  "vword s A = word_of_bytes (vbytes s A 4)"

text \<open>The product that the loops accumulate, modulo \<open>2 ^ 32\<close>.\<close>

definition entry :: "vm \<Rightarrow> nat \<Rightarrow> nat \<Rightarrow> nat \<Rightarrow> nat \<Rightarrow> nat \<Rightarrow> 32 word" where
  "entry s A B sz i j = (\<Sum>k\<in>{0..<sz}. vword s (A + 4 * (i * sz + k)) * vword s (B + 4 * (k * sz + j)))"

definition region :: "(nat \<Rightarrow> nat option) \<Rightarrow> nat \<Rightarrow> nat \<Rightarrow> bool" where
  "region dm A n \<longleftrightarrow> A + n \<le> 2 ^ 32 \<and> (\<forall>x. A \<le> x \<longrightarrow> x < A + n \<longrightarrow> dm (x div 65536) \<noteq> None)"

lemma four_less: "4 * a + 4 \<le> 4 * b \<longleftrightarrow> a < (b :: nat)"
  by auto

lemma elem_index: "r < (sz :: nat) \<Longrightarrow> c < sz \<Longrightarrow> 4 * (r * sz + c) + 4 \<le> 4 * (sz * sz)"
proof -
  assume "r < sz" "c < sz"
  then have "r * sz + c < Suc r * sz" "Suc r * sz \<le> sz * sz" by (simp, intro mult_le_mono1) simp
  then have "r * sz + c < sz * sz" by (rule less_le_trans)
  then show ?thesis unfolding four_less .
qed

lemma unat_elem_addr:
  assumes "unat mat + 4 * (sz * sz) \<le> 2 ^ 32" and "r < sz" and "c < sz"
  shows "unat (elem_addr mat sz r c) = unat mat + 4 * (r * sz + c)"
proof -
  have "elem_addr mat sz r c = mat + of_nat (4 * (r * sz + c))" by (simp add: elem_addr_def algebra_simps)
  moreover have "unat mat + 4 * (r * sz + c) < 2 ^ 32" using assms(1) elem_index [OF assms(2,3)] by linarith
  ultimately show ?thesis using unat_base_plus by metis
qed

lemma region_range:
  assumes rel: "vm_rel s pt dm" and reg: "region dm A n" and "A \<le> unat va" and "unat va + 4 \<le> A + n"
  shows "range_mapped dm (page_no va) (page_off va) 4"
proof -
  have "unat va + 4 \<le> 2 ^ 32" using reg assms(4) by (simp add: region_def)
  moreover have "vread s (va + of_nat i) \<noteq> None" if "i < 4" for i
  proof -
    have "unat (va + of_nat i) = unat va + i" using that calculation by (intro unat_base_plus) simp
    then show ?thesis using reg assms(3,4) that by (simp add: vread_rel [OF rel] page_no_def region_def)
  qed
  ultimately show ?thesis using range_mapped_vread [OF rel, of va 4] by simp
qed

lemma get_elem:
  assumes rel: "vm_rel s pt dm" and "\<not> mutex_locked s" and "length buf = 4"
    and "region dm A n" and "A \<le> unat va" and "unat va + 4 \<le> A + n"
  shows "\<exists>c. get_value s va buf 4 = Inr (vbytes s (unat va) 4, s\<lparr>cache := c\<rparr>) \<and> vm_rel (s\<lparr>cache := c\<rparr>) pt dm"
  using get_value_rel [OF rel assms(2) _ _ region_range [OF rel assms(4-6)], of buf] assms(3) by simp

lemma vword_cache [simp]: "vword (s\<lparr>cache := c\<rparr>) A = vword s A"
  by (simp add: vword_def vbytes_def)

subsection \<open>The loops\<close>

lemma dot_loop_spec:
  assumes "vm_rel s pt dm" and "\<not> mutex_locked s" and "length a = 4" and "length b = 4"
    and "region dm (unat mat1) (4 * (sz * sz))" and "region dm (unat mat2) (4 * (sz * sz))"
    and "i < sz" and "j < sz" and "k + n = sz"
  shows "\<exists>ch. dot_loop n k mat1 mat2 sz i j a b c s =
      Inr (c + (\<Sum>l\<in>{k..<sz}. vword s (unat mat1 + 4 * (i * sz + l)) * vword s (unat mat2 + 4 * (l * sz + j))),
        s\<lparr>cache := ch\<rparr>)
    \<and> vm_rel (s\<lparr>cache := ch\<rparr>) pt dm"
  using assms
proof (induction n arbitrary: k a b c s)
  case 0
  then show ?case by (intro exI [of _ "cache s"]) simp
next
  case (Suc n)
  let ?x = "elem_addr mat1 sz i k" and ?y = "elem_addr mat2 sz k j"
  have k: "k < sz" using Suc.prems(9) by simp
  have x: "unat ?x = unat mat1 + 4 * (i * sz + k)" and y: "unat ?y = unat mat2 + 4 * (k * sz + j)"
    using Suc.prems(5-8) k by (simp_all add: unat_elem_addr region_def)
  obtain c1 where c1: "get_value s ?x a 4 = Inr (vbytes s (unat ?x) 4, s\<lparr>cache := c1\<rparr>)" "vm_rel (s\<lparr>cache := c1\<rparr>) pt dm"
    using get_elem [OF Suc.prems(1-3,5), of ?x] x elem_index [OF Suc.prems(7) k] by auto
  have un: "\<not> mutex_locked (s\<lparr>cache := c1\<rparr>)" using Suc.prems(2) by simp
  obtain c2 where c2: "get_value (s\<lparr>cache := c1\<rparr>) ?y b 4 = Inr (vbytes (s\<lparr>cache := c1\<rparr>) (unat ?y) 4, s\<lparr>cache := c2\<rparr>)"
      "vm_rel (s\<lparr>cache := c2\<rparr>) pt dm"
    using get_elem [OF c1(2) un Suc.prems(4,6), of ?y] y elem_index [OF k Suc.prems(8)] by auto
  let ?p = "vword s (unat mat1 + 4 * (i * sz + k)) * vword s (unat mat2 + 4 * (k * sz + j))"
  have bytes: "word_of_bytes (vbytes s (unat ?x) 4) * word_of_bytes (vbytes (s\<lparr>cache := c1\<rparr>) (unat ?y) 4) = ?p"
    unfolding vword_def [symmetric] vword_cache x y ..
  have "\<not> mutex_locked (s\<lparr>cache := c2\<rparr>)" using Suc.prems(2) by simp
  from Suc.IH [OF c2(2) this _ _ Suc.prems(5-8), where k = "Suc k"
      and a = "vbytes s (unat ?x) 4" and b = "vbytes (s\<lparr>cache := c1\<rparr>) (unat ?y) 4" and c = "c + ?p"] Suc.prems(9)
  obtain ch where ch: "dot_loop n (Suc k) mat1 mat2 sz i j (vbytes s (unat ?x) 4) (vbytes (s\<lparr>cache := c1\<rparr>) (unat ?y) 4) (c + ?p) (s\<lparr>cache := c2\<rparr>) =
      Inr (c + ?p + (\<Sum>l\<in>{Suc k..<sz}. vword s (unat mat1 + 4 * (i * sz + l)) * vword s (unat mat2 + 4 * (l * sz + j))),
        s\<lparr>cache := ch\<rparr>)" "vm_rel (s\<lparr>cache := ch\<rparr>) pt dm"
    by auto
  have "{k..<sz} = insert k {Suc k..<sz}" using k by auto
  then have sum: "(\<Sum>l\<in>{k..<sz}. vword s (unat mat1 + 4 * (i * sz + l)) * vword s (unat mat2 + 4 * (l * sz + j))) =
      ?p + (\<Sum>l\<in>{Suc k..<sz}. vword s (unat mat1 + 4 * (i * sz + l)) * vword s (unat mat2 + 4 * (l * sz + j)))"
    by simp
  have "dot_loop (Suc n) k mat1 mat2 sz i j a b c s = dot_loop n (Suc k) mat1 mat2 sz i j (vbytes s (unat ?x) 4)
      (vbytes (s\<lparr>cache := c1\<rparr>) (unat ?y) 4) (c + ?p) (s\<lparr>cache := c2\<rparr>)"
    using c1(1) c2(1) bytes by simp
  then show ?case using ch sum by (intro exI [of _ ch]) (simp add: add.assoc)
qed

text \<open>
  The state after the first \<open>t\<close> elements of the answer are written: they hold the products of
  the first state, everything else is as it was.
\<close>

definition answered :: "vm \<Rightarrow> nat \<Rightarrow> nat \<Rightarrow> nat \<Rightarrow> nat \<Rightarrow> nat \<Rightarrow> vm \<Rightarrow> bool" where
  "answered s0 A B C sz t s \<longleftrightarrow> (\<forall>v. vread s v =
     (if C \<le> unat v \<and> unat v < C + 4 * t
      then let o4 = unat v - C in Some (le_bytes32 (entry s0 A B sz (o4 div 4 div sz) (o4 div 4 mod sz)) ! (o4 mod 4))
      else vread s0 v))"

lemma answered_other:
  assumes "answered s0 A B C sz t s" and "X + 4 * (sz * sz) \<le> C \<or> C + 4 * (sz * sz) \<le> X"
    and "t \<le> sz * sz" and "x < sz * sz" and "X + 4 * (sz * sz) \<le> 2 ^ 32"
  shows "vword s (X + 4 * x) = vword s0 (X + 4 * x)"
proof -
  have "vread s (of_nat (X + 4 * x + i)) = vread s0 (of_nat (X + 4 * x + i))" if "i < 4" for i
  proof -
    have lt: "X + 4 * x + i < X + 4 * (sz * sz)" using that assms(4) by linarith
    then have "unat (of_nat (X + 4 * x + i) :: addr) = X + 4 * x + i"
      using assms(5) by (simp only: unat_of_nat) simp
    moreover have "\<not> (C \<le> X + 4 * x + i \<and> X + 4 * x + i < C + 4 * t)" using assms(2,3) lt by auto
    ultimately show ?thesis using assms(1) by (simp only: answered_def if_False)
  qed
  then have "vbytes s (X + 4 * x) 4 = vbytes s0 (X + 4 * x) 4" by (simp add: vbytes_def)
  then show ?thesis by (simp add: vword_def)
qed

lemma answered_put:
  assumes "answered s0 A B C sz (i * sz + j) s" and "j < sz" and "c = entry s0 A B sz i j"
    and put: "\<forall>v. vread s' v = (if C + 4 * (i * sz + j) \<le> unat v \<and> unat v < C + 4 * (i * sz + j) + 4
        then Some (le_bytes32 c ! (unat v - (C + 4 * (i * sz + j)))) else vread s v)"
  shows "answered s0 A B C sz (Suc (i * sz + j)) s'"
  unfolding answered_def
proof
  fix v
  let ?t = "i * sz + j"
  show "vread s' v = (if C \<le> unat v \<and> unat v < C + 4 * Suc ?t
      then let o4 = unat v - C in Some (le_bytes32 (entry s0 A B sz (o4 div 4 div sz) (o4 div 4 mod sz)) ! (o4 mod 4))
      else vread s0 v)"
  proof (cases "C + 4 * ?t \<le> unat v \<and> unat v < C + 4 * ?t + 4")
    case True
    define r where "r = unat v - (C + 4 * ?t)"
    have r3: "unat v = C + 4 * ?t + r" unfolding r_def using True by (simp only: le_add_diff_inverse)
    then have r: "unat v - C = 4 * ?t + r" "r < 4" "unat v = C + 4 * ?t + r" using True by simp_all
    have "(4 * t + r) div 4 = t" "(4 * t + r) mod 4 = r" for t using r(2) by simp_all
    note this [of ?t]
    moreover have "?t div sz = i" "?t mod sz = j" using assms(2) by simp_all
    ultimately have "(let o4 = unat v - C in Some (le_bytes32 (entry s0 A B sz (o4 div 4 div sz) (o4 div 4 mod sz)) ! (o4 mod 4)))
        = Some (le_bytes32 c ! r)" by (simp only: r(1) Let_def assms(3))
    moreover have "C \<le> unat v \<and> unat v < C + 4 * Suc ?t" using r(2,3) by simp
    moreover have "vread s' v = Some (le_bytes32 c ! r)" using put True by (simp add: r_def)
    ultimately show ?thesis by (simp only: if_True simp_thms)
  next
    case False
    then have "(C \<le> unat v \<and> unat v < C + 4 * Suc ?t) \<longleftrightarrow> (C \<le> unat v \<and> unat v < C + 4 * ?t)" by auto
    moreover have "vread s' v = vread s v" using put False by (simp only: if_False)
    ultimately show ?thesis using assms(1) by (simp only: answered_def)
  qed
qed

lemma col_loop_spec:
  assumes "vm_rel s pt dm" and "\<not> mutex_locked s" and "length a = 4" and "length b = 4"
    and "region dm (unat mat1) (4 * (sz * sz))" and "region dm (unat mat2) (4 * (sz * sz))"
    and "region dm (unat answer) (4 * (sz * sz))"
    and "unat mat1 + 4 * (sz * sz) \<le> unat answer \<or> unat answer + 4 * (sz * sz) \<le> unat mat1"
    and "unat mat2 + 4 * (sz * sz) \<le> unat answer \<or> unat answer + 4 * (sz * sz) \<le> unat mat2"
    and "i < sz" and "j + n = sz"
    and "answered s0 (unat mat1) (unat mat2) (unat answer) sz (i * sz + j) s"
  shows "\<exists>s'. col_loop n j mat1 mat2 answer sz i a b s = Inr s' \<and> vm_rel s' pt dm \<and> \<not> mutex_locked s'
    \<and> phy_bitmap s' = phy_bitmap s \<and> virt_bitmap s' = virt_bitmap s \<and> answered s0 (unat mat1) (unat mat2) (unat answer) sz (i * sz + sz) s'"
  using assms
proof (induction n arbitrary: j s)
  case 0
  then show ?case by simp
next
  case (Suc n)
  let ?A = "unat mat1" and ?B = "unat mat2" and ?C = "unat answer" and ?t = "i * sz + j"
  have j: "j < sz" using Suc.prems(11) by simp
  let ?c = "entry s0 ?A ?B sz i j"
  have t: "?t \<le> sz * sz" using elem_index [OF Suc.prems(10) j] unfolding four_less by (rule less_imp_le)
  have "vword s (?A + 4 * (i * sz + l)) * vword s (?B + 4 * (l * sz + j)) =
      vword s0 (?A + 4 * (i * sz + l)) * vword s0 (?B + 4 * (l * sz + j))" if "l < sz" for l
    using answered_other [OF Suc.prems(12,8) t, of "i * sz + l"] answered_other [OF Suc.prems(12,9) t, of "l * sz + j"]
      elem_index [OF Suc.prems(10) that] elem_index [OF that j] Suc.prems(5,6) by (simp add: region_def)
  then have sum: "(\<Sum>l\<in>{0..<sz}. vword s (?A + 4 * (i * sz + l)) * vword s (?B + 4 * (l * sz + j))) = ?c"
    by (simp add: entry_def)
  obtain ch where ch: "dot_loop sz 0 mat1 mat2 sz i j a b 0 s = Inr (?c, s\<lparr>cache := ch\<rparr>)" "vm_rel (s\<lparr>cache := ch\<rparr>) pt dm"
    using dot_loop_spec [OF Suc.prems(1-6,10) j, of 0 sz 0] sum by auto
  let ?x = "elem_addr answer sz i j"
  have x: "unat ?x = ?C + 4 * ?t" using Suc.prems(7,10) j by (simp add: unat_elem_addr region_def)
  have un: "\<not> mutex_locked (s\<lparr>cache := ch\<rparr>)" using Suc.prems(2) by simp
  have "range_mapped dm (page_no ?x) (page_off ?x) 4"
    using x elem_index [OF Suc.prems(10) j] by (intro region_range [OF ch(2) Suc.prems(7)]) simp_all
  from put_value_rel [OF ch(2) un _ _ this, of "le_bytes32 ?c"] x
  obtain s' where s': "put_value (s\<lparr>cache := ch\<rparr>) ?x (le_bytes32 ?c) 4 = Inr s'" "vm_rel s' pt dm" "\<not> mutex_locked s'"
      "phy_bitmap s' = phy_bitmap s" "virt_bitmap s' = virt_bitmap s"
    and V: "\<forall>v. vread s' v = (if ?C + 4 * ?t \<le> unat v \<and> unat v < ?C + 4 * ?t + 4
        then Some (le_bytes32 ?c ! (unat v - (?C + 4 * ?t))) else vread s v)"
    by auto
  have "answered s0 ?A ?B ?C sz (i * sz + Suc j) s'"
    using answered_put [OF Suc.prems(12) j refl V] by simp
  from Suc.IH [OF s'(2,3) Suc.prems(3-10) _ this] Suc.prems(11)
  show ?case using ch(1) s'(1,4,5) by auto
qed

lemma row_loop_spec:
  assumes "vm_rel s pt dm" and "\<not> mutex_locked s" and "length a = 4" and "length b = 4"
    and "region dm (unat mat1) (4 * (sz * sz))" and "region dm (unat mat2) (4 * (sz * sz))"
    and "region dm (unat answer) (4 * (sz * sz))"
    and "unat mat1 + 4 * (sz * sz) \<le> unat answer \<or> unat answer + 4 * (sz * sz) \<le> unat mat1"
    and "unat mat2 + 4 * (sz * sz) \<le> unat answer \<or> unat answer + 4 * (sz * sz) \<le> unat mat2"
    and "i + n = sz"
    and "answered s0 (unat mat1) (unat mat2) (unat answer) sz (i * sz) s"
  shows "\<exists>s'. row_loop n i mat1 mat2 answer sz a b s = Inr s' \<and> vm_rel s' pt dm \<and> \<not> mutex_locked s'
    \<and> phy_bitmap s' = phy_bitmap s \<and> virt_bitmap s' = virt_bitmap s \<and> answered s0 (unat mat1) (unat mat2) (unat answer) sz (sz * sz) s'"
  using assms
proof (induction n arbitrary: i s)
  case 0
  then show ?case by auto
next
  case (Suc n)
  have i: "i < sz" using Suc.prems(10) by simp
  obtain s1 where s1: "col_loop sz 0 mat1 mat2 answer sz i a b s = Inr s1" "vm_rel s1 pt dm" "\<not> mutex_locked s1"
      "phy_bitmap s1 = phy_bitmap s" "virt_bitmap s1 = virt_bitmap s"
      "answered s0 (unat mat1) (unat mat2) (unat answer) sz (i * sz + sz) s1"
    using col_loop_spec [OF Suc.prems(1-9) i, of 0 sz s0] Suc.prems(11) by auto
  have "answered s0 (unat mat1) (unat mat2) (unat answer) sz (Suc i * sz) s1" using s1(6) by (simp add: add.commute)
  from Suc.IH [OF s1(2,3) Suc.prems(3-9) _ this] Suc.prems(10) show ?case using s1(1,4,5) by auto
qed

subsection \<open>The product\<close>

lemma region_vread:
  assumes rel: "vm_rel s pt dm" and "unat va + n \<le> 2 ^ 32" and "\<forall>i < n. vread s (va + of_nat i) \<noteq> None"
  shows "region dm (unat va) n"
  unfolding region_def
proof (intro conjI allI impI)
  fix x assume x: "unat va \<le> x" "x < unat va + n"
  define i where "i = x - unat va"
  have i: "i < n" "x = unat va + i" using x by (simp_all add: i_def)
  have "unat (va + of_nat i) = x" unfolding i(2) using i(1) assms(2) by (intro unat_base_plus) simp
  then show "dm (x div 65536) \<noteq> None"
    using assms(3) i(1) vread_walk walk_none [OF rel] page_no_vpages by (metis page_no_def)
qed (rule assms(2))

text \<open>C17: For three readable \<open>n\<close> by \<open>n\<close> matrices of 32-bit words, the answer disjoint from both
  factors, \<open>mat_mult\<close> returns with every element of the answer equal to the sum of the products
  of the factors' elements (modulo \<open>2 ^ 32\<close>), whatever the uninitialised locals held, and with
  all virtual memory outside the answer unchanged.\<close>

theorem mat_mult_product:
  assumes "vm_inv s" and "\<not> mutex_locked s" and "length a = 4" and "length b = 4" and "N = 4 * (n * n)"
    and "unat mat1 + N \<le> 2 ^ 32" and "unat mat2 + N \<le> 2 ^ 32" and "unat answer + N \<le> 2 ^ 32"
    and "\<forall>i < N. vread s (mat1 + of_nat i) \<noteq> None \<and> vread s (mat2 + of_nat i) \<noteq> None
      \<and> vread s (answer + of_nat i) \<noteq> None"
    and "unat mat1 + N \<le> unat answer \<or> unat answer + N \<le> unat mat1"
    and "unat mat2 + N \<le> unat answer \<or> unat answer + N \<le> unat mat2"
  shows "\<exists>s'. mat_mult s mat1 mat2 (int n) answer a b = Inr s' \<and> vm_inv s' \<and> \<not> mutex_locked s'
    \<and> (\<forall>i < n. \<forall>j < n. vword s' (unat answer + 4 * (i * n + j)) =
         (\<Sum>k\<in>{0..<n}. vword s (unat mat1 + 4 * (i * n + k)) * vword s (unat mat2 + 4 * (k * n + j))))
    \<and> (\<forall>v. \<not> (unat answer \<le> unat v \<and> unat v < unat answer + N) \<longrightarrow> vread s' v = vread s v)"
proof -
  obtain pt dm where rel: "vm_rel s pt dm" using assms(1) by (auto simp: vm_inv_def)
  have regions: "region dm (unat mat1) (4 * (n * n))" "region dm (unat mat2) (4 * (n * n))"
      "region dm (unat answer) (4 * (n * n))"
    using region_vread [OF rel] assms(5-9) by blast+
  have "answered s (unat mat1) (unat mat2) (unat answer) n (0 * n) s" by (auto simp: answered_def)
  from row_loop_spec [OF rel assms(2-4) regions _ _ _ this, of n] assms(5,10,11)
  obtain s' where s': "row_loop n 0 mat1 mat2 answer n a b s = Inr s'" "vm_rel s' pt dm" "\<not> mutex_locked s'"
      "answered s (unat mat1) (unat mat2) (unat answer) n (n * n) s'" by auto
  have elems: "vword s' (unat answer + 4 * (i * n + j)) = entry s (unat mat1) (unat mat2) n i j" if ij: "i < n" "j < n" for i j
  proof -
    let ?t = "i * n + j" and ?e = "entry s (unat mat1) (unat mat2) n i j"
    have "vread s' (of_nat (unat answer + 4 * ?t + r)) = Some (le_bytes32 ?e ! r)" if r: "r < 4" for r
    proof -
      have lt: "4 * ?t + r < 4 * (n * n)" using elem_index [OF ij] r by linarith
      then have "unat (of_nat (unat answer + 4 * ?t + r) :: addr) = unat answer + (4 * ?t + r)"
        using assms(5,8) by (simp only: unat_of_nat) simp
      moreover have "(4 * t + r) div 4 = t" "(4 * t + r) mod 4 = r" for t using r by simp_all
      note this [of ?t]
      moreover have "?t div n = i" "?t mod n = j" using ij by simp_all
      moreover have "unat answer \<le> unat answer + (4 * ?t + r) \<and> unat answer + (4 * ?t + r) < unat answer + 4 * (n * n)"
        using lt by simp
      moreover have "unat answer + (4 * ?t + r) - unat answer = 4 * ?t + r" by simp
      ultimately show ?thesis
        using s'(4) by (simp only: answered_def Let_def if_True simp_thms)
    qed
    then have "vbytes s' (unat answer + 4 * ?t) 4 = map (\<lambda>r. le_bytes32 ?e ! r) [0..<4]"
      by (simp add: vbytes_def)
    also have "\<dots> = le_bytes32 ?e" using map_nth [of "le_bytes32 ?e"] by simp
    finally show ?thesis by (simp add: vword_def)
  qed
  have "vread s' v = vread s v" if "\<not> (unat answer \<le> unat v \<and> unat v < unat answer + N)" for v
    using s'(4) that assms(5) by (simp only: answered_def if_False)
  then show ?thesis
    using s'(1-3) elems by (intro exI [of _ s']) (auto simp: mat_mult_def vm_inv_def entry_def)
qed

theorem mat_mult_product_witness:
  "\<exists>s s'. mat_mult s 0 16 2 65536 [1, 2, 3, 4] [0, 0, 0, 0] = Inr s' \<and> vm_inv s'
    \<and> vword s' 65536 = vword s 0 * vword s 16 + vword s 4 * vword s 24"
proof -
  obtain s where s: "vm_inv s" "\<not> mutex_locked s" "\<forall>q < num_vpages. walk s q \<noteq> None \<longleftrightarrow> q < 2"
    using vm_booted [of 2] by auto
  have ok: "vread s va \<noteq> None" if "unat va < 131072" for va
    using s(3) that page_no_vpages [of va] by (simp only: vread_walk) (simp add: page_no_def less_mult_imp_div_less)
  have at: "unat (of_nat i :: addr) = i" "unat (16 + of_nat i :: addr) = 16 + i" "unat (65536 + of_nat i :: addr) = 65536 + i"
    if "i < 16" for i :: nat
    using that unat_base_plus [of 0 i] unat_base_plus [of 16 i] unat_base_plus [of 65536 i] by simp_all
  have reads: "\<forall>i < 16. vread s (0 + of_nat i) \<noteq> None \<and> vread s (16 + of_nat i) \<noteq> None \<and> vread s (65536 + of_nat i) \<noteq> None"
    using ok at by simp
  obtain s' where s': "mat_mult s 0 16 (int 2) 65536 [1, 2, 3, 4] [0, 0, 0, 0] = Inr s'" "vm_inv s'"
    and e: "\<forall>i < 2. \<forall>j < 2. vword s' (unat (65536 :: addr) + 4 * (i * 2 + j)) =
         (\<Sum>k\<in>{0..<2}. vword s (unat (0 :: addr) + 4 * (i * 2 + k)) * vword s (unat (16 :: addr) + 4 * (k * 2 + j)))"
    using mat_mult_product [OF s(1,2) _ _ _ _ _ _ reads, of "[1, 2, 3, 4]" "[0, 0, 0, 0]" 2] by auto
  have two: "{0..<2} = {0, 1 :: nat}" by auto
  have "vword s' 65536 = vword s 0 * vword s 16 + vword s 4 * vword s 24"
    using e [rule_format, of 0 0] two by simp
  then show ?thesis using s' by (intro exI [of _ s] exI [of _ s']) simp
qed

end
