(* ===== verification/Simulation.thy ===== *)
theory Simulation
  imports Prelude
begin

text \<open>
  Clients of a program and of its specification.  A specification is a relation of transitions on
  abstract states together with the calls that a client may make; the locale \<open>simulation\<close> is the contract between
  the two, and whole runs of a client are derived from it once for all programs.
\<close>

text \<open>A client makes calls one after the other; which call is next may depend on the answers so far.\<close>

datatype ('c, 'r) client =
    Finish
  | Ask 'c "'r \<Rightarrow> ('c, 'r) client"

primrec scripted :: "'c list \<Rightarrow> ('c, 'r) client" where
  "scripted [] = Finish"
| "scripted (c # cs) = Ask c (\<lambda>_. scripted cs)"

text \<open>Its run on the program, with the answers it gets; a fault ends it.\<close>

primrec run_client :: "('c \<Rightarrow> 's \<Rightarrow> ('r \<times> 's) result) \<Rightarrow> ('c, 'r) client \<Rightarrow> 's \<Rightarrow> ('r list \<times> 's) result" where
  "run_client call Finish s = Inr ([], s)"
| "run_client call (Ask c k) s =
     (case call c s of
        Inl f \<Rightarrow> Inl f
      | Inr (r, s) \<Rightarrow> (case run_client call (k r) s of Inl f \<Rightarrow> Inl f | Inr (rs, s) \<Rightarrow> Inr (r # rs, s)))"

text \<open>Its runs on the specification.\<close>

inductive spec_run :: "('a \<Rightarrow> 'c \<Rightarrow> 'r \<Rightarrow> 'a \<Rightarrow> bool) \<Rightarrow> 'a \<Rightarrow> ('c, 'r) client \<Rightarrow> 'r list \<Rightarrow> 'a \<Rightarrow> bool"
  for step where
  finish: "spec_run step a Finish [] a"
| ask: "step a c r b \<Longrightarrow> spec_run step b (k r) rs d \<Longrightarrow> spec_run step a (Ask c k) (r # rs) d"

inductive_simps spec_run_Finish [simp]: "spec_run step a Finish rs d"
inductive_simps spec_run_Ask: "spec_run step a (Ask c k) rs d"

text \<open>Every call is one that the client may make, whatever the specification answers.\<close>

primrec obeys :: "('a \<Rightarrow> 'c \<Rightarrow> 'r \<Rightarrow> 'a \<Rightarrow> bool) \<Rightarrow> ('a \<Rightarrow> 'c \<Rightarrow> bool) \<Rightarrow> ('c, 'r) client \<Rightarrow> 'a \<Rightarrow> bool" where
  "obeys step may Finish a = True"
| "obeys step may (Ask c k) a = (may a c \<and> (\<forall>r b. step a c r b \<longrightarrow> obeys step may (k r) b))"

locale simulation =
  fixes call :: "'c \<Rightarrow> 's \<Rightarrow> ('r \<times> 's) result"
    and step :: "'a \<Rightarrow> 'c \<Rightarrow> 'r \<Rightarrow> 'a \<Rightarrow> bool"
    and may :: "'a \<Rightarrow> 'c \<Rightarrow> bool"
    and rel :: "'s \<Rightarrow> 'a \<Rightarrow> bool"
  assumes simulates: "rel s a \<Longrightarrow> may a c \<Longrightarrow> \<exists>r s' b. call c s = Inr (r, s') \<and> step a c r b \<and> rel s' b"
begin

lemma runs:
  assumes "rel s a" and "obeys step may cl a"
  shows "\<exists>rs s' b. run_client call cl s = Inr (rs, s') \<and> spec_run step a cl rs b \<and> rel s' b"
  using assms
proof (induction cl arbitrary: s a)
  case Finish
  then show ?case by simp
next
  case (Ask c k)
  then obtain r s1 b where c: "call c s = Inr (r, s1)" "step a c r b" "rel s1 b"
    using simulates [of s a c] by auto
  moreover have "obeys step may (k r) b" using Ask.prems(2) c(2) by auto
  ultimately obtain rs s2 d where "run_client call (k r) s1 = Inr (rs, s2)" "spec_run step b (k r) rs d" "rel s2 d"
    using Ask.IH [OF rangeI] by blast
  moreover from this have "spec_run step a (Ask c k) (r # rs) d" using c(2) by (blast intro: spec_run.ask)
  ultimately show ?case using c(1) by auto
qed

lemma never_faults: "rel s a \<Longrightarrow> obeys step may cl a \<Longrightarrow> run_client call cl s \<noteq> Inl f"
  using runs by fastforce

end

end
