(* ===== verification/Vm_Heap.thy ===== *)
theory Vm_Heap
  imports Vm_Matrix Simulation
begin

text \<open>
  What a program sees of \<open>Level -3/my_vm.c\<close> over a whole run: the functions that \<open>my_vm.h\<close> declares for it as
  calls, a flat memory of bytes as their specification, and the proof that the page tables, bitmaps, the
  TLB and the frames implement it.
\<close>

subsection \<open>The interface\<close>

datatype vm_op =
    Malloc "32 word"
  | Free addr int
  | Put addr "byte list" int
  | Get addr "byte list" int
  | Multiply addr addr int addr "byte list" "byte list"

datatype vm_reply =
    Address addr
  | Nothing
  | Buffer "byte list"

definition silent :: "vm result \<Rightarrow> (vm_reply \<times> vm) result" where
  "silent = map_sum id (Pair Nothing)"

primrec vm_call :: "vm_op \<Rightarrow> vm \<Rightarrow> (vm_reply \<times> vm) result" where
  "vm_call (Malloc n) s = map_sum id (\<lambda>(a, s). (Address a, s)) (t_malloc s n)"
| "vm_call (Free va sz) s = silent (t_free s va sz)"
| "vm_call (Put va val sz) s = silent (put_value s va val sz)"
| "vm_call (Get va val sz) s = map_sum id (\<lambda>(val, s). (Buffer val, s)) (get_value s va val sz)"
| "vm_call (Multiply mat1 mat2 sz answer a b) s = silent (mat_mult s mat1 mat2 sz answer a b)"

subsection \<open>The specification\<close>

text \<open>The bytes of the virtual memory, and the number of pages that have been given out.\<close>

record heap =
  bytes :: "addr \<Rightarrow> byte option"
  given :: nat

definition no_heap :: heap where
  "no_heap = \<lparr>bytes = \<lambda>_. None, given = 0\<rparr>"

definition page_count :: "32 word \<Rightarrow> nat" where
  "page_count n = nat (pages_of (uint n))"

definition heap_bytes :: "heap \<Rightarrow> addr \<Rightarrow> nat \<Rightarrow> byte list" where
  "heap_bytes h va n = map (\<lambda>i. the (bytes h (va + of_nat i))) [0..<n]"

definition readable :: "heap \<Rightarrow> addr \<Rightarrow> nat \<Rightarrow> bool" where
  "readable h va n \<longleftrightarrow> (\<forall>i < n. bytes h (va + of_nat i) \<noteq> None)"

definition store_bytes :: "heap \<Rightarrow> addr \<Rightarrow> (nat \<Rightarrow> byte) \<Rightarrow> nat \<Rightarrow> heap" where
  "store_bytes h va f n = h\<lparr>bytes := \<lambda>v. if unat va \<le> unat v \<and> unat v < unat va + n
     then Some (f (unat v - unat va)) else bytes h v\<rparr>"

definition heap_word :: "heap \<Rightarrow> addr \<Rightarrow> nat \<Rightarrow> 32 word" where
  "heap_word h va i = word_of_bytes (heap_bytes h (va + of_nat (4 * i)) 4)"

definition product_word :: "heap \<Rightarrow> addr \<Rightarrow> addr \<Rightarrow> nat \<Rightarrow> nat \<Rightarrow> 32 word" where
  "product_word h mat1 mat2 n e =
     (\<Sum>k\<in>{0..<n}. heap_word h mat1 (e div n * n + k) * heap_word h mat2 (k * n + e mod n))"

inductive heap_step :: "heap \<Rightarrow> vm_op \<Rightarrow> vm_reply \<Rightarrow> heap \<Rightarrow> bool" where
  allocate: "p + page_count n \<le> num_vpages \<Longrightarrow> (\<forall>v. page_no v \<in> {p..<p + page_count n} \<longrightarrow> bytes h v = None \<and> bytes h' v \<noteq> None)
    \<Longrightarrow> (\<forall>v. page_no v \<notin> {p..<p + page_count n} \<longrightarrow> bytes h' v = bytes h v) \<Longrightarrow> given h' = given h + page_count n
    \<Longrightarrow> heap_step h (Malloc n) (Address (page_va p)) h'"
| release: "heap_step h (Free va sz) Nothing (h\<lparr>bytes := \<lambda>v. if page_no v = page_no va then None else bytes h v\<rparr>)"
| put: "readable h va (nat sz) \<Longrightarrow> heap_step h (Put va val sz) Nothing (store_bytes h va ((!) val) (nat sz))"
| put_refused: "\<not> readable h va (nat sz) \<Longrightarrow> heap_step h (Put va val sz) Nothing h"
| get: "readable h va (nat sz) \<Longrightarrow> heap_step h (Get va val sz) (Buffer (heap_bytes h va (nat sz) @ drop (nat sz) val)) h"
| get_refused: "\<not> readable h va (nat sz) \<Longrightarrow> heap_step h (Get va val sz) (Buffer val) h"
| multiply: "heap_step h (Multiply mat1 mat2 sz answer a b) Nothing
    (store_bytes h answer (\<lambda>o4. le_bytes32 (product_word h mat1 mat2 (nat sz) (o4 div 4)) ! (o4 mod 4)) (4 * (nat sz * nat sz)))"

text \<open>
  What the program may do.  Together its allocations stay below the number of frames, one call releases one page,
  buffers are long enough, and a transfer meets only its own memory or reaches the end of its page: a short transfer
  outside would keep the mutex.
\<close>

definition transfer_ok :: "heap \<Rightarrow> addr \<Rightarrow> byte list \<Rightarrow> int \<Rightarrow> bool" where
  "transfer_ok h va val sz \<longleftrightarrow> 0 < sz \<and> nat sz \<le> length val \<and> unat va + nat sz \<le> 2 ^ 32
     \<and> (readable h va (nat sz) \<or> 65536 \<le> page_off va + nat sz)"

definition matrix_ok :: "heap \<Rightarrow> addr \<Rightarrow> nat \<Rightarrow> bool" where
  "matrix_ok h mat n \<longleftrightarrow> unat mat + 4 * (n * n) \<le> 2 ^ 32 \<and> readable h mat (4 * (n * n))"

definition apart :: "addr \<Rightarrow> addr \<Rightarrow> nat \<Rightarrow> bool" where
  "apart x y n \<longleftrightarrow> unat x + n \<le> unat y \<or> unat y + n \<le> unat x"

primrec heap_allows :: "heap \<Rightarrow> vm_op \<Rightarrow> bool" where
  "heap_allows h (Malloc n) \<longleftrightarrow> n \<noteq> 0 \<and> given h + page_count n < 16375"
| "heap_allows h (Free va sz) \<longleftrightarrow> 0 < sz \<and> sz \<le> 65536"
| "heap_allows h (Put va val sz) \<longleftrightarrow> transfer_ok h va val sz"
| "heap_allows h (Get va val sz) \<longleftrightarrow> transfer_ok h va val sz"
| "heap_allows h (Multiply mat1 mat2 sz answer a b) \<longleftrightarrow> 0 < sz \<and> length a = 4 \<and> length b = 4
     \<and> matrix_ok h mat1 (nat sz) \<and> matrix_ok h mat2 (nat sz) \<and> matrix_ok h answer (nat sz)
     \<and> apart mat1 answer (4 * (nat sz * nat sz)) \<and> apart mat2 answer (4 * (nat sz * nat sz))"

subsection \<open>The abstraction\<close>

text \<open>
  Every marked page is among the first \<open>given h\<close> ones, and the pages given out account for the frames in use: one for
  each page, one for each page table, one for the directory.
\<close>

definition live_heap :: "vm \<Rightarrow> heap \<Rightarrow> bool" where
  "live_heap s h \<longleftrightarrow> (\<exists>pt dm. vm_rel s pt dm \<and> bytes h = vread s
     \<and> (\<forall>q < num_vpages. bm_get (virt_bitmap s) q \<longrightarrow> q < given h)
     \<and> 16379 + missing pt \<le> length (free_frames (phy_bitmap s)) + given h)"

definition heap_rel :: "vm \<Rightarrow> heap \<Rightarrow> bool" where
  "heap_rel s h \<longleftrightarrow> \<not> mutex_locked s
     \<and> (live_heap s h \<or> (\<exists>block nodes m. block_ok block \<and> s = vm_start block nodes m) \<and> h = no_heap)"

lemma live_heapI:
  assumes "vm_rel s pt dm" and "bytes h = vread s" and "\<And>q. q < num_vpages \<Longrightarrow> bm_get (virt_bitmap s) q \<Longrightarrow> q < given h"
    and "16379 + missing pt \<le> length (free_frames (phy_bitmap s)) + given h"
  shows "live_heap s h"
  using assms unfolding live_heap_def by blast

lemma live_heap_mutex [simp]: "live_heap (s\<lparr>mutex_locked := b\<rparr>) h \<longleftrightarrow> live_heap s h"
  by (simp add: live_heap_def)

subsection \<open>Allocation\<close>

text \<open>Where only the first \<open>u\<close> pages can be marked, the search finds a run among or right behind them.\<close>

lemma first_run_exists:
  assumes "\<And>q. q < num_vpages \<Longrightarrow> bm_get vb q \<Longrightarrow> q < u" and "u + len \<le> num_vpages" and "0 < len"
  shows "\<exists>p \<le> u. first_run vb len 0 = Some p"
proof -
  have "\<not> bm_get vb (u + k)" if "k < len" for k using assms(1) [of "u + k"] assms(2) that by auto
  then have free: "free_run vb len u" by (simp add: free_run_def)
  moreover have "u \<in> set [0..<num_vpages + 1 - len]" using assms(2,3) by auto
  ultimately have "first_run vb len 0 \<noteq> None" unfolding first_run_def find_None_iff by blast
  then obtain p where p: "first_run vb len 0 = Some p" by blast
  then have "\<not> u < p" using first_run_Some free by blast
  then show ?thesis using p by auto
qed

lemma malloc_live:
  assumes live: "live_heap s0 h" and lk: "\<not> mutex_locked s"
    and start: "(if memory_start s = 0 then set_physical_mem (s\<lparr>mutex_locked := True\<rparr>)
      else Inr (s\<lparr>mutex_locked := True\<rparr>)) = Inr s0" and lk0: "mutex_locked s0"
    and ok: "heap_allows h (Malloc n)"
  shows "\<exists>r s' h'. vm_call (Malloc n) s = Inr (r, s') \<and> heap_step h (Malloc n) r h' \<and> heap_rel s' h'"
proof -
  obtain pt dm where rel: "vm_rel s0 pt dm" and h: "bytes h = vread s0"
    and marks: "\<And>q. q < num_vpages \<Longrightarrow> bm_get (virt_bitmap s0) q \<Longrightarrow> q < given h"
    and num: "16379 + missing pt \<le> length (free_frames (phy_bitmap s0)) + given h"
    using live by (auto simp: live_heap_def)
  let ?n = "pages_of (uint n)" and ?k = "page_count n"
  have k: "1 \<le> ?n" "?k = nat ?n" "0 < ?k" "given h + ?k < 16375"
    using ok pages_of_pos [of "uint n"] by (simp_all add: page_count_def word_neq_0_conv word_less_def)
  have len: "?k \<le> run_length ?n" "given h + run_length ?n \<le> num_vpages" "0 < run_length ?n"
    using k by (auto simp: run_length_def num_vpages_def)
  obtain p where p: "p \<le> given h" "first_run (virt_bitmap s0) (run_length ?n) 0 = Some p"
    using first_run_exists [OF marks len(2,3)] by blast
  have room: "nat ?n + 4 < length (free_frames (phy_bitmap s0))" using num k by linarith
  obtain s' pt' dm' where s': "t_malloc s n = Inr (page_va p, s')" "vm_rel s' pt' dm'" "\<not> mutex_locked s'"
      "memory_start s' = memory_start s0"
    and dm': "\<forall>q. q \<notin> {p..<p + ?k} \<longrightarrow> dm' q = dm q"
      "\<forall>q \<in> {p..<p + ?k}. dm q = None \<and> (\<exists>g. dm' q = Some g \<and> \<not> bm_get (phy_bitmap s0) g)"
    and virt: "\<forall>q < num_vpages. bm_get (virt_bitmap s') q \<longleftrightarrow> bm_get (virt_bitmap s0) q \<or> q \<in> {p..<p + ?k}"
    and num': "length (free_frames (phy_bitmap s0)) + missing pt' = length (free_frames (phy_bitmap s')) + ?k + missing pt"
    and old: "\<forall>g < num_frames. bm_get (phy_bitmap s0) g \<longrightarrow> bm_get (phy_bitmap s') g
      \<and> (g \<noteq> 0 \<longrightarrow> g \<notin> ran pt \<longrightarrow> same_frame (mem s') (mem s0) (memory_start s0) g)"
    using t_malloc_mapped [OF rel lk start lk0 refl k(1) p(2) room] unfolding k(2) by blast
  define h' where "h' = \<lparr>bytes = vread s', given = given h + ?k\<rparr>"
  have "vread s' v = vread s0 v" if "page_no v \<notin> {p..<p + ?k}" for v
    using dm'(1) that old by (intro marked_frames_vread [OF rel s'(2,4)]) auto
  moreover have "vread s0 v = None \<and> vread s' v \<noteq> None" if "page_no v \<in> {p..<p + ?k}" for v
    using dm'(2) that by (auto simp: vread_rel [OF rel] vread_rel [OF s'(2)])
  moreover have "p + ?k \<le> num_vpages" using p(1) len by linarith
  ultimately have "heap_step h (Malloc n) (Address (page_va p)) h'"
    using h by (intro heap_step.allocate) (auto simp: h'_def)
  moreover have "live_heap s' h'"
  proof (rule live_heapI [OF s'(2)])
    show "q < given h'" if "q < num_vpages" "bm_get (virt_bitmap s') q" for q
      using virt marks that p(1) by (fastforce simp: h'_def)
    show "16379 + missing pt' \<le> length (free_frames (phy_bitmap s')) + given h'" using num num' by (simp add: h'_def)
  qed (simp add: h'_def)
  ultimately show ?thesis using s'(1,3) by (auto simp: heap_rel_def)
qed

text \<open>The first allocation sets the memory up.\<close>

lemma boot_live:
  assumes "block_ok block" and "s = vm_start block nodes m"
  shows "\<exists>s0. set_physical_mem (s\<lparr>mutex_locked := True\<rparr>) = Inr s0 \<and> mutex_locked s0 \<and> live_heap s0 no_heap"
proof -
  obtain s0 where s0: "set_physical_mem (s\<lparr>mutex_locked := True\<rparr>) = Inr s0" "vm_rel s0 Map.empty Map.empty"
      "phy_bitmap s0 = bm_set (replicate 2048 0) 0" "virt_bitmap s0 = replicate 8192 0" "mutex_locked s0"
    using set_physical_mem_rel [of "s\<lparr>mutex_locked := True\<rparr>"] assms by (auto simp: vm_start_def)
  have "live_heap s0 no_heap"
  proof (rule live_heapI [OF s0(2)])
    show "q < given no_heap" if "q < num_vpages" "bm_get (virt_bitmap s0) q" for q
      using that s0(4) bm_get_zeros [of q 8192] by (simp add: num_vpages_def)
    show "16379 + missing Map.empty \<le> length (free_frames (phy_bitmap s0)) + given no_heap"
      using missing_le [of Map.empty] s0(3) length_free_frames_zeros by simp
  qed (simp add: no_heap_def vread_rel [OF s0(2)] fun_eq_iff)
  then show ?thesis using s0 by blast
qed

lemma malloc_refines:
  assumes "heap_rel s h" and "heap_allows h (Malloc n)"
  shows "\<exists>r s' h'. vm_call (Malloc n) s = Inr (r, s') \<and> heap_step h (Malloc n) r h' \<and> heap_rel s' h'"
proof (cases "live_heap s h")
  case True
  then have "memory_start s \<noteq> 0" using vm_relD(2) by (auto simp: live_heap_def block_ok_def)
  then show ?thesis using assms True by (intro malloc_live [of "s\<lparr>mutex_locked := True\<rparr>"]) (simp_all add: heap_rel_def)
next
  case False
  then obtain block nodes m where b: "block_ok block" "s = vm_start block nodes m" "h = no_heap" "\<not> mutex_locked s"
    using assms(1) by (auto simp: heap_rel_def)
  moreover have "memory_start s = 0" by (simp add: b(2) vm_start_def)
  ultimately show ?thesis using boot_live [OF b(1,2)] assms(2) malloc_live by auto
qed

subsection \<open>Release\<close>

lemma free_frames_mono:
  assumes "\<And>j. j < num_frames \<Longrightarrow> bm_get bm' j \<Longrightarrow> bm_get bm j"
  shows "length (free_frames bm) \<le> length (free_frames bm')"
proof -
  have "card {j. j < num_frames \<and> \<not> bm_get bm j} \<le> card {j. j < num_frames \<and> \<not> bm_get bm' j}"
    using assms by (intro card_mono) auto
  moreover have "length (free_frames b) = card {j. j < num_frames \<and> \<not> bm_get b j}" for b
    by (simp add: free_frames_def length_filter_conv_card) (metis (mono_tags, lifting) add_0 nth_upt)
  ultimately show ?thesis by simp
qed

lemma start_refuses:
  assumes "s = vm_start block nodes m"
  shows "t_free s va sz = Inr s" "put_value s va val sz = Inr s" "get_value s va val sz = Inr (val, s)"
  using assms by (simp_all add: t_free_def put_value_def get_value_def vm_start_def unlock_def)

lemma release_refines:
  assumes "heap_rel s h" and "heap_allows h (Free va sz)"
  shows "\<exists>r s' h'. vm_call (Free va sz) s = Inr (r, s') \<and> heap_step h (Free va sz) r h' \<and> heap_rel s' h'"
proof -
  let ?p = "page_no va" and ?h = "h\<lparr>bytes := \<lambda>v. if page_no v = page_no va then None else bytes h v\<rparr>"
  have "\<exists>s'. t_free s va sz = Inr s' \<and> heap_rel s' ?h"
  proof (cases "live_heap s h")
    case False
    then obtain block nodes m where "s = vm_start block nodes m" and h: "h = no_heap"
      using assms(1) by (auto simp: heap_rel_def)
    then have "t_free s va sz = Inr s" using start_refuses(1) by blast
    moreover have "?h = h" by (simp add: h no_heap_def fun_eq_iff)
    ultimately show ?thesis using assms(1) by simp
  next
    case True
    then obtain pt dm where rel: "vm_rel s pt dm" and h: "bytes h = vread s"
      and marks: "\<And>q. q < num_vpages \<Longrightarrow> bm_get (virt_bitmap s) q \<Longrightarrow> q < given h"
      and num: "16379 + missing pt \<le> length (free_frames (phy_bitmap s)) + given h"
      by (auto simp: live_heap_def)
    have lk: "\<not> mutex_locked s" using assms(1) by (simp add: heap_rel_def)
    have one: "pages_of sz = 1"
    proof -
      have "(- sz) div 65536 = -1" using assms(2) by (intro int_div_pos_eq [where r = "65536 - sz"]) simp_all
      then show ?thesis by (simp add: pages_of_def PGSIZE_def)
    qed
    show ?thesis
    proof (cases "dm ?p")
      case None
      then have "t_free s va sz = Inr s"
        using rel lk one walk_none [OF rel] by (intro t_free_unmapped_page) (auto simp: vm_inv_def)
      moreover have "?h = h" using None h by (intro heap.equality) (auto simp: fun_eq_iff vread_rel [OF rel])
      ultimately show ?thesis using assms(1) by simp
    next
      case (Some f)
      have "?p mod 16384 + 1 \<le> 16384" by (simp add: Suc_leI)
      then obtain s' dm' where s': "t_free s va sz = Inr s'" "vm_rel s' pt dm'" "\<not> mutex_locked s'"
          "\<forall>q. dm' q = (if q \<in> {?p..<?p + 1} then None else dm q)" "\<forall>v. page_no v \<notin> {?p..<?p + 1} \<longrightarrow> vread s' v = vread s v"
        and bits: "\<forall>j. bm_get (virt_bitmap s') j \<longleftrightarrow> bm_get (virt_bitmap s) j \<and> \<not> (j < 8 \<and> j \<in> {?p..<?p + 1})"
          "\<forall>j. bm_get (phy_bitmap s') j \<longleftrightarrow> bm_get (phy_bitmap s) j \<and> \<not> (j < 8 \<and> j \<in> {f..<f + 1})"
        using t_free_rel [OF rel lk _ _ refl, where n = 1 and sz = sz and f = f and va = va] Some one by force
      have "length (free_frames (phy_bitmap s)) \<le> length (free_frames (phy_bitmap s'))"
        using bits(2) by (intro free_frames_mono) blast
      moreover have "vread s' v = (if page_no v = ?p then None else vread s v)" for v
        using s'(4,5) by (simp add: vread_rel [OF s'(2)])
      ultimately have "live_heap s' ?h"
        using bits(1) marks num h by (intro live_heapI [OF s'(2)]) (auto simp: fun_eq_iff)
      then show ?thesis using s'(1,3) by (simp add: heap_rel_def)
    qed
  qed
  then show ?thesis using heap_step.release [of h va sz] by (fastforce simp: silent_def)
qed

subsection \<open>Transfers\<close>

lemma live_readable:
  assumes "vm_rel s pt dm" and "bytes h = vread s" and "unat va + n \<le> 2 ^ 32" and "0 < n"
  shows "readable h va n \<longleftrightarrow> range_mapped dm (page_no va) (page_off va) n"
  using range_mapped_vread [OF assms(1,3,4)] assms(2) by (simp add: readable_def)

lemma vbytes_heap: "bytes h = vread s \<Longrightarrow> vbytes s (unat va) n = heap_bytes h va n"
  by (simp add: vbytes_def heap_bytes_def word_of_nat_unat)

text \<open>The effect of an operation that leaves the bitmaps alone.\<close>

lemma live_heap_same:
  assumes "live_heap s h"
  obtains pt dm where "vm_rel s pt dm" "bytes h = vread s"
    "\<And>s' h'. vm_rel s' pt dm \<Longrightarrow> phy_bitmap s' = phy_bitmap s \<Longrightarrow> virt_bitmap s' = virt_bitmap s \<Longrightarrow> bytes h' = vread s'
      \<Longrightarrow> given h' = given h \<Longrightarrow> live_heap s' h'"
  using assms unfolding live_heap_def by metis

lemma not_live:
  assumes "heap_rel s h" and "\<not> live_heap s h"
  obtains block nodes m where "s = vm_start block nodes m" "\<And>va n. 0 < n \<Longrightarrow> \<not> readable h va n"
proof -
  from assms obtain block nodes m where "s = vm_start block nodes m" "h = no_heap" by (auto simp: heap_rel_def)
  moreover have "\<not> readable no_heap va n" if "0 < n" for va n using that by (auto simp: readable_def no_heap_def)
  ultimately show ?thesis using that by blast
qed

lemma put_refines:
  assumes "heap_rel s h" and "heap_allows h (Put va val sz)"
  shows "\<exists>r s' h'. vm_call (Put va val sz) s = Inr (r, s') \<and> heap_step h (Put va val sz) r h' \<and> heap_rel s' h'"
proof -
  define n where "n = nat sz"
  have ok: "sz = int n" "0 < n" "n \<le> length val" "unat va + n \<le> 2 ^ 32"
    "readable h va n \<or> 65536 \<le> page_off va + n" "nat sz = n"
    using assms(2) by (auto simp: transfer_ok_def n_def)
  have lk: "\<not> mutex_locked s" using assms(1) by (simp add: heap_rel_def)
  have "\<exists>s' h'. put_value s va val (int n) = Inr s' \<and> heap_step h (Put va val sz) Nothing h' \<and> heap_rel s' h'"
  proof (cases "live_heap s h")
    case False
    then obtain block nodes m where "s = vm_start block nodes m" "\<not> readable h va n"
      using not_live [OF assms(1)] ok(2) by metis
    then show ?thesis using start_refuses(2) assms(1) heap_step.put_refused [of h va sz val] ok(6) by metis
  next
    case True
    obtain pt dm where rel: "vm_rel s pt dm" and h: "bytes h = vread s"
      and same: "\<And>s' h'. vm_rel s' pt dm \<Longrightarrow> phy_bitmap s' = phy_bitmap s \<Longrightarrow> virt_bitmap s' = virt_bitmap s \<Longrightarrow> bytes h' = vread s'
        \<Longrightarrow> given h' = given h \<Longrightarrow> live_heap s' h'"
      using live_heap_same [OF True] by blast
    note mapped = live_readable [OF rel h ok(4,2)]
    show ?thesis
    proof (cases "readable h va n")
      case readable: True
      obtain s' where s': "put_value s va val (int n) = Inr s'" "vm_rel s' pt dm" "\<not> mutex_locked s'"
          "phy_bitmap s' = phy_bitmap s" "virt_bitmap s' = virt_bitmap s"
        and V: "\<forall>v. vread s' v = (if unat va \<le> unat v \<and> unat v < unat va + n
          then Some (val ! (unat v - unat va)) else vread s v)"
        using put_value_rel [OF rel lk ok(2,3) mapped [THEN iffD1, OF readable]] by blast
      have "live_heap s' (store_bytes h va ((!) val) n)"
        using V h by (intro same s') (simp_all add: store_bytes_def fun_eq_iff)
      then show ?thesis using s'(1,3) heap_step.put [of h va sz val] readable ok(6) by (auto simp: heap_rel_def)
    next
      case False
      obtain c where c: "put_value s va val (int n) = Inr (s\<lparr>cache := c\<rparr>)" "vm_rel (s\<lparr>cache := c\<rparr>) pt dm"
        using value_refused [OF rel lk ok(2,4)] ok(5) False mapped by blast
      then have "live_heap (s\<lparr>cache := c\<rparr>) h" using h by (intro same) simp_all
      then show ?thesis using c(1) lk False ok(6) heap_step.put_refused [of h va sz val] by (auto simp: heap_rel_def)
    qed
  qed
  then show ?thesis by (auto simp: silent_def ok(1))
qed

lemma get_refines:
  assumes "heap_rel s h" and "heap_allows h (Get va val sz)"
  shows "\<exists>r s' h'. vm_call (Get va val sz) s = Inr (r, s') \<and> heap_step h (Get va val sz) r h' \<and> heap_rel s' h'"
proof -
  define n where "n = nat sz"
  have ok: "sz = int n" "0 < n" "n \<le> length val" "unat va + n \<le> 2 ^ 32"
    "readable h va n \<or> 65536 \<le> page_off va + n" "nat sz = n"
    using assms(2) by (auto simp: transfer_ok_def n_def)
  have lk: "\<not> mutex_locked s" using assms(1) by (simp add: heap_rel_def)
  have "\<exists>s' bs. get_value s va val (int n) = Inr (bs, s') \<and> heap_step h (Get va val sz) (Buffer bs) h \<and> heap_rel s' h"
  proof (cases "live_heap s h")
    case False
    then obtain block nodes m where "s = vm_start block nodes m" "\<not> readable h va n"
      using not_live [OF assms(1)] ok(2) by metis
    then show ?thesis using start_refuses(3) assms(1) heap_step.get_refused [of h va sz val] ok(6) by metis
  next
    case True
    obtain pt dm where rel: "vm_rel s pt dm" and h: "bytes h = vread s"
      and same: "\<And>s' h'. vm_rel s' pt dm \<Longrightarrow> phy_bitmap s' = phy_bitmap s \<Longrightarrow> virt_bitmap s' = virt_bitmap s \<Longrightarrow> bytes h' = vread s'
        \<Longrightarrow> given h' = given h \<Longrightarrow> live_heap s' h'"
      using live_heap_same [OF True] by blast
    note mapped = live_readable [OF rel h ok(4,2)]
    have keep: "heap_rel (s\<lparr>cache := c\<rparr>) h" if "vm_rel (s\<lparr>cache := c\<rparr>) pt dm" for c
      using same [OF that, of h] h lk by (simp add: heap_rel_def)
    show ?thesis
    proof (cases "readable h va n")
      case readable: True
      obtain c where "get_value s va val (int n) = Inr (vbytes s (unat va) n @ drop n val, s\<lparr>cache := c\<rparr>)"
          "vm_rel (s\<lparr>cache := c\<rparr>) pt dm"
        using get_value_rel [OF rel lk ok(2,3) mapped [THEN iffD1, OF readable]] by blast
      then show ?thesis
        using keep heap_step.get [of h va sz val] readable vbytes_heap [OF h] ok(6) by auto
    next
      case False
      obtain c where "get_value s va val (int n) = Inr (val, s\<lparr>cache := c\<rparr>)" "vm_rel (s\<lparr>cache := c\<rparr>) pt dm"
        using value_refused [OF rel lk ok(2,4)] ok(5) False mapped by blast
      then show ?thesis using keep False ok(6) heap_step.get_refused [of h va sz val] by auto
    qed
  qed
  then show ?thesis by (auto simp: ok(1))
qed

subsection \<open>Multiplication\<close>

lemma vword_heap: "bytes h = vread s \<Longrightarrow> vword s (unat va + 4 * i) = heap_word h va i"
  by (simp add: vword_def vbytes_def heap_word_def heap_bytes_def add.assoc)

lemma answered_heap:
  assumes "answered s (unat mat1) (unat mat2) (unat answer) n (n * n) s'" and "bytes h = vread s"
  shows "vread s' = bytes (store_bytes h answer (\<lambda>o4. le_bytes32 (product_word h mat1 mat2 n (o4 div 4)) ! (o4 mod 4)) (4 * (n * n)))"
proof
  fix v
  have "entry s (unat mat1) (unat mat2) n (e div n) (e mod n) = product_word h mat1 mat2 n e" for e
    by (simp only: entry_def product_word_def vword_heap [OF assms(2)])
  then show "vread s' v = bytes (store_bytes h answer (\<lambda>o4. le_bytes32 (product_word h mat1 mat2 n (o4 div 4)) ! (o4 mod 4)) (4 * (n * n))) v"
    using assms by (simp add: answered_def store_bytes_def Let_def)
qed

lemma multiply_refines:
  assumes "heap_rel s h" and "heap_allows h (Multiply mat1 mat2 sz answer a b)"
  shows "\<exists>r s' h'. vm_call (Multiply mat1 mat2 sz answer a b) s = Inr (r, s')
    \<and> heap_step h (Multiply mat1 mat2 sz answer a b) r h' \<and> heap_rel s' h'"
proof -
  define n where "n = nat sz"
  let ?h = "store_bytes h answer (\<lambda>o4. le_bytes32 (product_word h mat1 mat2 n (o4 div 4)) ! (o4 mod 4)) (4 * (n * n))"
  have ok: "0 < n" "length a = 4" "length b = 4" "matrix_ok h mat1 n" "matrix_ok h mat2 n" "matrix_ok h answer n"
      "apart mat1 answer (4 * (n * n))" "apart mat2 answer (4 * (n * n))"
    using assms(2) by (simp_all add: n_def)
  have lk: "\<not> mutex_locked s" using assms(1) by (simp add: heap_rel_def)
  have "readable h mat1 (4 * (n * n))" "0 < 4 * (n * n)" using ok(1,4) by (simp_all add: matrix_ok_def)
  then have live: "live_heap s h" using not_live [OF assms(1)] by metis
  obtain pt dm where rel: "vm_rel s pt dm" and h: "bytes h = vread s"
    and same: "\<And>s' h'. vm_rel s' pt dm \<Longrightarrow> phy_bitmap s' = phy_bitmap s \<Longrightarrow> virt_bitmap s' = virt_bitmap s \<Longrightarrow> bytes h' = vread s'
      \<Longrightarrow> given h' = given h \<Longrightarrow> live_heap s' h'"
    using live_heap_same [OF live] by blast
  have reg: "region dm (unat va) (4 * (n * n))" if "matrix_ok h va n" for va
    using that unfolding matrix_ok_def readable_def h by (blast intro: region_vread [OF rel])
  have "answered s (unat mat1) (unat mat2) (unat answer) n (0 * n) s" by (auto simp: answered_def)
  from row_loop_spec [OF rel lk ok(2,3) reg [OF ok(4)] reg [OF ok(5)] reg [OF ok(6)] _ _ _ this, of n] ok(7,8)
  obtain s' where s': "row_loop n 0 mat1 mat2 answer n a b s = Inr s'" "vm_rel s' pt dm" "\<not> mutex_locked s'"
      "phy_bitmap s' = phy_bitmap s" "virt_bitmap s' = virt_bitmap s"
      "answered s (unat mat1) (unat mat2) (unat answer) n (n * n) s'"
    by (auto simp: apart_def)
  have "live_heap s' ?h" by (rule same [OF s'(2,4,5)]) (simp_all only: answered_heap [OF s'(6) h], simp add: store_bytes_def)
  then show ?thesis
    using s'(1,3) heap_step.multiply [of h mat1 mat2 sz answer a b]
    by (fastforce simp: heap_rel_def silent_def mat_mult_def n_def)
qed

subsection \<open>Runs\<close>

lemma vm_call_refines:
  assumes "heap_rel s h" and "heap_allows h c"
  shows "\<exists>r s' h'. vm_call c s = Inr (r, s') \<and> heap_step h c r h' \<and> heap_rel s' h'"
  using assms
  by (cases c) (simp_all only: malloc_refines release_refines put_refines get_refines multiply_refines)

interpretation vm_sim: simulation vm_call heap_step heap_allows heap_rel
  by unfold_locales (rule vm_call_refines)

text \<open>C2: From the static initialisers on, with a \<open>malloc\<close> that gives the simulated memory, every client of the library that keeps to \<open>heap_allows\<close>, its next call depending on
  the answers so far, gets its calls answered without a fault and without a dead
  lock, and it cannot tell the page tables, bitmaps, TLB and frames from one flat memory of bytes: \<open>t_malloc\<close> gives pages
  that nothing used before, what is written is read back until it is overwritten or its page is released, releasing or
  allocating changes no byte of another page, and a matrix product is stored in the answer and nowhere else.

  \<open>heap_allows\<close> asks of each call, in the state it is made in: an allocation is not of size 0, and all pages ever given out
  stay fewer than 16375; one call releases at most 65536 bytes, one page; a transfer is of at least one byte, its buffer holds them, it
  does not wrap around, and it either lies in memory the client owns or reaches the end of its page; a product has a
  positive size, its three matrices lie in owned memory, and the answer does not overlap the other two.  Outside of these
  conditions the code fails: a short transfer to an unmapped page keeps the mutex (the end of \<open>Vm_Access\<close>), a
  release of two pages can free a page table (the end of \<open>Vm_Free\<close>).\<close>

theorem vm_implements_memory:
  assumes "block_ok block" and "obeys heap_step heap_allows cl no_heap"
  shows "\<exists>rs s h. run_client vm_call cl (vm_start block nodes m) = Inr (rs, s)
    \<and> spec_run heap_step no_heap cl rs h \<and> heap_rel s h"
proof (rule vm_sim.runs [OF _ assms(2)])
  show "heap_rel (vm_start block nodes m) no_heap"
    using assms(1) by (auto simp: heap_rel_def vm_start_def)
qed

text \<open>A client that writes into the memory it was given, and reads it back.\<close>

inductive_cases malloc_step: "heap_step h (Malloc n) r h'"
inductive_simps put_step: "heap_step h (Put va val sz) r h'"
inductive_simps get_step: "heap_step h (Get va val sz) r h'"

definition keeper :: "(vm_op, vm_reply) client" where
  "keeper = Ask (Malloc 100000) (\<lambda>r. case r of
     Address a \<Rightarrow> scripted [Put a [1, 2] 2, Get a [0, 0] 2]
   | _ \<Rightarrow> Finish)"

lemma malloc_readable:
  assumes "heap_step h (Malloc 100000) r h'"
  obtains a where "r = Address a" "unat a + 2 \<le> 2 ^ 32" "readable h' a 2"
proof (rule malloc_step [OF assms])
  fix p
  assume p: "r = Address (page_va p)" "p + page_count 100000 \<le> num_vpages"
    "\<forall>v. p \<le> page_no v \<and> page_no v < p + page_count 100000 \<longrightarrow> bytes h v = None \<and> (\<exists>y. bytes h' v = Some y)"
  have n: "page_count 100000 = 2" by (simp add: page_count_def pages_of_def PGSIZE_def)
  then have lt: "p < 65536" using p(2) by (simp add: num_vpages_def)
  then have a: "unat (page_va p) + 2 \<le> 2 ^ 32" using unat_page_va [of p] by simp
  have "page_no (page_va p + of_nat i) = p" if "i < 2" for i
    using that lt unat_page_va [of p] unat_base_plus [of "page_va p" i] by (simp add: page_no_def)
  then have "readable h' (page_va p) 2" using p(3) n by (auto simp: readable_def)
  then show ?thesis using that p(1) a by blast
qed

lemma readable_store: "readable h a n \<Longrightarrow> readable (store_bytes h b f k) a n"
  by (simp add: readable_def store_bytes_def)

lemma heap_bytes_store:
  assumes "unat a + n \<le> 2 ^ 32"
  shows "heap_bytes (store_bytes h a f n) a n = map f [0..<n]"
proof -
  have "unat (a + of_nat i) = unat a + i" if "i < n" for i using assms that by (intro unat_base_plus) simp
  then show ?thesis by (simp add: heap_bytes_def store_bytes_def)
qed

lemma keeper_obeys: "obeys heap_step heap_allows keeper no_heap"
proof -
  have "heap_allows no_heap (Malloc 100000)"
    by (simp add: no_heap_def page_count_def pages_of_def PGSIZE_def)
  moreover have "obeys heap_step heap_allows (scripted [Put a [1, 2] 2, Get a [0, 0] 2]) h"
    if "unat a + 2 \<le> 2 ^ 32" "readable h a 2" for a h
    using that readable_store by (simp add: transfer_ok_def put_step)
  ultimately show ?thesis by (auto simp: keeper_def elim!: malloc_readable)
qed

theorem vm_implements_memory_witness:
  "\<exists>a s. run_client vm_call keeper (vm_start 65536 [] (\<lambda>_. 0)) = Inr ([Address a, Nothing, Buffer [1, 2]], s)"
proof -
  have "block_ok 65536" by (simp add: block_ok_def)
  from vm_implements_memory [OF this keeper_obeys]
  obtain rs s h where run: "run_client vm_call keeper (vm_start 65536 [] (\<lambda>_. 0)) = Inr (rs, s)"
    and spec: "spec_run heap_step no_heap keeper rs h" by blast
  obtain r qs h1 where r: "rs = r # qs" "heap_step no_heap (Malloc 100000) r h1"
      "spec_run heap_step h1 (case r of Address a \<Rightarrow> scripted [Put a [1, 2] 2, Get a [0, 0] 2] | _ \<Rightarrow> Finish) qs h"
    using spec by (auto simp: keeper_def spec_run_Ask)
  obtain a where a: "r = Address a" "unat a + 2 \<le> 2 ^ 32" "readable h1 a 2" using malloc_readable [OF r(2)] .
  let ?h = "store_bytes h1 a ((!) [1, 2]) 2"
  have "heap_bytes ?h a 2 = [1, 2]" using heap_bytes_store [OF a(2)] by (simp add: upt_rec)
  then have "qs = [Nothing, Buffer [1, 2]]"
    using r(3) a(1,3) readable_store [OF a(3)] by (auto simp: spec_run_Ask put_step get_step)
  then show ?thesis using run r(1) a(1) by auto
qed

end
