(* ===== verification/Frag_Lists.thy ===== *)
theory Frag_Lists
  imports Vm_Alloc
begin

text \<open>
  The lists by which \<open>Level -3/my_vm_internal_fragmentation.c\<close> shares a page between small
  blocks (its header is \<open>my_vm_internal_fragmentation.h\<close>, with 4 KB pages).  The list of
  partially used pages holds for each page how far it is filled, and \<open>alloted\<close> holds for each
  page the list of its blocks with the offsets of their first and last byte.

  The address, bitmap and TLB functions of the variant are those of \<open>my_vm.c\<close>, line by line;
  they take the widths of the address fields as an argument and are used from there.

  The linked lists are lists here; their tail is the last node.  \<open>delete_partial_node\<close> goes on behind
  the node it has unlinked, with that node as the previous one, so the node right behind it stays.
\<close>

subsection \<open>Structures\<close>

definition PGSIZE_4K :: nat where "PGSIZE_4K = 4096"

definition calculate_entries_bits_4k :: geometry where
  "calculate_entries_bits_4k =
     (let ob = ilog2 PGSIZE_4K;
          pte = int (PGSIZE_4K div sizeof_pte);
          pde = int (PGSIZE_4K div sizeof_pte);
          remaining_bits = BITS - ob;
          ptb = ilog2 (nat pte);
          (ptb, remaining_bits) =
            (if ptb > remaining_bits
             then let bits_per_level = (BITS - ob) sdiv LEVELS in (bits_per_level, remaining_bits - bits_per_level)
             else (ptb, remaining_bits - ptb))
      in \<lparr>page_dir_bits = remaining_bits, page_table_bits = ptb, offset_bits = ob,
          page_dir_entries = pde, page_table_entries = pte\<rparr>)"

record partial_node =
  space_taken :: "32 word"
  base_va :: addr

record alloc_node =
  offset_start :: "32 word"
  offset_end :: "32 word"
  free_status :: bool

record frag =
  core :: vm \<comment> \<open>the globals the variant shares with \<open>my_vm.c\<close>\<close>
  partial_pages :: "partial_node list"
  alloted :: "alloc_node list option list"

abbreviation geom_of :: "frag \<Rightarrow> geometry" where
  "geom_of s \<equiv> geom (core s)"

text \<open>\<open>malloc\<close> of a list node, whose result the code does not test.\<close>

definition new_block :: "frag \<Rightarrow> frag result" where
  "new_block s =
     (let (a, c) = malloc_node (cache (core s))
      in if a = 0 then Inl NullDeref else Inr (s\<lparr>core := (core s)\<lparr>cache := c\<rparr>\<rparr>))"

text \<open>\<open>page_dir_index * page_table_entries + page_table_index\<close>, an index of \<open>alloted\<close>.\<close>

definition page_number :: "geometry \<Rightarrow> 32 word \<Rightarrow> 32 word \<Rightarrow> nat" where
  "page_number g page_dir_index page_table_index =
     unat (page_dir_index * of_int (page_table_entries g) + page_table_index)"

subsection \<open>Partially used pages\<close>

definition check_partial_list :: "partial_node list \<Rightarrow> int \<Rightarrow> addr option" where
  "check_partial_list ps sz =
     map_option (\<lambda>n. base_va n + space_taken n + 1)
       (find (\<lambda>n. of_nat PGSIZE_4K - space_taken n \<ge> of_int sz) ps)"

primrec update_loop :: "addr \<Rightarrow> 32 word \<Rightarrow> int \<Rightarrow> partial_node list \<Rightarrow> partial_node list" where
  "update_loop va_no_off offset sz [] = []"
| "update_loop va_no_off offset sz (n # ns) =
     (if base_va n = va_no_off
      then if offset + of_int sz \<ge> of_nat PGSIZE_4K then ns
           else n\<lparr>space_taken := space_taken n + of_int sz\<rparr> # ns
      else n # update_loop va_no_off offset sz ns)"

text \<open>The offset is taken from the bits right behind the directory index.\<close>

definition update_partial_list :: "addr \<Rightarrow> int \<Rightarrow> frag \<Rightarrow> frag" where
  "update_partial_list va sz s =
     (let g = geom_of s;
          page_dir_index = extract_bits va 1 (page_dir_bits g);
          page_table_index = extract_bits va (page_dir_bits g + 1) (page_table_bits g);
          offset = extract_bits va (page_dir_bits g + 1) (offset_bits g);
          va_no_off = form_virtual_address g page_dir_index page_table_index
      in s\<lparr>partial_pages := update_loop va_no_off offset sz (partial_pages s)\<rparr>)"

definition add_partial_page :: "addr \<Rightarrow> int \<Rightarrow> frag \<Rightarrow> frag result" where
  "add_partial_page va sz s =
     (case new_block s of
        Inl f \<Rightarrow> Inl f
      | Inr s \<Rightarrow> Inr (s\<lparr>partial_pages := partial_pages s @ [\<lparr>space_taken = of_int sz, base_va = va\<rparr>]\<rparr>))"

text \<open>
  The list has no tail pointer of its own here: its tail is its last node.  That is so in the code too as long as no two nodes
  in a row have the address \<open>va\<close>; after two of them in a row \<open>delete_partial_node\<close> keeps the second one in the chain and its
  \<open>partial_tail\<close> can be the node it unlinked.  The invariant \<open>frag_inv\<close> of \<open>Frag_Share\<close> has the addresses distinct.
\<close>

primrec delete_loop :: "addr \<Rightarrow> bool \<Rightarrow> partial_node list \<Rightarrow> partial_node list" where
  "delete_loop va after_removed [] = []"
| "delete_loop va after_removed (n # ns) =
     (if base_va n = va \<and> \<not> after_removed then delete_loop va True ns else n # delete_loop va False ns)"

definition delete_partial_node :: "addr \<Rightarrow> frag \<Rightarrow> frag" where
  "delete_partial_node va s = s\<lparr>partial_pages := delete_loop va False (partial_pages s)\<rparr>"

subsection \<open>Blocks of a page\<close>

definition add_alloc_entry :: "addr \<Rightarrow> int \<Rightarrow> frag \<Rightarrow> frag result" where
  "add_alloc_entry va sz s =
     (let g = geom_of s;
          k = page_number g (extract_bits va 1 (page_dir_bits g)) (extract_bits va (page_dir_bits g + 1) (page_table_bits g));
          start = extract_bits va (page_dir_bits g + page_table_bits g + 1) (offset_bits g);
          new_node = \<lparr>offset_start = start, offset_end = start + of_int sz - 1, free_status = False\<rparr>
      in if length (alloted s) \<le> k then Inl OutOfBounds
         else case new_block s of
           Inl f \<Rightarrow> Inl f
         | Inr s \<Rightarrow>
             (case alloted s ! k of
                None \<Rightarrow>
                  (case new_block s of
                     Inl f \<Rightarrow> Inl f
                   | Inr s \<Rightarrow> Inr (s\<lparr>alloted := (alloted s)[k := Some [new_node]]\<rparr>))
              | Some ns \<Rightarrow> Inr (s\<lparr>alloted := (alloted s)[k := Some (ns @ [new_node])]\<rparr>)))"

text \<open>\<open>offset >= offset_start && offset+size-1 <= offset_end\<close>.\<close>

definition in_block :: "32 word \<Rightarrow> 32 word \<Rightarrow> alloc_node \<Rightarrow> bool" where
  "in_block offset sz n \<longleftrightarrow> offset \<ge> offset_start n \<and> offset + sz - 1 \<le> offset_end n"

definition is_part_page_valid :: "nat \<Rightarrow> 32 word \<Rightarrow> 32 word \<Rightarrow> frag \<Rightarrow> bool result" where
  "is_part_page_valid page_num offset sz s =
     (if length (alloted s) \<le> page_num then Inl OutOfBounds
      else case alloted s ! page_num of
          None \<Rightarrow> Inr True
        | Some ns \<Rightarrow> Inr (if ns = [] then True else list_ex (in_block offset sz) ns))"

definition free_block :: "32 word \<Rightarrow> 32 word \<Rightarrow> alloc_node \<Rightarrow> alloc_node" where
  "free_block offset sz n =
     (if in_block offset sz n then \<lparr>offset_start = 0, offset_end = 0, free_status = True\<rparr> else n)"

definition free_part_page :: "32 word \<Rightarrow> 32 word \<Rightarrow> 32 word \<Rightarrow> 32 word \<Rightarrow> frag \<Rightarrow> (bool \<times> frag) result" where
  "free_part_page page_dir_index page_table_index offset sz s =
     (let g = geom_of s;
          k = page_number g page_dir_index page_table_index
      in if length (alloted s) \<le> k then Inl OutOfBounds
         else case alloted s ! k of
             None \<Rightarrow> Inr (True, s)
           | Some ns \<Rightarrow>
               if ns = [] then Inr (True, s)
               else let ns = map (free_block offset sz) ns
                 in if list_all free_status ns
                    then Inr (True, delete_partial_node (form_virtual_address g page_dir_index page_table_index)
                           (s\<lparr>alloted := (alloted s)[k := None]\<rparr>))
                    else Inr (False, s\<lparr>alloted := (alloted s)[k := Some ns]\<rparr>))"

subsection \<open>Addresses with 4 KB pages\<close>

definition geo4k :: geometry where
  "geo4k = \<lparr>page_dir_bits = 10, page_table_bits = 10, offset_bits = 12, page_dir_entries = 1024, page_table_entries = 1024\<rparr>"

lemma calculate_entries_bits_geo4k: "calculate_entries_bits_4k = geo4k"
  by (simp add: calculate_entries_bits_4k_def geo4k_def PGSIZE_4K_def sizeof_pte_def BITS_def ilog2.simps)

definition page4 :: "addr \<Rightarrow> nat" where
  "page4 va = unat va div 4096"

definition off4 :: "addr \<Rightarrow> nat" where
  "off4 va = unat va mod 4096"

abbreviation dir4 :: "addr \<Rightarrow> 32 word" where
  "dir4 va \<equiv> extract_bits va 1 (page_dir_bits geo4k)"

abbreviation table4 :: "addr \<Rightarrow> 32 word" where
  "table4 va \<equiv> extract_bits va (page_dir_bits geo4k + 1) (page_table_bits geo4k)"

lemma unat_split4: "unat va = page4 va * 4096 + off4 va"
  by (simp add: page4_def off4_def)

lemma off4_lt [simp]: "off4 va < 4096"
  by (simp add: off4_def)

lemma page4_lt: "page4 va < 1048576"
  using unsigned_less [of va, where 'a = nat] by (simp add: page4_def less_mult_imp_div_less)

lemma mask_take: "(x :: 32 word) AND 1023 = take_bit 10 x" "x AND 4095 = take_bit 12 x"
  by (simp_all add: take_bit_eq_mask mask_eq_exp_minus_1)

lemma dir4_eq: "dir4 va = drop_bit 22 va"
proof -
  have "take_bit 10 (drop_bit 22 va) = drop_bit 22 va"
    by (rule bit_word_eqI) (auto simp: bit_simps dest: bit_imp_le_length)
  then show ?thesis by (simp add: extract_bits_def geo4k_def shl32_def shr32_def mask_take)
qed

lemma table4_eq: "table4 va = take_bit 10 (drop_bit 12 va)"
  by (simp add: extract_bits_def geo4k_def shl32_def shr32_def mask_take)

lemma unat_offset4: "unat (extract_bits va 21 12) = off4 va"
proof -
  have "extract_bits va 21 12 = take_bit 12 va"
    by (simp add: extract_bits_def shl32_def shr32_def mask_take)
  then show ?thesis by (simp only: unat_take off4_def) simp
qed

lemma unat_dir4: "unat (dir4 va) = page4 va div 1024"
  by (simp only: dir4_eq unat_drop page4_def) (simp flip: div_mult2_eq)

lemma unat_table4: "unat (table4 va) = page4 va mod 1024"
  by (simp only: table4_eq unat_take unat_drop page4_def) simp

lemma page_number_geo4k:
  assumes "page4 va + i < 1048576"
  shows "page_number geo4k (dir4 va) (table4 va + of_nat i) = page4 va + i"
proof -
  have e: "of_nat (page4 va div 1024) = dir4 va" "of_nat (page4 va mod 1024) = table4 va"
    by (metis unat_dir4 word_of_nat_unat) (metis unat_table4 word_of_nat_unat)
  have "dir4 va * of_int (page_table_entries geo4k) + (table4 va + of_nat i)
      = of_nat (page4 va div 1024 * 1024 + page4 va mod 1024 + i)"
    by (simp only: of_nat_add of_nat_mult e) (simp add: geo4k_def add.assoc)
  also have "\<dots> = of_nat (page4 va + i)" by simp
  finally show ?thesis using assms by (simp only: page_number_def unat_of_nat) simp
qed

lemma page_number_geo4k_0: "page_number geo4k (dir4 va) (table4 va) = page4 va"
  using page_number_geo4k [of va 0] page4_lt [of va] by simp

lemma form_virtual_address_geo4k:
  "form_virtual_address geo4k (dir4 va) (table4 va) = va - of_nat (off4 va)"
proof -
  have "form_virtual_address geo4k (dir4 va) (table4 va) = push_bit 12 (drop_bit 12 va)"
  proof (rule bit_word_eqI)
    fix k :: nat
    assume k: "k < LENGTH(32)"
    have ones: "(1048575 :: addr) = mask 20" by (simp add: mask_eq_exp_minus_1)
    have no: "\<not> bit (1048575 :: addr) j" if "20 \<le> j" for j
      using that by (simp only: ones bit_mask_iff) simp
    show "bit (form_virtual_address geo4k (dir4 va) (table4 va)) k = bit (push_bit 12 (drop_bit 12 va)) k"
      unfolding form_virtual_address_def Let_def dir4_eq table4_eq
      using k no [of "20 + k"]
      by (auto simp: geo4k_def bit_index_bits_loop shift_right_loop_eq bit_simps)
  qed
  also have "\<dots> = va - take_bit 12 va"
    using bits_ident [of 12 va] by (simp only: eq_diff_eq)
  also have "take_bit 12 va = of_nat (off4 va)"
  proof -
    have "unat (take_bit 12 va) = off4 va" by (simp only: unat_take off4_def) simp
    then show ?thesis by (metis word_of_nat_unat)
  qed
  finally show ?thesis .
qed

end
