(* ===== verification/Frag_Alloc.thy ===== *)
theory Frag_Alloc
  imports Frag_Lists
begin

text \<open>
  Paging with 4 KB pages, allocation and release in \<open>Level -3/my_vm_internal_fragmentation.c\<close>.
  A request for less than a page is put into a partially used page if one has room; otherwise
  pages are mapped as in \<open>my_vm.c\<close>, and the last of them is shared from then on if the request
  does not fill it.  A page is given back when all its blocks are free.
\<close>

subsection \<open>Physical frames\<close>

function find_free_loop_4k :: "addr \<Rightarrow> byte list \<Rightarrow> int \<Rightarrow> nat \<Rightarrow> nat \<Rightarrow> addr list \<Rightarrow> addr list option result" where
  "find_free_loop_4k ms bm n i j page_pointers =
     (if i < MEMSIZE div (8 * PGSIZE_4K)
      then if j < 8
        then if bit_of_char (bm ! i) j = 0
          then if int (length page_pointers) < n
            then let page_pointers = page_pointers @ [ms + of_nat ((8 * i + j) * PGSIZE_4K)]
              in if int (length page_pointers) = n then Inr (Some page_pointers)
                 else find_free_loop_4k ms bm n i (Suc j) page_pointers
            else Inl OutOfBounds
          else find_free_loop_4k ms bm n i (Suc j) page_pointers
        else find_free_loop_4k ms bm n (Suc i) 0 page_pointers
      else Inr None)"
  by pat_completeness auto

termination
  by (relation "measures [\<lambda>(m, b, n, i, j, ps). MEMSIZE div (8 * PGSIZE_4K) - i, \<lambda>(m, b, n, i, j, ps). 8 - j]") auto

declare find_free_loop_4k.simps [simp del]

definition find_free_physical_page_4k :: "addr \<Rightarrow> byte list \<Rightarrow> int \<Rightarrow> addr list option result" where
  "find_free_physical_page_4k ms bm n =
     find_free_loop_4k ms bm n 0 0 []"

definition frame_index_4k :: "addr \<Rightarrow> addr \<Rightarrow> int" where
  "frame_index_4k ms p = sint (p - ms) sdiv int PGSIZE_4K"

definition first_free_page_4k :: "vm \<Rightarrow> addr result" where
  "first_free_page_4k s =
     (case find_free_physical_page_4k (memory_start s) (phy_bitmap s) 1 of
        Inl f \<Rightarrow> Inl f
      | Inr None \<Rightarrow> Inl NullDeref
      | Inr (Some ps) \<Rightarrow> Inr (ps ! 0))"

subsection \<open>Paging\<close>

text \<open>The blocks for the bitmaps and the lists are assumed to be there once the memory itself is.\<close>

definition set_physical_mem_4k :: "frag \<Rightarrow> frag result" where
  "set_physical_mem_4k s =
     (let v = (core s)\<lparr>geom := calculate_entries_bits_4k, memory_start := heap_block (core s)\<rparr>
      in if memory_start v = 0 then Inl NullDeref
         else
         let v = v\<lparr>mem := mem_set0 (mem v) (memory_start v) MEMSIZE,
                num_pages := int (MEMSIZE div PGSIZE_4K),
                phy_bitmap := replicate (MEMSIZE div (8 * PGSIZE_4K)) 0,
                virt_bitmap := replicate (nat ((page_dir_entries (geom v) * page_table_entries (geom v)) sdiv 8)) 0\<rparr>;
             s = s\<lparr>partial_pages := [], alloted := replicate (nat (num_pages v)) None\<rparr>
         in case first_free_page_4k v of
              Inl f \<Rightarrow> Inl f
            | Inr pd \<Rightarrow>
                (case set_bit_at_index (phy_bitmap v) (frame_index_4k (memory_start v) pd) of
                   Inl f \<Rightarrow> Inl f
                 | Inr bm \<Rightarrow>
                     let v = v\<lparr>page_dir := pd, phy_bitmap := bm,
                           mem := zero_entries (nat (page_dir_entries (geom v))) pd (mem v)\<rparr>;
                         v = (case tlb_store (cache v) of
                                None \<Rightarrow> v\<lparr>cache := (cache v)\<lparr>tlb_store := Some empty_tlb\<rparr>\<rparr>
                              | Some t \<Rightarrow> v)
                     in Inr (s\<lparr>core := v\<rparr>)))"

definition page_map_4k :: "vm \<Rightarrow> addr \<Rightarrow> addr \<Rightarrow> (int \<times> vm) result" where
  "page_map_4k s va pa =
     (let g = geom s;
          page_dir_index = extract_bits va 1 (page_dir_bits g);
          page_table_index = extract_bits va (page_dir_bits g + 1) (page_table_bits g);
          dir_entry = entry_addr (page_dir s) page_dir_index
      in case (if load32 (mem s) dir_entry = 0
               then case first_free_page_4k s of
                   Inl f \<Rightarrow> Inl f
                 | Inr new_page_table \<Rightarrow>
                     (case set_bit_at_index (phy_bitmap s) (frame_index_4k (memory_start s) new_page_table) of
                        Inl f \<Rightarrow> Inl f
                      | Inr bm \<Rightarrow>
                          Inr (s\<lparr>phy_bitmap := bm,
                             mem := zero_entries (nat (page_table_entries g)) new_page_table
                                      (store32 (mem s) dir_entry new_page_table)\<rparr>))
               else Inr s) of
           Inl f \<Rightarrow> Inl f
         | Inr s \<Rightarrow>
             let page_table = load32 (mem s) dir_entry;
                 pte = entry_addr page_table page_table_index
             in if load32 (mem s) pte \<noteq> 0 then Inr (-1, s)
                else Inr (0, s\<lparr>mem := store32 (mem s) pte pa\<rparr>))"

definition get_next_page_4k :: "geometry \<Rightarrow> addr \<Rightarrow> addr" where
  "get_next_page_4k g va =
     (let page_dir_index = extract_bits va 1 (page_dir_bits g);
          page_table_index = extract_bits va (page_dir_bits g + 1) (page_table_bits g);
          offset = extract_bits va 21 32
      in if page_table_index = of_int (page_table_entries g - 1)
         then if page_dir_index = of_int (page_dir_entries g - 1) then 0
              else form_virtual_address g (page_dir_index + 1) 0
         else va + (of_nat PGSIZE_4K - offset))"

subsection \<open>Allocation\<close>

text \<open>The end of the critical section.\<close>

definition release_frag :: "frag \<Rightarrow> frag" where
  "release_frag s = s\<lparr>core := unlock (core s)\<rparr>"

text \<open>\<open>num_bytes\<close> is unsigned and loses a page in every round.\<close>

primrec t_malloc_loop_4k :: "nat \<Rightarrow> addr \<Rightarrow> addr \<Rightarrow> 32 word \<Rightarrow> frag \<Rightarrow> frag result" where
  "t_malloc_loop_4k 0 va phy_page num_bytes s = Inr s"
| "t_malloc_loop_4k (Suc k) va phy_page num_bytes s =
     (let v = core s;
          g = geom v;
          page_dir_index = sint (extract_bits va 1 (page_dir_bits g));
          page_table_index = sint (extract_bits va (page_dir_bits g + 1) (page_table_bits g))
      in case set_bit_at_index (virt_bitmap v) (page_dir_index * page_table_entries g + page_table_index) of
           Inl f \<Rightarrow> Inl f
         | Inr vb \<Rightarrow>
        (case set_bit_at_index (phy_bitmap v) (frame_index_4k (memory_start v) phy_page) of
           Inl f \<Rightarrow> Inl f
         | Inr pb \<Rightarrow>
        (case page_map_4k (v\<lparr>virt_bitmap := vb, phy_bitmap := pb\<rparr>) va phy_page of
           Inl f \<Rightarrow> Inl f
         | Inr (page_map_status, v) \<Rightarrow>
        (case (if num_bytes < of_nat PGSIZE_4K
               then case add_alloc_entry va (uint num_bytes) (s\<lparr>core := v\<rparr>) of
                   Inl f \<Rightarrow> Inl f
                 | Inr s \<Rightarrow> add_partial_page va (uint num_bytes) s
               else Inr (s\<lparr>core := v\<rparr>)) of
           Inl f \<Rightarrow> Inl f
         | Inr s \<Rightarrow>
        (case first_free_page_4k (core s) of
           Inl f \<Rightarrow> Inl f
         | Inr phy_page \<Rightarrow>
             t_malloc_loop_4k k (get_next_page_4k g va) phy_page (num_bytes - of_nat PGSIZE_4K) s)))))"

definition pages_of_4k :: "int \<Rightarrow> int" where
  "pages_of_4k n = - ((- n) div int PGSIZE_4K)"

definition map_fresh_pages :: "32 word \<Rightarrow> frag \<Rightarrow> (addr \<times> frag) result" where
  "map_fresh_pages num_bytes s =
     (let v = core s;
          pages_required = pages_of_4k (uint num_bytes);
          va = get_next_avail (geom v) (virt_bitmap v) pages_required
      in case find_free_physical_page_4k (memory_start v) (phy_bitmap v) pages_required of
           Inl f \<Rightarrow> Inl f
         | Inr None \<Rightarrow> Inr (0, release_frag s)
         | Inr (Some phy_pages) \<Rightarrow>
        (case first_free_page_4k v of
           Inl f \<Rightarrow> Inl f
         | Inr phy_page \<Rightarrow>
        (case t_malloc_loop_4k (nat pages_required) va phy_page num_bytes s of
           Inl f \<Rightarrow> Inl f
         | Inr s \<Rightarrow> Inr (va, release_frag s))))"

definition t_malloc_4k :: "frag \<Rightarrow> 32 word \<Rightarrow> (addr \<times> frag) result" where
  "t_malloc_4k s num_bytes =
     (case lock (core s) of
        Inl f \<Rightarrow> Inl f
      | Inr v \<Rightarrow>
          (case (if memory_start v = 0 then set_physical_mem_4k (s\<lparr>core := v\<rparr>) else Inr (s\<lparr>core := v\<rparr>)) of
             Inl f \<Rightarrow> Inl f
           | Inr s \<Rightarrow>
               if memory_start (core s) = 0 then Inr (0, release_frag s)
               else
               (case (if num_bytes < of_nat PGSIZE_4K then check_partial_list (partial_pages s) (uint num_bytes)
                      else None) of
                  Some partial_page \<Rightarrow>
                    (case add_alloc_entry partial_page (uint num_bytes) s of
                       Inl f \<Rightarrow> Inl f
                     | Inr s \<Rightarrow> Inr (partial_page, release_frag (update_partial_list partial_page (uint num_bytes) s)))
                | None \<Rightarrow> map_fresh_pages num_bytes s)))"

subsection \<open>Release\<close>

text \<open>The first loop of \<open>t_free\<close>: every page is mapped and the range lies in one of its blocks.\<close>

function free_check_loop :: "int \<Rightarrow> 32 word \<Rightarrow> nat \<Rightarrow> addr \<Rightarrow> 32 word \<Rightarrow> 32 word \<Rightarrow> frag \<Rightarrow> bool result" where
  "free_check_loop size_copy offset_copy i page_table page_dir_index page_table_index s =
     (if size_copy > 0
      then if load32 (mem (core s)) (entry_addr page_table (page_table_index + of_nat i)) = 0 then Inr False
        else case is_part_page_valid (page_number (geom_of s) page_dir_index (page_table_index + of_nat i))
                 offset_copy (of_int size_copy) s of
            Inl f \<Rightarrow> Inl f
          | Inr False \<Rightarrow> Inr False
          | Inr True \<Rightarrow>
              free_check_loop (size_copy - (int PGSIZE_4K - uint offset_copy)) 0 (Suc i)
                page_table page_dir_index page_table_index s
      else Inr True)"
  by pat_completeness auto

termination
  by (relation "measures [\<lambda>(_, off, _, _, _, _, _). if off = 0 then 0 else 1, \<lambda>(sz, _, _, _, _, _, _). nat sz]")
    (auto simp: PGSIZE_4K_def)

declare free_check_loop.simps [simp del]

text \<open>The second loop: \<open>i\<close> counts the pages that were given back.\<close>

function free_pages_loop :: "int \<Rightarrow> 32 word \<Rightarrow> nat \<Rightarrow> addr \<Rightarrow> 32 word \<Rightarrow> 32 word \<Rightarrow> int \<Rightarrow> frag \<Rightarrow> frag result" where
  "free_pages_loop sz offset i page_table page_dir_index page_table_index start s =
     (if sz > 0
      then case free_part_page page_dir_index (page_table_index + of_nat i) offset (of_int sz) s of
          Inl f \<Rightarrow> Inl f
        | Inr (False, s) \<Rightarrow>
            free_pages_loop (sz - (int PGSIZE_4K - uint offset)) 0 i page_table page_dir_index page_table_index start s
        | Inr (True, s) \<Rightarrow>
            let v = core s;
                g = geom v;
                pte = entry_addr page_table (page_table_index + of_nat i);
                m = mem_set0 (mem v) (load32 (mem v) pte) PGSIZE_4K
            in case delete_from_tlb (cache v) (form_virtual_address g page_dir_index (page_table_index + of_nat i)) of
                 Inl f \<Rightarrow> Inl f
               | Inr c \<Rightarrow>
              (case unset_bit_at_index (phy_bitmap v) (start + int i) of
                 Inl f \<Rightarrow> Inl f
               | Inr pb \<Rightarrow>
              (case unset_bit_at_index (virt_bitmap v)
                   (sint (page_dir_index * of_int (page_table_entries g) + page_table_index + of_nat i)) of
                 Inl f \<Rightarrow> Inl f
               | Inr vb \<Rightarrow>
                   free_pages_loop (sz - (int PGSIZE_4K - uint offset)) 0 (Suc i)
                     page_table page_dir_index page_table_index start
                     (s\<lparr>core := v\<lparr>cache := c, mem := store32 m pte 0, phy_bitmap := pb, virt_bitmap := vb\<rparr>\<rparr>)))
      else Inr s)"
  by pat_completeness auto

termination
  by (relation "measures [\<lambda>(_, off, _, _, _, _, _, _). if off = 0 then 0 else 1, \<lambda>(sz, _, _, _, _, _, _, _). nat sz]")
    (auto simp: PGSIZE_4K_def)

declare free_pages_loop.simps [simp del]

definition t_free_4k :: "frag \<Rightarrow> addr \<Rightarrow> int \<Rightarrow> frag result" where
  "t_free_4k s va sz =
     (case lock (core s) of
        Inl f \<Rightarrow> Inl f
      | Inr v \<Rightarrow>
          if memory_start v = 0 then Inr (release_frag (s\<lparr>core := v\<rparr>))
          else
          let s = s\<lparr>core := v\<rparr>;
              g = geom v;
              page_dir_index = extract_bits va 1 (page_dir_bits g);
              page_table_index = extract_bits va (page_dir_bits g + 1) (page_table_bits g);
              offset = extract_bits va (page_dir_bits g + page_table_bits g + 1) (offset_bits g);
              page_table = load32 (mem v) (entry_addr (page_dir v) page_dir_index)
          in if page_table = 0 then Inr (release_frag s)
             else case free_check_loop sz offset 0 page_table page_dir_index page_table_index s of
                 Inl f \<Rightarrow> Inl f
               | Inr False \<Rightarrow> Inr (release_frag s)
               | Inr True \<Rightarrow>
                   let physical_addr = load32 (mem v) (entry_addr page_table page_table_index)
                   in map_sum id release_frag
                        (free_pages_loop sz offset 0 page_table page_dir_index page_table_index
                           (frame_index_4k (memory_start v) physical_addr) s))"

end
