(* ===== verification/Frag_Share.thy ===== *)
theory Frag_Share
  imports Frag_Alloc
begin

text \<open>
  What the lists of \<open>Level -3/my_vm_internal_fragmentation.c\<close> achieve: small blocks of one page
  never overlap, releasing one block leaves the others and the page alone, and where the
  arithmetic of the offsets fails.
\<close>

subsection \<open>The invariant of the lists\<close>

text \<open>The blocks of a page are listed in the order of their offsets; a freed block counts no more.\<close>

definition before :: "alloc_node \<Rightarrow> alloc_node \<Rightarrow> bool" where
  "before a b \<longleftrightarrow> free_status a \<or> free_status b \<or> offset_end a < offset_start b"

definition blocks_ok :: "alloc_node list \<Rightarrow> bool" where
  "blocks_ok ns \<longleftrightarrow> ns \<noteq> [] \<and> sorted_wrt before ns \<and> (\<forall>b \<in> set ns. offset_start b \<le> offset_end b \<and> unat (offset_end b) \<le> 4096)"

definition partial_ok :: "alloc_node list option list \<Rightarrow> partial_node \<Rightarrow> bool" where
  "partial_ok al n \<longleftrightarrow> off4 (base_va n) = 0 \<and> page4 (base_va n) < length al \<and> unat (space_taken n) \<le> 4096
     \<and> (\<exists>ns. al ! page4 (base_va n) = Some ns \<and> (\<forall>b \<in> set ns. offset_end b \<le> space_taken n))"

definition frag_inv :: "frag \<Rightarrow> bool" where
  "frag_inv s \<longleftrightarrow> geom_of s = geo4k \<and> length (alloted s) = 262144 \<and> distinct (map base_va (partial_pages s))
     \<and> (\<forall>n \<in> set (partial_pages s). partial_ok (alloted s) n) \<and> (\<forall>ns. Some ns \<in> set (alloted s) \<longrightarrow> blocks_ok ns)"

lemma frag_invD:
  assumes "frag_inv s"
  shows "geom_of s = geo4k" "length (alloted s) = 262144" "distinct (map base_va (partial_pages s))"
    "n \<in> set (partial_pages s) \<Longrightarrow> partial_ok (alloted s) n"
    "k < 262144 \<Longrightarrow> alloted s ! k = Some ns \<Longrightarrow> blocks_ok ns"
  using assms by (auto simp: frag_inv_def) (metis nth_mem)

subsection \<open>Room in a partially used page\<close>

lemma check_partial_list_Some:
  assumes inv: "frag_inv s" and found: "check_partial_list (partial_pages s) (uint n) = Some va" and n: "0 < (n :: 32 word)"
  shows "\<exists>p \<in> set (partial_pages s). va = base_va p + space_taken p + 1 \<and> unat (space_taken p) + unat n \<le> 4096
     \<and> unat va = unat (base_va p) + unat (space_taken p) + 1"
proof -
  obtain p where p: "p \<in> set (partial_pages s)" "of_nat PGSIZE_4K - space_taken p \<ge> of_int (uint n)"
    and va: "va = base_va p + space_taken p + 1"
    using found by (auto simp: check_partial_list_def find_Some_iff dest: nth_mem)
  have ok: "partial_ok (alloted s) p" by (rule frag_invD(4) [OF inv p(1)])
  have t: "unat (space_taken p) \<le> 4096" using ok by (simp add: partial_ok_def)
  have "unat ((4096 :: 32 word) - space_taken p) = 4096 - unat (space_taken p)"
    using t by (subst unat_sub) (simp_all add: word_le_nat_alt)
  then have fits: "unat (space_taken p) + unat n \<le> 4096"
    using p(2) t by (simp add: PGSIZE_4K_def word_le_nat_alt ucast_id)
  have "page4 (base_va p) < 262144" using ok frag_invD(2) [OF inv] by (simp add: partial_ok_def)
  then have "unat (base_va p) < 2 ^ 30" by (simp add: page4_def)
  then have "unat va = unat (base_va p) + unat (space_taken p) + 1"
    using t by (simp add: va unat_word_ariths)
  with p(1) va fits show ?thesis by blast
qed

lemma same_page:
  assumes "off4 b = 0" and "unat va = unat b + k" and "k < 4096"
  shows "page4 va = page4 b" "off4 va = k"
proof -
  obtain q where q: "unat b = 4096 * q" using assms(1) by (auto simp: off4_def)
  then show "page4 va = page4 b" "off4 va = k" using assms(2,3) by (simp_all add: page4_def off4_def)
qed

lemma page_base:
  assumes "off4 b = 0" and "page4 b = page4 va"
  shows "va - of_nat (off4 va) = b"
proof -
  have "unat va = unat b + off4 va" using unat_split4 [of b] unat_split4 [of va] assms by simp
  then have "va = b + of_nat (off4 va)" by (metis of_nat_add word_of_nat_unat)
  then show ?thesis by (simp only: diff_eq_eq)
qed

text \<open>The block of \<open>n\<close> bytes at an address.\<close>

definition block_at :: "addr \<Rightarrow> 32 word \<Rightarrow> alloc_node" where
  "block_at va n = \<lparr>offset_start = of_nat (off4 va), offset_end = of_nat (off4 va) + n - 1, free_status = False\<rparr>"

lemma offset_field: "extract_bits va (page_dir_bits geo4k + page_table_bits geo4k + 1) (offset_bits geo4k) = of_nat (off4 va)"
proof -
  have "extract_bits va 21 12 = of_nat (off4 va)" by (metis unat_offset4 word_of_nat_unat)
  then show ?thesis by (simp add: geo4k_def)
qed

lemma add_alloc_entry_Some:
  assumes "geom_of s = geo4k" and "page4 va < length (alloted s)" and "alloted s ! page4 va = Some ns"
    and "node_allocs (cache (core s)) = a # as" and "a \<noteq> 0"
  shows "add_alloc_entry va (uint n) s =
    Inr (s\<lparr>core := (core s)\<lparr>cache := (cache (core s))\<lparr>node_allocs := as\<rparr>\<rparr>,
           alloted := (alloted s)[page4 va := Some (ns @ [block_at va n])]\<rparr>)"
  using assms
  by (simp add: add_alloc_entry_def Let_def page_number_geo4k_0 offset_field new_block_def malloc_node_def block_at_def ucast_id)

lemma update_loop_other: "base_va p \<noteq> b \<Longrightarrow> p \<in> set (update_loop b off sz ps) \<longleftrightarrow> p \<in> set ps"
  by (induction ps) auto

lemma update_loop_bases: "set (map base_va (update_loop b off sz ps)) \<subseteq> set (map base_va ps)"
  by (induction ps) auto

lemma update_loop_distinct: "distinct (map base_va ps) \<Longrightarrow> distinct (map base_va (update_loop b off sz ps))"
proof (induction ps)
  case (Cons p ps)
  then show ?case using update_loop_bases [of b off sz ps] by auto
qed simp

lemma update_loop_taken:
  assumes "distinct (map base_va ps)" and "q \<in> set (update_loop b off sz ps)" and "base_va q = b"
  shows "\<exists>p \<in> set ps. base_va p = b \<and> q = p\<lparr>space_taken := space_taken p + of_int sz\<rparr>"
  using assms by (induction ps) (auto split: if_splits)

lemma blocks_ok_append:
  assumes ns: "blocks_ok ns" "\<forall>b \<in> set ns. offset_end b \<le> t"
    and t: "off4 va = unat t + 1" "unat t + unat n \<le> 4096" and n: "0 < n"
  shows "blocks_ok (ns @ [block_at va n])" "offset_end (block_at va n) = t + n"
    "\<forall>b \<in> set ns. offset_end b < offset_start (block_at va n)"
proof -
  have start: "offset_start (block_at va n) = t + 1" by (simp add: block_at_def t(1) word_of_nat_unat)
  have u1: "unat (t + 1) = unat t + 1" "unat (t + n) = unat t + unat n"
    using t off4_lt [of va] by (simp_all add: unat_word_ariths)
  show e: "offset_end (block_at va n) = t + n" by (simp add: block_at_def t(1) word_of_nat_unat)
  show b: "\<forall>b \<in> set ns. offset_end b < offset_start (block_at va n)"
    using ns(2) by (auto simp: start word_less_nat_alt word_le_nat_alt u1)
  have "1 \<le> unat n" using n by (simp add: word_less_nat_alt Suc_le_eq)
  then show "blocks_ok (ns @ [block_at va n])"
    using ns(1) b t(2) by (auto simp: blocks_ok_def sorted_wrt_append before_def e start word_le_nat_alt u1)
qed

lemma base_eq:
  assumes "off4 a = 0" and "off4 b = 0" and "page4 a = page4 b"
  shows "a = b"
  using unat_split4 [of a] unat_split4 [of b] assms by (simp add: word_unat_eq_iff)

text \<open>One block is entered for its page.\<close>

lemma frag_inv_enter:
  assumes inv: "frag_inv s" and p: "p \<in> set (partial_pages s)" "page4 va = page4 (base_va p)"
    and va: "off4 va = unat (space_taken p) + 1" "unat (space_taken p) + unat n \<le> 4096" and n: "0 < n"
    and al: "alloted s ! page4 va = Some ns"
    and s': "alloted s' = (alloted s)[page4 va := Some (ns @ [block_at va n])]" "geom_of s' = geo4k"
      "partial_pages s' = update_loop (base_va p) off (uint n) (partial_pages s)"
  shows "frag_inv s'" "\<forall>b \<in> set ns. offset_end b < offset_start (block_at va n)"
proof -
  note I = frag_invD [OF inv]
  have ok: "partial_ok (alloted s) p" using p(1) by (rule I(4))
  then have k: "page4 va < 262144" and end_le: "\<forall>b \<in> set ns. offset_end b \<le> space_taken p"
    using p(2) al I(2) by (auto simp: partial_ok_def)
  note new = blocks_ok_append [OF I(5) [OF k al] end_le va n]
  show "\<forall>b \<in> set ns. offset_end b < offset_start (block_at va n)" by (rule new(3))
  have "partial_ok (alloted s') q" if q: "q \<in> set (partial_pages s')" for q
  proof (cases "base_va q = base_va p")
    case True
    obtain r where r: "r \<in> set (partial_pages s)" "base_va r = base_va p" "q = r\<lparr>space_taken := space_taken r + n\<rparr>"
      using update_loop_taken [OF I(3) q [unfolded s'(3)] True] by (auto simp: ucast_id)
    then have "r = p" using I(3) p(1) by (metis distinct_map inj_onD)
    have "unat (space_taken p + n) = unat (space_taken p) + unat n" using va(2) by (simp add: unat_word_ariths)
    then show ?thesis
      using ok k end_le new(2) va(2) I(2) p(2) unfolding r(3) \<open>r = p\<close>
      by (auto simp: partial_ok_def s'(1) word_le_nat_alt)
  next
    case False
    then have q0: "q \<in> set (partial_pages s)" using q update_loop_other [of q] by (auto simp: s'(3))
    then have okq: "partial_ok (alloted s) q" by (rule I(4))
    then have "page4 (base_va q) \<noteq> page4 va"
      using False ok base_eq [of "base_va q" "base_va p"] p(2) by (auto simp: partial_ok_def)
    then show ?thesis using okq by (auto simp: partial_ok_def s'(1))
  qed
  moreover have "blocks_ok ms" if "Some ms \<in> set (alloted s')" for ms
  proof -
    have "Some ms \<in> insert (Some (ns @ [block_at va n])) (set (alloted s))"
      using that set_update_subset_insert [of "alloted s" "page4 va"] by (auto simp: s'(1))
    then show ?thesis using new(1) inv by (auto simp: frag_inv_def)
  qed
  ultimately show "frag_inv s'"
    using I(2,3) s'(2) update_loop_distinct by (auto simp: frag_inv_def s'(1,3))
qed

lemma share_page:
  assumes inv: "frag_inv s" and n: "0 < (n :: 32 word)" and room: "check_partial_list (partial_pages s) (uint n) = Some va"
    and va: "off4 va \<noteq> 0"
  shows "\<exists>p \<in> set (partial_pages s). page4 va = page4 (base_va p) \<and> off4 va = unat (space_taken p) + 1
     \<and> unat (space_taken p) + unat n \<le> 4096 \<and> va - of_nat (off4 va) = base_va p \<and> page4 va < length (alloted s)
     \<and> alloted s ! page4 va \<noteq> None"
proof -
  obtain p where p: "p \<in> set (partial_pages s)" "unat (space_taken p) + unat n \<le> 4096"
      "unat va = unat (base_va p) + unat (space_taken p) + 1"
    using check_partial_list_Some [OF inv room n] by blast
  have ok: "partial_ok (alloted s) p" by (rule frag_invD(4) [OF inv p(1)])
  then have base: "off4 (base_va p) = 0" by (simp add: partial_ok_def)
  have "0 < unat n" using n by (simp add: word_less_nat_alt)
  have "unat (space_taken p) + 1 \<noteq> 4096"
  proof
    assume "unat (space_taken p) + 1 = 4096"
    then have "off4 va = 0" using p(3) base by (simp add: off4_def add.assoc)
    with va show False by simp
  qed
  then have lt: "unat (space_taken p) + 1 < 4096" using p(2) \<open>0 < unat n\<close> by simp
  have va': "unat va = unat (base_va p) + (unat (space_taken p) + 1)" using p(3) by simp
  note same = same_page [OF base va' lt]
  moreover have "va - of_nat (off4 va) = base_va p" by (rule page_base [OF base same(1) [symmetric]])
  ultimately show ?thesis using p(1,2) ok by (auto simp: partial_ok_def)
qed

text \<open>C20: A small request that a partially used page has room for (at a place that is not the first byte of the next page),
  with a \<open>malloc\<close> that succeeds, gets the bytes behind the last block of that
  page: nothing but the two lists changes (no frame, no table entry, no byte of the memory), the new
  block starts behind every live block of the page, so that no two of them overlap, and the invariant of the lists holds
  afterwards.\<close>

theorem t_malloc_shares_page:
  assumes "frag_inv s" and "\<not> mutex_locked (core s)" and "memory_start (core s) \<noteq> 0"
    and "0 < n" and "n < 4096" and "check_partial_list (partial_pages s) (uint n) = Some va" and "off4 va \<noteq> 0"
    and "node_allocs (cache (core s)) = a # as" and "a \<noteq> 0"
  shows "\<exists>s' ns. t_malloc_4k s n = Inr (va, s') \<and> frag_inv s'
    \<and> core s' = (core s)\<lparr>cache := (cache (core s))\<lparr>node_allocs := as\<rparr>\<rparr>
    \<and> alloted s ! page4 va = Some ns \<and> alloted s' = (alloted s)[page4 va := Some (ns @ [block_at va n])]
    \<and> (\<forall>b \<in> set ns. offset_end b < offset_start (block_at va n))"
proof -
  obtain p ns where p: "p \<in> set (partial_pages s)" "page4 va = page4 (base_va p)" "off4 va = unat (space_taken p) + 1"
      "unat (space_taken p) + unat n \<le> 4096" "va - of_nat (off4 va) = base_va p" "page4 va < length (alloted s)"
      and ns: "alloted s ! page4 va = Some ns"
    using share_page [OF assms(1,4,6,7)] by auto
  have g: "geom_of s = geo4k" by (rule frag_invD(1) [OF assms(1)])
  define s1 where "s1 = s\<lparr>core := (core s)\<lparr>mutex_locked := True\<rparr>\<rparr>"
  define s2 where "s2 = s1\<lparr>core := (core s1)\<lparr>cache := (cache (core s1))\<lparr>node_allocs := as\<rparr>\<rparr>,
    alloted := (alloted s1)[page4 va := Some (ns @ [block_at va n])]\<rparr>"
  define s' where "s' = release_frag (update_partial_list va (uint n) s2)"
  have "add_alloc_entry va (uint n) s1 = Inr s2"
    unfolding s2_def by (rule add_alloc_entry_Some) (use g p(6) ns assms(8,9) in \<open>simp_all add: s1_def\<close>)
  then have "t_malloc_4k s n = Inr (va, s')"
    using assms(2,3,5,6) by (simp add: t_malloc_4k_def s1_def [symmetric] s'_def PGSIZE_4K_def) (simp add: s1_def)
  moreover have core: "core s' = (core s)\<lparr>cache := (cache (core s))\<lparr>node_allocs := as\<rparr>\<rparr>"
    using assms(2) by (simp add: s'_def s2_def s1_def release_frag_def update_partial_list_def Let_def unlock_def)
  moreover have al: "alloted s' = (alloted s)[page4 va := Some (ns @ [block_at va n])]"
    by (simp add: s'_def s2_def s1_def release_frag_def update_partial_list_def Let_def)
  moreover have "partial_pages s' = update_loop (base_va p)
      (extract_bits va (page_dir_bits geo4k + 1) (offset_bits geo4k)) (uint n) (partial_pages s)"
    using g p(5) by (simp add: s'_def s2_def s1_def release_frag_def update_partial_list_def Let_def form_virtual_address_geo4k)
  ultimately show ?thesis
    using frag_inv_enter [OF assms(1) p(1-4) assms(4) ns al] g ns by auto
qed

text \<open>C38: The bytes a small request gets begin one behind the last used offset, but the test of the room does
  not count that byte: when the request fits exactly, its last byte lies in the page behind.\<close>

theorem check_partial_list_bounds:
  assumes "frag_inv s" and "0 < n" and "check_partial_list (partial_pages s) (uint n) = Some va"
  shows "\<exists>p \<in> set (partial_pages s). va = base_va p + space_taken p + 1 \<and> unat (space_taken p) + unat n \<le> 4096
    \<and> page4 (va + n - 1) = page4 (base_va p) + of_bool (unat (space_taken p) + unat n = 4096)"
proof -
  obtain p where p: "p \<in> set (partial_pages s)" "va = base_va p + space_taken p + 1"
      "unat (space_taken p) + unat n \<le> 4096"
    using check_partial_list_Some [OF assms(1,3,2)] by blast
  have ok: "partial_ok (alloted s) p" by (rule frag_invD(4) [OF assms(1) p(1)])
  then have base: "off4 (base_va p) = 0" and k: "page4 (base_va p) < 262144"
    using frag_invD(2) [OF assms(1)] by (simp_all add: partial_ok_def)
  then have b: "unat (base_va p) = page4 (base_va p) * 4096" using unat_split4 [of "base_va p"] by simp
  have e: "va + n - 1 = base_va p + (space_taken p + n)" by (simp add: p(2))
  have "unat (base_va p + (space_taken p + n)) = page4 (base_va p) * 4096 + (unat (space_taken p) + unat n)"
    using p(3) b k by (simp add: unat_word_ariths)
  then have "unat (va + n - 1) = page4 (base_va p) * 4096 + (unat (space_taken p) + unat n)" by (simp only: e)
  then have "page4 (va + n - 1) = page4 (base_va p) + of_bool (unat (space_taken p) + unat n = 4096)"
    using p(3) by (cases "unat (space_taken p) + unat n = 4096") (simp_all add: page4_def)
  with p show ?thesis by blast
qed

subsection \<open>Releasing one block of a page\<close>

lemma uint_off4: "uint (of_nat (off4 va) :: 32 word) = int (off4 va)"
proof -
  have "off4 va < 4294967296" using off4_lt [of va] by (rule less_trans) simp
  then show ?thesis by (simp only: uint_nat unat_of_nat) simp
qed

lemma free_check_one_page:
  assumes "geom_of s = geo4k" and "0 < sz" and "int (off4 va) + sz \<le> 4096"
    and "load32 (mem (core s)) (entry_addr page_table (table4 va)) \<noteq> 0"
    and "page4 va < length (alloted s)" and "alloted s ! page4 va = Some ns"
    and "b \<in> set ns" and "in_block (of_nat (off4 va)) (of_int sz) b"
  shows "free_check_loop sz (of_nat (off4 va)) 0 page_table (dir4 va) (table4 va) s = Inr True"
proof -
  have valid: "is_part_page_valid (page4 va) (of_nat (off4 va)) (of_int sz) s = Inr True"
    using assms(5-8) by (auto simp: is_part_page_valid_def list_ex_iff)
  have "\<not> sz - (int PGSIZE_4K - uint (of_nat (off4 va) :: 32 word)) > 0"
    using assms(3) by (simp add: PGSIZE_4K_def uint_off4)
  then have "free_check_loop (sz - (int PGSIZE_4K - uint (of_nat (off4 va) :: 32 word))) 0 (Suc 0) page_table (dir4 va) (table4 va) s
      = Inr True"
    by (subst free_check_loop.simps) simp
  then show ?thesis
    using assms(1,2,4) valid by (subst free_check_loop.simps) (simp add: page_number_geo4k_0)
qed

lemma free_part_page_shared:
  assumes "geom_of s = geo4k" and "page4 va < length (alloted s)" and "alloted s ! page4 va = Some ns"
    and "c \<in> set ns" and "\<not> free_status c" and "\<not> in_block offset sz c"
  shows "free_part_page (dir4 va) (table4 va) offset sz s =
    Inr (False, s\<lparr>alloted := (alloted s)[page4 va := Some (map (free_block offset sz) ns)]\<rparr>)"
proof -
  have "\<not> free_status (free_block offset sz c)" using assms(5,6) by (simp add: free_block_def)
  then have "\<not> list_all free_status (map (free_block offset sz) ns)"
    using assms(4) by (auto simp: list_all_iff)
  then show ?thesis
    using assms(1-4) by (auto simp: free_part_page_def Let_def page_number_geo4k_0)
qed

text \<open>C36: Releasing a block of a page that holds another live block changes nothing but the entry of the block:
  the page stays mapped with its frame, its bytes and its TLB entry, and the other blocks keep
  their entries.\<close>

theorem t_free_shared_keeps_page:
  assumes "geom_of s = geo4k" and "\<not> mutex_locked (core s)" and "memory_start (core s) \<noteq> 0"
    and "0 < sz" and "int (off4 va) + sz \<le> 4096"
    and "load32 (mem (core s)) (entry_addr (page_dir (core s)) (dir4 va)) = page_table" and "page_table \<noteq> 0"
    and "load32 (mem (core s)) (entry_addr page_table (table4 va)) \<noteq> 0"
    and "page4 va < length (alloted s)" and "alloted s ! page4 va = Some ns"
    and "b \<in> set ns" and "in_block (of_nat (off4 va)) (of_int sz) b"
    and "c \<in> set ns" and "\<not> free_status c" and "\<not> in_block (of_nat (off4 va)) (of_int sz) c"
  shows "t_free_4k s va sz = Inr (s\<lparr>alloted := (alloted s)[page4 va :=
    Some (map (free_block (of_nat (off4 va)) (of_int sz)) ns)]\<rparr>)"
proof -
  define s1 where "s1 = s\<lparr>core := (core s)\<lparr>mutex_locked := True\<rparr>\<rparr>"
  define s2 where "s2 = s1\<lparr>alloted := (alloted s1)[page4 va := Some (map (free_block (of_nat (off4 va)) (of_int sz)) ns)]\<rparr>"
  let ?start = "frame_index_4k (memory_start (core s)) (load32 (mem (core s)) (entry_addr page_table (table4 va)))"
  have check: "free_check_loop sz (of_nat (off4 va)) 0 page_table (dir4 va) (table4 va) s1 = Inr True"
    by (rule free_check_one_page) (use assms in \<open>simp_all add: s1_def\<close>)
  have free: "free_part_page (dir4 va) (table4 va) (of_nat (off4 va)) (of_int sz) s1 = Inr (False, s2)"
    unfolding s2_def by (rule free_part_page_shared) (use assms in \<open>simp_all add: s1_def\<close>)
  have "\<not> sz - (int PGSIZE_4K - uint (of_nat (off4 va) :: 32 word)) > 0"
    using assms(5) by (simp add: PGSIZE_4K_def uint_off4)
  then have "free_pages_loop (sz - (int PGSIZE_4K - uint (of_nat (off4 va) :: 32 word))) 0 0 page_table (dir4 va) (table4 va) ?start s2
      = Inr s2"
    by (subst free_pages_loop.simps) simp
  then have loop: "free_pages_loop sz (of_nat (off4 va)) 0 page_table (dir4 va) (table4 va) ?start s1 = Inr s2"
    using assms(4) free by (subst free_pages_loop.simps) simp
  have "lock (core s) = Inr (core s1)" using assms(2) by (simp add: s1_def)
  moreover have "s\<lparr>core := core s1\<rparr> = s1" by (simp add: s1_def)
  moreover have "memory_start (core s1) \<noteq> 0" "geom_of s1 = geo4k" "mem (core s1) = mem (core s)"
    "page_dir (core s1) = page_dir (core s)" "memory_start (core s1) = memory_start (core s)"
    using assms(1,3) by (simp_all add: s1_def)
  ultimately have "t_free_4k s va sz = Inr (release_frag s2)"
    using assms(6,7) check loop by (simp add: t_free_4k_def Let_def offset_field)
  moreover have "release_frag s2 = s\<lparr>alloted := (alloted s)[page4 va :=
      Some (map (free_block (of_nat (off4 va)) (of_int sz)) ns)]\<rparr>"
    using assms(2) by (simp add: s2_def s1_def release_frag_def unlock_def)
  ultimately show ?thesis by simp
qed

subsection \<open>A page with blocks\<close>

text \<open>The memory after page 0 has been filled up to \<open>t\<close> with the blocks \<open>ns\<close>.\<close>

definition no_blocks :: "alloc_node list option list" where
  "no_blocks = replicate 262144 None"

definition shared_state :: "alloc_node list \<Rightarrow> 32 word \<Rightarrow> frag" where
  "shared_state ns t = \<lparr>core = \<lparr>geom = geo4k, memory_start = 4096, num_pages = 262144, phy_bitmap = [], virt_bitmap = [],
       page_dir = 4096, cache = \<lparr>tlb_store = Some empty_tlb, tlb_hit = 0, tlb_miss = 0, node_allocs = [8, 16]\<rparr>,
       mutex_locked = False, mem = (\<lambda>_. 1), heap_block = 4096\<rparr>,
     partial_pages = [\<lparr>space_taken = t, base_va = 0\<rparr>], alloted = no_blocks[0 := Some ns]\<rparr>"

lemma no_blocks [simp]: "length no_blocks = 262144" "Some ns \<notin> set no_blocks" "k < 262144 \<Longrightarrow> no_blocks ! k = None"
  by (simp_all only: no_blocks_def length_replicate set_replicate_conv_if nth_replicate) simp_all

lemma shared_state_inv:
  assumes "blocks_ok ns" and "\<forall>b \<in> set ns. offset_end b \<le> t" and "unat t \<le> 4096"
  shows "frag_inv (shared_state ns t)"
proof -
  have "ms = ns" if "Some ms \<in> set (no_blocks[0 := Some ns])" for ms
    using that set_update_subset_insert [of no_blocks 0 "Some ns"] by auto
  then show ?thesis
    using assms by (auto simp: frag_inv_def shared_state_def partial_ok_def off4_def page4_def)
qed

abbreviation hundred_bytes :: alloc_node where
  "hundred_bytes \<equiv> \<lparr>offset_start = 0, offset_end = 99, free_status = False\<rparr>"

theorem t_malloc_shares_page_witness:
  "\<exists>s'. t_malloc_4k (shared_state [hundred_bytes] 100) 50 = Inr (101, s') \<and> frag_inv s'
    \<and> alloted s' ! 0 = Some [hundred_bytes, \<lparr>offset_start = 101, offset_end = 150, free_status = False\<rparr>]"
proof -
  let ?s = "shared_state [hundred_bytes] 100"
  have "blocks_ok [hundred_bytes]" by (simp add: blocks_ok_def)
  then have inv: "frag_inv ?s" by (rule shared_state_inv) simp_all
  have room: "check_partial_list (partial_pages ?s) (uint (50 :: 32 word)) = Some 101"
    by (simp add: shared_state_def check_partial_list_def PGSIZE_4K_def word_le_nat_alt)
  have off: "off4 101 = 101" "page4 101 = 0" by (simp_all add: off4_def page4_def)
  have "\<exists>s' ns. t_malloc_4k ?s 50 = Inr (101, s') \<and> frag_inv s'
    \<and> core s' = (core ?s)\<lparr>cache := (cache (core ?s))\<lparr>node_allocs := [16]\<rparr>\<rparr>
    \<and> alloted ?s ! page4 101 = Some ns \<and> alloted s' = (alloted ?s)[page4 101 := Some (ns @ [block_at 101 50])]
    \<and> (\<forall>b \<in> set ns. offset_end b < offset_start (block_at 101 50))"
    by (rule t_malloc_shares_page [OF inv _ _ _ _ room, of 8]) (simp_all add: shared_state_def off)
  then show ?thesis by (auto simp: off shared_state_def block_at_def)
qed

theorem check_partial_list_bounds_witness:
  "check_partial_list (partial_pages (shared_state [hundred_bytes] 4000)) (uint (96 :: 32 word)) = Some 4001
    \<and> page4 (4001 + 96 - 1) = 1"
proof -
  let ?s = "shared_state [hundred_bytes] 4000"
  have "blocks_ok [hundred_bytes]" by (simp add: blocks_ok_def)
  then have inv: "frag_inv ?s" by (rule shared_state_inv) (simp_all add: word_le_nat_alt)
  have room: "check_partial_list (partial_pages ?s) (uint (96 :: 32 word)) = Some 4001"
    by (simp add: shared_state_def check_partial_list_def PGSIZE_4K_def word_le_nat_alt)
  from check_partial_list_bounds [OF inv _ room] have "page4 (4001 + 96 - 1) = 1"
    by (simp add: shared_state_def page4_def)
  with room show ?thesis by blast
qed

theorem t_free_shared_keeps_page_witness:
  "\<exists>s'. t_free_4k (shared_state [hundred_bytes, \<lparr>offset_start = 101, offset_end = 150, free_status = False\<rparr>] 150) 101 50 = Inr s'
    \<and> alloted s' ! 0 = Some [hundred_bytes, \<lparr>offset_start = 0, offset_end = 0, free_status = True\<rparr>]"
proof -
  let ?b = "\<lparr>offset_start = 101, offset_end = 150, free_status = False\<rparr>"
  let ?s = "shared_state [hundred_bytes, ?b] 150"
  have off: "off4 101 = 101" "page4 101 = 0" by (simp_all add: off4_def page4_def)
  have ones: "load32 (mem (core ?s)) a = 16843009" for a
    by (simp add: shared_state_def load32_def)
  have "t_free_4k ?s 101 50 = Inr (?s\<lparr>alloted := (alloted ?s)[page4 101 :=
      Some (map (free_block (of_nat (off4 101)) (of_int 50)) [hundred_bytes, ?b])]\<rparr>)"
    by (rule t_free_shared_keeps_page [where b = ?b and c = hundred_bytes and page_table = 16843009])
      (simp_all add: ones, simp_all add: shared_state_def off in_block_def)
  then show ?thesis by (simp add: shared_state_def off free_block_def in_block_def)
qed

end
