(* ===== verification/Frag_Access.thy ===== *)
theory Frag_Access
  imports Frag_Share Vm_Access
begin

text \<open>
  \<open>put_value\<close> and \<open>get_value\<close> of \<open>Level -3/my_vm_internal_fragmentation.c\<close>: as in \<open>my_vm.c\<close>, but
  the range must also lie in one of the blocks of its page.  The caller's buffer is a list of bytes.
\<close>

subsection \<open>Operations\<close>

text \<open>The pages of the range, as both functions check them first; \<open>get_value\<close> passes on the
  offset and the size of the whole range for every page.\<close>

function put_check_loop :: "int \<Rightarrow> int \<Rightarrow> addr \<Rightarrow> nat \<Rightarrow> 32 word \<Rightarrow> 32 word \<Rightarrow> frag \<Rightarrow> (bool \<times> frag) result" where
  "put_check_loop size_copy offset_copy va_copy i page_dir_index page_table_index s =
     (if size_copy > 0
      then case translate (core s) va_copy of
          Inl f \<Rightarrow> Inl f
        | Inr (None, v) \<Rightarrow> Inr (False, s\<lparr>core := v\<rparr>)
        | Inr (Some pa, v) \<Rightarrow>
            (case is_part_page_valid (page_number (geom v) page_dir_index (page_table_index + of_nat i))
                 (of_int offset_copy) (of_int size_copy) s of
               Inl f \<Rightarrow> Inl f
             | Inr False \<Rightarrow> Inr (False, s\<lparr>core := v\<rparr>)
             | Inr True \<Rightarrow>
                 put_check_loop (size_copy - (int PGSIZE_4K - offset_copy)) 0 (get_next_page_4k (geom v) va_copy) (Suc i)
                   page_dir_index page_table_index (s\<lparr>core := v\<rparr>))
      else Inr (True, s))"
  by pat_completeness auto

termination
  by (relation "measures [\<lambda>(_, off, _, _, _, _, _). if off = 0 then 0 else 1, \<lambda>(sz, _, _, _, _, _, _). nat sz]")
    (auto simp: PGSIZE_4K_def)

declare put_check_loop.simps [simp del]

function get_check_loop :: "int \<Rightarrow> int \<Rightarrow> addr \<Rightarrow> nat \<Rightarrow> 32 word \<Rightarrow> 32 word \<Rightarrow> 32 word \<Rightarrow> 32 word \<Rightarrow> frag
    \<Rightarrow> (bool \<times> frag) result" where
  "get_check_loop size_copy offset_copy va_copy i page_dir_index page_table_index offset sz s =
     (if size_copy > 0
      then case translate (core s) va_copy of
          Inl f \<Rightarrow> Inl f
        | Inr (None, v) \<Rightarrow> Inr (False, s\<lparr>core := v\<rparr>)
        | Inr (Some pa, v) \<Rightarrow>
            (case is_part_page_valid (page_number (geom v) page_dir_index (page_table_index + of_nat i)) offset sz s of
               Inl f \<Rightarrow> Inl f
             | Inr False \<Rightarrow> Inr (False, s\<lparr>core := v\<rparr>)
             | Inr True \<Rightarrow>
                 get_check_loop (size_copy - (int PGSIZE_4K - offset_copy)) 0 (get_next_page_4k (geom v) va_copy) (Suc i)
                   page_dir_index page_table_index offset sz (s\<lparr>core := v\<rparr>))
      else Inr (True, s))"
  by pat_completeness auto

termination
  by (relation "measures [\<lambda>(_, off, _, _, _, _, _, _, _). if off = 0 then 0 else 1, \<lambda>(sz, _, _, _, _, _, _, _, _). nat sz]")
    (auto simp: PGSIZE_4K_def)

declare get_check_loop.simps [simp del]

definition chunk_4k :: "int \<Rightarrow> int \<Rightarrow> int" where
  "chunk_4k size_copy offset =
     (if size_copy > int PGSIZE_4K - offset then int PGSIZE_4K - offset else size_copy)"

function put_loop_4k :: "int \<Rightarrow> int \<Rightarrow> addr \<Rightarrow> byte list \<Rightarrow> vm \<Rightarrow> vm result" where
  "put_loop_4k size_copy offset va val s =
     (if size_copy > 0
      then case translate s va of
          Inl f \<Rightarrow> Inl f
        | Inr (None, s) \<Rightarrow> Inr s
        | Inr (Some pa, s) \<Rightarrow>
            (case copy_in (mem s) (pa + of_int offset) val (chunk_4k size_copy offset) of
               Inl f \<Rightarrow> Inl f
             | Inr m \<Rightarrow>
                 put_loop_4k (size_copy - (int PGSIZE_4K - offset)) 0 (get_next_page_4k (geom s) va)
                   (drop (nat (chunk_4k size_copy offset)) val) (s\<lparr>mem := m\<rparr>))
      else Inr s)"
  by pat_completeness auto

termination
  by (relation "measures [\<lambda>(_, off, _, _, _). if off = 0 then 0 else 1, \<lambda>(sz, _, _, _, _). nat sz]")
    (auto simp: PGSIZE_4K_def)

declare put_loop_4k.simps [simp del]

definition put_value_4k :: "frag \<Rightarrow> addr \<Rightarrow> byte list \<Rightarrow> int \<Rightarrow> frag result" where
  "put_value_4k s va val sz =
     (case lock (core s) of
        Inl f \<Rightarrow> Inl f
      | Inr v \<Rightarrow>
          let s = s\<lparr>core := v\<rparr>;
              g = geom v;
              page_dir_index = extract_bits va 1 (page_dir_bits g);
              page_table_index = extract_bits va (page_dir_bits g + 1) (page_table_bits g);
              offset = offset_of v va
          in if memory_start v = 0 then Inr (release_frag s)
             else if int PGSIZE_4K - offset > sz
             then case translate v va of
                 Inl f \<Rightarrow> Inl f
               | Inr (pt_entry, v) \<Rightarrow>
                   (case is_part_page_valid (page_number g page_dir_index page_table_index) (of_int offset) (of_int sz) s of
                      Inl f \<Rightarrow> Inl f
                    | Inr False \<Rightarrow> Inr (release_frag (s\<lparr>core := v\<rparr>))
                    | Inr True \<Rightarrow>
                        (case pt_entry of
                           None \<Rightarrow> Inl NullDeref
                         | Some pa \<Rightarrow>
                             (case copy_in (mem v) (pa + of_int offset) val sz of
                                Inl f \<Rightarrow> Inl f
                              | Inr m \<Rightarrow> Inr (release_frag (s\<lparr>core := v\<lparr>mem := m\<rparr>\<rparr>)))))
             else case put_check_loop sz offset va 0 page_dir_index page_table_index s of
                 Inl f \<Rightarrow> Inl f
               | Inr (False, s) \<Rightarrow> Inr (release_frag s)
               | Inr (True, s) \<Rightarrow>
                   map_sum id (\<lambda>v. release_frag (s\<lparr>core := v\<rparr>)) (put_loop_4k sz offset va val (core s)))"

function get_loop_4k :: "int \<Rightarrow> int \<Rightarrow> addr \<Rightarrow> nat \<Rightarrow> byte list \<Rightarrow> vm \<Rightarrow> (byte list \<times> vm) result" where
  "get_loop_4k size_copy offset va pos val s =
     (if size_copy > 0
      then case translate s va of
          Inl f \<Rightarrow> Inl f
        | Inr (None, s) \<Rightarrow> Inr (val, s)
        | Inr (Some pa, s) \<Rightarrow>
            (case copy_out (mem s) (pa + of_int offset) val pos (chunk_4k size_copy offset) of
               Inl f \<Rightarrow> Inl f
             | Inr val \<Rightarrow>
                 get_loop_4k (size_copy - (int PGSIZE_4K - offset)) 0 (get_next_page_4k (geom s) va)
                   (pos + nat (if int PGSIZE_4K - offset \<noteq> 0 then int PGSIZE_4K - offset else size_copy)) val s)
      else Inr (val, s))"
  by pat_completeness auto

termination
  by (relation "measures [\<lambda>(_, off, _, _, _, _). if off = 0 then 0 else 1, \<lambda>(sz, _, _, _, _, _). nat sz]")
    (auto simp: PGSIZE_4K_def)

declare get_loop_4k.simps [simp del]

definition get_value_4k :: "frag \<Rightarrow> addr \<Rightarrow> byte list \<Rightarrow> int \<Rightarrow> (byte list \<times> frag) result" where
  "get_value_4k s va val sz =
     (case lock (core s) of
        Inl f \<Rightarrow> Inl f
      | Inr v \<Rightarrow>
          let s = s\<lparr>core := v\<rparr>;
              g = geom v;
              page_dir_index = extract_bits va 1 (page_dir_bits g);
              page_table_index = extract_bits va (page_dir_bits g + 1) (page_table_bits g);
              offset = offset_of v va
          in if memory_start v = 0 then Inr (val, release_frag s)
             else if int PGSIZE_4K - offset > sz
             then case translate v va of
                 Inl f \<Rightarrow> Inl f
               | Inr (None, v) \<Rightarrow> Inr (val, release_frag (s\<lparr>core := v\<rparr>))
               | Inr (Some pa, v) \<Rightarrow>
                   (case is_part_page_valid (page_number g page_dir_index page_table_index) (of_int offset) (of_int sz) s of
                      Inl f \<Rightarrow> Inl f
                    | Inr False \<Rightarrow> Inr (val, release_frag (s\<lparr>core := v\<rparr>))
                    | Inr True \<Rightarrow>
                        (case copy_out (mem v) (pa + of_int offset) val 0 sz of
                           Inl f \<Rightarrow> Inl f
                         | Inr val \<Rightarrow> Inr (val, release_frag (s\<lparr>core := v\<rparr>))))
             else case get_check_loop sz offset va 0 page_dir_index page_table_index (of_int offset) (of_int sz) s of
                 Inl f \<Rightarrow> Inl f
               | Inr (False, s) \<Rightarrow> Inr (val, release_frag s)
               | Inr (True, s) \<Rightarrow>
                   map_sum id (\<lambda>(val, v). (val, release_frag (s\<lparr>core := v\<rparr>))) (get_loop_4k sz offset va 0 val (core s)))"

subsection \<open>Translation\<close>

lemma offset_of_geo4k: "geom s = geo4k \<Longrightarrow> offset_of s va = int (off4 va)"
  using sint_index [of "extract_bits va 21 12"] less_trans [OF off4_lt [of va]] unat_offset4 [of va]
  by (simp add: offset_of_def geo4k_def LEVELS_def)

lemma translate_total:
  assumes "tlb_ok (cache v)"
  shows "\<exists>r c. translate v va = Inr (r, v\<lparr>cache := c\<rparr>) \<and> tlb_ok c"
proof -
  let ?g = "geom v"
  let ?key = "form_virtual_address ?g (extract_bits va 1 (page_dir_bits ?g)) (extract_bits va (page_dir_bits ?g + 1) (page_table_bits ?g))"
  obtain r c where c: "check_TLB (cache v) ?key = Inr (r, c)" "tlb_ok c" "r = None \<longrightarrow> (\<forall>p. (?key, p) \<notin> tlb_entries c)"
    using check_TLB_spec [OF assms, of ?key] by metis
  show ?thesis
  proof (cases r)
    case (Some pa)
    then show ?thesis using c by (simp add: translate_def Let_def) blast
  next
    case None
    let ?table = "load32 (mem v) (entry_addr (page_dir v) (extract_bits va 1 (page_dir_bits ?g)))"
    let ?pte = "load32 (mem v) (entry_addr ?table (extract_bits va (page_dir_bits ?g + 1) (page_table_bits ?g)))"
    obtain q c' where a: "add_TLB c ?key ?pte = Inr (q, c')" "tlb_ok c'"
      using add_TLB_spec [OF c(2), of ?key ?pte] c(3) None by blast
    have "translate v va = (if ?table = 0 \<or> ?pte = 0 then Inr (None, v\<lparr>cache := c\<rparr>) else Inr (Some ?pte, v\<lparr>cache := c'\<rparr>))"
      using c(1) a(1) None by (simp add: translate_def Let_def)
    then show ?thesis using c(2) a(2) by (auto split: if_splits)
  qed
qed

subsection \<open>Ranges over several pages\<close>

lemma valid_total: "k < length (alloted s) \<Longrightarrow> \<exists>b. is_part_page_valid k offset sz s = Inr b"
  by (auto simp: is_part_page_valid_def split: option.splits)

definition rejects :: "frag \<Rightarrow> nat \<Rightarrow> 32 word \<Rightarrow> 32 word \<Rightarrow> bool" where
  "rejects s k offset sz \<longleftrightarrow> k < length (alloted s) \<and> (\<exists>ns. alloted s ! k = Some ns \<and> ns \<noteq> [] \<and> (\<forall>b \<in> set ns. \<not> in_block offset sz b))"

lemma rejects_invalid: "rejects s k offset sz \<Longrightarrow> is_part_page_valid k offset sz s = Inr False"
  by (auto simp: rejects_def is_part_page_valid_def list_ex_iff)

lemma get_check_rejects:
  assumes "geom_of s = geo4k" and "tlb_ok (cache (core s))" and "0 < size_copy" and "0 \<le> offset_copy" and "offset_copy < 4096"
    and "4096 * int d < size_copy + offset_copy" and "page4 va + (i + d) < 1048576"
    and "rejects s (page4 va + (i + d)) offset sz"
  shows "\<exists>s'. get_check_loop size_copy offset_copy va_copy i (dir4 va) (table4 va) offset sz s = Inr (False, s')"
  using assms
proof (induction d arbitrary: size_copy offset_copy va_copy i s)
  case 0
  obtain r c where t: "translate (core s) va_copy = Inr (r, (core s)\<lparr>cache := c\<rparr>)" "tlb_ok c"
    using translate_total [OF "0.prems"(2)] by blast
  show ?case
    using 0 t rejects_invalid [OF "0.prems"(8)]
    by (subst get_check_loop.simps) (auto simp: page_number_geo4k split: option.splits)
next
  case (Suc d)
  obtain r c where t: "translate (core s) va_copy = Inr (r, (core s)\<lparr>cache := c\<rparr>)" "tlb_ok c"
    using translate_total [OF Suc.prems(2)] by blast
  let ?s = "s\<lparr>core := (core s)\<lparr>cache := c\<rparr>\<rparr>"
  have "page4 va + i < length (alloted s)" using Suc.prems(8) by (simp add: rejects_def)
  then obtain b where b: "is_part_page_valid (page4 va + i) offset sz s = Inr b" using valid_total by blast
  have rec: "\<exists>s'. get_check_loop (size_copy - (4096 - offset_copy)) 0 (get_next_page_4k geo4k va_copy) (Suc i)
      (dir4 va) (table4 va) offset sz ?s = Inr (False, s')"
    by (rule Suc.IH) (use Suc.prems t(2) in \<open>auto simp: rejects_def\<close>)
  have "page_number geo4k (dir4 va) (table4 va + of_nat i) = page4 va + i"
    using Suc.prems(7) by (intro page_number_geo4k) simp
  then show ?case
    using Suc.prems(1,3) t(1) b rec
    by (subst get_check_loop.simps) (auto simp: PGSIZE_4K_def split: option.splits bool.splits)
qed

text \<open>C35: A read that goes over a page boundary into a page that small blocks share never returns data, although
  the range lies inside one allocated block: the check compares the offset and the size of the
  whole range with the blocks of the last page.\<close>

theorem get_value_spanning_fails:
  assumes "frag_inv s" and "\<not> mutex_locked (core s)" and "memory_start (core s) \<noteq> 0" and "tlb_ok (cache (core s))"
    and "4098 \<le> off4 va + sz" and "sz < 2 ^ 31" and "k = (off4 va + sz - 1) div 4096"
    and "page4 va + k < 262144" and "alloted s ! (page4 va + k) \<noteq> None"
  shows "\<exists>s'. get_value_4k s va val (int sz) = Inr (val, s')"
proof -
  note I = frag_invD [OF assms(1)]
  define s1 where "s1 = s\<lparr>core := (core s)\<lparr>mutex_locked := True\<rparr>\<rparr>"
  obtain ns where ns: "alloted s ! (page4 va + k) = Some ns" using assms(9) by blast
  then have ok: "blocks_ok ns" using I(5) assms(8) by blast
  have "unat (of_nat (off4 va) + of_int (int sz) - 1 :: 32 word) = off4 va + sz - 1"
  proof -
    have "(of_nat (off4 va) + of_int (int sz) - 1 :: 32 word) = of_nat (off4 va + sz - 1)"
      using assms(5) by (simp add: of_nat_diff)
    moreover have "off4 va + sz - 1 < 4294967296" using off4_lt [of va] assms(6) by (simp del: off4_lt)
    ultimately show ?thesis by (simp only: unat_of_nat) simp
  qed
  then have "\<not> in_block (of_nat (off4 va)) (of_int (int sz)) b" if "b \<in> set ns" for b
    using that ok assms(5) by (auto simp: in_block_def blocks_ok_def word_le_nat_alt)
  then have rej: "rejects s1 (page4 va + (0 + k)) (of_nat (off4 va)) (of_int (int sz))"
    using ns ok assms(8) I(2) by (auto simp: rejects_def blocks_ok_def s1_def)
  have "0 < sz" using assms(5) off4_lt [of va] by linarith
  have "\<exists>s'. get_check_loop (int sz) (int (off4 va)) va 0 (dir4 va) (table4 va) (of_nat (off4 va)) (of_int (int sz)) s1
      = Inr (False, s')"
    by (rule get_check_rejects [OF _ _ _ _ _ _ _ rej]) (use assms \<open>0 < sz\<close> I(1) in \<open>simp_all add: s1_def\<close>)
  moreover have "lock (core s) = Inr (core s1)" "s\<lparr>core := core s1\<rparr> = s1" "geom_of s1 = geo4k"
      "memory_start (core s1) \<noteq> 0"
    using assms(2,3) I(1) by (simp_all add: s1_def)
  moreover have "\<not> int PGSIZE_4K - int (off4 va) > int sz" using assms(5) by (simp add: PGSIZE_4K_def)
  ultimately show ?thesis by (auto simp: get_value_4k_def Let_def offset_of_geo4k)
qed

text \<open>A block of 5000 bytes: the first page whole, 904 bytes of the shared second page.\<close>

theorem get_value_spanning_fails_witness:
  "\<exists>s'. get_value_4k ((shared_state [hundred_bytes] 100)\<lparr>alloted := no_blocks[1 := Some [\<lparr>offset_start = 0, offset_end = 903,
      free_status = False\<rparr>]], partial_pages := [\<lparr>space_taken = 904, base_va = 4096\<rparr>]\<rparr>) 0 (replicate 5000 7) 5000
    = Inr (replicate 5000 7, s')"
proof -
  let ?b = "\<lparr>offset_start = 0, offset_end = 903, free_status = False\<rparr>"
  let ?s = "(shared_state [hundred_bytes] 100)\<lparr>alloted := no_blocks[1 := Some [?b]],
      partial_pages := [\<lparr>space_taken = 904, base_va = 4096\<rparr>]\<rparr>"
  have "blocks_ok [?b]" by (simp add: blocks_ok_def)
  then have "blocks_ok ms" if "Some ms \<in> set (no_blocks[1 := Some [?b]])" for ms
    using that set_update_subset_insert [of no_blocks 1 "Some [?b]"] by auto
  then have inv: "frag_inv ?s"
    by (auto simp: frag_inv_def shared_state_def partial_ok_def off4_def page4_def)
  have off: "off4 0 = 0" "page4 0 = 0" by (simp_all add: off4_def page4_def)
  have "\<exists>s'. get_value_4k ?s 0 (replicate 5000 7) (int 5000) = Inr (replicate 5000 7, s')"
    by (rule get_value_spanning_fails [OF inv, where k = 1]) (simp_all add: shared_state_def off tlb_ok_def)
  then show ?thesis by (simp only: of_nat_numeral)
qed

subsection \<open>Writes outside the blocks\<close>

text \<open>C37: A write into a page with a list of blocks that ends before the last byte of the page and does not lie inside one of
  its blocks stores nothing, and the mutex is released.\<close>

theorem put_value_outside_block:
  assumes "geom_of s = geo4k" and "\<not> mutex_locked (core s)" and "memory_start (core s) \<noteq> 0" and "tlb_ok (cache (core s))"
    and "off4 va + sz < 4096" and "page4 va < length (alloted s)" and "alloted s ! page4 va = Some ns" and "ns \<noteq> []"
    and "\<forall>b \<in> set ns. \<not> in_block (of_nat (off4 va)) (of_nat sz) b"
  shows "\<exists>s'. put_value_4k s va val (int sz) = Inr s' \<and> mem (core s') = mem (core s) \<and> alloted s' = alloted s
    \<and> \<not> mutex_locked (core s')"
proof -
  define s1 where "s1 = s\<lparr>core := (core s)\<lparr>mutex_locked := True\<rparr>\<rparr>"
  obtain r c where t: "translate (core s1) va = Inr (r, (core s1)\<lparr>cache := c\<rparr>)"
    using translate_total [of "core s1" va] assms(4) by (auto simp: s1_def)
  have "rejects s1 (page4 va) (of_nat (off4 va)) (of_nat sz)" using assms(6-9) by (auto simp: rejects_def s1_def)
  note invalid = rejects_invalid [OF this]
  have "lock (core s) = Inr (core s1)" "s\<lparr>core := core s1\<rparr> = s1" "geom_of s1 = geo4k" "memory_start (core s1) \<noteq> 0"
      "mem (core s1) = mem (core s)" "alloted s1 = alloted s"
    using assms(1-3) by (simp_all add: s1_def)
  moreover have "int PGSIZE_4K - int (off4 va) > int sz" using assms(5) by (simp add: PGSIZE_4K_def)
  ultimately show ?thesis
    using t invalid by (simp add: put_value_4k_def Let_def offset_of_geo4k page_number_geo4k_0 release_frag_def unlock_def)
qed

theorem put_value_outside_block_witness:
  "\<exists>s'. put_value_4k (shared_state [hundred_bytes] 100) 60 (replicate 50 7) 50 = Inr s' \<and> mem (core s') = (\<lambda>_. 1)"
proof -
  have off: "off4 60 = 60" "page4 60 = 0" by (simp_all add: off4_def page4_def)
  have "\<exists>s'. put_value_4k (shared_state [hundred_bytes] 100) 60 (replicate 50 7) (int 50) = Inr s'
      \<and> mem (core s') = mem (core (shared_state [hundred_bytes] 100))
      \<and> alloted s' = alloted (shared_state [hundred_bytes] 100) \<and> \<not> mutex_locked (core s')"
    by (rule put_value_outside_block [where ns = "[hundred_bytes]"])
      (simp_all add: shared_state_def off tlb_ok_def in_block_def word_le_nat_alt)
  then show ?thesis by (auto simp: shared_state_def)
qed

text \<open>A short write to a page that is not mapped dereferences a null pointer: the result of the translation
  is not tested, and a page without a list of blocks counts as valid.\<close>

theorem put_value_unmapped_crashes:
  assumes "geom_of s = geo4k" and "\<not> mutex_locked (core s)" and "memory_start (core s) \<noteq> 0"
    and "tlb_store (cache (core s)) = Some t" and "va - of_nat (off4 va) \<notin> nd_va ` set (chain t)"
    and "load32 (mem (core s)) (entry_addr (page_dir (core s)) (dir4 va)) = 0"
    and "off4 va + sz < 4096" and "page4 va < length (alloted s)" and "alloted s ! page4 va = None"
  shows "put_value_4k s va val (int sz) = Inl NullDeref"
proof -
  define s1 where "s1 = s\<lparr>core := (core s)\<lparr>mutex_locked := True\<rparr>\<rparr>"
  have "find (\<lambda>n. nd_va n = va - of_nat (off4 va)) (chain t) = None"
    unfolding find_None_iff using assms(5) by force
  then have "check_TLB (cache (core s1)) (va - of_nat (off4 va))
      = Inr (None, (cache (core s))\<lparr>tlb_miss := tlb_miss (cache (core s)) + 1\<rparr>)"
    using assms(4) by (simp add: check_TLB_def s1_def)
  then have t: "\<exists>v. translate (core s1) va = Inr (None, v)"
    using assms(1,6) by (simp add: translate_def Let_def form_virtual_address_geo4k s1_def)
  have "is_part_page_valid (page4 va) (of_nat (off4 va)) (of_nat sz) s1 = Inr True"
    using assms(8,9) by (simp add: is_part_page_valid_def s1_def)
  moreover have "lock (core s) = Inr (core s1)" "s\<lparr>core := core s1\<rparr> = s1" "geom_of s1 = geo4k" "memory_start (core s1) \<noteq> 0"
    using assms(1-3) by (simp_all add: s1_def)
  moreover have "int PGSIZE_4K - int (off4 va) > int sz" using assms(7) by (simp add: PGSIZE_4K_def)
  ultimately show ?thesis
    using t by (auto simp: put_value_4k_def Let_def offset_of_geo4k page_number_geo4k_0)
qed

theorem put_value_unmapped_crashes_witness:
  "put_value_4k (shared_state [hundred_bytes] 100\<lparr>core := (core (shared_state [hundred_bytes] 100))\<lparr>mem := (\<lambda>_. 0)\<rparr>\<rparr>)
     8192 [7] 1 = Inl NullDeref"
proof -
  let ?s = "shared_state [hundred_bytes] 100\<lparr>core := (core (shared_state [hundred_bytes] 100))\<lparr>mem := (\<lambda>_. 0)\<rparr>\<rparr>"
  have off: "off4 8192 = 0" "page4 8192 = 2" by (simp_all add: off4_def page4_def)
  have "put_value_4k ?s 8192 [7] (int 1) = Inl NullDeref"
    by (rule put_value_unmapped_crashes [where t = empty_tlb])
      (simp_all add: shared_state_def off empty_tlb_def load32_zero)
  then show ?thesis by simp
qed

end
