(* ===== verification/Frag_Blocks.thy ===== *)
theory Frag_Blocks
  imports Frag_Access
begin

text \<open>
  Blocks that share a page (\<open>Level -3/my_vm_internal_fragmentation.c\<close>): \<open>put_value\<close> and \<open>get_value\<close> on a range
  that lies in one block of its page, and what a write to one block does to another of the same page.
\<close>

subsection \<open>A mapped page\<close>

text \<open>
  The page of \<open>va\<close> is at the frame \<open>pa\<close>: the page tables say so, the TLB does not say otherwise, and
  the two words of the walk are outside the frame.
\<close>

definition page_at :: "vm \<Rightarrow> addr \<Rightarrow> addr \<Rightarrow> bool" where
  "page_at v va pa \<longleftrightarrow> tlb_ok (cache v) \<and> (\<forall>p. (va - of_nat (off4 va), p) \<in> tlb_entries (cache v) \<longrightarrow> p = pa) \<and> pa \<noteq> 0
     \<and> (let d = entry_addr (page_dir v) (dir4 va); t = load32 (mem v) d; e = entry_addr t (table4 va)
        in t \<noteq> 0 \<and> load32 (mem v) e = pa \<and> (\<forall>i < 4. 4096 \<le> unat (d + of_nat i - pa)) \<and> (\<forall>i < 4. 4096 \<le> unat (e + of_nat i - pa)))"

lemma page_at_cong:
  "cache v' = cache v \<Longrightarrow> mem v' = mem v \<Longrightarrow> page_dir v' = page_dir v \<Longrightarrow> page_at v' va pa = page_at v va pa"
  by (simp add: page_at_def)

lemma page_at_same:
  assumes "page4 va' = page4 va"
  shows "page_at v va' pa = page_at v va pa"
proof -
  have "dir4 va' = dir4 va" "table4 va' = table4 va"
    using assms by (simp_all add: word_unat_eq_iff unat_dir4 unat_table4)
  moreover have "x - of_nat (off4 x) = of_nat (page4 x * 4096)" for x :: addr
  proof -
    have "x = of_nat (page4 x * 4096 + off4 x)" by (metis unat_split4 word_of_nat_unat)
    then show ?thesis by (simp only: of_nat_add diff_eq_eq)
  qed
  ultimately show ?thesis using assms by (simp add: page_at_def)
qed

lemma write_elsewhere:
  assumes "unat (x - pa) < off \<or> off + length bs \<le> unat (x - pa)" and "off + length bs \<le> 4096"
  shows "mem_write m (pa + of_nat off) bs x = m x"
proof -
  have "\<not> unat (x - (pa + of_nat off)) < length bs"
  proof
    assume lt: "unat (x - (pa + of_nat off)) < length bs"
    have "x - pa = of_nat (unat (x - (pa + of_nat off)) + off)" by simp
    then have "unat (x - pa) = unat (x - (pa + of_nat off)) + off"
      using lt assms(2) by (simp only: unat_of_nat) simp
    then show False using lt assms(1) by linarith
  qed
  then show ?thesis by (simp add: mem_write_def)
qed

lemma page_at_write:
  assumes "page_at v va pa" and "off + length bs \<le> 4096"
  shows "page_at (v\<lparr>mem := mem_write (mem v) (pa + of_nat off) bs\<rparr>) va pa"
proof -
  let ?d = "entry_addr (page_dir v) (dir4 va)" and ?m = "mem_write (mem v) (pa + of_nat off) bs"
  let ?e = "entry_addr (load32 (mem v) ?d) (table4 va)"
  have "load32 ?m ?d = load32 (mem v) ?d" "load32 ?m ?e = load32 (mem v) ?e"
    using assms by (auto intro!: load32_cong write_elsewhere disjI2 order_trans [of "off + length bs" 4096] simp: page_at_def Let_def)
  then show ?thesis using assms(1) by (simp add: page_at_def Let_def)
qed

lemma translate_page_at:
  assumes "page_at v va pa" and "geom v = geo4k"
  shows "\<exists>c. translate v va = Inr (Some pa, v\<lparr>cache := c\<rparr>) \<and> page_at (v\<lparr>cache := c\<rparr>) va pa"
proof -
  let ?key = "va - of_nat (off4 va)"
  have ok: "tlb_ok (cache v)" and only: "\<forall>p. (?key, p) \<in> tlb_entries (cache v) \<longrightarrow> p = pa" and "pa \<noteq> 0"
    and walk: "load32 (mem v) (entry_addr (page_dir v) (dir4 va)) \<noteq> 0"
      "load32 (mem v) (entry_addr (load32 (mem v) (entry_addr (page_dir v) (dir4 va))) (table4 va)) = pa"
    using assms(1) by (simp_all add: page_at_def Let_def)
  obtain r c where c: "check_TLB (cache v) ?key = Inr (r, c)" "tlb_ok c" "tlb_entries c = tlb_entries (cache v)"
      "\<forall>p. r = Some p \<longrightarrow> (?key, p) \<in> tlb_entries (cache v)" "r = None \<longrightarrow> (\<forall>p. (?key, p) \<notin> tlb_entries (cache v))"
    using check_TLB_spec [OF ok, of ?key] by metis
  show ?thesis
  proof (cases r)
    case (Some p)
    then have "p = pa" using c(4) only by blast
    then show ?thesis using Some c(1-3) assms
      by (intro exI [of _ c]) (simp add: translate_def Let_def form_virtual_address_geo4k page_at_def)
  next
    case None
    obtain q c' where a: "add_TLB c ?key pa = Inr (q, c')" "tlb_ok c'" "tlb_entries c' \<subseteq> insert (?key, pa) (tlb_entries c)"
      using add_TLB_spec [OF c(2), of ?key pa] c(3,5) None by auto
    then have "\<forall>p. (?key, p) \<in> tlb_entries c' \<longrightarrow> p = pa" using c(3) only by blast
    then show ?thesis using None c(1) a(1,2) assms walk \<open>pa \<noteq> 0\<close>
      by (intro exI [of _ c']) (simp add: translate_def Let_def form_virtual_address_geo4k page_at_def)
  qed
qed

subsection \<open>One block\<close>

definition ready :: "frag \<Rightarrow> addr \<Rightarrow> addr \<Rightarrow> alloc_node list \<Rightarrow> bool" where
  "ready s va pa ns \<longleftrightarrow> geom_of s = geo4k \<and> \<not> mutex_locked (core s) \<and> memory_start (core s) \<noteq> 0 \<and> page_at (core s) va pa
     \<and> page4 va < length (alloted s) \<and> alloted s ! page4 va = Some ns"

lemma ready_same: "page4 va' = page4 va \<Longrightarrow> ready s va' pa ns = ready s va pa ns"
  using page_at_same [of va' va] by (simp add: ready_def)

lemma valid_in_block:
  assumes "page4 va < length (alloted s)" and "alloted s ! page4 va = Some ns" and "b \<in> set ns" and "in_block off sz b"
  shows "is_part_page_valid (page4 va) off sz s = Inr True"
  using assms by (auto simp: is_part_page_valid_def list_ex_iff)

lemma put_in_block:
  assumes ready: "ready s va pa ns" and "b \<in> set ns" and "in_block (of_nat (off4 va)) (of_nat sz) b"
    and "off4 va + sz < 4096" and "sz \<le> length val"
  shows "\<exists>s'. put_value_4k s va val (int sz) = Inr s' \<and> ready s' va pa ns
    \<and> mem (core s') = mem_write (mem (core s)) (pa + of_nat (off4 va)) (take sz val)"
proof -
  have R: "geom_of s = geo4k" "\<not> mutex_locked (core s)" "memory_start (core s) \<noteq> 0" "page_at (core s) va pa"
      "page4 va < length (alloted s)" "alloted s ! page4 va = Some ns"
    using ready by (simp_all add: ready_def)
  define s1 where "s1 = s\<lparr>core := (core s)\<lparr>mutex_locked := True\<rparr>\<rparr>"
  let ?m = "mem_write (mem (core s)) (pa + of_nat (off4 va)) (take sz val)"
  have "page_at (core s1) va pa" using R(4) page_at_cong [of "core s1" "core s"] by (simp add: s1_def)
  moreover have "geom (core s1) = geo4k" using R(1) by (simp add: s1_def)
  ultimately obtain c where t: "translate (core s1) va = Inr (Some pa, (core s1)\<lparr>cache := c\<rparr>)" "page_at ((core s1)\<lparr>cache := c\<rparr>) va pa"
    using translate_page_at by blast
  have lk: "lock (core s) = Inr (core s1)" "s\<lparr>core := core s1\<rparr> = s1" "geom_of s1 = geo4k" "memory_start (core s1) \<noteq> 0"
      "mem (core s1) = mem (core s)"
    using R(1-3) by (simp_all add: s1_def)
  have valid: "is_part_page_valid (page4 va) (of_nat (off4 va)) (of_nat sz) s1 = Inr True"
    using valid_in_block [OF _ _ assms(2,3), of va s1] R(5,6) by (simp add: s1_def)
  let ?s = "s\<lparr>core := (core s)\<lparr>cache := c, mem := ?m\<rparr>\<rparr>"
  have "int PGSIZE_4K - int (off4 va) > int sz" using assms(4) by (simp add: PGSIZE_4K_def)
  then have "put_value_4k s va val (int sz) = Inr (s1\<lparr>core := (core s1)\<lparr>cache := c, mutex_locked := False, mem := ?m\<rparr>\<rparr>)"
    using t(1) lk valid assms(5)
    by (simp add: put_value_4k_def Let_def offset_of_geo4k page_number_geo4k_0 copy_in_def release_frag_def unlock_def)
  also have "s1\<lparr>core := (core s1)\<lparr>cache := c, mutex_locked := False, mem := ?m\<rparr>\<rparr> = ?s"
    using R(2) by (simp add: s1_def)
  finally have "put_value_4k s va val (int sz) = Inr ?s" .
  moreover have "page_at (core ?s) va pa"
    using page_at_write [OF t(2), of "off4 va" "take sz val"] assms(4)
      page_at_cong [of "core ?s" "core s1\<lparr>cache := c, mem := ?m\<rparr>"] by (simp add: s1_def)
  ultimately show ?thesis using R by (intro exI [of _ ?s]) (simp add: ready_def)
qed

lemma get_in_block:
  assumes ready: "ready s va pa ns" and "b \<in> set ns" and "in_block (of_nat (off4 va)) (of_nat sz) b"
    and "off4 va + sz < 4096" and "sz \<le> length buf"
  shows "\<exists>s'. get_value_4k s va buf (int sz) = Inr (mem_read (mem (core s)) (pa + of_nat (off4 va)) sz @ drop sz buf, s')
    \<and> ready s' va pa ns \<and> mem (core s') = mem (core s)"
proof -
  have R: "geom_of s = geo4k" "\<not> mutex_locked (core s)" "memory_start (core s) \<noteq> 0" "page_at (core s) va pa"
      "page4 va < length (alloted s)" "alloted s ! page4 va = Some ns"
    using ready by (simp_all add: ready_def)
  define s1 where "s1 = s\<lparr>core := (core s)\<lparr>mutex_locked := True\<rparr>\<rparr>"
  have "page_at (core s1) va pa" using R(4) page_at_cong [of "core s1" "core s"] by (simp add: s1_def)
  moreover have "geom (core s1) = geo4k" using R(1) by (simp add: s1_def)
  ultimately obtain c where t: "translate (core s1) va = Inr (Some pa, (core s1)\<lparr>cache := c\<rparr>)" "page_at ((core s1)\<lparr>cache := c\<rparr>) va pa"
    using translate_page_at by blast
  have lk: "lock (core s) = Inr (core s1)" "s\<lparr>core := core s1\<rparr> = s1" "geom_of s1 = geo4k" "memory_start (core s1) \<noteq> 0"
      "mem (core s1) = mem (core s)"
    using R(1-3) by (simp_all add: s1_def)
  have valid: "is_part_page_valid (page4 va) (of_nat (off4 va)) (of_nat sz) s1 = Inr True"
    using valid_in_block [OF _ _ assms(2,3), of va s1] R(5,6) by (simp add: s1_def)
  have "int PGSIZE_4K - int (off4 va) > int sz" using assms(4) by (simp add: PGSIZE_4K_def)
  then have "get_value_4k s va buf (int sz) = Inr (mem_read (mem (core s)) (pa + of_nat (off4 va)) sz @ drop sz buf,
      s1\<lparr>core := (core s1)\<lparr>cache := c, mutex_locked := False\<rparr>\<rparr>)"
    using t(1) lk valid assms(5)
    by (simp add: get_value_4k_def Let_def offset_of_geo4k page_number_geo4k_0 copy_out_def splice_def release_frag_def unlock_def)
  moreover have "page_at ((core s1)\<lparr>cache := c, mutex_locked := False\<rparr>) va pa"
    using t(2) page_at_cong [of "(core s1)\<lparr>cache := c, mutex_locked := False\<rparr>" "(core s1)\<lparr>cache := c\<rparr>"] by simp
  then have "ready (s1\<lparr>core := (core s1)\<lparr>cache := c, mutex_locked := False\<rparr>\<rparr>) va pa ns"
    using R by (simp add: ready_def s1_def)
  ultimately show ?thesis using lk(5) by simp
qed

subsection \<open>Two blocks\<close>

lemma block_range:
  assumes "in_block (of_nat off) (of_nat sz) b" and "off + sz < 4096" and "0 < sz"
  shows "unat (offset_start b) \<le> off" and "off + sz \<le> Suc (unat (offset_end b))"
proof -
  have "unat (of_nat off :: 32 word) = off" "of_nat off + of_nat sz - 1 = (of_nat (off + sz - 1) :: 32 word)"
    using assms(2,3) by (simp_all add: unat_of_nat of_nat_diff)
  moreover have "unat (of_nat (off + sz - 1) :: 32 word) = off + sz - 1" using assms(2) by (simp only: unat_of_nat) simp
  ultimately have "unat (offset_start b) \<le> off" "off + sz - 1 \<le> unat (offset_end b)"
    using assms(1) by (simp_all only: in_block_def word_le_nat_alt)
  then show "unat (offset_start b) \<le> off" "off + sz \<le> Suc (unat (offset_end b))" by linarith+
qed

lemma sorted_wrt_either: "sorted_wrt P xs \<Longrightarrow> x \<in> set xs \<Longrightarrow> y \<in> set xs \<Longrightarrow> x \<noteq> y \<Longrightarrow> P x y \<or> P y x"
  by (induction xs) auto

lemma blocks_disjoint:
  assumes "blocks_ok ns" and "b \<in> set ns" "c \<in> set ns" "b \<noteq> c" and "\<not> free_status b" "\<not> free_status c"
    and "in_block (of_nat off) (of_nat sz) b" "off + sz < 4096" "0 < sz"
    and "in_block (of_nat off') (of_nat sz') c" "off' + sz' < 4096" "0 < sz'"
  shows "off + sz \<le> off' \<or> off' + sz' \<le> off"
proof -
  have "before b c \<or> before c b" using assms(1-4) sorted_wrt_either [of before ns b c] by (simp add: blocks_ok_def)
  then have "unat (offset_end b) < unat (offset_start c) \<or> unat (offset_end c) < unat (offset_start b)"
    using assms(5,6) by (auto simp: before_def word_less_nat_alt)
  with block_range [OF assms(7-9)] block_range [OF assms(10-12)] show ?thesis by linarith
qed

lemma mem_read_apart:
  assumes "off + sz \<le> off' \<or> off' + length bs \<le> off" and "off + sz < 4096" and "off' + length bs \<le> 4096"
  shows "mem_read (mem_write m (pa + of_nat off') bs) (pa + of_nat off) sz = mem_read m (pa + of_nat off) sz"
proof (rule nth_equalityI)
  fix i assume "i < length (mem_read (mem_write m (pa + of_nat off') bs) (pa + of_nat off) sz)"
  then have i: "i < sz" by simp
  have "pa + of_nat off + of_nat i = pa + of_nat (off + i)" by simp
  then show "mem_read (mem_write m (pa + of_nat off') bs) (pa + of_nat off) sz ! i = mem_read m (pa + of_nat off) sz ! i"
    using mem_write_off [of "off + i" off' bs m pa] i assms by (auto simp: mem_read_def add.assoc)
qed simp

text \<open>C19: Two programs whose blocks share a page do not disturb each other: what one writes into its block with
  \<open>put_value\<close>, it reads back with \<open>get_value\<close>, also after the other has written into a different block of that
  page, and its buffer beyond the range is unchanged.  The ranges lie in their blocks and end before the last byte of the page.\<close>

theorem shared_page_keeps_apart:
  assumes "frag_inv s" and "\<not> mutex_locked (core s)" and "memory_start (core s) \<noteq> 0"
    and "page_at (core s) va pa" and "page4 va < 262144" and "page4 va' = page4 va" and "alloted s ! page4 va = Some ns"
    and "b \<in> set ns" "c \<in> set ns" "b \<noteq> c" and "\<not> free_status b" "\<not> free_status c"
    and "in_block (of_nat (off4 va)) (of_nat sz) b" "off4 va + sz < 4096" "0 < sz"
    and "in_block (of_nat (off4 va')) (of_nat sz') c" "off4 va' + sz' < 4096" "0 < sz'"
    and "length val = sz" "length val' = sz'" "sz \<le> length buf"
  shows "\<exists>s1 s2 s3. put_value_4k s va val (int sz) = Inr s1 \<and> put_value_4k s1 va' val' (int sz') = Inr s2
    \<and> get_value_4k s2 va buf (int sz) = Inr (val @ drop sz buf, s3)"
proof -
  have "ready s va pa ns" using assms(2-5,7) frag_invD [OF assms(1)] by (simp add: ready_def)
  from put_in_block [OF this assms(8,13,14), of val] assms(19) obtain s1 where
    s1: "put_value_4k s va val (int sz) = Inr s1" "ready s1 va pa ns"
      "mem (core s1) = mem_write (mem (core s)) (pa + of_nat (off4 va)) val" by auto
  have "ready s1 va' pa ns" using s1(2) ready_same [OF assms(6)] by simp
  from put_in_block [OF this assms(9,16,17), of val'] assms(20) obtain s2 where
    s2: "put_value_4k s1 va' val' (int sz') = Inr s2" "ready s2 va' pa ns"
      "mem (core s2) = mem_write (mem (core s1)) (pa + of_nat (off4 va')) val'" by auto
  have "ready s2 va pa ns" using s2(2) ready_same [OF assms(6)] by simp
  from get_in_block [OF this assms(8,13,14,21)] obtain s3 where
    s3: "get_value_4k s2 va buf (int sz) = Inr (mem_read (mem (core s2)) (pa + of_nat (off4 va)) sz @ drop sz buf, s3)" by blast
  have "off4 va + sz \<le> off4 va' \<or> off4 va' + length val' \<le> off4 va"
    using blocks_disjoint [OF frag_invD(5) [OF assms(1,5,7)] assms(8-18)] assms(20) by simp
  then have "mem_read (mem (core s2)) (pa + of_nat (off4 va)) sz = mem_read (mem (core s1)) (pa + of_nat (off4 va)) sz"
    using assms(14,17,20) by (simp add: s2(3) mem_read_apart)
  also have "\<dots> = val" using mem_read_write_same [of val] assms(14,19) by (simp add: s1(3))
  finally show ?thesis using s1(1) s2(1) s3 by simp
qed

text \<open>A block of 100 bytes and one of 50 behind it, in the page at frame 12288, with the words 3 and 5 in front.\<close>

abbreviation next_block :: alloc_node where
  "next_block \<equiv> \<lparr>offset_start = 100, offset_end = 149, free_status = False\<rparr>"

definition two_blocks :: frag where
  "two_blocks = (let s = shared_state [hundred_bytes, next_block] 150
     in s\<lparr>core := (core s)\<lparr>mem := store32 (store32 (store32 (store32 (\<lambda>_. 0) 12292 5) 12288 3) 8192 12288) 4096 8192\<rparr>\<rparr>)"

lemma two_blocks_ok: "blocks_ok [hundred_bytes, next_block]"
  by (simp add: blocks_ok_def before_def)

lemma two_blocks_inv: "frag_inv two_blocks"
proof -
  have "frag_inv (shared_state [hundred_bytes, next_block] 150)" by (rule shared_state_inv [OF two_blocks_ok]) simp_all
  then show ?thesis by (simp add: frag_inv_def two_blocks_def Let_def)
qed

lemma two_blocks_page: "page4 va = 0 \<Longrightarrow> page_at (core two_blocks) va 12288"
proof -
  assume "page4 va = 0"
  moreover have off: "off4 0 = 0" "page4 0 = 0" by (simp_all add: off4_def page4_def)
  moreover have idx: "dir4 0 = 0" "table4 0 = 0" by (simp_all add: word_unat_eq_iff unat_dir4 unat_table4 off)
  have walk: "load32 (mem (core two_blocks)) 4096 = 8192" "load32 (mem (core two_blocks)) 8192 = 12288"
    by (simp_all add: two_blocks_def Let_def load32_def store32_def mem_write_def le_bytes32_def)
  have "4096 \<le> unat (4096 + of_nat i - 12288 :: addr)" "4096 \<le> unat (8192 + of_nat i - 12288 :: addr)" if "i < 4" for i
  proof -
    have "i \<in> {0, 1, 2, 3}" using that by auto
    then show "4096 \<le> unat (4096 + of_nat i - 12288 :: addr)" "4096 \<le> unat (8192 + of_nat i - 12288 :: addr)" by auto
  qed
  moreover have "page_dir (core two_blocks) = 4096" "tlb_store (cache (core two_blocks)) = Some empty_tlb" "chain empty_tlb = []"
    by (simp_all add: two_blocks_def Let_def shared_state_def empty_tlb_def)
  ultimately have "page_at (core two_blocks) 0 12288"
    using walk idx by (simp add: page_at_def Let_def tlb_ok_def tlb_entries_def entry_addr_def)
  then show ?thesis using page_at_same [of va 0] \<open>page4 va = 0\<close> off(2) by simp
qed

lemma two_blocks_ready: "page4 va = 0 \<Longrightarrow> ready two_blocks va 12288 [hundred_bytes, next_block]"
proof -
  assume p: "page4 va = 0"
  have "0 < length no_blocks" by simp
  then have "alloted two_blocks ! 0 = Some [hundred_bytes, next_block]" by (simp add: two_blocks_def Let_def shared_state_def)
  then show ?thesis
    using p two_blocks_page [OF p] frag_invD(1,2) [OF two_blocks_inv] by (simp add: ready_def)
      (simp add: two_blocks_def Let_def shared_state_def)
qed

theorem shared_page_keeps_apart_witness:
  "\<exists>s1 s2 s3. put_value_4k two_blocks 20 [1, 2, 3] 3 = Inr s1 \<and> put_value_4k s1 100 [9] 1 = Inr s2
    \<and> get_value_4k s2 20 [0, 0, 0, 7] 3 = Inr ([1, 2, 3, 7], s3)"
proof -
  let ?ns = "[hundred_bytes, next_block]"
  have off: "off4 20 = 20" "page4 20 = 0" "off4 100 = 100" "page4 100 = 0" by (simp_all add: off4_def page4_def)
  from shared_page_keeps_apart [OF two_blocks_inv _ _ two_blocks_page [OF off(2)], of 100 ?ns hundred_bytes next_block
      3 1 "[1, 2, 3]" "[9]" "[0, 0, 0, 7]"]
  show ?thesis
    by (simp add: off two_blocks_def Let_def shared_state_def in_block_def word_le_nat_alt)
qed

end
