(* ===== verification/Frag_Matrix.thy ===== *)
theory Frag_Matrix
  imports Frag_Blocks Vm_Matrix
begin

text \<open>
  \<open>mat_mult\<close> of \<open>Level -3/my_vm_internal_fragmentation.c\<close>, through the \<open>put_value\<close> and \<open>get_value\<close> of that variant,
  on matrices that lie in three blocks of one shared page.
\<close>

subsection \<open>Operations\<close>

primrec dot_loop_4k :: "nat \<Rightarrow> nat \<Rightarrow> addr \<Rightarrow> addr \<Rightarrow> nat \<Rightarrow> nat \<Rightarrow> nat \<Rightarrow> byte list \<Rightarrow> byte list \<Rightarrow> 32 word
    \<Rightarrow> frag \<Rightarrow> (32 word \<times> frag) result" where
  "dot_loop_4k 0 k mat1 mat2 sz i j a b c s = Inr (c, s)"
| "dot_loop_4k (Suc n) k mat1 mat2 sz i j a b c s =
     (case get_value_4k s (elem_addr mat1 sz i k) a 4 of
        Inl f \<Rightarrow> Inl f
      | Inr (a, s) \<Rightarrow>
          (case get_value_4k s (elem_addr mat2 sz k j) b 4 of
             Inl f \<Rightarrow> Inl f
           | Inr (b, s) \<Rightarrow>
               dot_loop_4k n (Suc k) mat1 mat2 sz i j a b (c + word_of_bytes a * word_of_bytes b) s))"

primrec col_loop_4k :: "nat \<Rightarrow> nat \<Rightarrow> addr \<Rightarrow> addr \<Rightarrow> addr \<Rightarrow> nat \<Rightarrow> nat \<Rightarrow> byte list \<Rightarrow> byte list
    \<Rightarrow> frag \<Rightarrow> frag result" where
  "col_loop_4k 0 j mat1 mat2 answer sz i a b s = Inr s"
| "col_loop_4k (Suc n) j mat1 mat2 answer sz i a b s =
     (case dot_loop_4k sz 0 mat1 mat2 sz i j a b 0 s of
        Inl f \<Rightarrow> Inl f
      | Inr (c, s) \<Rightarrow>
          (case put_value_4k s (elem_addr answer sz i j) (le_bytes32 c) 4 of
             Inl f \<Rightarrow> Inl f
           | Inr s \<Rightarrow> col_loop_4k n (Suc j) mat1 mat2 answer sz i a b s))"

primrec row_loop_4k :: "nat \<Rightarrow> nat \<Rightarrow> addr \<Rightarrow> addr \<Rightarrow> addr \<Rightarrow> nat \<Rightarrow> byte list \<Rightarrow> byte list \<Rightarrow> frag \<Rightarrow> frag result" where
  "row_loop_4k 0 i mat1 mat2 answer sz a b s = Inr s"
| "row_loop_4k (Suc n) i mat1 mat2 answer sz a b s =
     (case col_loop_4k sz 0 mat1 mat2 answer sz i a b s of
        Inl f \<Rightarrow> Inl f
      | Inr s \<Rightarrow> row_loop_4k n (Suc i) mat1 mat2 answer sz a b s)"

definition mat_mult_4k :: "frag \<Rightarrow> addr \<Rightarrow> addr \<Rightarrow> int \<Rightarrow> addr \<Rightarrow> byte list \<Rightarrow> byte list \<Rightarrow> frag result" where
  "mat_mult_4k s mat1 mat2 sz answer a b = row_loop_4k (nat sz) 0 mat1 mat2 answer (nat sz) a b s"

subsection \<open>Elements\<close>

text \<open>The block \<open>b\<close> of the page has room for the matrix at \<open>mat\<close>.\<close>

definition matrix_in :: "addr \<Rightarrow> alloc_node list \<Rightarrow> alloc_node \<Rightarrow> addr \<Rightarrow> nat \<Rightarrow> bool" where
  "matrix_in va ns b mat sz \<longleftrightarrow> b \<in> set ns \<and> \<not> free_status b \<and> page4 mat = page4 va
     \<and> in_block (of_nat (off4 mat)) (of_nat (4 * (sz * sz))) b \<and> off4 mat + 4 * (sz * sz) < 4096"

text \<open>The word at an offset of the frame.\<close>

definition frame_word :: "memory \<Rightarrow> addr \<Rightarrow> nat \<Rightarrow> 32 word" where
  "frame_word m pa k = word_of_bytes (mem_read m (pa + of_nat k) 4)"

lemma in_block_part:
  assumes "in_block (of_nat off) (of_nat n) b" and "off + n < 4096" and "k + 4 \<le> n"
  shows "in_block (of_nat (off + k)) (of_nat 4) b"
proof -
  have r: "unat (offset_start b) \<le> off" "off + n \<le> Suc (unat (offset_end b))"
    using block_range [OF assms(1,2)] assms(3) by simp_all
  have "of_nat (off + k) + of_nat 4 - 1 = (of_nat (off + k + 3) :: 32 word)" by simp
  moreover have "unat (of_nat (off + k + 3) :: 32 word) = off + k + 3" "unat (of_nat (off + k) :: 32 word) = off + k"
    using assms(2,3) by (simp_all only: unat_of_nat) simp_all
  ultimately show ?thesis using r assms(3) by (simp only: in_block_def word_le_nat_alt) linarith
qed

lemma elem_place:
  assumes "matrix_in va ns b mat sz" and "r < sz" and "c < sz"
  shows "page4 (elem_addr mat sz r c) = page4 va" and "off4 (elem_addr mat sz r c) = off4 mat + 4 * (r * sz + c)"
    and "in_block (of_nat (off4 mat + 4 * (r * sz + c))) (of_nat 4) b" and "off4 mat + 4 * (r * sz + c) + 4 < 4096"
proof -
  have m: "page4 mat = page4 va" "in_block (of_nat (off4 mat)) (of_nat (4 * (sz * sz))) b" "off4 mat + 4 * (sz * sz) < 4096"
    using assms(1) by (simp_all add: matrix_in_def)
  have e: "4 * (r * sz + c) + 4 \<le> 4 * (sz * sz)" by (rule elem_index [OF assms(2,3)])
  have "unat mat + 4 * (sz * sz) \<le> 2 ^ 32" using unat_split4 [of mat] page4_lt [of mat] m(3) by simp
  then have "unat (elem_addr mat sz r c) = page4 mat * 4096 + (off4 mat + 4 * (r * sz + c))"
    using unat_elem_addr [OF _ assms(2,3)] unat_split4 [of mat] by simp
  then show "page4 (elem_addr mat sz r c) = page4 va" "off4 (elem_addr mat sz r c) = off4 mat + 4 * (r * sz + c)"
    using e m by (simp_all add: page4_def [of "elem_addr mat sz r c"] off4_def [of "elem_addr mat sz r c"])
  show "in_block (of_nat (off4 mat + 4 * (r * sz + c))) (of_nat 4) b" by (rule in_block_part [OF m(2,3) e])
  show "off4 mat + 4 * (r * sz + c) + 4 < 4096" using e m(3) by linarith
qed

lemma get_elem_4k:
  assumes "ready s va pa ns" and "matrix_in va ns b mat sz" and "r < sz" "c < sz" and "length buf = 4"
  shows "\<exists>s'. get_value_4k s (elem_addr mat sz r c) buf 4
      = Inr (mem_read (mem (core s)) (pa + of_nat (off4 mat + 4 * (r * sz + c))) 4, s')
    \<and> ready s' va pa ns \<and> mem (core s') = mem (core s)"
proof -
  note e = elem_place [OF assms(2-4)]
  have "ready s (elem_addr mat sz r c) pa ns" "b \<in> set ns"
    using assms(1,2) ready_same [OF e(1)] by (simp_all add: matrix_in_def)
  from get_in_block [OF this, of 4 buf] e(2-4) assms(5) ready_same [OF e(1)] show ?thesis by simp
qed

lemma put_elem_4k:
  assumes "ready s va pa ns" and "matrix_in va ns b mat sz" and "r < sz" "c < sz"
  shows "\<exists>s'. put_value_4k s (elem_addr mat sz r c) (le_bytes32 w) 4 = Inr s' \<and> ready s' va pa ns
    \<and> mem (core s') = mem_write (mem (core s)) (pa + of_nat (off4 mat + 4 * (r * sz + c))) (le_bytes32 w)"
proof -
  note e = elem_place [OF assms(2-4)]
  have "ready s (elem_addr mat sz r c) pa ns" "b \<in> set ns"
    using assms(1,2) ready_same [OF e(1)] by (simp_all add: matrix_in_def)
  moreover have "length (le_bytes32 w) = 4" by (simp add: le_bytes32_def)
  ultimately show ?thesis using put_in_block [of s "elem_addr mat sz r c" pa ns b 4 "le_bytes32 w"] e(2-4) ready_same [OF e(1)] by simp
qed

subsection \<open>The loops\<close>

text \<open>What the loops accumulate for row \<open>i\<close> and column \<open>j\<close>, modulo \<open>2 ^ 32\<close>.\<close>

definition product_entry :: "memory \<Rightarrow> addr \<Rightarrow> nat \<Rightarrow> nat \<Rightarrow> nat \<Rightarrow> nat \<Rightarrow> nat \<Rightarrow> 32 word" where
  "product_entry m pa A B sz i j = (\<Sum>k = 0..<sz. frame_word m pa (A + 4 * (i * sz + k)) * frame_word m pa (B + 4 * (k * sz + j)))"

lemma dot_loop_4k_spec:
  assumes "matrix_in va ns b1 mat1 sz" and "matrix_in va ns b2 mat2 sz" and "i < sz" "j < sz"
    and "ready s va pa ns" and "k + n \<le> sz" and "length a = 4" "length b = 4"
  shows "\<exists>s'. dot_loop_4k n k mat1 mat2 sz i j a b c s
      = Inr (c + (\<Sum>l = k..<k + n. frame_word (mem (core s)) pa (off4 mat1 + 4 * (i * sz + l))
          * frame_word (mem (core s)) pa (off4 mat2 + 4 * (l * sz + j))), s')
    \<and> ready s' va pa ns \<and> mem (core s') = mem (core s)"
  using assms(5-8)
proof (induction n arbitrary: k a b c s)
  case (Suc n)
  let ?a = "mem_read (mem (core s)) (pa + of_nat (off4 mat1 + 4 * (i * sz + k))) 4"
  let ?b = "mem_read (mem (core s)) (pa + of_nat (off4 mat2 + 4 * (k * sz + j))) 4"
  have k: "k < sz" using Suc.prems(2) by simp
  obtain s1 where s1: "get_value_4k s (elem_addr mat1 sz i k) a 4 = Inr (?a, s1)" "ready s1 va pa ns" "mem (core s1) = mem (core s)"
    using get_elem_4k [OF Suc.prems(1) assms(1,3) k Suc.prems(3)] by blast
  obtain s2 where s2: "get_value_4k s1 (elem_addr mat2 sz k j) b 4 = Inr (?b, s2)" "ready s2 va pa ns" "mem (core s2) = mem (core s)"
    using get_elem_4k [OF s1(2) assms(2) k assms(4) Suc.prems(4)] s1(3) by auto
  have "Suc k + n \<le> sz" "length ?a = 4" "length ?b = 4" using Suc.prems(2) by simp_all
  note IH = Suc.IH [OF s2(2) this, of "c + word_of_bytes ?a * word_of_bytes ?b"]
  define f where "f l = frame_word (mem (core s)) pa (off4 mat1 + 4 * (i * sz + l))
      * frame_word (mem (core s)) pa (off4 mat2 + 4 * (l * sz + j))" for l
  have "(\<Sum>l = k..<k + Suc n. f l) = f k + (\<Sum>l = Suc k..<Suc k + n. f l)" by (simp only: add_Suc_shift sum.atLeast_Suc_lessThan)
  moreover have "f k = word_of_bytes ?a * word_of_bytes ?b" by (simp only: f_def frame_word_def)
  ultimately have "c + (\<Sum>l = k..<k + Suc n. f l) = c + word_of_bytes ?a * word_of_bytes ?b + (\<Sum>l = Suc k..<Suc k + n. f l)"
    by (simp only: add.assoc)
  moreover have "dot_loop_4k (Suc n) k mat1 mat2 sz i j a b c s
      = dot_loop_4k n (Suc k) mat1 mat2 sz i j ?a ?b (c + word_of_bytes ?a * word_of_bytes ?b) s2"
    by (simp only: dot_loop_4k.simps s1(1) s2(1) sum.case prod.case)
  ultimately show ?case using IH unfolding f_def s2(3) by (simp only:)
qed simp

definition outside_same :: "memory \<Rightarrow> memory \<Rightarrow> addr \<Rightarrow> nat \<Rightarrow> nat \<Rightarrow> bool" where
  "outside_same m m' pa off n \<longleftrightarrow> (\<forall>x. unat (x - pa) < off \<or> off + n \<le> unat (x - pa) \<longrightarrow> m' x = m x)"

lemma frame_word_cong:
  assumes "\<And>x. k \<le> x \<Longrightarrow> x < k + 4 \<Longrightarrow> m' (pa + of_nat x) = m (pa + of_nat x)"
  shows "frame_word m' pa k = frame_word m pa k"
proof -
  have "m' (pa + of_nat k + of_nat i) = m (pa + of_nat k + of_nat i)" if "i < 4" for i
    using assms [of "k + i"] that by (simp add: add.assoc)
  then have "mem_read m' (pa + of_nat k) 4 = mem_read m (pa + of_nat k) 4" by (simp add: mem_read_def)
  then show ?thesis by (simp add: frame_word_def)
qed

lemma frame_word_write:
  assumes "k + 4 \<le> l \<or> l + 4 \<le> k" and "k + 4 < 4096" and "l + 4 < 4096"
  shows "frame_word (mem_write m (pa + of_nat l) (le_bytes32 w)) pa k = frame_word m pa k"
  using assms by (intro frame_word_cong) (auto simp: mem_write_off le_bytes32_def)

lemma frame_word_same: "frame_word (mem_write m (pa + of_nat l) (le_bytes32 w)) pa l = w"
proof -
  have "length (le_bytes32 w) = 4" by (simp add: le_bytes32_def)
  then have "mem_read (mem_write m (pa + of_nat l) (le_bytes32 w)) (pa + of_nat l) 4 = le_bytes32 w"
    using mem_read_write_same [of "le_bytes32 w"] by simp
  then show ?thesis by (simp add: frame_word_def)
qed

text \<open>The product of matrices in blocks other than that of the answer does not see what is written to the answer.\<close>

lemma product_entry_outside:
  assumes "outside_same m m' pa (off4 answer) (4 * (sz * sz))"
    and "matrix_in va ns b1 mat1 sz" "matrix_in va ns b2 mat2 sz" "matrix_in va ns b3 answer sz"
    and "blocks_ok ns" "b1 \<noteq> b3" "b2 \<noteq> b3" and "i < sz" "j < sz"
  shows "product_entry m' pa (off4 mat1) (off4 mat2) sz i j = product_entry m pa (off4 mat1) (off4 mat2) sz i j"
proof -
  have pos: "0 < 4 * (sz * sz)" using assms(8) by simp
  have word: "frame_word m' pa (off4 mat + 4 * (r * sz + c)) = frame_word m pa (off4 mat + 4 * (r * sz + c))"
    if "matrix_in va ns b mat sz" "b \<noteq> b3" "r < sz" "c < sz" for b mat r c
  proof (rule frame_word_cong)
    fix x
    assume x: "off4 mat + 4 * (r * sz + c) \<le> x" "x < off4 mat + 4 * (r * sz + c) + 4"
    have "off4 mat + 4 * (sz * sz) \<le> off4 answer \<or> off4 answer + 4 * (sz * sz) \<le> off4 mat"
      using that(1,2) assms(4) pos
      by (intro blocks_disjoint [OF assms(5), of b b3]) (simp_all add: matrix_in_def)
    moreover have "4 * (r * sz + c) + 4 \<le> 4 * (sz * sz)" by (rule elem_index [OF that(3,4)])
    moreover have "off4 mat + 4 * (sz * sz) < 4096" using that(1) by (simp add: matrix_in_def)
    ultimately have "x < 4096" "x < off4 answer \<or> off4 answer + 4 * (sz * sz) \<le> x" using x by linarith+
    moreover from this(1) have "unat (pa + of_nat x - pa) = x" by (simp add: unat_of_nat)
    ultimately show "m' (pa + of_nat x) = m (pa + of_nat x)" using assms(1) unfolding outside_same_def by metis
  qed
  show ?thesis unfolding product_entry_def using word assms by (intro sum.cong refl) auto
qed

text \<open>The entries before position \<open>N\<close> of the answer, row by row, are stored, and nothing else has changed.\<close>

definition stored :: "memory \<Rightarrow> memory \<Rightarrow> addr \<Rightarrow> addr \<Rightarrow> addr \<Rightarrow> addr \<Rightarrow> nat \<Rightarrow> nat \<Rightarrow> bool" where
  "stored m m' pa mat1 mat2 answer sz N \<longleftrightarrow> outside_same m m' pa (off4 answer) (4 * (sz * sz))
     \<and> (\<forall>i < sz. \<forall>j < sz. i * sz + j < N \<longrightarrow>
          frame_word m' pa (off4 answer + 4 * (i * sz + j)) = product_entry m pa (off4 mat1) (off4 mat2) sz i j)"

lemma position_inj: "i * sz + j = i' * sz + j' \<Longrightarrow> j < sz \<Longrightarrow> j' < sz \<Longrightarrow> i = i' \<and> j = (j' :: nat)"
proof -
  assume e: "i * sz + j = i' * sz + j'" "j < sz" "j' < sz"
  have "(i * sz + j) div sz = i" "(i' * sz + j') div sz = i'" "(i * sz + j) mod sz = j" "(i' * sz + j') mod sz = j'"
    using e(2,3) by simp_all
  then show ?thesis using e(1) by metis
qed

lemma stored_next:
  assumes "stored m m' pa mat1 mat2 answer sz (i * sz + j)" and "matrix_in va ns b answer sz" and "i < sz" "j < sz"
  shows "stored m (mem_write m' (pa + of_nat (off4 answer + 4 * (i * sz + j))) (le_bytes32 (product_entry m pa (off4 mat1) (off4 mat2) sz i j)))
    pa mat1 mat2 answer sz (Suc (i * sz + j))"
proof -
  let ?o = "off4 answer + 4 * (i * sz + j)" and ?w = "product_entry m pa (off4 mat1) (off4 mat2) sz i j"
  let ?m = "mem_write m' (pa + of_nat ?o) (le_bytes32 ?w)"
  have e: "4 * (i * sz + j) + 4 \<le> 4 * (sz * sz)" by (rule elem_index [OF assms(3,4)])
  have room: "?o + 4 < 4096" by (rule elem_place(4) [OF assms(2-4)])
  have len: "length (le_bytes32 ?w) = 4" by (simp add: le_bytes32_def)
  have "?m x = m x" if "unat (x - pa) < off4 answer \<or> off4 answer + 4 * (sz * sz) \<le> unat (x - pa)" for x
  proof -
    have "unat (x - pa) < ?o \<or> ?o + length (le_bytes32 ?w) \<le> unat (x - pa)" using that e len by linarith
    then have "?m x = m' x" using room len by (intro write_elsewhere) simp_all
    then show ?thesis using assms(1) that unfolding stored_def outside_same_def by metis
  qed
  moreover have "frame_word ?m pa (off4 answer + 4 * (i' * sz + j')) = product_entry m pa (off4 mat1) (off4 mat2) sz i' j'"
    if ij: "i' < sz" "j' < sz" "i' * sz + j' < Suc (i * sz + j)" for i' j'
  proof (cases "i' * sz + j' = i * sz + j")
    case True
    then have "i' = i" "j' = j" using position_inj [OF True ij(2) assms(4)] by simp_all
    then show ?thesis by (simp only: frame_word_same)
  next
    case False
    then have lt: "i' * sz + j' < i * sz + j" using ij(3) by linarith
    have "frame_word ?m pa (off4 answer + 4 * (i' * sz + j')) = frame_word m' pa (off4 answer + 4 * (i' * sz + j'))"
    proof (intro frame_word_write disjI1)
      have "4 * (i' * sz + j') + 4 \<le> 4 * (i * sz + j)" using lt unfolding four_less .
      then show "off4 answer + 4 * (i' * sz + j') + 4 \<le> ?o" by (simp only: add.assoc add_le_cancel_left)
      then show "off4 answer + 4 * (i' * sz + j') + 4 < 4096" using room by (rule le_less_trans [OF _ le_less_trans [OF le_add1]])
    qed (rule room)
    then show ?thesis using assms(1) ij(1,2) lt by (simp only: stored_def)
  qed
  ultimately show ?thesis unfolding stored_def outside_same_def by blast
qed

text \<open>Three matrices in blocks of one page, the answer in a block of its own.\<close>

definition operands :: "addr \<Rightarrow> alloc_node list \<Rightarrow> addr \<Rightarrow> addr \<Rightarrow> addr \<Rightarrow> nat \<Rightarrow> bool" where
  "operands va ns mat1 mat2 answer sz \<longleftrightarrow> blocks_ok ns \<and> (\<exists>b1 b2 b3. matrix_in va ns b1 mat1 sz \<and> matrix_in va ns b2 mat2 sz
     \<and> matrix_in va ns b3 answer sz \<and> b1 \<noteq> b3 \<and> b2 \<noteq> b3)"

lemma col_loop_4k_spec:
  assumes "operands va ns mat1 mat2 answer sz" and "length a = 4" "length b = 4" and "i < sz"
    and "ready s va pa ns" and "stored m (mem (core s)) pa mat1 mat2 answer sz (i * sz + j)" and "j + n = sz"
  shows "\<exists>s'. col_loop_4k n j mat1 mat2 answer sz i a b s = Inr s' \<and> ready s' va pa ns
    \<and> stored m (mem (core s')) pa mat1 mat2 answer sz (Suc i * sz)"
  using assms(5-7)
proof (induction n arbitrary: j s)
  case 0
  then show ?case by (simp add: add.commute)
next
  case (Suc n)
  obtain b1 b2 b3 where M: "blocks_ok ns" "matrix_in va ns b1 mat1 sz" "matrix_in va ns b2 mat2 sz" "matrix_in va ns b3 answer sz"
      "b1 \<noteq> b3" "b2 \<noteq> b3" using assms(1) by (auto simp: operands_def)
  have j: "j < sz" "0 + sz \<le> sz" using Suc.prems(3) by simp_all
  let ?w = "product_entry m pa (off4 mat1) (off4 mat2) sz i j"
  have "outside_same m (mem (core s)) pa (off4 answer) (4 * (sz * sz))" using Suc.prems(2) by (simp add: stored_def)
  note same = product_entry_outside [OF this M(2-4,1,5,6) assms(4) j(1)]
  obtain s1 where s1: "dot_loop_4k sz 0 mat1 mat2 sz i j a b 0 s = Inr (?w, s1)" "ready s1 va pa ns" "mem (core s1) = mem (core s)"
    using dot_loop_4k_spec [OF M(2,3) assms(4) j(1) Suc.prems(1) j(2) assms(2,3), of 0] same
    by (auto simp: product_entry_def)
  obtain s2 where s2: "put_value_4k s1 (elem_addr answer sz i j) (le_bytes32 ?w) 4 = Inr s2" "ready s2 va pa ns"
      "mem (core s2) = mem_write (mem (core s1)) (pa + of_nat (off4 answer + 4 * (i * sz + j))) (le_bytes32 ?w)"
    using put_elem_4k [OF s1(2) M(4) assms(4) j(1)] by blast
  have "stored m (mem (core s2)) pa mat1 mat2 answer sz (i * sz + Suc j)"
    using stored_next [OF Suc.prems(2) M(4) assms(4) j(1)] s1(3) s2(3) by simp
  from Suc.IH [OF s2(2) this] Suc.prems(3) s1(1) s2(1) show ?case by simp
qed

lemma row_loop_4k_spec:
  assumes "operands va ns mat1 mat2 answer sz" and "length a = 4" "length b = 4"
    and "ready s va pa ns" and "stored m (mem (core s)) pa mat1 mat2 answer sz (i * sz)" and "i + n = sz"
  shows "\<exists>s'. row_loop_4k n i mat1 mat2 answer sz a b s = Inr s' \<and> ready s' va pa ns
    \<and> stored m (mem (core s')) pa mat1 mat2 answer sz (sz * sz)"
  using assms(4-6)
proof (induction n arbitrary: i s)
  case (Suc n)
  have i: "i < sz" using Suc.prems(3) by simp
  obtain s1 where s1: "col_loop_4k sz 0 mat1 mat2 answer sz i a b s = Inr s1" "ready s1 va pa ns"
      "stored m (mem (core s1)) pa mat1 mat2 answer sz (Suc i * sz)"
    using col_loop_4k_spec [OF assms(1-3) i Suc.prems(1), of m 0 sz] Suc.prems(2) by auto
  from Suc.IH [OF s1(2,3)] Suc.prems(3) s1(1) show ?case by simp
qed auto

text \<open>C21: \<open>mat_mult\<close> on matrices in blocks of one shared page returns, stores the product modulo \<open>2^32\<close> in
  the answer, and changes no other byte of the memory: neither the factors nor any other block of the page.\<close>

theorem mat_mult_4k_product:
  assumes "ready s va pa ns" and "operands va ns mat1 mat2 answer sz" and "length a = 4" and "length b = 4"
  shows "\<exists>s'. mat_mult_4k s mat1 mat2 (int sz) answer a b = Inr s'
    \<and> (\<forall>i < sz. \<forall>j < sz. frame_word (mem (core s')) pa (off4 answer + 4 * (i * sz + j))
          = product_entry (mem (core s)) pa (off4 mat1) (off4 mat2) sz i j)
    \<and> outside_same (mem (core s)) (mem (core s')) pa (off4 answer) (4 * (sz * sz))"
proof -
  have "stored (mem (core s)) (mem (core s)) pa mat1 mat2 answer sz (0 * sz)" by (simp add: stored_def outside_same_def)
  from row_loop_4k_spec [OF assms(2-4,1) this, of sz] obtain s' where
    s': "row_loop_4k sz 0 mat1 mat2 answer sz a b s = Inr s'" "stored (mem (core s)) (mem (core s')) pa mat1 mat2 answer sz (sz * sz)"
    by auto
  have "i * sz + j < sz * sz" if "i < sz" "j < sz" for i j
    using elem_index [OF that] unfolding four_less .
  then show ?thesis using s' by (auto simp: mat_mult_4k_def stored_def)
qed

text \<open>Matrices of one word at the bytes 0, 4 and 100 of a page.\<close>

theorem mat_mult_4k_product_witness:
  "\<exists>s'. mat_mult_4k two_blocks 0 4 1 100 [0, 0, 0, 0] [0, 0, 0, 0] = Inr s' \<and> frame_word (mem (core s')) 12288 100 = 15"
proof -
  let ?ns = "[hundred_bytes, next_block]"
  have off: "off4 0 = 0" "page4 0 = 0" "off4 4 = 4" "page4 4 = 0" "off4 100 = 100" "page4 100 = 0"
    by (simp_all add: off4_def page4_def)
  have "matrix_in 0 ?ns hundred_bytes 0 1" "matrix_in 0 ?ns hundred_bytes 4 1" "matrix_in 0 ?ns next_block 100 1"
    by (simp_all add: matrix_in_def off in_block_def word_le_nat_alt)
  moreover have "hundred_bytes \<noteq> next_block" by simp
  ultimately have "operands 0 ?ns 0 4 100 1" using two_blocks_ok unfolding operands_def by metis
  from mat_mult_4k_product [OF two_blocks_ready [OF off(2)] this, of "[0, 0, 0, 0]" "[0, 0, 0, 0]"] obtain s' where
    s': "mat_mult_4k two_blocks 0 4 1 100 [0, 0, 0, 0] [0, 0, 0, 0] = Inr s'"
      "frame_word (mem (core s')) 12288 100 = product_entry (mem (core two_blocks)) 12288 0 4 1 0 0"
    by (auto simp: off)
  have "product_entry (mem (core two_blocks)) 12288 0 4 1 0 0 = 15"
    by (simp add: product_entry_def frame_word_def two_blocks_def Let_def store32_def mem_write_def le_bytes32_def
        mem_read_def upt_rec word_of_bytes_def)
  then show ?thesis using s' by auto
qed

end
