(* ===== verification/Wk_Queue.thy ===== *)
theory Wk_Queue
  imports Prelude
begin

text \<open>
  The queues of the thread library (\<open>Level - 2/worker.c\<close>): singly linked lists of nodes on the
  heap, with pointers to the first and the last node.  A pointer is a number, \<open>NULL\<close> is None, and
  the heap maps every address to a node; the walks along the list are loops that do not end on
  a cyclic list.

  The lemmas relate a queue to the list of its nodes: \<open>enqueue\<close> appends, \<open>pop_from_queue\<close> takes
  the first node, and \<open>delete_from_queue\<close> removes a node, except that removing the first of
  several nodes drops all the others as well.
\<close>

subsection \<open>Structures\<close>

type_synonym ptr = nat

record node =
  node_tcb :: ptr
  next_node :: "ptr option"

type_synonym node_heap = "ptr \<Rightarrow> node"

record queue =
  head :: "ptr option"
  tail :: "ptr option"

definition set_next :: "ptr \<Rightarrow> ptr option \<Rightarrow> node_heap \<Rightarrow> node_heap" where
  "set_next p q h = h(p := (h p)\<lparr>next_node := q\<rparr>)"

subsection \<open>Operations\<close>

text \<open>The last node of the list from \<open>p\<close>; None when the walk does not end.\<close>

partial_function (option) last_node :: "node_heap \<Rightarrow> ptr \<Rightarrow> ptr option" where
  "last_node h p = (case next_node (h p) of None \<Rightarrow> Some p | Some q \<Rightarrow> last_node h q)"

definition enqueue :: "queue \<Rightarrow> ptr \<Rightarrow> node_heap \<Rightarrow> (queue \<times> node_heap) result" where
  "enqueue q n h =
     (case head q of
        None \<Rightarrow> Inr (q\<lparr>head := Some n, tail := Some n\<rparr>, h)
      | Some p \<Rightarrow>
          (case (case tail q of None \<Rightarrow> last_node h p | Some t \<Rightarrow> Some t) of
             None \<Rightarrow> Inl Diverges
           | Some t \<Rightarrow> Inr (q\<lparr>tail := Some n\<rparr>, set_next t (Some n) h)))"

definition pop_from_queue :: "queue \<Rightarrow> node_heap \<Rightarrow> ptr option \<times> queue \<times> node_heap" where
  "pop_from_queue q h =
     (case head q of
        None \<Rightarrow> (None, q, h)
      | Some p \<Rightarrow>
          let temp = next_node (h p);
              h = set_next p None h
          in if head q = tail q then (Some p, q\<lparr>head := None, tail := None\<rparr>, h)
             else (Some p, q\<lparr>head := temp\<rparr>, h))"

text \<open>The walk of \<open>delete_from_queue\<close> and \<open>find_thread\<close>: the node of the thread and the one before
  it.  The thread control blocks are only looked at for their ids.\<close>

partial_function (option) find_node :: "(ptr \<Rightarrow> 32 word) \<Rightarrow> 32 word \<Rightarrow> node_heap \<Rightarrow> ptr option \<Rightarrow> ptr option
    \<Rightarrow> (ptr option \<times> ptr option) option" where
  "find_node ids thread_id h prev cur =
     (case cur of
        None \<Rightarrow> Some (prev, None)
      | Some p \<Rightarrow>
          if ids (node_tcb (h p)) = thread_id then Some (prev, Some p)
          else find_node ids thread_id h (Some p) (next_node (h p)))"

definition delete_from_queue :: "(ptr \<Rightarrow> 32 word) \<Rightarrow> queue \<Rightarrow> 32 word \<Rightarrow> node_heap
    \<Rightarrow> (ptr option \<times> queue \<times> node_heap) result" where
  "delete_from_queue ids q thread_id h =
     (case find_node ids thread_id h None (head q) of
        None \<Rightarrow> Inl Diverges
      | Some (prev, None) \<Rightarrow> Inr (None, q, h)
      | Some (prev, Some p) \<Rightarrow>
          let temp = next_node (h p);
              h = set_next p None h
          in if head q = Some p
             then if head q = tail q then Inr (Some p, q\<lparr>head := None, tail := None\<rparr>, h)
                  else Inr (Some p, q\<lparr>head := next_node (h p)\<rparr>, h)
             else case prev of
                 None \<Rightarrow> Inl NullDeref
               | Some b \<Rightarrow>
                   if tail q = Some p then Inr (Some p, q\<lparr>tail := prev\<rparr>, set_next b None h)
                   else Inr (Some p, q, set_next b temp h))"

definition find_thread :: "(ptr \<Rightarrow> 32 word) \<Rightarrow> queue \<Rightarrow> 32 word \<Rightarrow> node_heap \<Rightarrow> ptr option result" where
  "find_thread ids q thread_id h =
     (case find_node ids thread_id h None (head q) of
        None \<Rightarrow> Inl Diverges
      | Some (prev, r) \<Rightarrow> Inr (map_option (\<lambda>p. node_tcb (h p)) r))"

definition empty_queue :: "queue \<Rightarrow> queue" where
  "empty_queue q = q\<lparr>head := None, tail := None\<rparr>"

subsection \<open>Linked lists\<close>

lemma next_set_next [simp]: "next_node (set_next p q h x) = (if x = p then q else next_node (h x))"
  by (simp add: set_next_def)

lemma tcb_set_next [simp]: "node_tcb (set_next p q h x) = node_tcb (h x)"
  by (simp add: set_next_def)

text \<open>The nodes from \<open>p\<close> on are \<open>xs\<close>, and the last of them points to \<open>e\<close>.\<close>

primrec chain :: "node_heap \<Rightarrow> ptr option \<Rightarrow> ptr list \<Rightarrow> ptr option \<Rightarrow> bool" where
  "chain h p [] e \<longleftrightarrow> p = e"
| "chain h p (x # xs) e \<longleftrightarrow> p = Some x \<and> chain h (next_node (h x)) xs e"

lemma chain_append: "chain h p (xs @ ys) e \<longleftrightarrow> (\<exists>q. chain h p xs q \<and> chain h q ys e)"
  by (induction xs arbitrary: p) auto

lemma chain_frame:
  "(\<And>x. x \<in> set xs \<Longrightarrow> next_node (h' x) = next_node (h x)) \<Longrightarrow> chain h' p xs e = chain h p xs e"
  by (induction xs arbitrary: p) auto

lemma chain_set_next [simp]: "x \<notin> set xs \<Longrightarrow> chain (set_next x q h) p xs e = chain h p xs e"
  by (rule chain_frame) auto

lemma chain_unique: "chain h p xs None \<Longrightarrow> chain h p ys None \<Longrightarrow> xs = ys"
proof (induction xs arbitrary: p ys)
  case Nil
  then show ?case by (cases ys) simp_all
next
  case (Cons x xs)
  then show ?case by (cases ys) auto
qed

text \<open>A queue holds the nodes \<open>xs\<close>.  A nonempty queue may lack its tail pointer; the pointer of an empty one is
  never looked at.\<close>

definition holds :: "node_heap \<Rightarrow> queue \<Rightarrow> ptr list \<Rightarrow> bool" where
  "holds h q xs \<longleftrightarrow> chain h (head q) xs None \<and> distinct xs
     \<and> (xs \<noteq> [] \<longrightarrow> tail q = None \<or> tail q = Some (last xs))"

lemma holds_head: "holds h q xs \<Longrightarrow> head q = (case xs of [] \<Rightarrow> None | x # _ \<Rightarrow> Some x)"
  by (cases xs) (simp_all add: holds_def)

lemma last_node_chain: "chain h (Some x) xs None \<Longrightarrow> last_node h x = Some (last xs)"
proof (induction xs arbitrary: x)
  case (Cons y ys)
  then show ?case by (cases ys) (simp_all add: last_node.simps)
qed simp

lemma chain_snoc:
  assumes "chain h p xs None" and "xs \<noteq> []" and "distinct xs" and "n \<notin> set xs" and "next_node (h n) = None"
  shows "chain (set_next (last xs) (Some n) h) p (xs @ [n]) None"
proof -
  obtain ys y where xs: "xs = ys @ [y]" using assms(2) by (metis append_butlast_last_id)
  then have "y \<notin> set ys" "y \<noteq> n" using assms(3,4) by auto
  then show ?thesis using assms(1,5) by (auto simp: xs chain_append)
qed

lemma enqueue_holds:
  assumes "holds h q xs" and "n \<notin> set xs" and "next_node (h n) = None"
  shows "\<exists>q' h'. enqueue q n h = Inr (q', h') \<and> holds h' q' (xs @ [n]) \<and> (\<forall>x. node_tcb (h' x) = node_tcb (h x))
    \<and> (\<forall>x. x \<notin> set xs \<longrightarrow> next_node (h' x) = next_node (h x))"
proof (cases xs)
  case Nil
  then show ?thesis using assms holds_head [OF assms(1)] by (simp add: enqueue_def holds_def)
next
  case (Cons x ys)
  have c: "chain h (head q) xs None" "distinct xs" "tail q = None \<or> tail q = Some (last xs)"
    using assms(1) Cons by (simp_all add: holds_def)
  have first: "head q = Some x" using holds_head [OF assms(1)] Cons by simp
  then have "last_node h x = Some (last xs)" using c(1) by (intro last_node_chain) simp
  then have "enqueue q n h = Inr (q\<lparr>tail := Some n\<rparr>, set_next (last xs) (Some n) h)"
    using c(3) first by (auto simp: enqueue_def)
  moreover have "chain (set_next (last xs) (Some n) h) (head q) (xs @ [n]) None"
    using c(1,2) assms(2,3) Cons by (intro chain_snoc) simp_all
  moreover have "last xs \<in> set xs" using Cons by simp
  ultimately show ?thesis using c(2) assms(2) by (auto simp: holds_def)
qed

lemma pop_holds:
  assumes "holds h q xs"
  shows "case xs of [] \<Rightarrow> pop_from_queue q h = (None, q, h)
    | x # ys \<Rightarrow> \<exists>q' h'. pop_from_queue q h = (Some x, q', h') \<and> holds h' q' ys \<and> next_node (h' x) = None
        \<and> (\<forall>y. node_tcb (h' y) = node_tcb (h y)) \<and> (\<forall>y. y \<noteq> x \<longrightarrow> next_node (h' y) = next_node (h y))"
proof (cases xs)
  case Nil
  then show ?thesis using holds_head [OF assms] by (simp add: pop_from_queue_def)
next
  case (Cons x ys)
  have c: "chain h (next_node (h x)) ys None" "x \<notin> set ys" "distinct ys" "tail q = None \<or> tail q = Some (last (x # ys))"
    using assms Cons by (simp_all add: holds_def)
  have first: "head q = Some x" using holds_head [OF assms] Cons by simp
  show ?thesis
  proof (cases "head q = tail q")
    case True
    then have "last (x # ys) = x" using c(4) first by auto
    then have "ys = []" using c(2) by (metis last_ConsR last_in_set)
    moreover have "tail q = Some x" using True first by simp
    ultimately show ?thesis using first Cons by (simp add: pop_from_queue_def Let_def holds_def)
  next
    case False
    then show ?thesis using c first Cons by (auto simp: pop_from_queue_def Let_def holds_def split: if_splits)
  qed
qed

subsection \<open>Looking a thread up\<close>

text \<open>The first node of a list that carries the thread.\<close>

definition carries :: "(ptr \<Rightarrow> 32 word) \<Rightarrow> 32 word \<Rightarrow> node_heap \<Rightarrow> ptr \<Rightarrow> bool" where
  "carries ids i h x \<longleftrightarrow> ids (node_tcb (h x)) = i"

lemma find_node_absent:
  "chain h p xs None \<Longrightarrow> \<forall>x \<in> set xs. \<not> carries ids i h x \<Longrightarrow> \<exists>prev'. find_node ids i h prev p = Some (prev', None)"
  by (induction xs arbitrary: p prev) (simp_all add: find_node.simps carries_def)

lemma find_node_present:
  assumes "chain h p (us @ x # vs) None" and "\<forall>u \<in> set us. \<not> carries ids i h u" and "carries ids i h x"
  shows "find_node ids i h prev p = Some (if us = [] then prev else Some (last us), Some x)"
  using assms
proof (induction us arbitrary: p prev)
  case Nil
  then show ?case by (simp add: find_node.simps carries_def)
next
  case (Cons u us)
  have "find_node ids i h prev p = find_node ids i h (Some u) (next_node (h u))"
    using Cons.prems by (subst find_node.simps) (simp add: carries_def)
  then show ?case using Cons by simp
qed

lemma find_thread_holds:
  assumes "holds h q xs"
  shows "\<exists>r. find_thread ids q i h = Inr r \<and> (r = None \<longleftrightarrow> (\<forall>x \<in> set xs. \<not> carries ids i h x))
    \<and> (\<forall>t. r = Some t \<longrightarrow> ids t = i \<and> (\<exists>x \<in> set xs. t = node_tcb (h x)))"
proof (cases "\<forall>x \<in> set xs. \<not> carries ids i h x")
  case True
  then show ?thesis using find_node_absent [of h "head q" xs ids i None] assms by (auto simp: find_thread_def holds_def)
next
  case False
  then obtain us x vs where xs: "xs = us @ x # vs" "carries ids i h x" "\<forall>u \<in> set us. \<not> carries ids i h u"
    using split_list_first_prop [of xs "carries ids i h"] by auto
  then have "find_thread ids q i h = Inr (Some (node_tcb (h x)))"
    using find_node_present [of h "head q" us x vs ids i None] assms by (simp add: find_thread_def holds_def)
  then show ?thesis using False xs(1,2) by (auto simp: carries_def)
qed

subsection \<open>Deleting a node\<close>

lemma delete_absent:
  assumes "holds h q xs" and "\<forall>x \<in> set xs. \<not> carries ids i h x"
  shows "delete_from_queue ids q i h = Inr (None, q, h)"
  using find_node_absent [of h "head q" xs ids i None] assms by (auto simp: delete_from_queue_def holds_def)

text \<open>The first node of several: the head pointer is read from the node after its link was cut.\<close>

lemma delete_first:
  assumes "holds h q (x # vs)" and "carries ids i h x"
  shows "\<exists>q'. delete_from_queue ids q i h = Inr (Some x, q', set_next x None h) \<and> holds (set_next x None h) q' []"
proof -
  have "find_node ids i h None (head q) = Some (None, Some x)" "head q = Some x"
    using find_node_present [of h "head q" "[]" x vs ids i None] assms by (simp_all add: holds_def)
  then show ?thesis by (auto simp: delete_from_queue_def Let_def holds_def)
qed

lemma delete_later:
  assumes q: "holds h q (us @ x # vs)" and us: "us \<noteq> []" "\<forall>u \<in> set us. \<not> carries ids i h u" and x: "carries ids i h x"
  shows "\<exists>q' h'. delete_from_queue ids q i h = Inr (Some x, q', h') \<and> holds h' q' (us @ vs) \<and> next_node (h' x) = None"
proof -
  let ?b = "last us"
  have c: "chain h (head q) (us @ x # vs) None" "distinct (us @ x # vs)" "tail q = None \<or> tail q = Some (last (x # vs))"
    using q by (simp_all add: holds_def)
  obtain ws where ws: "us = ws @ [?b]" using us(1) by (metis append_butlast_last_id)
  have b: "?b \<notin> set ws" "?b \<noteq> x" "?b \<notin> set vs" "x \<notin> set ws" "x \<notin> set vs"
    using c(2) by (subst (asm) ws, simp)+
  have find: "find_node ids i h None (head q) = Some (Some ?b, Some x)"
    using find_node_present [OF c(1) us(2) x] us(1) by simp
  have first: "head q \<noteq> Some x"
    using c(1,2) us(1) by (cases us) auto
  have cws: "chain h (head q) ws (Some ?b)" "next_node (h ?b) = Some x" "chain h (next_node (h x)) vs None"
    using c(1) by (subst (asm) ws, auto simp: chain_append)+
  let ?h = "set_next ?b (next_node (h x)) (set_next x None h)"
  have "chain ?h (head q) (ws @ ?b # vs) None"
    using cws b by (simp add: chain_append)
  then have new: "chain ?h (head q) (us @ vs) None" using ws by (metis append_Cons append_assoc append_self_conv2)
  show ?thesis
  proof (cases "tail q = Some x")
    case True
    then have "last (x # vs) = x" using c(3) by auto
    then have vs: "vs = []" using b(5) by (metis last_ConsR last_in_set)
    then have "next_node (h x) = None" using cws(3) by simp
    then have "delete_from_queue ids q i h = Inr (Some x, q\<lparr>tail := Some ?b\<rparr>, ?h)"
      using find first True by (simp add: delete_from_queue_def Let_def)
    moreover have "holds ?h (q\<lparr>tail := Some ?b\<rparr>) (us @ vs)" using new vs c(2) by (simp add: holds_def)
    ultimately show ?thesis using b(2) by auto
  next
    case False
    then have "delete_from_queue ids q i h = Inr (Some x, q, ?h)"
      using find first by (simp add: delete_from_queue_def Let_def)
    moreover have "tail q = None \<or> tail q = Some (last (us @ vs))" using c(3) False by (cases vs) auto
    then have "holds ?h q (us @ vs)" using new c(2) by (auto simp: holds_def)
    ultimately show ?thesis using b(2) by auto
  qed
qed

text \<open>C32: \<open>delete_from_queue\<close> hands out the first node that carries the thread and unlinks it; the queue
  keeps the other nodes in their order when the node was not the first one, but when it was,
  all the nodes behind it are lost and the queue is empty.\<close>

theorem delete_from_queue_drops:
  assumes "holds h q (us @ x # vs)" and "\<forall>u \<in> set us. \<not> carries ids i h u" and "carries ids i h x"
  shows "\<exists>q' h'. delete_from_queue ids q i h = Inr (Some x, q', h') \<and> next_node (h' x) = None
    \<and> holds h' q' (if us = [] then [] else us @ vs)"
proof (cases "us = []")
  case True
  then show ?thesis using delete_first [of h q x vs] assms(1,3) by fastforce
next
  case False
  then show ?thesis using delete_later [OF assms(1) _ assms(2,3)] by auto
qed

theorem delete_from_queue_drops_witness:
  "\<exists>q' h'. delete_from_queue (\<lambda>t. of_nat t) \<lparr>head = Some 10, tail = Some 12\<rparr> 1
      ((\<lambda>_. \<lparr>node_tcb = 0, next_node = None\<rparr>)(10 := \<lparr>node_tcb = 1, next_node = Some 11\<rparr>,
         11 := \<lparr>node_tcb = 2, next_node = Some 12\<rparr>, 12 := \<lparr>node_tcb = 3, next_node = None\<rparr>)) = Inr (Some 10, q', h')
    \<and> holds h' q' []"
proof -
  let ?h = "(\<lambda>_. \<lparr>node_tcb = 0, next_node = None\<rparr>)(10 := \<lparr>node_tcb = 1, next_node = Some 11\<rparr>,
         11 := \<lparr>node_tcb = 2, next_node = Some 12\<rparr>, 12 := \<lparr>node_tcb = 3, next_node = None\<rparr>)"
  have q: "holds ?h \<lparr>head = Some 10, tail = Some 12\<rparr> ([] @ 10 # [11, 12])" by (simp add: holds_def)
  have c: "carries (\<lambda>t. of_nat t) 1 ?h 10" by (simp add: carries_def)
  have n: "\<forall>u \<in> set []. \<not> carries (\<lambda>t. of_nat t) 1 ?h u" by simp
  show ?thesis using delete_from_queue_drops [OF q n c] by (simp only: simp_thms if_True) blast
qed

subsection \<open>A first-in first-out queue\<close>

text \<open>What the schedulers rely on: a queue of nodes whose labels nothing changes.\<close>

locale fifo_queue =
  fixes repr :: "'h \<Rightarrow> 'q \<Rightarrow> ptr list \<Rightarrow> bool"
    and enq :: "'q \<Rightarrow> ptr \<Rightarrow> 'h \<Rightarrow> ('q \<times> 'h) result"
    and deq :: "'q \<Rightarrow> 'h \<Rightarrow> ptr option \<times> 'q \<times> 'h"
    and loose :: "'h \<Rightarrow> ptr \<Rightarrow> bool"
    and label :: "'h \<Rightarrow> ptr \<Rightarrow> ptr"
  assumes enq_snoc: "repr h q xs \<Longrightarrow> n \<notin> set xs \<Longrightarrow> loose h n
      \<Longrightarrow> \<exists>q' h'. enq q n h = Inr (q', h') \<and> repr h' q' (xs @ [n]) \<and> label h' = label h"
    and deq_Nil: "repr h q [] \<Longrightarrow> deq q h = (None, q, h)"
    and deq_Cons: "repr h q (x # xs)
      \<Longrightarrow> \<exists>q' h'. deq q h = (Some x, q', h') \<and> repr h' q' xs \<and> loose h' x \<and> label h' = label h"
    and repr_distinct: "repr h q xs \<Longrightarrow> distinct xs"
begin

text \<open>Putting a node at the end and taking the first one: the queue turns by one.\<close>

lemma turn:
  assumes "repr h q xs" and "n \<notin> set xs" and "loose h n"
  shows "\<exists>q1 h1 q2 h2 x ys. xs @ [n] = x # ys \<and> enq q n h = Inr (q1, h1) \<and> deq q1 h1 = (Some x, q2, h2)
    \<and> repr h2 q2 ys \<and> loose h2 x \<and> x \<notin> set ys \<and> label h2 = label h"
proof -
  obtain q1 h1 where e: "enq q n h = Inr (q1, h1)" "repr h1 q1 (xs @ [n])" "label h1 = label h"
    using enq_snoc [OF assms] by blast
  obtain x ys where x: "xs @ [n] = x # ys" by (cases "xs @ [n]") auto
  then obtain q2 h2 where "deq q1 h1 = (Some x, q2, h2)" "repr h2 q2 ys" "loose h2 x" "label h2 = label h1"
    using deq_Cons e(2) by metis
  then show ?thesis using e x repr_distinct [OF e(2)] by auto
qed

end

definition loose_node :: "node_heap \<Rightarrow> ptr \<Rightarrow> bool" where
  "loose_node h n \<longleftrightarrow> next_node (h n) = None"

definition tcb_of :: "node_heap \<Rightarrow> ptr \<Rightarrow> ptr" where
  "tcb_of h n = node_tcb (h n)"

interpretation wq: fifo_queue holds enqueue pop_from_queue loose_node tcb_of
proof (unfold_locales, goal_cases)
  case (1 h q xs n)
  then show ?case using enqueue_holds [OF 1(1,2)] by (auto simp: loose_node_def tcb_of_def fun_eq_iff)
next
  case (2 h q)
  then show ?case using pop_holds [OF 2] by simp
next
  case (3 h q x xs)
  then show ?case using pop_holds [OF 3] by (auto simp: loose_node_def tcb_of_def fun_eq_iff)
next
  case (4 h q xs)
  then show ?case by (simp add: holds_def)
qed

subsection \<open>A node in two queues\<close>

text \<open>\<open>worker_mutex_lock\<close> puts one node into the wait queue of the mutex and into the waiting queue.  When
  node \<open>a\<close> waits like this, another thread's node \<open>b\<close> enters the waiting queue (by a join), and then \<open>c\<close>
  waits for the same mutex, the link of \<open>a\<close> is overwritten: \<open>b\<close> is no longer in the waiting
  queue, and deleting its thread from there finds nothing, so it is never woken.\<close>

theorem shared_node_drops_waiter:
  assumes "holds h wq (xs @ [a])" and "tail wq = Some a" and "mq = \<lparr>head = Some a, tail = Some a\<rparr>"
    and "distinct (xs @ [a, b, c])" and "next_node (h b) = None" and "next_node (h c) = None"
    and "\<forall>y \<in> set (xs @ [a, c]). \<not> carries ids i h y"
  shows "\<exists>wq1 h1 mq2 h2 wq3 h3. enqueue wq b h = Inr (wq1, h1) \<and> enqueue mq c h1 = Inr (mq2, h2)
    \<and> enqueue wq1 c h2 = Inr (wq3, h3) \<and> chain h3 (head wq3) (xs @ [a, c]) None
    \<and> delete_from_queue ids wq3 i h3 = Inr (None, wq3, h3)"
proof -
  have first: "head wq \<noteq> None" and c0: "chain h (head wq) xs (Some a)"
    using assms(1) by (cases xs; auto simp: holds_def chain_append)+
  define h1 where "h1 = set_next a (Some b) h"
  define h2 where "h2 = set_next a (Some c) h1"
  define h3 where "h3 = set_next b (Some c) h2"
  define wq1 where "wq1 = wq\<lparr>tail := Some b\<rparr>"
  define wq3 where "wq3 = wq1\<lparr>tail := Some c\<rparr>"
  have e: "enqueue wq b h = Inr (wq1, h1)" "enqueue mq c h1 = Inr (mq\<lparr>tail := Some c\<rparr>, h2)" "enqueue wq1 c h2 = Inr (wq3, h3)"
    using assms(2,3) first by (auto simp: enqueue_def h1_def h2_def h3_def wq1_def wq3_def)
  have "chain h3 (head wq) xs (Some a)" using c0 assms(4) by (simp add: h3_def h2_def h1_def)
  then have c: "chain h3 (head wq3) (xs @ [a, c]) None"
    using assms(4,6) by (auto simp: chain_append wq3_def wq1_def h3_def h2_def h1_def)
  have "\<forall>y \<in> set (xs @ [a, c]). \<not> carries ids i h3 y"
    using assms(7) by (simp add: carries_def h3_def h2_def h1_def)
  from find_node_absent [OF c this] obtain prev where "find_node ids i h3 None (head wq3) = Some (prev, None)" by blast
  then have "delete_from_queue ids wq3 i h3 = Inr (None, wq3, h3)" by (simp add: delete_from_queue_def)
  then show ?thesis using e c by blast
qed

theorem shared_node_drops_waiter_witness:
  "\<exists>wq1 h1 mq2 h2 wq3 h3.
      enqueue \<lparr>head = Some 10, tail = Some 10\<rparr> 11 (\<lambda>p. \<lparr>node_tcb = p, next_node = None\<rparr>) = Inr (wq1, h1)
    \<and> enqueue \<lparr>head = Some 10, tail = Some 10\<rparr> 12 h1 = Inr (mq2, h2) \<and> enqueue wq1 12 h2 = Inr (wq3, h3)
    \<and> chain h3 (head wq3) [10, 12] None \<and> delete_from_queue (\<lambda>t. of_nat t) wq3 11 h3 = Inr (None, wq3, h3)"
proof -
  let ?h = "\<lambda>p. \<lparr>node_tcb = p, next_node = None\<rparr>"
  have q: "holds ?h \<lparr>head = Some 10, tail = Some 10\<rparr> ([] @ [10])" "tail \<lparr>head = Some (10 :: ptr), tail = Some 10\<rparr> = Some 10"
    by (simp_all add: holds_def)
  have d: "distinct ([] @ [10, 11, 12 :: ptr])" "next_node (?h 11) = None" "next_node (?h 12) = None" by simp_all
  have n: "\<forall>y \<in> set ([] @ [10, 12]). \<not> carries (\<lambda>t. of_nat t) 11 ?h y" by (simp add: carries_def)
  show ?thesis using shared_node_drops_waiter [OF q refl d n] by simp
qed

end
