(* ===== verification/Wk_Threads.thy ===== *)
theory Wk_Threads
  imports Wk_Queue Complex_Main
begin

text \<open>
  The user-level thread library (\<open>Level - 2/worker.c\<close>, \<open>worker.h\<close>): thread control blocks, the two
  schedulers, joins and mutexes.

  One operation is one step between two context switches.  \<open>setcontext\<close> at the end of a scheduler
  is the return of the step, with \<open>running_thread\<close> the thread that goes on; what a resumed thread
  still does in the library is written where it matters (a thread woken in \<open>worker_mutex_lock\<close>
  runs the loop again).  The timer signal is a step of its own, so it arrives between the operations;
  \<open>Wk_Signal\<close> opens up \<open>sched_mlfq\<close>, which runs with the signal enabled.  Contexts and the contents of stacks
  are left out; a stack is the address of its block.

  Threads, nodes and stacks are addresses; freed memory is not reused.  \<open>freed\<close> are the control blocks that were
  freed, \<open>stacks\<close> the blocks allocated for stacks that were not; freeing a stack that is neither \<open>NULL\<close> nor such a block is the
  fault \<open>InvalidFree\<close>.  The node that \<open>sched_rr\<close> frees is not recorded.  The contents of fresh memory are
  a parameter of the state (\<open>garbage_queue\<close>, \<open>garbage_time\<close>, \<open>garbage_stack\<close>), as are the clock and the answers of
  \<open>malloc\<close> and \<open>getcontext\<close>; a \<open>malloc\<close> that the code does not test is a fault when it fails.
  Times are rational numbers of milliseconds.
\<close>

subsection \<open>State\<close>

definition TIME_SLICE :: int where "TIME_SLICE = 20"
definition MLFQ_LEVELS :: nat where "MLFQ_LEVELS = 4"
definition PRIORITY_BOOST_CYCLES :: int where "PRIORITY_BOOST_CYCLES = 30"

datatype thread_status = RUNNING | READY | BLOCKED | FINISHED

datatype scheduler = rr | mlfq

record timeval =
  tv_sec :: int
  tv_usec :: int

record tcb =
  tid :: "32 word"
  status :: thread_status
  stack :: ptr
  priority :: "32 word"
  waiting_thread :: "32 word"
  waiting_for :: "32 word"
  first_schedule :: bool
  created :: timeval
  first_run :: timeval
  finished :: timeval
  time_on_cpu :: rat
  mutex_blocked :: bool
  blocked_from_mutex :: "ptr option"

record worker_mutex =
  is_locked :: bool
  mutex_id :: "32 word"
  wait_queue :: queue
  owner :: "32 word"

record worker =
  thread_count :: "32 word"
  active_threads :: "32 word"
  ready_queue :: queue
  waiting_queue :: queue
  MLFQ_queue :: "queue list"
  running_thread :: ptr
  running_node :: ptr
  main_thread :: "ptr option"
  return_values :: "nat \<Rightarrow> nat"
  mutex_count :: "32 word"
  interrupt_disabled :: bool
  schedule_timestamp :: timeval
  avg_turnaround :: rat
  avg_response :: rat
  schedule_cycles :: int
  timer_usec :: int
  nodes :: node_heap
  tcbs :: "ptr \<Rightarrow> tcb"
  mutexes :: "ptr \<Rightarrow> worker_mutex"
  fresh :: ptr
  stacks :: "ptr set"
  freed :: "ptr set"
  garbage_queue :: queue
  garbage_stack :: ptr
  garbage_time :: rat
  now :: "nat \<Rightarrow> timeval"
  ticks :: nat
  call_ok :: "nat \<Rightarrow> bool"
  calls :: nat

definition gettimeofday :: "worker \<Rightarrow> timeval \<times> worker" where
  "gettimeofday s = (now s (ticks s), s\<lparr>ticks := Suc (ticks s)\<rparr>)"

text \<open>The answer of the next call of \<open>malloc\<close> or \<open>getcontext\<close>.\<close>

definition sys_call :: "worker \<Rightarrow> bool \<times> worker" where
  "sys_call s = (call_ok s (calls s), s\<lparr>calls := Suc (calls s)\<rparr>)"

definition set_tcb :: "ptr \<Rightarrow> tcb \<Rightarrow> worker \<Rightarrow> worker" where
  "set_tcb p t s = s\<lparr>tcbs := (tcbs s)(p := t)\<rparr>"

definition ids :: "worker \<Rightarrow> ptr \<Rightarrow> 32 word" where
  "ids s p = tid (tcbs s p)"

definition disable_signal :: "worker \<Rightarrow> worker" where
  "disable_signal s = s\<lparr>interrupt_disabled := True\<rparr>"

definition enable_signal :: "worker \<Rightarrow> worker" where
  "enable_signal s = s\<lparr>interrupt_disabled := False\<rparr>"

definition init_timer :: "int \<Rightarrow> worker \<Rightarrow> worker" where
  "init_timer time_slice s = s\<lparr>timer_usec := time_slice * 1000 smod 100000\<rparr>"

definition create_node :: "ptr \<Rightarrow> worker \<Rightarrow> (ptr \<times> worker) result" where
  "create_node t s =
     (let (ok, s) = sys_call s
      in if \<not> ok then Inl NullDeref
         else Inr (fresh s, s\<lparr>nodes := (nodes s)(fresh s := \<lparr>node_tcb = t, next_node = None\<rparr>), fresh := Suc (fresh s)\<rparr>))"

subsection \<open>The queues of the state\<close>

definition enqueue_waiting :: "ptr \<Rightarrow> worker \<Rightarrow> worker result" where
  "enqueue_waiting n s =
     (case enqueue (waiting_queue s) n (nodes s) of
        Inl f \<Rightarrow> Inl f
      | Inr (q, h) \<Rightarrow> Inr (s\<lparr>waiting_queue := q, nodes := h\<rparr>))"

definition enqueue_level :: "nat \<Rightarrow> ptr \<Rightarrow> worker \<Rightarrow> worker result" where
  "enqueue_level k n s =
     (if length (MLFQ_queue s) \<le> k then Inl OutOfBounds
      else case enqueue (MLFQ_queue s ! k) n (nodes s) of
          Inl f \<Rightarrow> Inl f
        | Inr (q, h) \<Rightarrow> Inr (s\<lparr>MLFQ_queue := (MLFQ_queue s)[k := q], nodes := h\<rparr>))"

text \<open>\<open>if (SCHEDULER == rr) enqueue(ready_queue, n); else enqueue(&MLFQ_queue[priority], n);\<close>\<close>

definition enqueue_ready :: "scheduler \<Rightarrow> ptr \<Rightarrow> worker \<Rightarrow> worker result" where
  "enqueue_ready sch n s =
     (case sch of
        rr \<Rightarrow>
          (case enqueue (ready_queue s) n (nodes s) of
             Inl f \<Rightarrow> Inl f
           | Inr (q, h) \<Rightarrow> Inr (s\<lparr>ready_queue := q, nodes := h\<rparr>))
      | mlfq \<Rightarrow> enqueue_level (unat (priority (tcbs s (node_tcb (nodes s n))))) n s)"

definition pop_ready :: "worker \<Rightarrow> ptr option \<times> worker" where
  "pop_ready s = (let (n, q, h) = pop_from_queue (ready_queue s) (nodes s) in (n, s\<lparr>ready_queue := q, nodes := h\<rparr>))"

definition pop_level :: "nat \<Rightarrow> worker \<Rightarrow> ptr option \<times> worker" where
  "pop_level k s = (let (n, q, h) = pop_from_queue (MLFQ_queue s ! k) (nodes s)
     in (n, s\<lparr>MLFQ_queue := (MLFQ_queue s)[k := q], nodes := h\<rparr>))"

primrec find_levels :: "queue list \<Rightarrow> 32 word \<Rightarrow> worker \<Rightarrow> ptr option result" where
  "find_levels [] thread_id s = Inr None"
| "find_levels (q # qs) thread_id s =
     (case find_thread (ids s) q thread_id (nodes s) of
        Inl f \<Rightarrow> Inl f
      | Inr (Some t) \<Rightarrow> Inr (Some t)
      | Inr None \<Rightarrow> find_levels qs thread_id s)"

definition find_ready_threads :: "scheduler \<Rightarrow> 32 word \<Rightarrow> worker \<Rightarrow> ptr option result" where
  "find_ready_threads sch thread_id s =
     (case sch of
        rr \<Rightarrow> find_thread (ids s) (ready_queue s) thread_id (nodes s)
      | mlfq \<Rightarrow> find_levels (MLFQ_queue s) thread_id s)"

text \<open>Taking a thread out of the waiting queue and making it ready, if it is there.\<close>

definition wake :: "scheduler \<Rightarrow> 32 word \<Rightarrow> worker \<Rightarrow> worker result" where
  "wake sch thread_id s =
     (case delete_from_queue (ids s) (waiting_queue s) thread_id (nodes s) of
        Inl f \<Rightarrow> Inl f
      | Inr (None, q, h) \<Rightarrow> Inr (s\<lparr>waiting_queue := q, nodes := h\<rparr>)
      | Inr (Some n, q, h) \<Rightarrow>
          let s = s\<lparr>waiting_queue := q, nodes := h\<rparr>;
              t = node_tcb (nodes s n)
          in enqueue_ready sch n (set_tcb t ((tcbs s t)\<lparr>status := READY, waiting_for := -1\<rparr>) s))"

definition release_threads :: "scheduler \<Rightarrow> ptr \<Rightarrow> worker \<Rightarrow> worker result" where
  "release_threads sch exit_thread s =
     (if 0 \<le> sint (waiting_thread (tcbs s exit_thread)) then wake sch (waiting_thread (tcbs s exit_thread)) s
      else Inr s)"

text \<open>One round of \<open>unblock_threads\<close>.  The look-up after the move only prints a message, but it walks the queue.\<close>

definition unblock_thread :: "scheduler \<Rightarrow> 32 word \<Rightarrow> worker \<Rightarrow> worker result" where
  "unblock_thread sch thread_id s =
     (case delete_from_queue (ids s) (waiting_queue s) thread_id (nodes s) of
        Inr (Some n, q, h) \<Rightarrow>
          (case wake sch thread_id s of
             Inl f \<Rightarrow> Inl f
           | Inr s \<Rightarrow> (case find_ready_threads sch thread_id s of Inl f \<Rightarrow> Inl f | Inr _ \<Rightarrow> Inr s))
      | _ \<Rightarrow> wake sch thread_id s)"

text \<open>The loop over the waiters of a mutex; the next node is read before the node is moved.\<close>

partial_function (option) unblock_loop :: "scheduler \<Rightarrow> ptr option \<Rightarrow> worker \<Rightarrow> worker result option" where
  "unblock_loop sch temp_head s =
     (case temp_head of
        None \<Rightarrow> Some (Inr s)
      | Some n \<Rightarrow>
          (case unblock_thread sch (ids s (node_tcb (nodes s n))) s of
             Inl f \<Rightarrow> Some (Inl f)
           | Inr s' \<Rightarrow> unblock_loop sch (next_node (nodes s n)) s'))"

definition unblock_threads :: "scheduler \<Rightarrow> queue \<Rightarrow> worker \<Rightarrow> worker result" where
  "unblock_threads sch q s = (case unblock_loop sch (head q) s of None \<Rightarrow> Inl Diverges | Some r \<Rightarrow> r)"

subsection \<open>Statistics\<close>

definition elapsed_ms :: "timeval \<Rightarrow> timeval \<Rightarrow> rat" where
  "elapsed_ms t0 t1 =
     (let ms = of_int (tv_sec t1 - tv_sec t0) * 1000
      in if ms = 0 then ms + of_int (tv_usec t1 - tv_usec t0) / 1000
         else ms - 1000 + of_int ((1000000 - tv_usec t0) + tv_usec t1) / 1000)"

text \<open>The same in \<open>update_time_stats\<close>, with the quotient taken on integers.\<close>

definition interval_ms :: "timeval \<Rightarrow> timeval \<Rightarrow> rat" where
  "interval_ms t0 t1 =
     (let ms = of_int ((tv_sec t1 - tv_sec t0) * 1000)
      in if ms = 0 then ms + of_int ((tv_usec t1 - tv_usec t0) sdiv 1000)
         else ms - 1000 + of_int (((1000000 - tv_usec t0) + tv_usec t1) sdiv 1000))"

definition update_time_stats :: "worker \<Rightarrow> worker" where
  "update_time_stats s =
     (let t = tcbs s (running_thread s);
          turnaround = interval_ms (created t) (finished t);
          response = interval_ms (created t) (first_run t);
          threads_finished = of_int (sint (thread_count s - active_threads s))
      in s\<lparr>avg_turnaround := (threads_finished * avg_turnaround s + turnaround) / (threads_finished + 1),
           avg_response := (threads_finished * avg_response s + response) / (threads_finished + 1),
           active_threads := active_threads s - 1\<rparr>)"

subsection \<open>Schedulers\<close>

text \<open>\<open>free\<close> on a control block and on the stack of a thread.\<close>

definition free_tcb :: "ptr \<Rightarrow> worker \<Rightarrow> worker" where
  "free_tcb t s = s\<lparr>freed := insert t (freed s)\<rparr>"

definition can_free :: "worker \<Rightarrow> ptr \<Rightarrow> bool" where
  "can_free s p \<longleftrightarrow> p = 0 \<or> p \<in> stacks s"

definition free_stack :: "ptr \<Rightarrow> worker \<Rightarrow> worker result" where
  "free_stack p s = (if can_free s p then Inr (s\<lparr>stacks := stacks s - {p}\<rparr>) else Inl InvalidFree)"

text \<open>What both schedulers do with the thread they found; without one the main thread goes on.\<close>

definition resume_main :: "worker \<Rightarrow> worker result" where
  "resume_main s =
     (case main_thread s of
        None \<Rightarrow> Inl (Exit 0)
      | Some t \<Rightarrow>
          (case create_node t (s\<lparr>running_thread := t\<rparr>) of
             Inl f \<Rightarrow> Inl f
           | Inr (n, s) \<Rightarrow>
               if t \<in> freed s then Inl UseAfterFree
               else Inr (set_tcb t ((tcbs s t)\<lparr>status := RUNNING\<rparr>) (s\<lparr>running_node := n\<rparr>))))"

definition dispatch :: "ptr \<Rightarrow> worker \<Rightarrow> worker result" where
  "dispatch n s =
     (let t = node_tcb (nodes s n)
      in if status (tcbs s t) = BLOCKED then Inl (Exit (-1))
         else
         let s = set_tcb t ((tcbs s t)\<lparr>status := RUNNING\<rparr>) s;
             s = s\<lparr>running_node := n, running_thread := t\<rparr>;
             s = (if first_schedule (tcbs s t)
                  then let (tv, s) = gettimeofday s
                    in set_tcb t ((tcbs s t)\<lparr>first_run := tv, first_schedule := False\<rparr>) s
                  else s)
         in Inr s)"

text \<open>The first half of \<open>sched_rr\<close>: where the thread that ran before goes.\<close>

definition put_back_rr :: "worker \<Rightarrow> worker result" where
  "put_back_rr s =
     (let prev_thread = running_thread s
      in if status (tcbs s prev_thread) = FINISHED
         then case release_threads rr prev_thread s of
             Inl f \<Rightarrow> Inl f
           | Inr s \<Rightarrow> Inr (free_tcb prev_thread (update_time_stats s))
         else if status (tcbs s prev_thread) \<noteq> BLOCKED
         then enqueue_ready rr (running_node s) (set_tcb prev_thread ((tcbs s prev_thread)\<lparr>status := READY\<rparr>) s)
         else Inr s)"

definition sched_rr :: "worker \<Rightarrow> worker result" where
  "sched_rr s =
     (case put_back_rr (disable_signal s) of
        Inl f \<Rightarrow> Inl f
      | Inr s \<Rightarrow>
          (case pop_ready s of
             (None, s) \<Rightarrow> resume_main (enable_signal s)
           | (Some n, s) \<Rightarrow>
               (case dispatch n s of
                  Inl f \<Rightarrow> Inl f
                | Inr s \<Rightarrow>
                    let (tv, s) = gettimeofday (init_timer TIME_SLICE (enable_signal s))
                    in Inr (s\<lparr>schedule_timestamp := tv\<rparr>))))"

partial_function (option) boost_loop :: "nat \<Rightarrow> worker \<Rightarrow> worker result option" where
  "boost_loop k s =
     (case pop_level k s of
        (None, s) \<Rightarrow> Some (Inr s)
      | (Some n, s) \<Rightarrow>
          (case enqueue_level 0 n s of
             Inl f \<Rightarrow> Some (Inl f)
           | Inr s \<Rightarrow>
               let t = node_tcb (nodes s n)
               in boost_loop k (set_tcb t ((tcbs s t)\<lparr>priority := 0\<rparr>) s)))"

primrec boost_levels :: "nat list \<Rightarrow> worker \<Rightarrow> worker result" where
  "boost_levels [] s = Inr s"
| "boost_levels (k # ks) s =
     (case boost_loop k s of
        None \<Rightarrow> Inl Diverges
      | Some (Inl f) \<Rightarrow> Inl f
      | Some (Inr s) \<Rightarrow> boost_levels ks s)"

definition boost_priority :: "worker \<Rightarrow> worker result" where
  "boost_priority s = boost_levels [1..<MLFQ_LEVELS] s"

primrec next_level :: "nat list \<Rightarrow> worker \<Rightarrow> ptr option \<times> worker" where
  "next_level [] s = (None, s)"
| "next_level (k # ks) s = (if head (MLFQ_queue s ! k) \<noteq> None then pop_level k s else next_level ks s)"

definition get_next_thread_mlfq :: "worker \<Rightarrow> ptr option \<times> worker" where
  "get_next_thread_mlfq s = next_level [0..<MLFQ_LEVELS] s"

text \<open>The condition on the priority is \<open>priority > MLFQ_LEVELS-1\<close>.\<close>

definition demote :: "tcb \<Rightarrow> tcb" where
  "demote t =
     (if time_on_cpu t \<ge> of_int (TIME_SLICE * (sint (priority t) + 1)) \<and> unat (priority t) > MLFQ_LEVELS - 1
      then t\<lparr>time_on_cpu := 0, priority := priority t + 1\<rparr> else t)"

definition put_back_mlfq :: "worker \<Rightarrow> worker result" where
  "put_back_mlfq s =
     (let prev_thread = running_thread s
      in if status (tcbs s prev_thread) = FINISHED
         then case release_threads mlfq prev_thread s of
             Inl f \<Rightarrow> Inl f
           | Inr s \<Rightarrow>
               (case free_stack (stack (tcbs s prev_thread)) (update_time_stats s) of
                  Inl f \<Rightarrow> Inl f
                | Inr s \<Rightarrow> Inr (free_tcb prev_thread s))
         else if status (tcbs s prev_thread) = RUNNING
         then let t = demote (tcbs s prev_thread)
           in enqueue_level (unat (priority t)) (running_node s) (set_tcb prev_thread (t\<lparr>status := READY\<rparr>) s)
         else Inr s)"

definition boost_if_due :: "worker \<Rightarrow> worker result" where
  "boost_if_due s =
     (if schedule_cycles s \<ge> PRIORITY_BOOST_CYCLES
      then case boost_priority s of
          Inl f \<Rightarrow> Inl f
        | Inr s \<Rightarrow> Inr (s\<lparr>schedule_cycles := 0\<rparr>)
      else Inr s)"

definition run_mlfq :: "ptr \<Rightarrow> worker \<Rightarrow> worker result" where
  "run_mlfq n s =
     (case dispatch n s of
        Inl f \<Rightarrow> Inl f
      | Inr s \<Rightarrow>
          let p = sint (priority (tcbs s (running_thread s)));
              (tv, s) = gettimeofday (enable_signal (init_timer (TIME_SLICE * (p + 1)) s))
          in Inr (s\<lparr>schedule_timestamp := tv\<rparr>))"

text \<open>\<open>sched_mlfq\<close> when no timer signal arrives in it; unlike \<open>sched_rr\<close> it does not disable the signal, and
  \<open>Wk_Signal\<close> shows what one does between its steps.\<close>

definition sched_mlfq :: "worker \<Rightarrow> worker result" where
  "sched_mlfq s =
     (case put_back_mlfq (s\<lparr>schedule_cycles := schedule_cycles s + 1\<rparr>) of
        Inl f \<Rightarrow> Inl f
      | Inr s \<Rightarrow>
          (case boost_if_due s of
             Inl f \<Rightarrow> Inl f
           | Inr s \<Rightarrow>
               (case get_next_thread_mlfq s of
                  (None, s) \<Rightarrow> resume_main (enable_signal s)
                | (Some n, s) \<Rightarrow> run_mlfq n s)))"

definition schedule :: "scheduler \<Rightarrow> worker \<Rightarrow> worker result" where
  "schedule sch s =
     (let (tv, s) = gettimeofday (disable_signal s);
          r = running_thread s;
          t = tcbs s r;
          s = set_tcb r (t\<lparr>finished := tv, time_on_cpu := time_on_cpu t + elapsed_ms (schedule_timestamp s) tv\<rparr>) s;
          s = enable_signal s
      in case sch of rr \<Rightarrow> sched_rr s | mlfq \<Rightarrow> sched_mlfq s)"

subsection \<open>Operations of the running thread\<close>

definition worker_yield :: "scheduler \<Rightarrow> worker \<Rightarrow> worker result" where
  "worker_yield sch s = schedule sch (disable_signal s)"

definition interrupt_handler :: "scheduler \<Rightarrow> worker \<Rightarrow> worker result" where
  "interrupt_handler sch s = (if interrupt_disabled s then Inr s else schedule sch s)"

text \<open>The end of the main function, reached through \<open>uc_link\<close>.\<close>

definition worker_finished :: "scheduler \<Rightarrow> worker \<Rightarrow> worker result" where
  "worker_finished sch s =
     schedule sch (set_tcb (running_thread s) ((tcbs s (running_thread s))\<lparr>status := FINISHED\<rparr>) s)"

definition worker_exit :: "scheduler \<Rightarrow> nat \<Rightarrow> worker \<Rightarrow> worker result" where
  "worker_exit sch value_ptr s =
     (let s = disable_signal s;
          r = running_thread s;
          k = unat (ids s r)
      in if status (tcbs s r) \<noteq> RUNNING then Inl (Exit (-1))
         else if value_ptr \<noteq> 0 \<and> 10000 \<le> k then Inl OutOfBounds
         else
         let s = set_tcb r ((tcbs s r)\<lparr>status := FINISHED\<rparr>) s;
             s = (if value_ptr \<noteq> 0 then s\<lparr>return_values := (return_values s)(k := value_ptr)\<rparr> else s)
         in worker_yield sch s)"

text \<open>What a call gives to the running thread: a result, or another thread runs first.\<close>

datatype outcome = Returned int | Switched

text \<open>\<open>worker_join\<close> with a place for the value; the value it stores comes second.\<close>

definition worker_join :: "scheduler \<Rightarrow> 32 word \<Rightarrow> worker \<Rightarrow> (outcome \<times> nat option \<times> worker) result" where
  "worker_join sch thread s =
     (let s = disable_signal s
      in case find_ready_threads sch thread s of
          Inl f \<Rightarrow> Inl f
        | Inr None \<Rightarrow>
            if unat thread \<le> unat (thread_count s)
            then if 10000 \<le> unat thread then Inl OutOfBounds
                 else Inr (Returned 0, Some (return_values s (unat thread)), enable_signal s)
            else Inr (Returned (-1), None, enable_signal s)
        | Inr (Some t) \<Rightarrow>
            if 0 < sint (waiting_thread (tcbs s t)) then Inr (Returned (-1), None, s)
            else
            let r = running_thread s;
                s = set_tcb t ((tcbs s t)\<lparr>waiting_thread := ids s r\<rparr>) s;
                s = set_tcb r ((tcbs s r)\<lparr>status := BLOCKED, waiting_for := ids s t\<rparr>) s
            in case enqueue_waiting (running_node s) s of
                 Inl f \<Rightarrow> Inl f
               | Inr s \<Rightarrow>
                   (case worker_yield sch s of
                      Inl f \<Rightarrow> Inl f
                    | Inr s \<Rightarrow> Inr (Switched, None, s)))"

subsection \<open>Mutexes\<close>

definition set_mutex :: "ptr \<Rightarrow> worker_mutex \<Rightarrow> worker \<Rightarrow> worker" where
  "set_mutex m x s = s\<lparr>mutexes := (mutexes s)(m := x)\<rparr>"

text \<open>With \<open>NULL\<close> a new mutex is initialised that the caller never gets to see.\<close>

definition worker_mutex_init :: "ptr option \<Rightarrow> worker \<Rightarrow> (int \<times> worker) result" where
  "worker_mutex_init mutex s =
     (case (case mutex of
              Some m \<Rightarrow> Inr (m, s)
            | None \<Rightarrow> (let (ok, s) = sys_call s
                in if ok then Inr (fresh s, s\<lparr>fresh := Suc (fresh s)\<rparr>) else Inl NullDeref)) of
        Inl f \<Rightarrow> Inl f
      | Inr (m, s) \<Rightarrow>
          let (ok, s) = sys_call s
          in if \<not> ok then Inl NullDeref
             else Inr (0, set_mutex m \<lparr>is_locked = False, mutex_id = mutex_count s, wait_queue = garbage_queue s, owner = -1\<rparr>
                    (s\<lparr>mutex_count := mutex_count s + 1\<rparr>)))"

text \<open>One round of the loop of \<open>worker_mutex_lock\<close>: the mutex is taken, is the caller's already, or the
  caller blocks.  The waiting thread's node goes into two queues with its one \<open>next_node\<close>.\<close>

definition worker_mutex_lock :: "scheduler \<Rightarrow> ptr option \<Rightarrow> worker \<Rightarrow> (outcome \<times> worker) result" where
  "worker_mutex_lock sch mutex s =
     (case mutex of
        None \<Rightarrow> Inr (Returned (-1), s)
      | Some m \<Rightarrow>
          let was_locked = is_locked (mutexes s m);
              s = set_mutex m ((mutexes s m)\<lparr>is_locked := True\<rparr>) s;
              r = running_thread s
          in if was_locked
             then if owner (mutexes s m) = ids s r then Inr (Returned 0, s)
               else (case enqueue (wait_queue (mutexes s m)) (running_node s) (nodes s) of
                   Inl f \<Rightarrow> Inl f
                 | Inr (q, h) \<Rightarrow>
                     let s = set_mutex m ((mutexes s m)\<lparr>wait_queue := q\<rparr>) (s\<lparr>nodes := h\<rparr>);
                         s = set_tcb r ((tcbs s r)\<lparr>status := BLOCKED, waiting_for := owner (mutexes s m),
                               blocked_from_mutex := Some m, mutex_blocked := True\<rparr>) s
                     in case enqueue_waiting (running_node s) s of
                          Inl f \<Rightarrow> Inl f
                        | Inr s \<Rightarrow>
                            (case worker_yield sch s of
                               Inl f \<Rightarrow> Inl f
                             | Inr s \<Rightarrow> Inr (Switched, s)))
             else let s = set_mutex m ((mutexes s m)\<lparr>owner := ids s r, is_locked := True\<rparr>) s
               in if owner (mutexes s m) = -1 \<or> \<not> is_locked (mutexes s m) then Inl (Exit (-1))
                  else Inr (Returned 0, set_tcb r ((tcbs s r)\<lparr>blocked_from_mutex := None, mutex_blocked := False\<rparr>) s))"

definition worker_mutex_unlock :: "scheduler \<Rightarrow> ptr option \<Rightarrow> worker \<Rightarrow> (int \<times> worker) result" where
  "worker_mutex_unlock sch mutex s =
     (case mutex of
        None \<Rightarrow> Inr (-1, s)
      | Some m \<Rightarrow>
          if is_locked (mutexes s m)
          then if owner (mutexes s m) \<noteq> ids s (running_thread s) then Inr (-1, s)
            else let s = set_mutex m ((mutexes s m)\<lparr>is_locked := False, owner := -1\<rparr>) s
              in if head (wait_queue (mutexes s m)) \<noteq> None
                 then case unblock_threads sch (wait_queue (mutexes s m)) s of
                     Inl f \<Rightarrow> Inl f
                   | Inr s \<Rightarrow> Inr (0, set_mutex m ((mutexes s m)\<lparr>wait_queue := empty_queue (wait_queue (mutexes s m))\<rparr>) s)
                 else Inr (0, s)
          else Inr (-1, s))"

definition worker_mutex_destroy :: "ptr option \<Rightarrow> worker \<Rightarrow> int" where
  "worker_mutex_destroy mutex s =
     (case mutex of None \<Rightarrow> -1 | Some m \<Rightarrow> if is_locked (mutexes s m) then -1 else 0)"

subsection \<open>Creating threads\<close>

definition zero_time :: timeval where
  "zero_time = \<lparr>tv_sec = 0, tv_usec = 0\<rparr>"

text \<open>\<open>init\<close>: four blocks are allocated untested and two contexts read.\<close>

definition init_worker :: "worker \<Rightarrow> worker result" where
  "init_worker s =
     (let (sched_ok, s) = sys_call s; (sched_ctx, s) = sys_call s;
          (fin_ok, s) = sys_call s; (fin_ctx, s) = sys_call s;
          (ready_ok, s) = sys_call s; (waiting_ok, s) = sys_call s
      in if \<not> sched_ok then Inl NullDeref
         else if \<not> sched_ctx then Inl (Exit (-1))
         else if \<not> fin_ok then Inl NullDeref
         else if \<not> fin_ctx then Inl (Exit 1)
         else if \<not> ready_ok \<or> \<not> waiting_ok then Inl NullDeref
         else Inr (s\<lparr>ready_queue := garbage_queue s, waiting_queue := garbage_queue s\<rparr>))"

text \<open>The control block of the calling thread; False where the code returns \<open>-1\<close>.\<close>

definition create_main :: "worker \<Rightarrow> (bool \<times> worker) result" where
  "create_main s =
     (case init_worker s of
        Inl f \<Rightarrow> Inl f
      | Inr s \<Rightarrow>
          let (tcb_ok, s) = sys_call s
          in if \<not> tcb_ok then Inr (False, s\<lparr>main_thread := None\<rparr>)
             else
             let t = fresh s;
                 i = thread_count s;
                 s = s\<lparr>fresh := Suc t, main_thread := Some t, thread_count := thread_count s + 1\<rparr>;
                 (ctx_ok, s) = sys_call s
             in if \<not> ctx_ok then Inr (False, s)
                else
                let (get_ok, s) = sys_call s
                in if \<not> get_ok then Inr (False, s)
                   else
                   let (created_at, s) = gettimeofday s;
                       (run_at, s) = gettimeofday s;
                       (stamp, s) = gettimeofday s;
                       s = set_tcb t \<lparr>tid = i, status = RUNNING, stack = garbage_stack s, priority = 0, waiting_thread = -1, waiting_for = -1,
                             first_schedule = False, created = created_at, first_run = run_at, finished = zero_time,
                             time_on_cpu = garbage_time s, mutex_blocked = False, blocked_from_mutex = None\<rparr> s;
                       s = s\<lparr>active_threads := active_threads s + 1, avg_turnaround := 0, avg_response := 0,
                             schedule_timestamp := stamp, running_thread := t\<rparr>
                   in case create_node t s of
                        Inl f \<Rightarrow> Inl f
                      | Inr (n, s) \<Rightarrow> Inr (True, init_timer TIME_SLICE (s\<lparr>running_node := n\<rparr>)))"

definition worker_create :: "scheduler \<Rightarrow> worker \<Rightarrow> (int \<times> worker) result" where
  "worker_create sch s =
     (case (if thread_count s = 0 then create_main s else Inr (True, s)) of
        Inl f \<Rightarrow> Inl f
      | Inr (False, s) \<Rightarrow> Inr (-1, s)
      | Inr (True, s) \<Rightarrow>
          let (tcb_ok, s) = sys_call s
          in if \<not> tcb_ok then Inr (-1, s)
             else
             let t = fresh s;
                 s = s\<lparr>fresh := Suc t\<rparr>;
                 (ctx_ok, s) = sys_call s
             in if \<not> ctx_ok then Inr (-1, s)
                else
                let i = thread_count s;
                    s = s\<lparr>thread_count := thread_count s + 1\<rparr>;
                    (stack_ok, s) = sys_call s
                in if \<not> stack_ok then Inr (-1, s)
                   else
                   let st = fresh s;
                       s = s\<lparr>fresh := Suc st, stacks := insert st (stacks s)\<rparr>;
                       (get_ok, s) = sys_call s
                   in if \<not> get_ok then Inr (-1, s)
                      else
                      let (created_at, s) = gettimeofday s;
                          s = set_tcb t \<lparr>tid = i, status = READY, stack = st, priority = 0, waiting_thread = -1, waiting_for = -1,
                                first_schedule = True, created = created_at, first_run = zero_time, finished = zero_time,
                                time_on_cpu = garbage_time s, mutex_blocked = False, blocked_from_mutex = None\<rparr> s;
                          s = s\<lparr>active_threads := active_threads s + 1\<rparr>
                      in case create_node t s of
                           Inl f \<Rightarrow> Inl f
                         | Inr (n, s) \<Rightarrow>
                             (case enqueue_ready sch n s of
                                Inl f \<Rightarrow> Inl f
                              | Inr s \<Rightarrow> Inr (sint i, s)))"

subsection \<open>Runs\<close>

text \<open>A step of the process: the running thread calls an operation or is interrupted.\<close>

inductive wstep :: "scheduler \<Rightarrow> worker \<Rightarrow> worker \<Rightarrow> bool" for sch where
  w_create: "worker_create sch s = Inr (r, s') \<Longrightarrow> wstep sch s s'"
| w_yield: "worker_yield sch s = Inr s' \<Longrightarrow> wstep sch s s'"
| w_tick: "interrupt_handler sch s = Inr s' \<Longrightarrow> wstep sch s s'"
| w_exit: "worker_exit sch v s = Inr s' \<Longrightarrow> wstep sch s s'"
| w_main_end: "worker_finished sch s = Inr s' \<Longrightarrow> wstep sch s s'"
| w_join: "worker_join sch t s = Inr (r, v, s') \<Longrightarrow> wstep sch s s'"
| w_mutex_init: "worker_mutex_init m s = Inr (r, s') \<Longrightarrow> wstep sch s s'"
| w_lock: "worker_mutex_lock sch m s = Inr (r, s') \<Longrightarrow> wstep sch s s'"
| w_unlock: "worker_mutex_unlock sch m s = Inr (r, s') \<Longrightarrow> wstep sch s s'"

inductive wreach :: "scheduler \<Rightarrow> worker \<Rightarrow> worker \<Rightarrow> bool" for sch s where
  w_refl: "wreach sch s s"
| w_trans: "wreach sch s t \<Longrightarrow> wstep sch t u \<Longrightarrow> wreach sch s u"

end
