(* ===== verification/Wk_Sched.thy ===== *)
theory Wk_Sched
  imports Wk_Threads
begin

text \<open>
  The schedulers of the thread library (\<open>Level - 2/worker.c\<close>) at work: the multi-level feedback
  queue never leaves its first level, the round robin scheduler turns the ready queue, and a join
  on a thread that is not ready does not wait.
\<close>

subsection \<open>One level only\<close>

text \<open>All priorities are 0, and the queues of the lower levels are empty.\<close>

definition one_level :: "worker \<Rightarrow> bool" where
  "one_level s \<longleftrightarrow> (\<forall>p. priority (tcbs s p) = 0) \<and> length (MLFQ_queue s) = MLFQ_LEVELS
     \<and> (\<forall>k \<in> {1..<MLFQ_LEVELS}. head (MLFQ_queue s ! k) = None)"

lemma one_level_cong:
  "tcbs s' = tcbs s \<Longrightarrow> MLFQ_queue s' = MLFQ_queue s \<Longrightarrow> one_level s' = one_level s"
  by (simp add: one_level_def)

lemma one_level_set_tcb [simp]: "one_level s \<Longrightarrow> priority t = 0 \<Longrightarrow> one_level (set_tcb p t s)"
  by (simp add: one_level_def set_tcb_def)

lemma one_level_more [simp]:
  "one_level (s\<lparr>nodes := h\<rparr>) = one_level s" "one_level (s\<lparr>waiting_queue := q\<rparr>) = one_level s"
  "one_level (s\<lparr>ready_queue := q\<rparr>) = one_level s" "one_level (s\<lparr>ticks := n\<rparr>) = one_level s"
  "one_level (s\<lparr>calls := n\<rparr>) = one_level s" "one_level (s\<lparr>fresh := p\<rparr>) = one_level s"
  "one_level (s\<lparr>running_thread := p\<rparr>) = one_level s" "one_level (s\<lparr>running_node := p\<rparr>) = one_level s"
  "one_level (s\<lparr>interrupt_disabled := b\<rparr>) = one_level s" "one_level (s\<lparr>timer_usec := n2\<rparr>) = one_level s"
  "one_level (s\<lparr>schedule_timestamp := tv\<rparr>) = one_level s" "one_level (s\<lparr>schedule_cycles := n2\<rparr>) = one_level s"
  "one_level (s\<lparr>avg_turnaround := r\<rparr>) = one_level s" "one_level (s\<lparr>avg_response := r\<rparr>) = one_level s"
  "one_level (s\<lparr>active_threads := w\<rparr>) = one_level s" "one_level (s\<lparr>thread_count := w\<rparr>) = one_level s"
  "one_level (s\<lparr>mutexes := m\<rparr>) = one_level s" "one_level (s\<lparr>mutex_count := w\<rparr>) = one_level s"
  "one_level (s\<lparr>main_thread := t\<rparr>) = one_level s" "one_level (s\<lparr>return_values := v\<rparr>) = one_level s"
  "one_level (s\<lparr>stacks := ps\<rparr>) = one_level s" "one_level (s\<lparr>freed := ps\<rparr>) = one_level s"
  "one_level (free_tcb p s) = one_level s"
  by (simp_all add: one_level_def free_tcb_def)

lemma one_level_level0 [simp]: "one_level s \<Longrightarrow> one_level (s\<lparr>MLFQ_queue := (MLFQ_queue s)[0 := q]\<rparr>)"
  by (simp add: one_level_def)

lemma priority_0: "one_level s \<Longrightarrow> priority (tcbs s p) = 0"
  by (simp add: one_level_def)

named_theorems worker_ops \<open>operations of the thread library, unfolded\<close>

lemmas state_ops [worker_ops] = disable_signal_def enable_signal_def init_timer_def gettimeofday_def sys_call_def

lemma one_level_enqueue:
  "enqueue_level 0 n s = Inr s' \<Longrightarrow> one_level s \<Longrightarrow> one_level s'"
  "enqueue_waiting n s = Inr s' \<Longrightarrow> one_level s \<Longrightarrow> one_level s'"
  "enqueue_ready sch n s = Inr s' \<Longrightarrow> one_level s \<Longrightarrow> one_level s'"
  "create_node t s = Inr (p, s') \<Longrightarrow> one_level s \<Longrightarrow> one_level s'"
proof -
  show e: "enqueue_level 0 n s = Inr s' \<Longrightarrow> one_level s \<Longrightarrow> one_level s'" for s s' :: worker
    by (auto simp: enqueue_level_def split: if_splits sum.splits)
  show "enqueue_waiting n s = Inr s' \<Longrightarrow> one_level s \<Longrightarrow> one_level s'"
    by (auto simp: enqueue_waiting_def split: sum.splits)
  show "enqueue_ready sch n s = Inr s' \<Longrightarrow> one_level s \<Longrightarrow> one_level s'"
    using e by (cases sch) (auto simp: enqueue_ready_def priority_0 split: sum.splits)
  show "create_node t s = Inr (p, s') \<Longrightarrow> one_level s \<Longrightarrow> one_level s'"
    by (auto simp: create_node_def worker_ops split: if_splits)
qed

lemma one_level_wake:
  assumes "wake sch i s = Inr s'" and "one_level s"
  shows "one_level s'"
proof -
  obtain r q h where d: "delete_from_queue (ids s) (waiting_queue s) i (nodes s) = Inr (r, q, h)"
    using assms(1) by (auto simp: wake_def split: sum.splits)
  show ?thesis
  proof (cases r)
    case None
    then show ?thesis using assms d by (auto simp: wake_def)
  next
    case (Some n)
    let ?s = "s\<lparr>waiting_queue := q, nodes := h\<rparr>"
    let ?t = "node_tcb (nodes ?s n)"
    have "enqueue_ready sch n (set_tcb ?t ((tcbs ?s ?t)\<lparr>status := READY, waiting_for := -1\<rparr>) ?s) = Inr s'"
      using assms(1) d Some by (simp add: wake_def Let_def)
    moreover have "one_level (set_tcb ?t ((tcbs ?s ?t)\<lparr>status := READY, waiting_for := -1\<rparr>) ?s)"
      using assms(2) by (simp add: priority_0)
    ultimately show ?thesis by (rule one_level_enqueue(3))
  qed
qed

lemma one_level_release: "release_threads sch p s = Inr s' \<Longrightarrow> one_level s \<Longrightarrow> one_level s'"
  using one_level_wake by (auto simp: release_threads_def split: if_splits)

lemma one_level_unblock_thread: "unblock_thread sch i s = Inr s' \<Longrightarrow> one_level s \<Longrightarrow> one_level s'"
  using one_level_wake by (auto simp: unblock_thread_def split: sum.splits option.splits)

lemma one_level_unblock_loop:
  assumes "unblock_loop sch p s = Some r"
  shows "one_level s \<longrightarrow> (\<forall>s'. r = Inr s' \<longrightarrow> one_level s')"
proof (rule unblock_loop.raw_induct [OF _ assms, where P = "\<lambda>sch p s r. one_level s \<longrightarrow> (\<forall>s'. r = Inr s' \<longrightarrow> one_level s')"])
  fix loop sch p s r
  assume IH: "\<And>a p s r. loop a p s = Some r \<Longrightarrow> one_level s \<longrightarrow> (\<forall>s'. r = Inr s' \<longrightarrow> one_level s')"
    and run: "(case p of None \<Rightarrow> Some (Inr s)
      | Some n \<Rightarrow> case unblock_thread sch (ids s (node_tcb (nodes s n))) s of Inl f \<Rightarrow> Some (Inl f)
          | Inr s' \<Rightarrow> loop sch (next_node (nodes s n)) s') = Some r"
  show "one_level s \<longrightarrow> (\<forall>s'. r = Inr s' \<longrightarrow> one_level s')"
  proof (cases p)
    case None
    then show ?thesis using run by auto
  next
    case (Some n)
    show ?thesis
    proof (cases "unblock_thread sch (ids s (node_tcb (nodes s n))) s")
      case (Inl f)
      then show ?thesis using run Some by auto
    next
      case (Inr s1)
      then have "loop sch (next_node (nodes s n)) s1 = Some r" using run Some by simp
      from IH [OF this] one_level_unblock_thread [OF Inr] show ?thesis by blast
    qed
  qed
qed

lemma one_level_unblock: "unblock_threads sch q s = Inr s' \<Longrightarrow> one_level s \<Longrightarrow> one_level s'"
  using one_level_unblock_loop by (auto simp: unblock_threads_def split: option.splits)

lemma one_level_dispatch: "dispatch n s = Inr s' \<Longrightarrow> one_level s \<Longrightarrow> one_level s'"
  by (auto simp: dispatch_def worker_ops Let_def priority_0 split: if_splits)

lemma one_level_resume: "resume_main s = Inr s' \<Longrightarrow> one_level s \<Longrightarrow> one_level s'"
  using one_level_enqueue(4) by (fastforce simp: resume_main_def priority_0 split: option.splits sum.splits if_splits)

text \<open>Boosting finds nothing to boost, and the next thread comes from the first level.\<close>

lemma pop_empty_level: "head (MLFQ_queue s ! k) = None \<Longrightarrow> pop_level k s = (None, s)"
  by (simp add: pop_level_def pop_from_queue_def)

lemma boost_levels_one_level:
  "set ks \<subseteq> {1..<MLFQ_LEVELS} \<Longrightarrow> one_level s \<Longrightarrow> boost_levels ks s = Inr s"
proof (induction ks)
  case (Cons k ks)
  have "boost_loop k s = Some (Inr s)"
    using Cons.prems by (subst boost_loop.simps) (simp add: pop_empty_level one_level_def)
  then show ?case using Cons by simp
qed simp

lemma boost_one_level: "one_level s \<Longrightarrow> boost_priority s = Inr s"
  unfolding boost_priority_def by (rule boost_levels_one_level) auto

lemma next_level_one_level:
  "set ks \<subseteq> {1..<MLFQ_LEVELS} \<Longrightarrow> one_level s \<Longrightarrow> next_level ks s = (None, s)"
  by (induction ks) (auto simp: one_level_def)

lemma one_level_pop: "pop_level 0 s = (n, s') \<Longrightarrow> one_level s \<Longrightarrow> one_level s'"
  by (auto simp: pop_level_def split: prod.splits)

lemma one_level_next: "get_next_thread_mlfq s = (n, s') \<Longrightarrow> one_level s \<Longrightarrow> one_level s'"
proof -
  assume run: "get_next_thread_mlfq s = (n, s')" and one: "one_level s"
  have "[0..<MLFQ_LEVELS] = 0 # [1..<MLFQ_LEVELS]" by (simp add: MLFQ_LEVELS_def upt_conv_Cons)
  then have "(if head (MLFQ_queue s ! 0) \<noteq> None then pop_level 0 s else (None, s)) = (n, s')"
    using run next_level_one_level [OF _ one, of "[1..<MLFQ_LEVELS]"] by (simp only: get_next_thread_mlfq_def next_level.simps) auto
  then show "one_level s'" using one one_level_pop by (auto split: if_splits)
qed

lemma demote_0 [simp]: "priority t = 0 \<Longrightarrow> demote t = t"
  by (simp add: demote_def)

lemma one_level_stats [simp]: "one_level s \<Longrightarrow> one_level (update_time_stats s)"
  by (simp add: update_time_stats_def Let_def)

lemma one_level_free_stack: "free_stack p s = Inr s' \<Longrightarrow> one_level s \<Longrightarrow> one_level s'"
  by (auto simp: free_stack_def split: if_splits)

lemma one_level_put_back: "put_back_mlfq s = Inr s' \<Longrightarrow> one_level s \<Longrightarrow> one_level s'"
  using one_level_release one_level_enqueue(1) one_level_free_stack
  by (fastforce simp: put_back_mlfq_def Let_def priority_0 split: if_splits sum.splits)

lemma one_level_boost: "boost_if_due s = Inr s' \<Longrightarrow> one_level s \<Longrightarrow> one_level s'"
  by (auto simp: boost_if_due_def boost_one_level split: if_splits)

lemma one_level_run: "run_mlfq n s = Inr s' \<Longrightarrow> one_level s \<Longrightarrow> one_level s'"
  using one_level_dispatch by (fastforce simp: run_mlfq_def worker_ops Let_def split: sum.splits)

lemma one_level_sched_mlfq: "sched_mlfq s = Inr s' \<Longrightarrow> one_level s \<Longrightarrow> one_level s'"
proof -
  assume run: "sched_mlfq s = Inr s'" and one: "one_level s"
  obtain s1 where s1: "put_back_mlfq (s\<lparr>schedule_cycles := schedule_cycles s + 1\<rparr>) = Inr s1"
    using run by (auto simp: sched_mlfq_def split: sum.splits)
  with run obtain s2 where s2: "boost_if_due s1 = Inr s2" by (auto simp: sched_mlfq_def split: sum.splits)
  obtain n s3 where s3: "get_next_thread_mlfq s2 = (n, s3)" by (metis surj_pair)
  have "one_level s3"
    using one_level_next [OF s3] one_level_boost [OF s2] one_level_put_back [OF s1] one by simp
  then show "one_level s'"
    using run s1 s2 s3 one_level_run [of _ s3 s'] one_level_resume [of "enable_signal s3" s']
    by (cases n) (simp_all add: sched_mlfq_def worker_ops)
qed

lemma one_level_schedule: "schedule mlfq s = Inr s' \<Longrightarrow> one_level s \<Longrightarrow> one_level s'"
  by (rule one_level_sched_mlfq, simp add: schedule_def Let_def worker_ops) (simp add: priority_0)

lemma one_level_yield: "worker_yield mlfq s = Inr s' \<Longrightarrow> one_level s \<Longrightarrow> one_level s'"
  using one_level_schedule by (fastforce simp: worker_yield_def disable_signal_def)

lemma one_level_exit: "worker_exit mlfq v s = Inr s' \<Longrightarrow> one_level s \<Longrightarrow> one_level s'"
  using one_level_yield by (fastforce simp: worker_exit_def Let_def disable_signal_def priority_0 split: if_splits)

lemma one_level_join: "worker_join mlfq t s = Inr (r, v, s') \<Longrightarrow> one_level s \<Longrightarrow> one_level s'"
  using one_level_yield one_level_enqueue(2)
  by (fastforce simp: worker_join_def Let_def worker_ops priority_0 split: if_splits sum.splits option.splits)

lemma one_level_mutex [simp]: "one_level (set_mutex m x s) = one_level s"
  by (simp add: set_mutex_def)

lemma one_level_lock: "worker_mutex_lock mlfq m s = Inr (r, s') \<Longrightarrow> one_level s \<Longrightarrow> one_level s'"
  using one_level_yield one_level_enqueue(2)
  by (fastforce simp: worker_mutex_lock_def Let_def priority_0 split: if_splits sum.splits option.splits)

lemma one_level_unlock: "worker_mutex_unlock mlfq m s = Inr (r, s') \<Longrightarrow> one_level s \<Longrightarrow> one_level s'"
  using one_level_unblock
  by (fastforce simp: worker_mutex_unlock_def Let_def split: if_splits sum.splits option.splits)

lemma one_level_mutex_init: "worker_mutex_init m s = Inr (r, s') \<Longrightarrow> one_level s \<Longrightarrow> one_level s'"
  by (auto simp: worker_mutex_init_def Let_def worker_ops split: if_splits sum.splits option.splits)

lemma one_level_init: "init_worker s = Inr s' \<Longrightarrow> one_level s \<Longrightarrow> one_level s'"
  by (auto simp: init_worker_def Let_def worker_ops split: if_splits)

lemma one_level_create_main: "create_main s = Inr (b, s') \<Longrightarrow> one_level s \<Longrightarrow> one_level s'"
  using one_level_init one_level_enqueue(4)
  by (fastforce simp: create_main_def Let_def worker_ops split: if_splits sum.splits)

lemma one_level_create:
  assumes "worker_create sch s = Inr (r, s')" and "one_level s"
  shows "one_level s'"
proof -
  obtain b s1 where s1: "(if thread_count s = 0 then create_main s else Inr (True, s)) = Inr (b, s1)"
    using assms(1) by (auto simp: worker_create_def split: sum.splits)
  then have "one_level s1" using one_level_create_main assms(2) by (auto split: if_splits)
  then show ?thesis
    using assms(1) s1 one_level_enqueue(3,4)
    by (cases b) (fastforce simp: worker_create_def Let_def worker_ops split: if_splits sum.splits)+
qed

inductive_cases wstepE: "wstep sch s s'"

lemma one_level_step: "wstep mlfq s s' \<Longrightarrow> one_level s \<Longrightarrow> one_level s'"
proof (induction rule: wstep.induct)
  case (w_tick s s')
  then show ?case using one_level_schedule by (auto simp: interrupt_handler_def split: if_splits)
next
  case (w_main_end s s')
  then have "one_level (set_tcb (running_thread s) ((tcbs s (running_thread s))\<lparr>status := FINISHED\<rparr>) s)"
    by (simp add: priority_0)
  then show ?case using w_main_end one_level_schedule by (simp add: worker_finished_def)
qed (blast dest: one_level_create one_level_yield one_level_exit one_level_join one_level_mutex_init one_level_lock
      one_level_unlock)+

text \<open>C15: With the feedback queues no thread is ever demoted: from a state in which all priorities are 0
  and the lower queues are empty, whatever the threads do and however they are interrupted, the
  priorities stay 0 and the lower queues stay empty, so the scheduler is a single queue.\<close>

theorem mlfq_never_demotes:
  assumes "wreach mlfq s s'" and "one_level s"
  shows "(\<forall>p. priority (tcbs s' p) = 0) \<and> (\<forall>k \<in> {1..<MLFQ_LEVELS}. head (MLFQ_queue s' ! k) = None)"
proof -
  have "one_level s'" using assms by (induction rule: wreach.induct) (auto intro: one_level_step)
  then show ?thesis by (simp add: one_level_def)
qed

text \<open>The state of a process that starts: static variables are zero.  The clock, the answers of \<open>malloc\<close> and
  \<open>getcontext\<close>, and what fresh memory holds are parameters.\<close>

definition idle_tcb :: tcb where
  "idle_tcb = \<lparr>tid = 0, status = READY, stack = 0, priority = 0, waiting_thread = 0, waiting_for = 0, first_schedule = False,
     created = zero_time, first_run = zero_time, finished = zero_time, time_on_cpu = 0, mutex_blocked = False,
     blocked_from_mutex = None\<rparr>"

definition no_queue :: queue where
  "no_queue = \<lparr>head = None, tail = None\<rparr>"

definition process_start :: "(nat \<Rightarrow> timeval) \<Rightarrow> (nat \<Rightarrow> bool) \<Rightarrow> queue \<Rightarrow> ptr \<Rightarrow> rat \<Rightarrow> worker" where
  "process_start clock ok q p t = \<lparr>thread_count = 0, active_threads = 0, ready_queue = no_queue, waiting_queue = no_queue,
     MLFQ_queue = replicate 4 no_queue, running_thread = 0, running_node = 0, main_thread = None,
     return_values = (\<lambda>_. 0), mutex_count = 0, interrupt_disabled = False, schedule_timestamp = zero_time,
     avg_turnaround = 0, avg_response = 0, schedule_cycles = 0, timer_usec = 0,
     nodes = (\<lambda>_. \<lparr>node_tcb = 0, next_node = None\<rparr>), tcbs = (\<lambda>_. idle_tcb),
     mutexes = (\<lambda>_. \<lparr>is_locked = False, mutex_id = 0, wait_queue = no_queue, owner = 0\<rparr>),
     fresh = 1, stacks = {}, freed = {}, garbage_queue = q, garbage_stack = p, garbage_time = t, now = clock, ticks = 0,
     call_ok = ok, calls = 0\<rparr>"

text \<open>The one of the examples.\<close>

definition worker_start :: worker where
  "worker_start = process_start (\<lambda>n. \<lparr>tv_sec = 0, tv_usec = int n\<rparr>) (\<lambda>_. True) no_queue 0 0"

lemmas start_defs = worker_start_def process_start_def

theorem mlfq_never_demotes_witness:
  "\<exists>r s'. worker_create mlfq worker_start = Inr (r, s') \<and> thread_count s' = 2 \<and> priority (tcbs s' 3) = 0"
proof -
  have one: "one_level worker_start"
    by (simp add: one_level_def start_defs idle_tcb_def no_queue_def MLFQ_LEVELS_def nth_Cons')
  obtain r s' where run: "worker_create mlfq worker_start = Inr (r, s')" "thread_count s' = 2"
    by (simp add: worker_create_def create_main_def init_worker_def create_node_def enqueue_ready_def enqueue_level_def
        enqueue_def worker_ops Let_def start_defs set_tcb_def no_queue_def)
  have "wreach mlfq worker_start s'" by (rule w_trans [OF w_refl w_create [OF run(1)]])
  from mlfq_never_demotes [OF this one] run show ?thesis by auto
qed

subsection \<open>Round robin\<close>

text \<open>The node \<open>r\<close> runs and the nodes \<open>xs\<close> are ready, in this order; no thread has two of these nodes.\<close>

definition rr_ok :: "worker \<Rightarrow> ptr \<Rightarrow> ptr list \<Rightarrow> bool" where
  "rr_ok s r xs \<longleftrightarrow> holds (nodes s) (ready_queue s) xs \<and> running_node s = r \<and> r \<notin> set xs \<and> loose_node (nodes s) r
     \<and> running_thread s = tcb_of (nodes s) r \<and> status (tcbs s (tcb_of (nodes s) r)) = RUNNING
     \<and> (\<forall>x \<in> set xs. status (tcbs s (tcb_of (nodes s) x)) = READY \<and> tcb_of (nodes s) x \<noteq> tcb_of (nodes s) r)
     \<and> inj_on (tcb_of (nodes s)) (set xs)"

lemma rr_inj: "rr_ok s r xs \<Longrightarrow> inj_on (tcb_of (nodes s)) (set (r # xs))"
  by (auto simp: rr_ok_def)

lemma dispatch_ready:
  assumes "status (tcbs s (tcb_of (nodes s) n)) = READY"
  shows "\<exists>s'. dispatch n s = Inr s' \<and> running_node s' = n \<and> running_thread s' = tcb_of (nodes s) n
    \<and> status (tcbs s' (tcb_of (nodes s) n)) = RUNNING \<and> (\<forall>t. t \<noteq> tcb_of (nodes s) n \<longrightarrow> tcbs s' t = tcbs s t)
    \<and> nodes s' = nodes s \<and> ready_queue s' = ready_queue s"
  using assms by (auto simp: dispatch_def Let_def worker_ops set_tcb_def tcb_of_def)

lemma put_back_running:
  assumes "rr_ok s r xs"
  shows "\<exists>s1 x ys s2. xs @ [r] = x # ys \<and> put_back_rr s = Inr s1 \<and> pop_ready s1 = (Some x, s2)
    \<and> holds (nodes s2) (ready_queue s2) ys \<and> loose_node (nodes s2) x \<and> x \<notin> set ys \<and> tcb_of (nodes s2) = tcb_of (nodes s)
    \<and> (\<forall>y \<in> set (r # xs). status (tcbs s2 (tcb_of (nodes s) y)) = READY)"
proof -
  let ?r = "running_thread s"
  have R: "holds (nodes s) (ready_queue s) xs" "r \<notin> set xs" "loose_node (nodes s) r" "running_node s = r"
      "?r = tcb_of (nodes s) r" "status (tcbs s ?r) = RUNNING"
    using assms by (simp_all add: rr_ok_def)
  obtain q1 h1 q2 h2 x ys where t: "xs @ [r] = x # ys" "enqueue (ready_queue s) r (nodes s) = Inr (q1, h1)"
      "pop_from_queue q1 h1 = (Some x, q2, h2)" "holds h2 q2 ys" "loose_node h2 x" "x \<notin> set ys" "tcb_of h2 = tcb_of (nodes s)"
    using wq.turn [OF R(1-3)] by blast
  define s1 where "s1 = (set_tcb ?r ((tcbs s ?r)\<lparr>status := READY\<rparr>) s)\<lparr>ready_queue := q1, nodes := h1\<rparr>"
  define s2 where "s2 = s1\<lparr>ready_queue := q2, nodes := h2\<rparr>"
  have "put_back_rr s = Inr s1"
    using R(4,6) t(2) by (simp add: put_back_rr_def Let_def enqueue_ready_def s1_def set_tcb_def)
  moreover have "pop_ready s1 = (Some x, s2)" using t(3) by (simp add: pop_ready_def s1_def s2_def)
  moreover have "status (tcbs s2 (tcb_of (nodes s) y)) = READY" if "y \<in> set (r # xs)" for y
    using that assms by (auto simp: rr_ok_def s2_def s1_def set_tcb_def)
  ultimately show ?thesis using t by (intro exI [of _ s1] exI [of _ x] exI [of _ ys] exI [of _ s2]) (simp add: s2_def)
qed

lemma sched_rr_turns:
  assumes "rr_ok s r xs"
  shows "\<exists>x ys s'. xs @ [r] = x # ys \<and> sched_rr s = Inr s' \<and> rr_ok s' x ys \<and> tcb_of (nodes s') = tcb_of (nodes s)"
proof -
  have ok: "rr_ok (disable_signal s) r xs" using assms by (simp add: rr_ok_def disable_signal_def)
  obtain s1 x ys s2 where t: "xs @ [r] = x # ys" "put_back_rr (disable_signal s) = Inr s1" "pop_ready s1 = (Some x, s2)"
      "holds (nodes s2) (ready_queue s2) ys" "loose_node (nodes s2) x" "x \<notin> set ys" "tcb_of (nodes s2) = tcb_of (nodes s)"
      "\<forall>y \<in> set (r # xs). status (tcbs s2 (tcb_of (nodes s) y)) = READY"
    using put_back_running [OF ok] by (auto simp: disable_signal_def)
  have same: "set (r # xs) = set (x # ys)" using t(1) by (metis Un_commute set_append list.set(2) insert_is_Un empty_set)
  then have "status (tcbs s2 (tcb_of (nodes s2) x)) = READY" using t(7,8) by simp
  from dispatch_ready [OF this] obtain s3 where s3: "dispatch x s2 = Inr s3" "running_node s3 = x"
      "running_thread s3 = tcb_of (nodes s2) x" "status (tcbs s3 (tcb_of (nodes s2) x)) = RUNNING"
      "\<forall>t. t \<noteq> tcb_of (nodes s2) x \<longrightarrow> tcbs s3 t = tcbs s2 t" "nodes s3 = nodes s2" "ready_queue s3 = ready_queue s2"
    by blast
  have inj: "inj_on (tcb_of (nodes s)) (set (x # ys))" using rr_inj [OF assms] by (simp only: same)
  have "status (tcbs s3 (tcb_of (nodes s) y)) = READY \<and> tcb_of (nodes s) y \<noteq> tcb_of (nodes s) x" if "y \<in> set ys" for y
  proof -
    have "y \<noteq> x" using that t(6) by auto
    then have "tcb_of (nodes s) y \<noteq> tcb_of (nodes s) x" using that inj by (auto simp: inj_on_def)
    moreover from this have "tcbs s3 (tcb_of (nodes s) y) = tcbs s2 (tcb_of (nodes s) y)" using s3(5) t(7) by simp
    moreover have "y \<in> set (r # xs)" using that by (simp only: same) simp
    with t(8) have "status (tcbs s2 (tcb_of (nodes s) y)) = READY" by (rule bspec)
    ultimately show ?thesis by simp
  qed
  then have ok3: "rr_ok s3 x ys" using s3(1-4,6,7) t(4-7) inj by (simp add: rr_ok_def)
  define s' where "s' = s3\<lparr>interrupt_disabled := False, timer_usec := TIME_SLICE * 1000 smod 100000, ticks := Suc (ticks s3),
    schedule_timestamp := now s3 (ticks s3)\<rparr>"
  have "sched_rr s = Inr s'" using t(2,3) s3(1) by (simp add: sched_rr_def worker_ops Let_def s'_def)
  moreover have "rr_ok s' x ys" using ok3 by (simp add: rr_ok_def s'_def)
  ultimately show ?thesis using t(1,7) s3(6) by (auto simp: s'_def)
qed

lemma yield_turns:
  assumes "rr_ok s r xs"
  shows "\<exists>x ys s'. xs @ [r] = x # ys \<and> worker_yield rr s = Inr s' \<and> rr_ok s' x ys \<and> tcb_of (nodes s') = tcb_of (nodes s)"
proof -
  let ?r = "running_thread s"
  define s1 where "s1 = (set_tcb ?r ((tcbs s ?r)\<lparr>finished := now s (ticks s),
      time_on_cpu := time_on_cpu (tcbs s ?r) + elapsed_ms (schedule_timestamp s) (now s (ticks s))\<rparr>)
    (s\<lparr>ticks := Suc (ticks s)\<rparr>))\<lparr>interrupt_disabled := False\<rparr>"
  have "rr_ok s1 r xs" using assms by (auto simp: rr_ok_def s1_def set_tcb_def)
  moreover have "worker_yield rr s = sched_rr s1"
    by (simp add: worker_yield_def schedule_def worker_ops Let_def s1_def set_tcb_def)
  ultimately show ?thesis using sched_rr_turns [of s1 r xs] by (simp add: s1_def set_tcb_def)
qed

primrec yields :: "nat \<Rightarrow> worker \<Rightarrow> worker result" where
  "yields 0 s = Inr s"
| "yields (Suc k) s = (case worker_yield rr s of Inl f \<Rightarrow> Inl f | Inr s' \<Rightarrow> yields k s')"

lemma yields_rotate:
  assumes "rr_ok s r xs"
  shows "\<exists>s'. yields k s = Inr s' \<and> rr_ok s' (hd (rotate k (r # xs))) (tl (rotate k (r # xs))) \<and> tcb_of (nodes s') = tcb_of (nodes s)"
  using assms
proof (induction k arbitrary: s r xs)
  case (Suc k)
  from yield_turns [OF Suc.prems] obtain x ys s1 where y: "xs @ [r] = x # ys" "worker_yield rr s = Inr s1" "rr_ok s1 x ys"
      "tcb_of (nodes s1) = tcb_of (nodes s)" by blast
  have "rotate k (x # ys) = rotate (Suc k) (r # xs)" using y(1) by (metis rotate1.simps(2) rotate1_rotate_swap rotate_Suc)
  then show ?case using Suc.IH [OF y(3)] y(2,4) by auto
qed simp

text \<open>C16: Under round robin every ready thread gets its turn: when the running thread and its successors do
  nothing but yield (or are interrupted), the threads run in the order of the ready queue, one after the other, and
  after as many switches as there are threads the first one runs again.\<close>

theorem rr_turns:
  assumes "rr_ok s r xs"
  shows "\<exists>s'. yields k s = Inr s' \<and> running_node s' = (r # xs) ! (k mod Suc (length xs))
    \<and> running_thread s' = tcb_of (nodes s) ((r # xs) ! (k mod Suc (length xs)))"
proof -
  obtain s' where s': "yields k s = Inr s'" "rr_ok s' (hd (rotate k (r # xs))) (tl (rotate k (r # xs)))"
      "tcb_of (nodes s') = tcb_of (nodes s)"
    using yields_rotate [OF assms] by blast
  have "hd (rotate k (r # xs)) = (r # xs) ! (k mod Suc (length xs))"
    using hd_rotate_conv_nth [of "r # xs" k] by simp
  then show ?thesis using s' by (auto simp: rr_ok_def)
qed

lemma two_threads:
  "\<exists>s. worker_create rr worker_start = Inr (1, s) \<and> rr_ok s 2 [5] \<and> tcb_of (nodes s) 2 = 1 \<and> tcb_of (nodes s) 5 = 3
    \<and> ids s 1 = 0 \<and> ids s 3 = 1 \<and> waiting_queue s = no_queue \<and> thread_count s = 2 \<and> waiting_thread (tcbs s 3) = -1"
  by (simp add: worker_create_def create_main_def init_worker_def create_node_def enqueue_ready_def enqueue_def worker_ops
      Let_def start_defs set_tcb_def no_queue_def rr_ok_def holds_def loose_node_def tcb_of_def ids_def)

theorem rr_turns_witness:
  "\<exists>s s'. worker_create rr worker_start = Inr (1, s) \<and> yields 3 s = Inr s' \<and> running_thread s = 1 \<and> running_thread s' = 3"
proof -
  obtain s where s: "worker_create rr worker_start = Inr (1, s)" "rr_ok s 2 [5]" "tcb_of (nodes s) 2 = 1" "tcb_of (nodes s) 5 = 3"
    using two_threads by blast
  have "running_thread s = 1" using s(2,3) by (simp add: rr_ok_def)
  moreover have "3 mod Suc (length [5 :: nat]) = (1 :: nat)" by code_simp
  then have "[2, 5 :: nat] ! (3 mod Suc (length [5 :: nat])) = 5" by simp
  ultimately show ?thesis using rr_turns [OF s(2), of 3] s(1,4) by auto
qed

subsection \<open>Joining\<close>

text \<open>C34: Under round robin a join waits only for a thread that is in the ready queue.  On any other existing thread with a number below 10000, in particular
  one that is blocked on a mutex or in a join of its own, it returns 0 at once, as if that thread had
  finished, and no thread changes.\<close>

theorem join_does_not_wait:
  assumes "holds (nodes s) (ready_queue s) xs" and "\<forall>x \<in> set xs. \<not> carries (ids s) i (nodes s) x"
    and "i \<le> thread_count s" and "unat i < 10000"
  shows "worker_join rr i s = Inr (Returned 0, Some (return_values s (unat i)), s\<lparr>interrupt_disabled := False\<rparr>)"
proof -
  have "ids (disable_signal s) = ids s" by (simp add: ids_def disable_signal_def fun_eq_iff)
  moreover obtain r where "find_thread (ids s) (ready_queue s) i (nodes s) = Inr r" "r = None"
    using find_thread_holds [OF assms(1), of "ids s" i] assms(2) by auto
  ultimately show ?thesis
    using assms(3,4) by (simp add: worker_join_def find_ready_threads_def worker_ops word_le_nat_alt)
qed

lemma blocked_main:
  "\<exists>s s1. worker_create rr worker_start = Inr (1, s) \<and> worker_join rr 1 s = Inr (Switched, None, s1)
    \<and> status (tcbs s1 1) = BLOCKED \<and> ids s1 1 = 0 \<and> holds (nodes s1) (ready_queue s1) [] \<and> thread_count s1 = 2
    \<and> return_values s1 0 = 0"
  by (simp add: worker_create_def create_main_def init_worker_def create_node_def enqueue_ready_def enqueue_def worker_ops
      Let_def start_defs set_tcb_def no_queue_def holds_def ids_def worker_join_def find_ready_threads_def find_thread_def
      find_node.simps enqueue_waiting_def worker_yield_def schedule_def sched_rr_def put_back_rr_def pop_ready_def
      pop_from_queue_def dispatch_def)

theorem join_does_not_wait_witness:
  "\<exists>s s1. worker_create rr worker_start = Inr (1, s) \<and> worker_join rr 1 s = Inr (Switched, None, s1)
    \<and> status (tcbs s1 1) = BLOCKED \<and> ids s1 1 = 0
    \<and> worker_join rr 0 s1 = Inr (Returned 0, Some 0, s1\<lparr>interrupt_disabled := False\<rparr>)"
proof -
  obtain s s1 where s: "worker_create rr worker_start = Inr (1, s)" "worker_join rr 1 s = Inr (Switched, None, s1)"
      "status (tcbs s1 1) = BLOCKED" "ids s1 1 = 0" "holds (nodes s1) (ready_queue s1) []" "thread_count s1 = 2"
      "return_values s1 0 = 0"
    using blocked_main by blast
  then show ?thesis using join_does_not_wait [OF s(5), of 0] by auto
qed

end
