(* ===== verification/Wk_Pool.thy ===== *)
theory Wk_Pool
  imports Wk_Sched Simulation
begin

text \<open>
  The thread library (\<open>Level - 2/worker.c\<close>) under round robin as a whole: creating threads, yielding, the
  timer, exits and joins, for processes that choose the next call by what the calls before have answered.  The
  specification is a queue of thread numbers; the proof relates it to the nodes, control blocks and queues.
  \<open>Wk_Mlfq\<close> carries the result over to the feedback queues.
\<close>

subsection \<open>The interface\<close>

datatype wk_op =
    Spawn
  | Yield
  | Tick
  | Quit nat
  | Join "32 word"

text \<open>What a call gives: the number of the new thread, the thread that runs now, or a result of the caller.\<close>

datatype wk_reply =
    Made int
  | Runs "32 word"
  | Value int "nat option"

definition runs_now :: "worker \<Rightarrow> wk_reply \<times> worker" where
  "runs_now s = (Runs (ids s (running_thread s)), s)"

primrec wk_call :: "scheduler \<Rightarrow> wk_op \<Rightarrow> worker \<Rightarrow> (wk_reply \<times> worker) result" where
  "wk_call sch Spawn s = map_sum id (\<lambda>(i, s). (Made i, s)) (worker_create sch s)"
| "wk_call sch Yield s = map_sum id runs_now (worker_yield sch s)"
| "wk_call sch Tick s = map_sum id runs_now (interrupt_handler sch s)"
| "wk_call sch (Quit v) s = map_sum id runs_now (worker_exit sch v s)"
| "wk_call sch (Join i) s = map_sum id (\<lambda>(r, v, s). case r of Switched \<Rightarrow> runs_now s | Returned k \<Rightarrow> (Value k v, s)) (worker_join sch i s)"

subsection \<open>The specification\<close>

text \<open>The running thread, the ready ones in order, who waits for whom, how many threads were made, and what they returned.\<close>

record pool =
  current :: "32 word"
  queued :: "32 word list"
  waiter :: "(32 word \<times> 32 word) option"
  made :: nat
  results :: "nat \<Rightarrow> nat"

definition waiting_ids :: "pool \<Rightarrow> 32 word list" where
  "waiting_ids P = (case waiter P of None \<Rightarrow> [] | Some (w, t) \<Rightarrow> [w])"

definition joiner :: "pool \<Rightarrow> 32 word \<Rightarrow> 32 word" where
  "joiner P i = (case waiter P of None \<Rightarrow> -1 | Some (w, t) \<Rightarrow> if i = t then w else -1)"

lemma pool_updates [simp]:
  "waiting_ids (P\<lparr>current := i\<rparr>) = waiting_ids P" "waiting_ids (P\<lparr>queued := is\<rparr>) = waiting_ids P"
  "waiting_ids (P\<lparr>made := n\<rparr>) = waiting_ids P" "waiting_ids (P\<lparr>results := f\<rparr>) = waiting_ids P"
  "joiner (P\<lparr>current := i\<rparr>) = joiner P" "joiner (P\<lparr>queued := is\<rparr>) = joiner P"
  "joiner (P\<lparr>made := n\<rparr>) = joiner P" "joiner (P\<lparr>results := f\<rparr>) = joiner P"
  by (simp_all add: waiting_ids_def joiner_def fun_eq_iff)

text \<open>Those that the end of the running thread makes ready.\<close>

definition woken :: "pool \<Rightarrow> 32 word list" where
  "woken P = (case waiter P of None \<Rightarrow> [] | Some (w, t) \<Rightarrow> if t = current P then [w] else [])"

inductive pool_step :: "pool \<Rightarrow> wk_op \<Rightarrow> wk_reply \<Rightarrow> pool \<Rightarrow> bool" where
  spawn: "pool_step P Spawn (Made (int (made P))) (P\<lparr>queued := queued P @ [of_nat (made P)], made := Suc (made P)\<rparr>)"
| turn: "queued P @ [current P] = x # ys \<Longrightarrow> c = Yield \<or> c = Tick \<Longrightarrow> pool_step P c (Runs x) (P\<lparr>current := x, queued := ys\<rparr>)"
| quit: "queued P @ woken P = x # ys \<Longrightarrow> pool_step P (Quit v) (Runs x)
    (P\<lparr>current := x, queued := ys, waiter := (if woken P = [] then waiter P else None),
       results := (if v = 0 then results P else (results P)(unat (current P) := v))\<rparr>)"
| join: "i \<in> set (queued P) \<Longrightarrow> queued P = x # ys
    \<Longrightarrow> pool_step P (Join i) (Runs x) (P\<lparr>current := x, queued := ys, waiter := Some (current P, i)\<rparr>)"
| join_finished: "i \<notin> set (queued P) \<Longrightarrow> pool_step P (Join i) (Value 0 (Some (results P (unat i)))) P"

text \<open>
  A process may make up to 10000 threads, the last running thread does not exit, one thread waits at a time (with
  two, the waiting queue would lose one), and a join names a ready thread or one that has finished.
\<close>

primrec pool_allows :: "pool \<Rightarrow> wk_op \<Rightarrow> bool" where
  "pool_allows P Spawn \<longleftrightarrow> made P < 10000"
| "pool_allows P Yield \<longleftrightarrow> True"
| "pool_allows P Tick \<longleftrightarrow> True"
| "pool_allows P (Quit v) \<longleftrightarrow> queued P @ woken P \<noteq> []"
| "pool_allows P (Join i) \<longleftrightarrow> (if i \<in> set (queued P) then waiter P = None
     else unat i < made P \<and> i \<noteq> current P \<and> i \<notin> set (waiting_ids P))"

subsection \<open>The abstraction\<close>

definition id_of :: "worker \<Rightarrow> ptr \<Rightarrow> 32 word" where
  "id_of s x = ids s (tcb_of (nodes s) x)"

text \<open>The nodes \<open>ns\<close> carry the threads \<open>is\<close>, all with this status and marked with the thread that waits for them.\<close>

definition threads :: "worker \<Rightarrow> ptr list \<Rightarrow> thread_status \<Rightarrow> 32 word list \<Rightarrow> pool \<Rightarrow> bool" where
  "threads s ns st is P \<longleftrightarrow> map (id_of s) ns = is
     \<and> (\<forall>x \<in> set ns. status (tcbs s (tcb_of (nodes s) x)) = st \<and> waiting_thread (tcbs s (tcb_of (nodes s) x)) = joiner P (id_of s x)
          \<and> x < fresh s \<and> tcb_of (nodes s) x < fresh s \<and> tcb_of (nodes s) x \<notin> freed s)"

definition globals_ok :: "worker \<Rightarrow> pool \<Rightarrow> bool" where
  "globals_ok s P \<longleftrightarrow> unat (thread_count s) = made P \<and> 0 < made P \<and> made P \<le> 10000 \<and> call_ok s = (\<lambda>_. True)
     \<and> return_values s = results P \<and> (\<forall>t \<in> freed s. t < fresh s)"

definition parked :: "worker \<Rightarrow> ptr list \<Rightarrow> ptr list \<Rightarrow> pool \<Rightarrow> bool" where
  "parked s xs ws P \<longleftrightarrow> holds (nodes s) (ready_queue s) xs \<and> holds (nodes s) (waiting_queue s) ws
     \<and> threads s xs READY (queued P) P \<and> threads s ws BLOCKED (waiting_ids P) P
     \<and> distinct (queued P @ waiting_ids P) \<and> (\<forall>i \<in> set (queued P @ waiting_ids P). unat i < made P) \<and> globals_ok s P"

text \<open>The running thread on its node; its status is RUNNING between the calls.\<close>

definition runs_as :: "worker \<Rightarrow> ptr \<Rightarrow> thread_status \<Rightarrow> pool \<Rightarrow> bool" where
  "runs_as s r st P \<longleftrightarrow> running_node s = r \<and> running_thread s = tcb_of (nodes s) r \<and> loose_node (nodes s) r
     \<and> threads s [r] st [current P] P \<and> unat (current P) < made P"

definition pool_ok :: "worker \<Rightarrow> ptr \<Rightarrow> thread_status \<Rightarrow> ptr list \<Rightarrow> ptr list \<Rightarrow> pool \<Rightarrow> bool" where
  "pool_ok s r st xs ws P \<longleftrightarrow> parked s xs ws P \<and> runs_as s r st P \<and> current P \<notin> set (queued P @ waiting_ids P)"

definition pool_rel :: "worker \<Rightarrow> pool \<Rightarrow> bool" where
  "pool_rel s P \<longleftrightarrow> \<not> interrupt_disabled s \<and> (\<forall>w t. waiter P = Some (w, t) \<longrightarrow> t \<in> set (current P # queued P))
     \<and> (\<exists>r xs ws. pool_ok s r RUNNING xs ws P)"

subsection \<open>Frames\<close>

lemma holds_frame: "(\<And>x. x \<in> set xs \<Longrightarrow> next_node (h' x) = next_node (h x)) \<Longrightarrow> holds h q xs \<Longrightarrow> holds h' q xs"
  using chain_frame [of xs h' h] by (simp add: holds_def)

text \<open>Two states that agree on the threads in question.\<close>

lemma threads_frame:
  assumes "threads s ns st is P" and "\<And>x. x \<in> set ns \<Longrightarrow> tcb_of (nodes s') x = tcb_of (nodes s) x" and "fresh s \<le> fresh s'"
    and "\<And>x. x \<in> set ns \<Longrightarrow> ids s' (tcb_of (nodes s) x) = ids s (tcb_of (nodes s) x)
      \<and> status (tcbs s' (tcb_of (nodes s) x)) = st
      \<and> waiting_thread (tcbs s' (tcb_of (nodes s) x)) = joiner P' (id_of s x) \<and> tcb_of (nodes s) x \<notin> freed s'"
  shows "threads s' ns st is P'"
proof -
  have "id_of s' x = id_of s x" if "x \<in> set ns" for x using assms(2) [OF that] assms(4) [OF that] by (simp add: id_of_def)
  moreover from this have "map (id_of s') ns = is" using assms(1) by (auto simp: threads_def)
  ultimately show ?thesis using assms unfolding threads_def by fastforce
qed

lemma threads_append: "threads s (xs @ ys) st (is @ js) P \<longleftrightarrow> threads s xs st is P \<and> threads s ys st js P"
  if "length xs = length is"
  using that by (auto simp: threads_def)

lemma threads_Cons: "threads s (x # ys) st (i # js) P \<longleftrightarrow> threads s [x] st [i] P \<and> threads s ys st js P"
  by (auto simp: threads_def)

lemma threads_length: "threads s ns st is P \<Longrightarrow> length ns = length is"
  by (auto simp: threads_def)

lemma threads_id: "threads s ns st is P \<Longrightarrow> x \<in> set ns \<Longrightarrow> id_of s x \<in> set is"
  by (auto simp: threads_def)

text \<open>Threads with different numbers have different nodes and control blocks.\<close>

lemma id_differs: "id_of s x \<noteq> id_of s y \<Longrightarrow> x \<noteq> y \<and> tcb_of (nodes s) x \<noteq> tcb_of (nodes s) y"
  by (auto simp: id_of_def)

lemma threads_apart:
  assumes "threads s xs st is P" and "threads s ys st' js P" and "set is \<inter> set js = {}" and "x \<in> set xs" and "y \<in> set ys"
  shows "x \<noteq> y \<and> tcb_of (nodes s) x \<noteq> tcb_of (nodes s) y"
  using assms threads_id id_differs by (metis disjoint_iff)

text \<open>What the relation looks at.\<close>

definition same_view :: "worker \<Rightarrow> worker \<Rightarrow> bool" where
  "same_view s s' \<longleftrightarrow> nodes s' = nodes s \<and> ready_queue s' = ready_queue s \<and> waiting_queue s' = waiting_queue s \<and> fresh s' = fresh s
     \<and> freed s' = freed s
     \<and> thread_count s' = thread_count s \<and> call_ok s' = call_ok s \<and> return_values s' = return_values s
     \<and> (\<forall>t. tid (tcbs s' t) = tid (tcbs s t) \<and> status (tcbs s' t) = status (tcbs s t)
          \<and> waiting_thread (tcbs s' t) = waiting_thread (tcbs s t))"

lemma view_threads: "same_view s s' \<Longrightarrow> threads s' ns st is P = threads s ns st is P"
proof -
  assume v: "same_view s s'"
  then have "id_of s' x = id_of s x" for x by (simp add: id_of_def ids_def same_view_def)
  then have "id_of s' = id_of s" by (rule ext)
  then show ?thesis using v by (simp add: threads_def same_view_def)
qed

lemma view_parked: "same_view s s' \<Longrightarrow> parked s' xs ws P = parked s xs ws P"
  using view_threads [of s s'] by (simp add: parked_def globals_ok_def same_view_def)

lemma view_pool:
  "same_view s s' \<Longrightarrow> running_node s' = running_node s \<Longrightarrow> running_thread s' = running_thread s
    \<Longrightarrow> pool_ok s' r st xs ws P = pool_ok s r st xs ws P"
  using view_threads [of s s'] view_parked [of s s'] by (simp add: pool_ok_def runs_as_def same_view_def)

subsection \<open>Switching\<close>

definition stamped :: "worker \<Rightarrow> worker" where
  "stamped s = (set_tcb (running_thread s) ((tcbs s (running_thread s))\<lparr>finished := now s (ticks s),
      time_on_cpu := time_on_cpu (tcbs s (running_thread s)) + elapsed_ms (schedule_timestamp s) (now s (ticks s))\<rparr>)
    (s\<lparr>ticks := Suc (ticks s)\<rparr>))\<lparr>interrupt_disabled := False\<rparr>"

lemma schedule_stamped: "schedule rr s = sched_rr (stamped s)" "worker_yield rr s = sched_rr (stamped s)"
  by (simp_all add: worker_yield_def schedule_def worker_ops Let_def stamped_def set_tcb_def)

lemma view_stamped [simp]: "same_view s (disable_signal (stamped s))"
  "running_node (disable_signal (stamped s)) = running_node s" "running_thread (disable_signal (stamped s)) = running_thread s"
  by (simp_all add: same_view_def stamped_def set_tcb_def disable_signal_def)

lemma dispatch_view:
  assumes "status (tcbs s (tcb_of (nodes s) n)) = READY" and "t = tcb_of (nodes s) n"
  shows "\<exists>t' k. dispatch n s = Inr (s\<lparr>tcbs := (tcbs s)(t := t'), running_node := n, running_thread := t, ticks := k\<rparr>)
    \<and> tid t' = tid (tcbs s t) \<and> waiting_thread t' = waiting_thread (tcbs s t) \<and> status t' = RUNNING"
proof (cases "first_schedule (tcbs s t)")
  case True
  let ?t = "(tcbs s t)\<lparr>status := RUNNING, first_run := now s (ticks s), first_schedule := False\<rparr>"
  show ?thesis using True assms
    by (intro exI [of _ ?t] exI [of _ "Suc (ticks s)"]) (simp add: dispatch_def Let_def worker_ops set_tcb_def tcb_of_def)
next
  case False
  show ?thesis using False assms
    by (intro exI [of _ "(tcbs s t)\<lparr>status := RUNNING\<rparr>"] exI [of _ "ticks s"])
      (simp add: dispatch_def Let_def worker_ops set_tcb_def tcb_of_def)
qed

lemma next_thread:
  assumes put: "put_back_rr (disable_signal s) = Inr s1" and park: "parked s1 (x # ys) ws P" and q: "queued P = i # js"
  shows "\<exists>s'. sched_rr s = Inr s' \<and> pool_ok s' x RUNNING ys ws (P\<lparr>current := i, queued := js\<rparr>) \<and> \<not> interrupt_disabled s'"
proof -
  have K: "holds (nodes s1) (ready_queue s1) (x # ys)" "holds (nodes s1) (waiting_queue s1) ws"
      "threads s1 (x # ys) READY (i # js) P" "threads s1 ws BLOCKED (waiting_ids P) P"
      "distinct ((i # js) @ waiting_ids P)" "\<forall>j \<in> set ((i # js) @ waiting_ids P). unat j < made P" "globals_ok s1 P"
    using park q by (simp_all add: parked_def)
  let ?P = "P\<lparr>current := i, queued := js\<rparr>"
  obtain q2 h2 where pop: "pop_from_queue (ready_queue s1) (nodes s1) = (Some x, q2, h2)" "holds h2 q2 ys" "next_node (h2 x) = None"
      "\<forall>y. node_tcb (h2 y) = node_tcb (nodes s1 y)" "\<forall>y. y \<noteq> x \<longrightarrow> next_node (h2 y) = next_node (nodes s1 y)"
    using pop_holds [OF K(1)] by auto
  have t2: "tcb_of h2 = tcb_of (nodes s1)" using pop(4) by (simp add: tcb_of_def fun_eq_iff)
  define s2 where "s2 = s1\<lparr>ready_queue := q2, nodes := h2\<rparr>"
  have x: "threads s1 [x] READY [i] P" "threads s1 ys READY js P" using K(3) threads_Cons by blast+
  let ?t = "tcb_of (nodes s1) x"
  have "status (tcbs s2 (tcb_of (nodes s2) x)) = READY" "?t = tcb_of (nodes s2) x"
    using x(1) t2 by (simp_all add: threads_def s2_def)
  from dispatch_view [OF this] obtain t' k where
    d: "dispatch x s2 = Inr (s2\<lparr>tcbs := (tcbs s2)(?t := t'), running_node := x, running_thread := ?t, ticks := k\<rparr>)"
      "tid t' = tid (tcbs s1 ?t)" "waiting_thread t' = waiting_thread (tcbs s1 ?t)" "status t' = RUNNING"
    by (auto simp: s2_def)
  define s3 where "s3 = s2\<lparr>tcbs := (tcbs s2)(?t := t'), running_node := x, running_thread := ?t, ticks := k\<rparr>"
  have s3: "nodes s3 = h2" "ready_queue s3 = q2" "waiting_queue s3 = waiting_queue s1" "fresh s3 = fresh s1"
      "tcbs s3 = (tcbs s1)(?t := t')" "running_node s3 = x" "running_thread s3 = ?t" "freed s3 = freed s1"
    by (simp_all add: s3_def s2_def)
  have old: "y \<noteq> x \<and> tcb_of (nodes s1) y \<noteq> ?t" if "y \<in> set ys \<union> set ws" for y
    using that threads_apart [OF x(2,1)] threads_apart [OF K(4) x(1)] K(5) by fastforce
  have keep: "threads s3 ns st js' ?P" if "threads s1 ns st js' P" "set ns \<subseteq> set ys \<union> set ws" for ns st js'
    using that old by (intro threads_frame [OF that(1)]) (auto simp: s3 t2 ids_def threads_def)
  have "threads s3 [x] RUNNING [i] ?P"
    using x(1) d(2-4) by (simp add: threads_def s3 t2 id_of_def ids_def)
  then have run: "runs_as s3 x RUNNING ?P"
    using K(6) pop(3) t2 by (simp add: runs_as_def s3 loose_node_def)
  have "holds h2 (waiting_queue s1) ws" using old pop(5) by (intro holds_frame [OF _ K(2)]) auto
  then have "parked s3 ys ws ?P"
    using pop(2) keep [OF x(2)] keep [OF K(4)] K(5-7) by (simp add: parked_def s3 globals_ok_def) (simp add: s3_def s2_def)
  then have ok: "pool_ok s3 x RUNNING ys ws ?P" using run K(5) by (auto simp: pool_ok_def)
  define s' where "s' = s3\<lparr>interrupt_disabled := False, timer_usec := TIME_SLICE * 1000 smod 100000, ticks := Suc (ticks s3),
    schedule_timestamp := now s3 (ticks s3)\<rparr>"
  have "sched_rr s = Inr s'"
    using put pop(1) d(1) by (simp add: sched_rr_def pop_ready_def worker_ops Let_def s'_def s3_def s2_def)
  moreover have "same_view s3 s'" "running_node s' = running_node s3" "running_thread s' = running_thread s3"
    by (simp_all add: s'_def same_view_def)
  ultimately show ?thesis using ok view_pool by (auto simp: s'_def)
qed

subsection \<open>Yielding and the timer\<close>

lemma parked_set_tcb:
  assumes "parked s xs ws P" and "\<And>x. x \<in> set xs \<union> set ws \<Longrightarrow> tcb_of (nodes s) x \<noteq> t"
  shows "parked (set_tcb t v s) xs ws P"
proof -
  have "threads (set_tcb t v s) ns st is P" if "threads s ns st is P" "set ns \<subseteq> set xs \<union> set ws" for ns st "is"
    using that assms(2) by (intro threads_frame [OF that(1)]) (auto simp: set_tcb_def ids_def threads_def)
  then show ?thesis using assms(1) by (simp add: parked_def globals_ok_def) (simp add: set_tcb_def)
qed

text \<open>A ready thread that is in no queue is put at the end.\<close>

lemma ready_parked:
  assumes park: "parked s xs ws P" and r: "threads s [r] READY [i] P" "loose_node (nodes s) r"
    and i: "i \<notin> set (queued P @ waiting_ids P)" "unat i < made P"
  shows "\<exists>s'. enqueue_ready rr r s = Inr s' \<and> parked s' (xs @ [r]) ws (P\<lparr>queued := queued P @ [i]\<rparr>)
    \<and> (\<exists>q h. s' = s\<lparr>ready_queue := q, nodes := h\<rparr> \<and> tcb_of h = tcb_of (nodes s)
         \<and> (\<forall>x. x \<notin> set xs \<longrightarrow> next_node (h x) = next_node (nodes s x)))"
proof -
  have K: "holds (nodes s) (ready_queue s) xs" "holds (nodes s) (waiting_queue s) ws"
      "threads s xs READY (queued P) P" "threads s ws BLOCKED (waiting_ids P) P" "distinct (queued P @ waiting_ids P)"
    using park by (simp_all add: parked_def)
  have rx: "r \<notin> set xs" "\<And>y. y \<in> set ws \<Longrightarrow> y \<notin> set xs"
    using threads_apart [OF r(1) K(3)] threads_apart [OF K(4,3)] i(1) K(5) by fastforce+
  obtain q h where e: "enqueue (ready_queue s) r (nodes s) = Inr (q, h)" "holds h q (xs @ [r])"
      "\<forall>x. node_tcb (h x) = node_tcb (nodes s x)" "\<forall>x. x \<notin> set xs \<longrightarrow> next_node (h x) = next_node (nodes s x)"
    using enqueue_holds [OF K(1) rx(1)] r(2) by (auto simp: loose_node_def)
  define s' where "s' = s\<lparr>ready_queue := q, nodes := h\<rparr>"
  let ?P = "P\<lparr>queued := queued P @ [i]\<rparr>"
  have t: "tcb_of (nodes s') = tcb_of (nodes s)" using e(3) by (simp add: s'_def tcb_of_def fun_eq_iff)
  have keep: "threads s' ns st is ?P" if "threads s ns st is P" for ns st "is"
    using that t by (intro threads_frame [OF that]) (auto simp: s'_def ids_def threads_def)
  have "holds h (waiting_queue s) ws" using e(4) rx(2) by (intro holds_frame [OF _ K(2)]) auto
  moreover have "threads s' (xs @ [r]) READY (queued P @ [i]) ?P"
    using keep [OF K(3)] keep [OF r(1)] threads_length [OF K(3)] by (simp add: threads_append)
  ultimately have "parked s' (xs @ [r]) ws ?P"
    using park e(2) keep [OF K(4)] i by (auto simp: parked_def globals_ok_def s'_def)
  moreover have "\<exists>q h. s' = s\<lparr>ready_queue := q, nodes := h\<rparr> \<and> tcb_of h = tcb_of (nodes s)
      \<and> (\<forall>x. x \<notin> set xs \<longrightarrow> next_node (h x) = next_node (nodes s x))"
    using e(3,4) by (intro exI [of _ q] exI [of _ h]) (simp add: s'_def tcb_of_def fun_eq_iff)
  moreover have "enqueue_ready rr r s = Inr s'" using e(1) by (simp add: enqueue_ready_def s'_def)
  ultimately show ?thesis by blast
qed

lemma turn_refines:
  assumes "pool_ok s r RUNNING xs ws P"
  shows "\<exists>x ys s'. queued P @ [current P] = x # ys \<and> sched_rr (stamped s) = Inr s' \<and> \<not> interrupt_disabled s'
    \<and> (\<exists>r xs ws. pool_ok s' r RUNNING xs ws (P\<lparr>current := x, queued := ys\<rparr>))"
proof -
  define s0 where "s0 = disable_signal (stamped s)"
  have "pool_ok s0 r RUNNING xs ws P" using assms by (simp only: s0_def view_pool [OF view_stamped])
  then have K: "parked s0 xs ws P" "running_node s0 = r" "running_thread s0 = tcb_of (nodes s0) r" "loose_node (nodes s0) r"
      "threads s0 [r] RUNNING [current P] P" "unat (current P) < made P" "current P \<notin> set (queued P @ waiting_ids P)"
    by (simp_all add: pool_ok_def runs_as_def)
  let ?t = "tcb_of (nodes s0) r"
  define s1 where "s1 = set_tcb ?t ((tcbs s0 ?t)\<lparr>status := READY\<rparr>) s0"
  have apart: "tcb_of (nodes s0) x \<noteq> ?t" if "x \<in> set xs \<union> set ws" for x
    using that K(1,7) threads_apart [OF _ K(5)] unfolding parked_def by fastforce
  have park: "parked s1 xs ws P" unfolding s1_def by (rule parked_set_tcb [OF K(1) apart])
  have r1: "threads s1 [r] READY [current P] P" "loose_node (nodes s1) r"
    using K(4,5) by (simp_all add: threads_def s1_def set_tcb_def id_of_def ids_def)
  obtain s2 where s2: "enqueue_ready rr r s1 = Inr s2" "parked s2 (xs @ [r]) ws (P\<lparr>queued := queued P @ [current P]\<rparr>)"
    using ready_parked [OF park r1 K(7,6)] by blast
  have run: "put_back_rr s0 = Inr s2"
    using s2(1) K(2,3,5) by (simp add: put_back_rr_def Let_def threads_def s1_def)
  obtain i js where q: "queued P @ [current P] = i # js" by (cases "queued P @ [current P]") auto
  obtain x ys where x: "xs @ [r] = x # ys" by (cases "xs @ [r]") auto
  have "queued (P\<lparr>queued := queued P @ [current P]\<rparr>) = i # js" using q by simp
  from next_thread [OF run [unfolded s0_def] s2(2) [unfolded x] this] q show ?thesis by auto
qed

lemma yield_step:
  assumes "pool_rel s P" and "wk_call rr c s = map_sum id runs_now (sched_rr (stamped s))" and "c = Yield \<or> c = Tick"
  shows "\<exists>r s' P'. wk_call rr c s = Inr (r, s') \<and> pool_step P c r P' \<and> pool_rel s' P'"
proof -
  obtain r xs ws where "pool_ok s r RUNNING xs ws P" using assms(1) by (auto simp: pool_rel_def)
  from turn_refines [OF this] obtain x ys s' r' xs' ws' where
    t: "queued P @ [current P] = x # ys" "sched_rr (stamped s) = Inr s'" "\<not> interrupt_disabled s'"
      "pool_ok s' r' RUNNING xs' ws' (P\<lparr>current := x, queued := ys\<rparr>)" by blast
  have "set (current P # queued P) = set (x # ys)" using t(1) by (metis rotate1.simps(2) set_rotate1)
  then have "pool_rel s' (P\<lparr>current := x, queued := ys\<rparr>)"
    using t(3,4) assms(1) unfolding pool_rel_def by auto
  moreover have "ids s' (running_thread s') = x"
    using t(4) by (simp add: pool_ok_def runs_as_def threads_def id_of_def)
  ultimately show ?thesis using assms(2,3) t(2) pool_step.turn [OF t(1) assms(3)] by (auto simp: runs_now_def)
qed

lemma yield_refines:
  assumes "pool_rel s P" and "c = Yield \<or> c = Tick"
  shows "\<exists>r s' P'. wk_call rr c s = Inr (r, s') \<and> pool_step P c r P' \<and> pool_rel s' P'"
proof (rule yield_step [OF assms(1) _ assms(2)])
  have "\<not> interrupt_disabled s" using assms(1) by (simp add: pool_rel_def)
  then show "wk_call rr c s = map_sum id runs_now (sched_rr (stamped s))"
    using assms(2) by (auto simp: schedule_stamped interrupt_handler_def)
qed

subsection \<open>Creating a thread\<close>

lemma map_sum_pair: "(case r of Inl e \<Rightarrow> Inl e | Inr s \<Rightarrow> Inr (i, s)) = map_sum id (\<lambda>s. (i, s)) r"
  by (cases r) simp_all

lemma spawn_run:
  assumes "globals_ok s P"
  shows "\<exists>s1 T. worker_create rr s = map_sum id (\<lambda>s'. (int (made P), s')) (enqueue_ready rr (Suc (Suc (fresh s))) s1)
    \<and> nodes s1 = (nodes s)(Suc (Suc (fresh s)) := \<lparr>node_tcb = fresh s, next_node = None\<rparr>) \<and> tcbs s1 = (tcbs s)(fresh s := T)
    \<and> tid T = of_nat (made P) \<and> status T = READY \<and> waiting_thread T = -1 \<and> fresh s1 = Suc (Suc (Suc (fresh s))) \<and> freed s1 = freed s
    \<and> thread_count s1 = thread_count s + 1 \<and> ready_queue s1 = ready_queue s \<and> waiting_queue s1 = waiting_queue s
    \<and> call_ok s1 = call_ok s \<and> return_values s1 = return_values s \<and> interrupt_disabled s1 = interrupt_disabled s
    \<and> running_node s1 = running_node s \<and> running_thread s1 = running_thread s"
proof -
  have c: "unat (thread_count s) = made P" "0 < made P" "made P \<le> 10000" "call_ok s = (\<lambda>_. True)"
    using assms by (simp_all add: globals_ok_def)
  let ?T = "\<lparr>tid = of_nat (made P), status = READY, stack = Suc (fresh s), priority = 0, waiting_thread = -1, waiting_for = -1,
      first_schedule = True, created = now s (ticks s), first_run = zero_time, finished = zero_time,
      time_on_cpu = garbage_time s, mutex_blocked = False, blocked_from_mutex = None\<rparr>"
  let ?s1 = "s\<lparr>thread_count := of_nat (made P) + 1, stacks := insert (Suc (fresh s)) (stacks s), ticks := Suc (ticks s), tcbs := (tcbs s)(fresh s := ?T),
      active_threads := active_threads s + 1, calls := Suc (Suc (Suc (Suc (Suc (calls s))))),
      nodes := (nodes s)(Suc (Suc (fresh s)) := \<lparr>node_tcb = fresh s, next_node = None\<rparr>),
      fresh := Suc (Suc (Suc (fresh s)))\<rparr>"
  have "thread_count s \<noteq> 0" using c(1,2) by auto
  moreover have "sint (thread_count s) = int (made P)" using sint_index [of "thread_count s"] c by simp
  moreover have "thread_count s = of_nat (made P)" using c(1) by (metis word_of_nat_unat)
  ultimately show ?thesis
    using c(4) by (intro exI [of _ ?s1] exI [of _ ?T])
      (simp add: worker_create_def create_node_def worker_ops Let_def set_tcb_def map_sum_pair)
qed

lemma spawn_refines:
  assumes "pool_rel s P" and "pool_allows P Spawn"
  shows "\<exists>r s' P'. wk_call rr Spawn s = Inr (r, s') \<and> pool_step P Spawn r P' \<and> pool_rel s' P'"
proof -
  obtain r xs ws where ok: "pool_ok s r RUNNING xs ws P" using assms(1) by (auto simp: pool_rel_def)
  then have K: "holds (nodes s) (ready_queue s) xs" "holds (nodes s) (waiting_queue s) ws"
      "threads s xs READY (queued P) P" "threads s ws BLOCKED (waiting_ids P) P" "distinct (queued P @ waiting_ids P)"
      "\<forall>i \<in> set (queued P @ waiting_ids P). unat i < made P" "globals_ok s P"
    and R: "running_node s = r" "running_thread s = tcb_of (nodes s) r" "loose_node (nodes s) r"
      "threads s [r] RUNNING [current P] P" "unat (current P) < made P" "current P \<notin> set (queued P @ waiting_ids P)"
    by (simp_all add: pool_ok_def parked_def runs_as_def)
  let ?P = "P\<lparr>made := Suc (made P)\<rparr>" and ?i = "of_nat (made P) :: 32 word" and ?n = "Suc (Suc (fresh s))"
  obtain s1 T where run: "worker_create rr s = map_sum id (\<lambda>s'. (int (made P), s')) (enqueue_ready rr ?n s1)"
    and s1: "nodes s1 = (nodes s)(?n := \<lparr>node_tcb = fresh s, next_node = None\<rparr>)" "tcbs s1 = (tcbs s)(fresh s := T)"
      "tid T = ?i" "status T = READY" "waiting_thread T = -1" "fresh s1 = Suc (Suc (Suc (fresh s)))"
      "thread_count s1 = thread_count s + 1" "ready_queue s1 = ready_queue s" "waiting_queue s1 = waiting_queue s"
      "call_ok s1 = call_ok s" "return_values s1 = return_values s" "interrupt_disabled s1 = interrupt_disabled s"
      "running_node s1 = running_node s" "running_thread s1 = running_thread s" "freed s1 = freed s"
    using spawn_run [OF K(7)] by blast
  have c: "unat (thread_count s) = made P" "made P < 10000" "0 < made P"
    using K(7) assms(2) by (simp_all add: globals_ok_def)
  have ui: "unat ?i = made P" using c(2) by (simp only: unat_of_nat) simp
  have "unat (thread_count s + 1) = Suc (made P)" using c by (simp add: unat_word_ariths)
  then have globals: "globals_ok s1 ?P" using K(7) c(2) s1 by (auto simp: globals_ok_def)
  have lt: "x < fresh s \<and> tcb_of (nodes s) x < fresh s" if "threads s ns st is P" "x \<in> set ns" for ns st "is" x
    using that by (simp add: threads_def)
  have ne: "x \<noteq> ?n \<and> tcb_of (nodes s) x \<noteq> fresh s" if "threads s ns st is P" "x \<in> set ns" for ns st "is" x
    using lt [OF that] by auto
  have t1: "tcb_of (nodes s1) x = tcb_of (nodes s) x" if "x \<noteq> ?n" for x using that by (simp add: s1(1) tcb_of_def)
  have keep: "threads s1 ns st is ?P" if "threads s ns st is P" for ns st "is"
    using ne [OF that] that by (intro threads_frame [OF that]) (auto simp: t1 s1(2,6,15) ids_def threads_def)
  have hold: "holds (nodes s1) q ns" if "holds (nodes s) q ns" "threads s ns st is P" for q ns st "is"
    using ne [OF that(2)] by (intro holds_frame [OF _ that(1)]) (auto simp: s1(1))
  have "\<forall>j \<in> set (queued P @ waiting_ids P). unat j < Suc (made P)" using K(6) less_SucI by blast
  then have park: "parked s1 xs ws ?P"
    using hold [OF K(1,3)] hold [OF K(2,4)] keep [OF K(3)] keep [OF K(4)] K(5) globals
    by (simp add: parked_def s1(8,9))
  have fresh_id: "?i \<notin> set (queued P @ waiting_ids P)" "?i \<noteq> current P" using K(6) R(5) ui by (metis less_irrefl)+
  have "joiner P ?i = -1"
    using assms(1) fresh_id by (auto simp: pool_rel_def joiner_def split: option.splits)
  moreover have "fresh s \<notin> freed s" using K(7) by (auto simp: globals_ok_def)
  ultimately have n: "threads s1 [?n] READY [?i] ?P" "loose_node (nodes s1) ?n"
    by (simp_all add: threads_def s1(1-6,15) id_of_def ids_def tcb_of_def loose_node_def)
  obtain s2 q h where s2: "enqueue_ready rr ?n s1 = Inr s2" "parked s2 (xs @ [?n]) ws (?P\<lparr>queued := queued ?P @ [?i]\<rparr>)"
      "s2 = s1\<lparr>ready_queue := q, nodes := h\<rparr>" "tcb_of h = tcb_of (nodes s1)"
      "\<forall>x. x \<notin> set xs \<longrightarrow> next_node (h x) = next_node (nodes s1 x)"
    using ready_parked [OF park n] fresh_id(1) ui by auto
  let ?Q = "P\<lparr>queued := queued P @ [?i], made := Suc (made P)\<rparr>"
  have Q: "?P\<lparr>queued := queued ?P @ [?i]\<rparr> = ?Q" by simp
  have rx: "r \<notin> set xs" using threads_apart [OF R(4) K(3)] R(6) by fastforce
  have "r \<noteq> ?n" "tcb_of (nodes s1) r = tcb_of (nodes s) r" using lt [OF R(4)] by (auto simp: s1(1) tcb_of_def)
  moreover have "threads s2 [r] RUNNING [current P] ?Q"
    using keep [OF R(4)] by (intro threads_frame [OF keep [OF R(4)]]) (auto simp: s2(3,4) threads_def ids_def)
  ultimately have "runs_as s2 r RUNNING ?Q"
    using R s2(5) rx by (simp add: runs_as_def s2(3,4) s1 loose_node_def)
  then have "pool_ok s2 r RUNNING (xs @ [?n]) ws ?Q"
    using s2(2) fresh_id R(6) unfolding Q by (auto simp: pool_ok_def)
  then have "pool_rel s2 ?Q"
    using assms(1) by (auto simp: pool_rel_def s2(3) s1(12))
  then show ?thesis using run s2(1) pool_step.spawn [of P] by auto
qed

subsection \<open>Exits\<close>

lemma view_time_stats: "same_view s (update_time_stats s)"
  by (simp add: update_time_stats_def same_view_def Let_def)

lemma small_id: "unat (i :: 32 word) < 10000 \<Longrightarrow> sint i = int (unat i)"
  by (intro sint_index) simp

lemma parked_free:
  assumes "parked s xs ws P" and "\<And>x. x \<in> set xs \<union> set ws \<Longrightarrow> tcb_of (nodes s) x \<noteq> t" and "t < fresh s"
  shows "parked (free_tcb t s) xs ws P"
proof -
  have "threads (free_tcb t s) ns st is P" if "threads s ns st is P" "set ns \<subseteq> set xs \<union> set ws" for ns st "is"
    using that assms(2) by (intro threads_frame [OF that(1)]) (auto simp: free_tcb_def ids_def threads_def)
  then show ?thesis using assms(1,3) by (simp add: parked_def globals_ok_def) (simp add: free_tcb_def)
qed

text \<open>The end of a thread makes the one that waits for it ready.\<close>

lemma finish_back:
  assumes ok: "pool_ok s r FINISHED xs ws P"
  shows "\<exists>s1 xs1 ws1. put_back_rr s = Inr s1 \<and> parked s1 xs1 ws1
    (P\<lparr>queued := queued P @ woken P, waiter := (if woken P = [] then waiter P else None)\<rparr>)"
proof -
  have K: "parked s xs ws P" "running_thread s = tcb_of (nodes s) r" "threads s [r] FINISHED [current P] P"
      "current P \<notin> set (queued P @ waiting_ids P)"
    using ok by (simp_all add: pool_ok_def runs_as_def)
  let ?t = "tcb_of (nodes s) r"
  have st: "status (tcbs s ?t) = FINISHED" "waiting_thread (tcbs s ?t) = joiner P (current P)"
    using K(3) by (simp_all add: threads_def)
  have lt: "?t < fresh s" using K(3) by (simp add: threads_def)
  have away: "tcb_of (nodes s) x \<noteq> ?t" if "x \<in> set xs \<union> set ws" for x
    using that K(1,4) threads_apart [OF _ K(3)] unfolding parked_def by fastforce
  show ?thesis
  proof (cases "woken P")
    case Nil
    have "joiner P (current P) = -1" using Nil by (auto simp: joiner_def woken_def split: option.splits if_splits)
    then have "put_back_rr s = Inr (free_tcb ?t (update_time_stats s))"
      using K(2) st by (simp add: put_back_rr_def Let_def release_threads_def)
    moreover have "parked (free_tcb ?t (update_time_stats s)) xs ws P"
      using away lt view_time_stats [of s] view_parked [OF view_time_stats [of s]] K(1)
      by (intro parked_free) (auto simp: same_view_def)
    ultimately show ?thesis using Nil by auto
  next
    case (Cons w l)
    then have w: "waiter P = Some (w, current P)" "woken P = [w]" "waiting_ids P = [w]" "joiner P (current P) = w"
      by (auto simp: woken_def waiting_ids_def joiner_def split: option.splits if_splits)
    have Q: "holds (nodes s) (ready_queue s) xs" "holds (nodes s) (waiting_queue s) ws" "threads s xs READY (queued P) P"
        "threads s ws BLOCKED [w] P" "w \<notin> set (queued P)" "distinct (queued P)" "unat w < made P"
        "\<forall>i \<in> set (queued P). unat i < made P" "globals_ok s P"
      using K(1) w(3) by (simp_all add: parked_def)
    obtain n where n: "ws = [n]" using threads_length [OF Q(4)] by (cases ws) auto
    let ?n = "tcb_of (nodes s) n" and ?P = "P\<lparr>waiter := None\<rparr>" and ?h = "set_next n None (nodes s)"
    have cn: "carries (ids s) w (nodes s) n" using Q(4) n by (simp add: threads_def id_of_def carries_def tcb_of_def)
    obtain q where q: "delete_from_queue (ids s) (waiting_queue s) w (nodes s) = Inr (Some n, q, ?h)" "holds ?h q []"
      using delete_first [OF Q(2) [unfolded n] cn] by blast
    define s1 where "s1 = set_tcb ?n ((tcbs s ?n)\<lparr>status := READY, waiting_for := -1\<rparr>) (s\<lparr>waiting_queue := q, nodes := ?h\<rparr>)"
    have t1: "tcb_of (nodes s1) = tcb_of (nodes s)" by (simp add: s1_def set_tcb_def tcb_of_def fun_eq_iff)
    have apart: "x \<noteq> n \<and> tcb_of (nodes s) x \<noteq> ?n" if "x \<in> set xs" for x
      using threads_apart [OF Q(3) Q(4) _ that, of n] Q(5) n by auto
    have jn: "joiner ?P j = -1" for j by (simp add: joiner_def)
    have jP: "joiner P j = -1" if "j \<noteq> current P" for j using that w(1) by (simp add: joiner_def)
    have "id_of s x \<noteq> current P" if "x \<in> set xs" for x using threads_id [OF Q(3) that] K(4) by auto
    then have "threads s1 xs READY (queued P) ?P"
      using apart Q(3) t1 jn jP by (intro threads_frame [OF Q(3)]) (auto simp: s1_def set_tcb_def ids_def threads_def)
    moreover have "holds ?h (ready_queue s) xs" using apart by (intro holds_frame [OF _ Q(1)]) auto
    moreover have "globals_ok s1 ?P" using Q(9) by (simp add: globals_ok_def s1_def set_tcb_def)
    ultimately have "parked s1 xs [] ?P"
      using q(2) Q(6,8) by (simp add: parked_def waiting_ids_def threads_def) (simp add: s1_def set_tcb_def)
    moreover have "threads s1 [n] READY [w] ?P"
      using Q(4) n t1 jn jP w(3) K(4) by (auto simp: threads_def s1_def set_tcb_def id_of_def ids_def)
    moreover have "loose_node (nodes s1) n" by (simp add: loose_node_def s1_def set_tcb_def)
    ultimately obtain s2 q2 h2 where s2: "enqueue_ready rr n s1 = Inr s2" "parked s2 (xs @ [n]) [] (?P\<lparr>queued := queued ?P @ [w]\<rparr>)"
        "s2 = s1\<lparr>ready_queue := q2, nodes := h2\<rparr>" "tcb_of h2 = tcb_of (nodes s1)"
      using ready_parked [of s1 xs "[]" ?P n w] Q(5,7) by (auto simp: waiting_ids_def)
    have t2: "tcb_of (nodes s2) = tcb_of (nodes s)" "fresh s2 = fresh s"
      using s2(3,4) t1 by simp_all (simp add: s1_def set_tcb_def)
    have tn: "node_tcb (?h n) = ?n" by (simp add: tcb_of_def)
    have "wake rr w s = Inr s2" using q(1) s2(1) tn by (simp add: wake_def Let_def s1_def)
    moreover have "made P \<le> 10000" using Q(9) by (simp add: globals_ok_def)
    then have "0 \<le> sint w" using small_id [of w] Q(7) by simp
    ultimately have run: "put_back_rr s = Inr (free_tcb ?t (update_time_stats s2))"
      using K(2) st w(4) by (simp add: put_back_rr_def Let_def release_threads_def)
    have "?P\<lparr>queued := queued ?P @ [w]\<rparr> = P\<lparr>queued := queued P @ [w], waiter := None\<rparr>" by simp
    then have "parked s2 (xs @ [n]) [] (P\<lparr>queued := queued P @ [w], waiter := None\<rparr>)" using s2(2) by (simp only:)
    then have "parked (free_tcb ?t (update_time_stats s2)) (xs @ [n]) [] (P\<lparr>queued := queued P @ [w], waiter := None\<rparr>)"
      using away lt t2 n view_time_stats [of s2] view_parked [OF view_time_stats [of s2]]
      by (intro parked_free) (auto simp: same_view_def)
    then show ?thesis using run w(2) by auto
  qed
qed

lemma quit_refines:
  assumes "pool_rel s P" and "pool_allows P (Quit v)"
  shows "\<exists>r s' P'. wk_call rr (Quit v) s = Inr (r, s') \<and> pool_step P (Quit v) r P' \<and> pool_rel s' P'"
proof -
  obtain r xs ws where ok: "pool_ok s r RUNNING xs ws P" using assms(1) by (auto simp: pool_rel_def)
  then have K: "parked s xs ws P" "running_node s = r" "running_thread s = tcb_of (nodes s) r" "loose_node (nodes s) r"
      "threads s [r] RUNNING [current P] P" "unat (current P) < made P" "current P \<notin> set (queued P @ waiting_ids P)"
    by (simp_all add: pool_ok_def runs_as_def)
  define rs where "rs = (if v = 0 then results P else (results P)(unat (current P) := v))"
  let ?t = "tcb_of (nodes s) r" and ?P = "P\<lparr>results := rs\<rparr>"
  define s1 where "s1 = (set_tcb ?t ((tcbs s ?t)\<lparr>status := FINISHED\<rparr>) (disable_signal s))\<lparr>return_values := rs\<rparr>"
  have st: "status (tcbs s ?t) = RUNNING" "ids s ?t = current P" using K(5) by (simp_all add: threads_def id_of_def)
  have g: "made P \<le> 10000" "return_values s = results P" using K(1) by (simp_all add: parked_def globals_ok_def)
  have "worker_exit rr v s = worker_yield rr s1"
    using st K(3,6) g(1) by (simp add: worker_exit_def Let_def disable_signal_def ids_def s1_def set_tcb_def rs_def flip: g(2))
  then have run: "worker_exit rr v s = sched_rr (stamped s1)" by (simp only: schedule_stamped)
  have apart: "tcb_of (nodes s) x \<noteq> ?t" if "x \<in> set xs \<union> set ws" for x
    using that K(1,7) threads_apart [OF _ K(5)] unfolding parked_def by fastforce
  define s0 where "s0 = set_tcb ?t ((tcbs s ?t)\<lparr>status := FINISHED\<rparr>) s"
  have s0: "parked s0 xs ws P" unfolding s0_def by (rule parked_set_tcb [OF K(1) apart])
  have th: "threads s1 ns s' is ?P = threads s0 ns s' is P" for ns s' "is"
    by (simp add: threads_def id_of_def [abs_def] ids_def s1_def s0_def set_tcb_def disable_signal_def)
  have "parked s1 xs ws ?P"
    using s0 g(2) by (simp add: parked_def th globals_ok_def) (simp add: s1_def s0_def set_tcb_def disable_signal_def)
  moreover have "runs_as s1 r FINISHED ?P"
    using K(2-6) by (simp add: runs_as_def th) (simp add: threads_def s1_def s0_def set_tcb_def disable_signal_def id_of_def ids_def)
  ultimately have "pool_ok s1 r FINISHED xs ws ?P" using K(7) by (simp add: pool_ok_def)
  then have "pool_ok (disable_signal (stamped s1)) r FINISHED xs ws ?P" by (simp only: view_pool [OF view_stamped])
  from finish_back [OF this] obtain s2 xs2 ws2 where s2: "put_back_rr (disable_signal (stamped s1)) = Inr s2"
      "parked s2 xs2 ws2 (?P\<lparr>queued := queued ?P @ woken ?P, waiter := (if woken ?P = [] then waiter ?P else None)\<rparr>)"
    by blast
  define W where "W = (if woken P = [] then waiter P else None)"
  have "woken ?P = woken P" by (simp add: woken_def split: option.split)
  then have W: "(if woken ?P = [] then waiter ?P else None) = W" "queued ?P @ woken ?P = queued P @ woken P"
    by (simp_all add: W_def)
  let ?Q = "P\<lparr>queued := queued P @ woken P, waiter := W, results := rs\<rparr>"
  have "?P\<lparr>queued := queued P @ woken P, waiter := W\<rparr> = ?Q" by simp
  then have Q: "parked s2 xs2 ws2 ?Q" using s2(2) unfolding W by (simp only:)
  obtain x ys where q: "queued P @ woken P = x # ys" using assms(2) by (cases "queued P @ woken P") auto
  then have "length xs2 = Suc (length ys)" using Q threads_length [of s2 xs2 READY] by (auto simp: parked_def)
  then obtain y zs where y: "xs2 = y # zs" by (cases xs2) auto
  have "queued ?Q = x # ys" using q by simp
  from next_thread [OF s2(1) Q [unfolded y] this] obtain s' where s': "sched_rr (stamped s1) = Inr s'"
      "pool_ok s' y RUNNING zs ws2 (?Q\<lparr>current := x, queued := ys\<rparr>)" "\<not> interrupt_disabled s'"
    by blast
  let ?R = "P\<lparr>current := x, queued := ys, waiter := W, results := rs\<rparr>"
  have "?Q\<lparr>current := x, queued := ys\<rparr> = ?R" by simp
  then have R: "pool_ok s' y RUNNING zs ws2 ?R" using s'(2) by (simp only:)
  have "t \<in> set (current ?R # queued ?R)" if "waiter ?R = Some (w, t)" for w t
  proof -
    have wt: "woken P = []" "waiter P = Some (w, t)" using that by (auto simp: W_def split: if_splits)
    then have "t \<in> set (current P # queued P)" "t \<noteq> current P" using assms(1) by (auto simp: pool_rel_def woken_def)
    then show ?thesis using q wt(1) by auto
  qed
  then have "pool_rel s' ?R" using R s'(3) unfolding pool_rel_def by blast
  moreover have "ids s' (running_thread s') = x"
    using R by (simp add: pool_ok_def runs_as_def threads_def id_of_def)
  ultimately show ?thesis using run s'(1) pool_step.quit [OF q, of v, folded rs_def W_def] by (auto simp: runs_now_def)
qed

subsection \<open>Joins\<close>

lemma ids_disable [simp]: "ids (disable_signal s) = ids s" "nodes (disable_signal s) = nodes s"
  "ready_queue (disable_signal s) = ready_queue s" "waiting_queue (disable_signal s) = waiting_queue s"
  by (simp_all add: disable_signal_def ids_def [abs_def])

text \<open>The running thread goes to the empty waiting queue, and the thread it waits for is marked.\<close>

lemma join_parks:
  assumes ok: "pool_ok s r RUNNING xs ws P" and i: "i \<in> set (queued P)" and free: "waiter P = None"
  shows "\<exists>s1. worker_join rr i s = map_sum id (\<lambda>s'. (Switched, None, s')) (sched_rr (stamped s1))
    \<and> put_back_rr (disable_signal (stamped s1)) = Inr (disable_signal (stamped s1))
    \<and> parked (disable_signal (stamped s1)) xs [r] (P\<lparr>waiter := Some (current P, i)\<rparr>)"
proof -
  let ?P = "P\<lparr>waiter := Some (current P, i)\<rparr>" and ?r = "tcb_of (nodes s) r"
  have w: "waiting_ids P = []" "joiner P = (\<lambda>_. -1)" "waiting_ids ?P = [current P]"
      "joiner ?P = (\<lambda>j. if j = i then current P else -1)"
    using free by (simp_all add: waiting_ids_def joiner_def fun_eq_iff)
  have "ws = []" using ok threads_length [of s ws BLOCKED "[]" P] w(1) by (auto simp: pool_ok_def parked_def)
  then have K: "holds (nodes s) (ready_queue s) xs" "holds (nodes s) (waiting_queue s) []" "threads s xs READY (queued P) P"
      "distinct (queued P)" "\<forall>j \<in> set (queued P). unat j < made P" "globals_ok s P"
    and R: "running_node s = r" "running_thread s = ?r" "loose_node (nodes s) r" "threads s [r] RUNNING [current P] P"
      "unat (current P) < made P" "current P \<notin> set (queued P)"
    using ok w(1) by (simp_all add: pool_ok_def parked_def runs_as_def)
  have apart: "y \<noteq> r \<and> tcb_of (nodes s) y \<noteq> ?r" if "y \<in> set xs" for y
    using threads_apart [OF K(3) R(4) _ that] R(6) by fastforce
  have "i \<in> id_of s ` set xs" using i K(3) by (metis threads_def set_map)
  then obtain x where x: "x \<in> set xs" "id_of s x = i" by auto
  let ?t = "tcb_of (nodes s) x"
  have "inj_on (id_of s) (set xs)" using K(3,4) by (metis threads_def distinct_map)
  then have same: "tcb_of (nodes s) y = ?t \<longleftrightarrow> id_of s y = i" if "y \<in> set xs" for y
    using that x by (metis id_of_def inj_onD)
  obtain t where t: "find_thread (ids s) (ready_queue s) i (nodes s) = Inr (Some t)" "t = ?t"
  proof -
    have "carries (ids s) i (nodes s) x" using x(2) by (simp add: carries_def id_of_def tcb_of_def)
    moreover obtain u where u: "find_thread (ids s) (ready_queue s) i (nodes s) = Inr u"
        "u = None \<longleftrightarrow> (\<forall>y \<in> set xs. \<not> carries (ids s) i (nodes s) y)"
        "\<forall>t. u = Some t \<longrightarrow> ids s t = i \<and> (\<exists>y \<in> set xs. t = node_tcb (nodes s y))"
      using find_thread_holds [OF K(1), of "ids s" i] by blast
    ultimately obtain t where t: "u = Some t" using x(1) by (cases u) auto
    moreover from this u(3) obtain y where "y \<in> set xs" "t = tcb_of (nodes s) y" "ids s t = i" by (auto simp: tcb_of_def)
    then have "t = ?t" using same [of y] by (simp add: id_of_def)
    ultimately show ?thesis using that u(1) by simp
  qed
  have wt: "waiting_thread (tcbs s ?t) = -1" "ids s ?t = i" using K(3) x w(2) by (auto simp: threads_def id_of_def)
  obtain q h where e: "enqueue (waiting_queue s) r (nodes s) = Inr (q, h)" "holds h q [r]"
      "\<forall>y. node_tcb (h y) = node_tcb (nodes s y)" "\<forall>y. next_node (h y) = next_node (nodes s y)"
    using enqueue_holds [OF K(2), of r] R(3) by (auto simp: loose_node_def)
  have th: "tcb_of h = tcb_of (nodes s)" using e(3) by (simp add: tcb_of_def fun_eq_iff)
  define s1 where "s1 = (disable_signal s)\<lparr>tcbs := (tcbs s)(?t := (tcbs s ?t)\<lparr>waiting_thread := current P\<rparr>,
      ?r := (tcbs s ?r)\<lparr>status := BLOCKED, waiting_for := i\<rparr>), waiting_queue := q, nodes := h\<rparr>"
  have tr: "?t \<noteq> ?r" using apart [OF x(1)] by simp
  have "worker_join rr i s = map_sum id (\<lambda>s'. (Switched, None, s')) (sched_rr (stamped s1))"
  proof -
    have "find_ready_threads rr i (disable_signal s) = Inr (Some ?t)" using t by (simp add: find_ready_threads_def)
    moreover have "ids s ?r = current P" using R(4) by (simp add: threads_def id_of_def)
    moreover have "set_tcb ?r x (set_tcb ?t y (disable_signal s)) = (disable_signal s)\<lparr>tcbs := (tcbs s)(?t := y, ?r := x)\<rparr>" for x y
      by (simp add: set_tcb_def disable_signal_def)
    ultimately have "worker_join rr i s = map_sum id (\<lambda>s'. (Switched, None, s')) (worker_yield rr s1)"
      using wt tr e(1) R(1,2)
      by (simp add: worker_join_def Let_def enqueue_waiting_def) (simp add: s1_def set_tcb_def disable_signal_def ids_def split: sum.split)
    then show ?thesis by (simp only: schedule_stamped)
  qed
  moreover have s1: "nodes s1 = h" "ready_queue s1 = ready_queue s" "waiting_queue s1 = q" "fresh s1 = fresh s"
      "running_thread s1 = ?r" "status (tcbs s1 ?r) = BLOCKED" "freed s1 = freed s"
    using R(2) by (simp_all add: s1_def disable_signal_def)
  have idq: "ids s1 u = ids s u" for u by (simp add: s1_def ids_def)
  have "put_back_rr (disable_signal (stamped s1)) = Inr (disable_signal (stamped s1))"
    using s1(5,6) by (simp add: put_back_rr_def stamped_def set_tcb_def disable_signal_def Let_def)
  moreover have "parked s1 xs [r] ?P"
  proof -
    have "threads s1 xs READY (queued ?P) ?P"
    proof -
      have "threads s1 xs READY (queued P) ?P"
      proof (rule threads_frame [OF K(3)])
        fix y
        assume y: "y \<in> set xs"
        then have "status (tcbs s (tcb_of (nodes s) y)) = READY" "waiting_thread (tcbs s (tcb_of (nodes s) y)) = -1"
            "tcb_of (nodes s) y \<notin> freed s"
          using K(3) w(2) by (simp_all add: threads_def)
        then show "ids s1 (tcb_of (nodes s) y) = ids s (tcb_of (nodes s) y)
            \<and> status (tcbs s1 (tcb_of (nodes s) y)) = READY
            \<and> waiting_thread (tcbs s1 (tcb_of (nodes s) y)) = joiner ?P (id_of s y) \<and> tcb_of (nodes s) y \<notin> freed s1"
          using apart [OF y] same [OF y] w(4) tr by (simp add: idq s1(7)) (auto simp: s1_def K(3) threads_def)
      qed (simp_all add: s1 th)
      then show ?thesis by simp
    qed
    moreover have "threads s1 [r] BLOCKED [current P] ?P"
      using R(4,6) i th w(2,4) by (auto simp: threads_def id_of_def s1 idq) (simp_all add: s1_def)
    moreover have "holds h (ready_queue s) xs" using e(4) by (intro holds_frame [OF _ K(1)]) auto
    moreover have "globals_ok s1 ?P" using K(6) by (simp add: globals_ok_def s1_def disable_signal_def)
    ultimately show ?thesis using e(2) K(4,5) R(5,6) by (auto simp: parked_def s1 w)
  qed
  then have "parked (disable_signal (stamped s1)) xs [r] ?P" by (simp only: view_parked [OF view_stamped(1)])
  ultimately show ?thesis by blast
qed

lemma join_refines:
  assumes "pool_rel s P" and "pool_allows P (Join i)"
  shows "\<exists>r s' P'. wk_call rr (Join i) s = Inr (r, s') \<and> pool_step P (Join i) r P' \<and> pool_rel s' P'"
proof -
  obtain r xs ws where ok: "pool_ok s r RUNNING xs ws P" using assms(1) by (auto simp: pool_rel_def)
  show ?thesis
  proof (cases "i \<in> set (queued P)")
    case True
    then have free: "waiter P = None" using assms(2) by simp
    let ?P = "P\<lparr>waiter := Some (current P, i)\<rparr>"
    from join_parks [OF ok True free] obtain s1 where
      j: "worker_join rr i s = map_sum id (\<lambda>s'. (Switched, None, s')) (sched_rr (stamped s1))"
        "put_back_rr (disable_signal (stamped s1)) = Inr (disable_signal (stamped s1))"
        "parked (disable_signal (stamped s1)) xs [r] ?P" by blast
    obtain x ys where q: "queued P = x # ys" using True by (cases "queued P") auto
    then have "length xs = Suc (length ys)" using j(3) by (auto simp: parked_def dest: threads_length)
    then obtain y zs where y: "xs = y # zs" by (cases xs) auto
    have "queued ?P = x # ys" using q by simp
    from next_thread [OF j(2) j(3) [unfolded y] this] obtain s' where s': "sched_rr (stamped s1) = Inr s'"
        "pool_ok s' y RUNNING zs [r] (?P\<lparr>current := x, queued := ys\<rparr>)" "\<not> interrupt_disabled s'"
      by blast
    let ?Q = "P\<lparr>current := x, queued := ys, waiter := Some (current P, i)\<rparr>"
    have "?P\<lparr>current := x, queued := ys\<rparr> = ?Q" by simp
    then have Q: "pool_ok s' y RUNNING zs [r] ?Q" using s'(2) by (simp only:)
    then have "pool_rel s' ?Q" using s'(3) True q unfolding pool_rel_def by auto
    moreover have "ids s' (running_thread s') = x" using Q by (simp add: pool_ok_def runs_as_def threads_def id_of_def)
    ultimately show ?thesis using j(1) s'(1) pool_step.join [OF True q] by (auto simp: runs_now_def)
  next
    case False
    have K: "holds (nodes s) (ready_queue s) xs" "threads s xs READY (queued P) P" "globals_ok s P"
      using ok by (simp_all add: pool_ok_def parked_def)
    have i: "unat i < made P" using False assms(2) by simp
    have "\<not> carries (ids s) i (nodes s) x" if "x \<in> set xs" for x
      using threads_id [OF K(2) that] False by (auto simp: carries_def id_of_def tcb_of_def)
    then have "find_ready_threads rr i (disable_signal s) = Inr None"
      using find_thread_holds [OF K(1), of "ids s" i] by (auto simp: find_ready_threads_def)
    moreover have "enable_signal (disable_signal s) = s"
      using assms(1) by (simp add: pool_rel_def disable_signal_def enable_signal_def)
    ultimately have "worker_join rr i s = Inr (Returned 0, Some (results P (unat i)), s)"
      using i K(3) by (simp add: worker_join_def Let_def globals_ok_def) (simp add: disable_signal_def)
    then show ?thesis using assms(1) pool_step.join_finished [OF False] by auto
  qed
qed

subsection \<open>The interpretation\<close>

lemma wk_call_refines:
  assumes "pool_rel s P" and "pool_allows P c"
  shows "\<exists>r s' P'. wk_call rr c s = Inr (r, s') \<and> pool_step P c r P' \<and> pool_rel s' P'"
proof (cases c)
  case Spawn
  then show ?thesis using spawn_refines assms by (simp only:)
next
  case Yield
  then show ?thesis using yield_refines [OF assms(1)] by (simp only: simp_thms)
next
  case Tick
  then show ?thesis using yield_refines [OF assms(1)] by (simp only: simp_thms)
next
  case (Quit v)
  then show ?thesis using quit_refines assms by (simp only:)
next
  case (Join i)
  then show ?thesis using join_refines assms by (simp only:)
qed

interpretation wk_sim: simulation "wk_call rr" pool_step pool_allows pool_rel
  by unfold_locales (rule wk_call_refines)

text \<open>The main thread and the first thread that it makes.\<close>

definition first_pool :: pool where
  "first_pool = \<lparr>current = 0, queued = [1], waiter = None, made = 2, results = (\<lambda>_. 0)\<rparr>"

lemma first_create:
  "\<exists>s. worker_create rr (process_start clock (\<lambda>_. True) no_queue p t) = Inr (1, s) \<and> pool_rel s first_pool"
proof -
  obtain s where s: "worker_create rr (process_start clock (\<lambda>_. True) no_queue p t) = Inr (1, s)"
      "pool_ok s 2 RUNNING [5] [] first_pool" "\<not> interrupt_disabled s"
    by (simp add: worker_create_def create_main_def init_worker_def create_node_def enqueue_ready_def enqueue_def worker_ops
        Let_def process_start_def set_tcb_def no_queue_def holds_def loose_node_def tcb_of_def ids_def id_of_def
        pool_ok_def parked_def runs_as_def threads_def globals_ok_def joiner_def waiting_ids_def first_pool_def)
  then show ?thesis by (auto simp: pool_rel_def first_pool_def)
qed

end
