(* ===== verification/Wk_Mlfq.thy ===== *)
theory Wk_Mlfq
  imports Wk_Pool
begin

text \<open>
  The multi-level feedback queue of the thread library (\<open>Level - 2/worker.c\<close>) against round robin.  Since no thread is
  ever demoted, the first level is the ready queue of round robin, and a process cannot tell the two schedulers apart, but
  for one call: the feedback queue frees the stack of a thread that exits, and the pointer it takes for the stack of the main
  thread was never initialised.  A signal inside \<open>sched_mlfq\<close> is left to \<open>Wk_Signal\<close>.
\<close>

subsection \<open>The first level as the ready queue\<close>

text \<open>Round robin never frees a stack, so the set of the stacks that are allocated is left out of the comparison.\<close>

definition flat_as :: "bool \<Rightarrow> worker \<Rightarrow> worker" where
  "flat_as b s = s\<lparr>ready_queue := MLFQ_queue s ! 0, MLFQ_queue := [], schedule_cycles := 0, interrupt_disabled := b,
     stacks := {}\<rparr>"

definition no_stacks :: "worker \<Rightarrow> worker" where
  "no_stacks s = s\<lparr>stacks := {}\<rparr>"

definition flat :: "worker \<Rightarrow> worker" where
  "flat s = flat_as (interrupt_disabled s) s"

named_theorems flat_ops \<open>what an operation of round robin does on the first level\<close>

lemma flat_simps [simp]:
  "ready_queue (flat_as b s) = MLFQ_queue s ! 0" "waiting_queue (flat_as b s) = waiting_queue s"
  "nodes (flat_as b s) = nodes s" "tcbs (flat_as b s) = tcbs s" "running_thread (flat_as b s) = running_thread s"
  "running_node (flat_as b s) = running_node s" "ids (flat_as b s) = ids s" "thread_count (flat_as b s) = thread_count s"
  "main_thread (flat_as b s) = main_thread s" "freed (flat_as b s) = freed s" "no_stacks (flat_as b s) = flat_as b s"
  "return_values (flat_as b s) = return_values s"
  by (simp_all add: flat_as_def ids_def [abs_def] no_stacks_def)

lemma flat_updates [simp]:
  "(flat_as b s)\<lparr>running_thread := p\<rparr> = flat_as b (s\<lparr>running_thread := p\<rparr>)"
  "(flat_as b s)\<lparr>running_node := p\<rparr> = flat_as b (s\<lparr>running_node := p\<rparr>)"
  "(flat_as b s)\<lparr>return_values := f\<rparr> = flat_as b (s\<lparr>return_values := f\<rparr>)"
  "flat_as b (s\<lparr>stacks := ps\<rparr>) = flat_as b s" "free_tcb p (flat_as b s) = flat_as b (free_tcb p s)"
  "flat_as b (s\<lparr>schedule_cycles := k\<rparr>) = flat_as b s" "flat_as b (s\<lparr>interrupt_disabled := c\<rparr>) = flat_as b s"
  by (simp_all add: flat_as_def free_tcb_def)

lemma flat_set_tcb [simp]: "set_tcb p t (flat_as b s) = flat_as b (set_tcb p t s)"
  by (simp add: flat_as_def set_tcb_def)

lemma flat_stats [simp]: "update_time_stats (flat_as b s) = flat_as b (update_time_stats s)"
  by (simp add: update_time_stats_def flat_as_def Let_def)

lemma flat_enqueue_level [flat_ops]:
  "one_level s \<Longrightarrow> enqueue_ready rr n (flat_as b s) = map_sum id (flat_as b) (enqueue_level 0 n s)"
  by (simp add: enqueue_ready_def enqueue_level_def one_level_def MLFQ_LEVELS_def split: sum.split prod.split)
    (simp add: flat_as_def)

lemma flat_enqueue [flat_ops]:
  "one_level s \<Longrightarrow> enqueue_ready rr n (flat_as b s) = map_sum id (flat_as b) (enqueue_ready mlfq n s)"
  using flat_enqueue_level [of s n b] by (simp add: enqueue_ready_def [of mlfq] priority_0)

lemma flat_waiting [flat_ops]: "enqueue_waiting n (flat_as b s) = map_sum id (flat_as b) (enqueue_waiting n s)"
  by (simp add: enqueue_waiting_def split: sum.split prod.split) (simp add: flat_as_def)

lemma flat_create_node [flat_ops]: "create_node t (flat_as b s) = map_sum id (map_prod id (flat_as b)) (create_node t s)"
  by (simp add: create_node_def worker_ops flat_as_def)

lemma flat_wake: "one_level s \<Longrightarrow> wake rr i (flat_as b s) = map_sum id (flat_as b) (wake mlfq i s)"
proof -
  assume one: "one_level s"
  have *: "(flat_as b s)\<lparr>waiting_queue := q, nodes := h\<rparr> = flat_as b (s\<lparr>waiting_queue := q, nodes := h\<rparr>)" for q h
    by (simp add: flat_as_def)
  show ?thesis
    using one by (auto simp: wake_def Let_def * flat_enqueue priority_0 split: sum.split prod.split option.split)
qed

lemma flat_release: "one_level s \<Longrightarrow> release_threads rr p (flat_as b s) = map_sum id (flat_as b) (release_threads mlfq p s)"
  by (simp add: release_threads_def flat_wake)

text \<open>Nothing but a thread that is created or freed changes the stacks.\<close>

definition same_stacks :: "worker \<Rightarrow> worker \<Rightarrow> bool" where
  "same_stacks s s' \<longleftrightarrow> stacks s' = stacks s \<and> freed s' = freed s \<and> fresh s \<le> fresh s' \<and> (\<forall>t. stack (tcbs s' t) = stack (tcbs s t))"

lemma same_stacks_trans: "same_stacks s t \<Longrightarrow> same_stacks t u \<Longrightarrow> same_stacks s u"
  by (simp add: same_stacks_def)

lemma same_stacks_can_free: "same_stacks s s' \<Longrightarrow> can_free s' p = can_free s p"
  by (simp add: same_stacks_def can_free_def)

lemma same_stacks_enqueue: "enqueue_level k n s = Inr s' \<Longrightarrow> same_stacks s s'"
  by (auto simp: enqueue_level_def same_stacks_def split: if_splits sum.splits)

lemma same_stacks_wake:
  assumes "wake mlfq i s = Inr s'"
  shows "same_stacks s s'"
proof -
  obtain r q h where d: "delete_from_queue (ids s) (waiting_queue s) i (nodes s) = Inr (r, q, h)"
    using assms by (auto simp: wake_def split: sum.splits)
  show ?thesis
  proof (cases r)
    case None
    then show ?thesis using assms d by (auto simp: wake_def same_stacks_def)
  next
    case (Some n)
    let ?s = "s\<lparr>waiting_queue := q, nodes := h\<rparr>" and ?t = "node_tcb (h n)"
    let ?u = "set_tcb ?t ((tcbs s ?t)\<lparr>status := READY, waiting_for := -1\<rparr>) ?s"
    have "\<exists>k. enqueue_level k n ?u = Inr s'" using assms d Some by (auto simp: wake_def Let_def enqueue_ready_def)
    then have "same_stacks ?u s'" using same_stacks_enqueue by blast
    moreover have "same_stacks s ?u" by (simp add: same_stacks_def set_tcb_def)
    ultimately show ?thesis by (rule same_stacks_trans [rotated])
  qed
qed

lemma same_stacks_release: "release_threads mlfq p s = Inr s' \<Longrightarrow> same_stacks s (update_time_stats s')"
  using same_stacks_wake by (fastforce simp: release_threads_def update_time_stats_def Let_def same_stacks_def split: if_splits)

definition frees_well :: "worker \<Rightarrow> bool" where
  "frees_well s \<longleftrightarrow> (status (tcbs s (running_thread s)) = FINISHED \<longrightarrow> can_free s (stack (tcbs s (running_thread s))))"

lemma frees_well_simps [simp]:
  "frees_well (s\<lparr>schedule_cycles := k\<rparr>) = frees_well s" "frees_well (s\<lparr>interrupt_disabled := b\<rparr>) = frees_well s"
  "frees_well (stamped s) = frees_well s" "frees_well (s\<lparr>return_values := f\<rparr>) = frees_well s"
  by (simp_all add: frees_well_def can_free_def stamped_def set_tcb_def)

lemma running_frees_well: "status (tcbs s (running_thread s)) \<noteq> FINISHED \<Longrightarrow> frees_well s"
  by (simp add: frees_well_def)

lemma flat_put_back:
  assumes "one_level s" and "status (tcbs s (running_thread s)) \<noteq> READY" and "frees_well s"
  shows "put_back_rr (flat_as b s) = map_sum id (flat_as b) (put_back_mlfq s)"
proof (cases "status (tcbs s (running_thread s)) = FINISHED")
  case True
  let ?r = "running_thread s"
  show ?thesis
  proof (cases "release_threads mlfq ?r s")
    case (Inr s1)
    have st: "stack (tcbs s1 ?r) = stack (tcbs (update_time_stats s1) ?r)" by (simp add: update_time_stats_def Let_def)
    have "can_free (update_time_stats s1) (stack (tcbs s1 ?r))"
      using same_stacks_release [OF Inr] True assms(3) unfolding frees_well_def st
      by (simp add: same_stacks_can_free) (simp add: same_stacks_def)
    then show ?thesis using True Inr assms(1)
      by (simp add: put_back_rr_def put_back_mlfq_def Let_def flat_release free_stack_def)
        (simp add: flat_as_def free_tcb_def)
  qed (use True assms(1) in \<open>simp add: put_back_rr_def put_back_mlfq_def Let_def flat_release\<close>)
next
  case False
  then show ?thesis using assms(1,2)
    by (cases "status (tcbs s (running_thread s))")
      (simp_all add: put_back_rr_def put_back_mlfq_def Let_def priority_0 flat_enqueue_level)
qed

text \<open>A stack that cannot be freed stops the feedback queue where round robin goes on.\<close>

lemma put_back_invalid:
  assumes "one_level s" and "\<not> frees_well s" and "put_back_rr (flat_as b s) = Inr t"
  shows "put_back_mlfq s = Inl InvalidFree"
proof -
  let ?r = "running_thread s"
  have fin: "status (tcbs s ?r) = FINISHED" "\<not> can_free s (stack (tcbs s ?r))" using assms(2) by (simp_all add: frees_well_def)
  then obtain s1 where s1: "release_threads mlfq ?r s = Inr s1"
    using assms(1,3) by (cases "release_threads mlfq ?r s") (simp_all add: put_back_rr_def Let_def flat_release)
  have "stack (tcbs s1 ?r) = stack (tcbs s ?r)"
    using same_stacks_release [OF s1] by (simp add: same_stacks_def) (simp add: update_time_stats_def Let_def)
  then have "\<not> can_free (update_time_stats s1) (stack (tcbs s1 ?r))"
    using same_stacks_release [OF s1] fin(2) by (simp add: same_stacks_can_free)
  then show ?thesis using s1 fin(1) by (simp add: put_back_mlfq_def Let_def free_stack_def)
qed

lemma flat_dispatch: "dispatch n (flat_as b s) = map_sum id (flat_as b) (dispatch n s)"
  by (simp add: dispatch_def Let_def worker_ops) (simp add: flat_as_def set_tcb_def)

lemma flat_resume: "resume_main (flat_as b s) = map_sum id (flat_as b) (resume_main s)"
proof (cases "main_thread s")
  case (Some t)
  show ?thesis
  proof (cases "create_node t (s\<lparr>running_thread := t\<rparr>)")
    case (Inl f)
    then show ?thesis using Some by (simp add: resume_main_def flat_create_node)
  next
    case (Inr x)
    then show ?thesis using Some by (cases x) (simp add: resume_main_def flat_create_node)
  qed
qed (simp add: resume_main_def)

subsection \<open>The schedulers\<close>

lemma flat_pop: "one_level s \<Longrightarrow> pop_ready (flat_as b s) = map_prod id (flat_as b) (pop_level 0 s)"
  by (simp add: pop_ready_def pop_level_def Let_def one_level_def MLFQ_LEVELS_def split: prod.split) (simp add: flat_as_def)

lemma next_is_pop: "one_level s \<Longrightarrow> get_next_thread_mlfq s = pop_level 0 s"
proof -
  assume one: "one_level s"
  have "[0..<MLFQ_LEVELS] = 0 # [1..<MLFQ_LEVELS]" by (simp add: MLFQ_LEVELS_def upt_conv_Cons)
  then have "get_next_thread_mlfq s = (if head (MLFQ_queue s ! 0) \<noteq> None then pop_level 0 s else (None, s))"
    using next_level_one_level [OF _ one, of "[1..<MLFQ_LEVELS]"]
    by (simp only: get_next_thread_mlfq_def next_level.simps) auto
  then show ?thesis by (simp add: pop_empty_level)
qed

lemma boost_flat: "one_level s \<Longrightarrow> \<exists>k. boost_if_due s = Inr (s\<lparr>schedule_cycles := k\<rparr>)"
  by (auto simp: boost_if_due_def boost_one_level intro: exI [of _ "schedule_cycles s"])

lemma flat_run:
  assumes "one_level s"
  shows "(case dispatch n (flat_as b s) of Inl f \<Rightarrow> Inl f
      | Inr s \<Rightarrow> let (tv, s) = gettimeofday (init_timer TIME_SLICE (enable_signal s)) in Inr (s\<lparr>schedule_timestamp := tv\<rparr>))
    = map_sum id flat (run_mlfq n s)"
proof (cases "dispatch n s")
  case (Inr s1)
  have "priority (tcbs s1 (running_thread s1)) = 0" by (rule priority_0 [OF one_level_dispatch [OF Inr assms]])
  then show ?thesis using Inr
    by (simp add: flat_dispatch run_mlfq_def Let_def worker_ops flat_def) (simp add: flat_as_def)
qed (simp add: flat_dispatch run_mlfq_def)

lemma flat_sched:
  assumes "one_level s" and "status (tcbs s (running_thread s)) \<noteq> READY" and "frees_well s"
  shows "sched_rr (flat_as b s) = map_sum id flat (sched_mlfq s)"
proof -
  let ?s = "s\<lparr>schedule_cycles := schedule_cycles s + 1\<rparr>"
  have start: "disable_signal (flat_as b s) = flat_as True ?s" by (simp add: disable_signal_def flat_as_def)
  have put: "put_back_rr (flat_as True ?s) = map_sum id (flat_as True) (put_back_mlfq ?s)"
    by (rule flat_put_back) (simp_all add: assms)
  show ?thesis
  proof (cases "put_back_mlfq ?s")
    case (Inl f)
    then show ?thesis using start put by (simp add: sched_rr_def sched_mlfq_def)
  next
    case (Inr s1)
    then have one: "one_level s1" using one_level_put_back assms(1) by simp
    obtain k where k: "boost_if_due s1 = Inr (s1\<lparr>schedule_cycles := k\<rparr>)" using boost_flat [OF one] by blast
    let ?s1 = "s1\<lparr>schedule_cycles := k\<rparr>"
    obtain n s2 where pop: "pop_level 0 ?s1 = (n, s2)" by (cases "pop_level 0 ?s1")
    have two: "one_level s2" using one_level_pop [OF pop] one by simp
    have rr: "pop_ready (flat_as True s1) = (n, flat_as True s2)" using flat_pop [of ?s1 True] one pop by simp
    have sched: "sched_mlfq s = (case n of None \<Rightarrow> resume_main (enable_signal s2) | Some n \<Rightarrow> run_mlfq n s2)"
      using Inr k next_is_pop [of ?s1] one pop by (simp add: sched_mlfq_def)
    show ?thesis
    proof (cases n)
      case None
      have "enable_signal (flat_as True s2) = flat_as False (enable_signal s2)" by (simp add: enable_signal_def flat_as_def)
      then have "sched_rr (flat_as b s) = map_sum id (flat_as False) (resume_main (enable_signal s2))"
        using start put Inr rr None by (simp add: sched_rr_def flat_resume)
      moreover have "interrupt_disabled s' = False" if "resume_main (enable_signal s2) = Inr s'" for s'
        using that by (auto simp: resume_main_def create_node_def worker_ops Let_def set_tcb_def split: option.splits if_splits)
      ultimately show ?thesis using sched None by (cases "resume_main (enable_signal s2)") (simp_all add: flat_def)
    next
      case (Some x)
      then show ?thesis using start put Inr rr sched flat_run [OF two, of x True] by (simp add: sched_rr_def)
    qed
  qed
qed

lemma sched_invalid:
  assumes "one_level s" and "\<not> frees_well s" and "sched_rr (flat_as b s) = Inr t"
  shows "sched_mlfq s = Inl InvalidFree"
proof -
  let ?s = "s\<lparr>schedule_cycles := schedule_cycles s + 1\<rparr>"
  have "disable_signal (flat_as b s) = flat_as True ?s" by (simp add: disable_signal_def flat_as_def)
  then obtain u where "put_back_rr (flat_as True ?s) = Inr u"
    using assms(3) by (cases "put_back_rr (flat_as True ?s)") (simp_all add: sched_rr_def)
  from put_back_invalid [OF _ _ this] assms(1,2) show ?thesis by (simp add: sched_mlfq_def)
qed

lemma stamped_mlfq: "schedule mlfq s = sched_mlfq (stamped s)"
  by (simp add: schedule_def worker_ops Let_def stamped_def set_tcb_def)

lemma flat_stamped: "stamped (flat_as b s) = flat_as False (stamped s)"
  by (simp add: stamped_def flat_as_def set_tcb_def)

lemma one_level_stamped: "one_level s \<Longrightarrow> one_level (stamped s)"
  by (simp add: stamped_def priority_0)

lemma schedule_invalid:
  assumes "one_level s" and "\<not> frees_well s" and "schedule rr (flat_as b s) = Inr t"
  shows "schedule mlfq s = Inl InvalidFree"
  using sched_invalid [of "stamped s" False t] assms
  by (simp only: schedule_stamped stamped_mlfq flat_stamped one_level_stamped frees_well_simps) simp

lemma flat_schedule:
  assumes "one_level s" and "status (tcbs s (running_thread s)) \<noteq> READY" and "frees_well s"
  shows "schedule rr (flat_as b s) = map_sum id flat (schedule mlfq s)"
proof -
  have "status (tcbs (stamped s) (running_thread (stamped s))) \<noteq> READY"
    using assms(2) by (simp add: stamped_def set_tcb_def)
  then show ?thesis using flat_sched [of "stamped s" False] one_level_stamped [OF assms(1)] assms(3) flat_stamped [of b s] by (simp only: schedule_stamped stamped_mlfq) simp
qed

subsection \<open>The calls\<close>

lemma disable_view [simp]: "tcbs (disable_signal s) = tcbs s" "running_thread (disable_signal s) = running_thread s"
  "running_node (disable_signal s) = running_node s" "return_values (disable_signal s) = return_values s"
  "thread_count (disable_signal s) = thread_count s" "one_level (disable_signal s) = one_level s" "frees_well (disable_signal s) = frees_well s"
 
  "disable_signal (flat_as b s) = flat_as True (disable_signal s)" "enable_signal (flat_as b s) = flat_as False (enable_signal s)"
  by (simp_all add: disable_signal_def enable_signal_def) (simp_all add: flat_as_def)

lemma flat_yield:
  "one_level s \<Longrightarrow> status (tcbs s (running_thread s)) \<noteq> READY \<Longrightarrow> frees_well s
    \<Longrightarrow> worker_yield rr (flat_as b s) = map_sum id flat (worker_yield mlfq s)"
  using flat_schedule [of "disable_signal s" True]
  by (simp add: worker_yield_def)

lemma flat_tick:
  "one_level s \<Longrightarrow> status (tcbs s (running_thread s)) = RUNNING
    \<Longrightarrow> interrupt_handler rr (flat s) = map_sum id flat (interrupt_handler mlfq s)"
  by (simp add: interrupt_handler_def flat_def [of s] flat_schedule running_frees_well) (simp add: flat_as_def flat_def)

lemma set_tcb_view [simp]: "running_thread (set_tcb p t s) = running_thread s" "tcbs (set_tcb p t s) = (tcbs s)(p := t)"
  "return_values (set_tcb p t s) = return_values s" "running_node (set_tcb p t s) = running_node s"
  by (simp_all add: set_tcb_def)

lemma flat_exit:
  assumes "one_level s" and "can_free s (stack (tcbs s (running_thread s)))"
  shows "worker_exit rr v (flat_as b s) = map_sum id flat (worker_exit mlfq v s)"
proof -
  let ?t = "running_thread s"
  let ?s = "set_tcb ?t ((tcbs s ?t)\<lparr>status := FINISHED\<rparr>) (disable_signal s)"
  have one: "one_level ?s" using assms(1) by (simp add: priority_0)
  have free: "frees_well ?s" using assms(2) by (simp add: frees_well_def can_free_def set_tcb_def disable_signal_def)
  have "worker_yield rr (flat_as True ?s) = map_sum id flat (worker_yield mlfq ?s)"
    by (rule flat_yield [OF one _ free]) simp
  moreover have "worker_yield rr (flat_as True (?s\<lparr>return_values := f\<rparr>)) = map_sum id flat (worker_yield mlfq (?s\<lparr>return_values := f\<rparr>))" for f
    by (rule flat_yield) (simp_all add: one free)
  ultimately show ?thesis by (simp add: worker_exit_def Let_def)
qed

lemma exit_invalid:
  assumes "one_level s" and "\<not> can_free s (stack (tcbs s (running_thread s)))" and "worker_exit rr v (flat_as b s) = Inr t"
  shows "worker_exit mlfq v s = Inl InvalidFree"
proof -
  let ?t = "running_thread s"
  let ?s = "set_tcb ?t ((tcbs s ?t)\<lparr>status := FINISHED\<rparr>) (disable_signal s)"
  let ?k = "unat (ids s ?t)"
  define u where "u = (if v \<noteq> 0 then ?s\<lparr>return_values := (return_values ?s)(?k := v)\<rparr> else ?s)"
  have go: "status (tcbs s ?t) = RUNNING" "\<not> (v \<noteq> 0 \<and> 10000 \<le> ?k)"
    using assms(3) by (auto simp: worker_exit_def Let_def split: if_splits)
  have "one_level u" "\<not> frees_well u"
    using assms(1,2) by (auto simp: u_def priority_0 frees_well_def can_free_def) (simp_all add: set_tcb_def disable_signal_def)
  moreover have "worker_exit rr v (flat_as b s) = schedule rr (flat_as True (disable_signal u))"
    using go by (cases "v = 0") (simp_all add: worker_exit_def Let_def worker_yield_def u_def)
  moreover have "worker_exit mlfq v s = schedule mlfq (disable_signal u)"
    using go by (cases "v = 0") (simp_all add: worker_exit_def Let_def worker_yield_def u_def)
  ultimately show ?thesis using schedule_invalid [of "disable_signal u" True t] assms(3) by simp
qed

lemma flat_find: "one_level s \<Longrightarrow> find_ready_threads rr i (flat_as b s) = find_ready_threads mlfq i s"
proof -
  assume one: "one_level s"
  then obtain q0 q1 q2 q3 where q: "MLFQ_queue s = [q0, q1, q2, q3]"
    by (auto simp: one_level_def MLFQ_LEVELS_def length_Suc_conv eval_nat_numeral)
  have "head (MLFQ_queue s ! k) = None" if "k \<in> {1, 2, 3}" for k
    using one that by (auto simp: one_level_def MLFQ_LEVELS_def)
  from this [of 1] this [of 2] this [of 3] have e: "head q1 = None" "head q2 = None" "head q3 = None" by (simp_all add: q)
  have "find_thread (ids s) q i (nodes s) = Inr None" if "head q = None" for q
    using that by (simp add: find_thread_def find_node.simps)
  then show ?thesis using q e by (simp add: find_ready_threads_def split: sum.split option.split)
qed

lemma flat_signal [simp]: "flat (disable_signal s) = flat_as True (disable_signal s)" "flat (enable_signal s) = flat_as False (enable_signal s)"
  by (simp_all add: flat_def disable_signal_def enable_signal_def)

lemma flat_join:
  assumes "one_level s"
  shows "worker_join rr i (flat_as b s) = map_sum id (\<lambda>(r, v, s). (r, v, flat s)) (worker_join mlfq i s)"
proof -
  let ?r = "running_thread s" and ?d = "disable_signal s"
  have park: "one_level s1 \<and> status (tcbs s1 (running_thread s1)) \<noteq> READY \<and> frees_well s1"
    if "enqueue_waiting n (set_tcb ?r (t'\<lparr>status := BLOCKED, waiting_for := j\<rparr>) (set_tcb t (t''\<lparr>waiting_thread := w\<rparr>) ?d)) = Inr s1"
      "priority t' = 0" "priority t'' = 0" for n t t' t'' j w s1
    using one_level_enqueue(2) [OF that(1)] that assms
    by (auto simp: enqueue_waiting_def frees_well_def split: sum.splits)
  show ?thesis
  proof (cases "find_ready_threads mlfq i ?d")
    case (Inr u)
    show ?thesis
    proof (cases u)
      case None
      then show ?thesis using Inr assms by (simp add: worker_join_def Let_def flat_find)
    next
      case (Some t)
      then show ?thesis using Inr assms park
        by (auto simp: worker_join_def Let_def flat_find flat_waiting flat_yield priority_0 split: sum.split)
    qed
  qed (simp add: worker_join_def Let_def flat_find assms)
qed

lemma flat_counters:
  "(flat_as b s)\<lparr>calls := k\<rparr> = flat_as b (s\<lparr>calls := k\<rparr>)" "(flat_as b s)\<lparr>ticks := k\<rparr> = flat_as b (s\<lparr>ticks := k\<rparr>)"
  "(flat_as b s)\<lparr>fresh := k\<rparr> = flat_as b (s\<lparr>fresh := k\<rparr>)" "(flat_as b s)\<lparr>nodes := h\<rparr> = flat_as b (s\<lparr>nodes := h\<rparr>)"
  "(flat_as b s)\<lparr>thread_count := w\<rparr> = flat_as b (s\<lparr>thread_count := w\<rparr>)"
  "(flat_as b s)\<lparr>active_threads := w\<rparr> = flat_as b (s\<lparr>active_threads := w\<rparr>)"
  "(flat_as b s)\<lparr>tcbs := g\<rparr> = flat_as b (s\<lparr>tcbs := g\<rparr>)"
  "calls (flat_as b s) = calls s" "call_ok (flat_as b s) = call_ok s" "ticks (flat_as b s) = ticks s" "now (flat_as b s) = now s"
  "fresh (flat_as b s) = fresh s" "active_threads (flat_as b s) = active_threads s" "garbage_time (flat_as b s) = garbage_time s"
  "interrupt_disabled (flat_as b s) = b"
  by (simp_all add: flat_as_def)

lemma no_stacks_enqueue: "enqueue_ready rr n (no_stacks s) = map_sum id no_stacks (enqueue_ready rr n s)"
  by (simp add: enqueue_ready_def no_stacks_def split: sum.split prod.split)

lemma enqueue_view: "enqueue_ready mlfq n s = Inr s' \<Longrightarrow> interrupt_disabled s' = interrupt_disabled s"
  by (auto simp: enqueue_ready_def enqueue_level_def split: if_splits sum.splits)

lemma flat_enqueue_created:
  assumes "one_level s" and "no_stacks t = flat s"
  shows "map_sum id no_stacks (enqueue_ready rr n t) = map_sum id flat (enqueue_ready mlfq n s)"
proof -
  have "map_sum id no_stacks (enqueue_ready rr n t) = enqueue_ready rr n (flat s)"
    by (simp only: no_stacks_enqueue [symmetric] assms(2))
  also have "\<dots> = map_sum id flat (enqueue_ready mlfq n s)"
    using flat_enqueue [OF assms(1), of n "interrupt_disabled s"] enqueue_view [of n s]
    by (cases "enqueue_ready mlfq n s") (simp_all add: flat_def)
  finally show ?thesis .
qed

text \<open>The stack of a new thread.\<close>

lemma flat_create:
  assumes "one_level s" and "thread_count s \<noteq> 0"
  shows "map_sum id (map_prod id no_stacks) (worker_create rr (flat s)) = map_sum id (map_prod id flat) (worker_create mlfq s)"
proof -
  let ?c = "calls s"
  note defs = worker_create_def create_node_def Let_def worker_ops flat_counters flat_def set_tcb_def
  have pair: "map_sum id (map_prod id f) (case e of Inl x \<Rightarrow> Inl x | Inr s \<Rightarrow> Inr (i, s)) = map_sum id (Pair i) (map_sum id f e)"
    for f :: "worker \<Rightarrow> worker" and e and i :: int
    by (cases e) simp_all
  consider "\<not> call_ok s ?c" | "call_ok s ?c" "\<not> call_ok s (Suc ?c)" | "call_ok s ?c" "call_ok s (Suc ?c)" "\<not> call_ok s (Suc (Suc ?c))"
    | "call_ok s ?c" "call_ok s (Suc ?c)" "call_ok s (Suc (Suc ?c))" "\<not> call_ok s (Suc (Suc (Suc ?c)))"
    | "call_ok s ?c" "call_ok s (Suc ?c)" "call_ok s (Suc (Suc ?c))" "call_ok s (Suc (Suc (Suc ?c)))" by blast
  then show ?thesis
  proof cases
    case 5
    show ?thesis
    proof (cases "call_ok s (Suc (Suc (Suc (Suc ?c))))")
      case True
      show ?thesis using 5 True assms
        apply (simp add: defs pair)
        apply (rule arg_cong [where f = "map_sum id (Pair _)"])
        apply (rule flat_enqueue_created)
        by (simp_all add: one_level_def) (simp_all add: flat_def flat_as_def no_stacks_def)
    qed (use 5 assms in \<open>simp add: defs\<close>)
  qed (use assms in \<open>simp_all add: defs\<close>, simp add: flat_as_def no_stacks_def)
qed

text \<open>A call of round robin on the first level does what the call of the feedback queue does, but for stacks that
  cannot be freed.\<close>

lemma runs_now_flat: "runs_now (flat s) = map_prod id flat (runs_now s)"
  by (simp add: runs_now_def flat_def)

lemma no_stacks_flat [simp]: "no_stacks (flat s) = flat s" "map_prod id no_stacks (map_prod id flat p) = map_prod id flat p"
  by (simp_all add: flat_def map_prod_def split: prod.split)

lemma flat_call:
  assumes "one_level s" and "thread_count s \<noteq> 0" and "status (tcbs s (running_thread s)) = RUNNING"
    and "\<And>v. c = Quit v \<Longrightarrow> can_free s (stack (tcbs s (running_thread s)))"
  shows "map_sum id (map_prod id no_stacks) (wk_call rr c (flat s)) = map_sum id (map_prod id flat) (wk_call mlfq c s)"
proof -
  have run: "status (tcbs s (running_thread s)) \<noteq> READY" "frees_well s" using assms(3) by (simp_all add: running_frees_well)
  show ?thesis
  proof (cases c)
    case Spawn
    have "map_sum id (map_prod id f) (map_sum id (\<lambda>(i, s). (Made i, s)) x)
        = map_sum id (\<lambda>(i, s). (Made i, s)) (map_sum id (map_prod id f) x)" for f :: "worker \<Rightarrow> worker" and x
      by (cases x) auto
    from this [of no_stacks "worker_create rr (flat s)"] this [of flat "worker_create mlfq s"]
    show ?thesis using flat_create [OF assms(1,2)] Spawn by (simp only: wk_call.simps)
  next
    case Yield
    then show ?thesis using flat_yield [OF assms(1) run] runs_now_flat
      by (cases "worker_yield mlfq s") (auto simp: flat_def [of s])
  next
    case Tick
    then show ?thesis using flat_tick [OF assms(1,3)] runs_now_flat by (cases "interrupt_handler mlfq s") auto
  next
    case (Quit v)
    then show ?thesis using flat_exit [OF assms(1) assms(4) [OF Quit]] runs_now_flat
      by (cases "worker_exit mlfq v s") (auto simp: flat_def [of s])
  next
    case (Join i)
    then show ?thesis using flat_join [OF assms(1)] runs_now_flat
      by (cases "worker_join mlfq i s") (auto simp: flat_def [of s] split: outcome.split)
  qed
qed

lemma map_sum_Inr: "map_sum f g x = Inr y \<longleftrightarrow> (\<exists>z. x = Inr z \<and> y = g z)"
  by (cases x) auto

lemma one_level_call:
  assumes "wk_call mlfq c s = Inr (r, s')" and "one_level s"
  shows "one_level s'"
proof (cases c)
  case (Join i)
  then obtain k v s1 where j: "worker_join mlfq i s = Inr (k, v, s1)"
      "(case k of Switched \<Rightarrow> runs_now s1 | Returned m \<Rightarrow> (Value m v, s1)) = (r, s')"
    using assms(1) by (auto simp: map_sum_Inr)
  then have "s' = s1" by (cases k) (simp_all add: runs_now_def)
  then show ?thesis using one_level_join [OF j(1) assms(2)] by simp
qed (use assms in \<open>auto simp: map_sum_Inr runs_now_def interrupt_handler_def split: if_splits
      dest: one_level_create one_level_yield one_level_schedule one_level_exit\<close>)

subsection \<open>Both schedulers implement the queue of threads\<close>

text \<open>Every control block in use has a stack of its own that can be freed, or \<open>NULL\<close>.\<close>

definition stacks_ok :: "worker \<Rightarrow> bool" where
  "stacks_ok s \<longleftrightarrow> (\<forall>t. t \<notin> freed s \<longrightarrow> can_free s (stack (tcbs s t))) \<and> (\<forall>p \<in> stacks s. p < fresh s)
     \<and> (\<forall>t u. t \<notin> freed s \<and> u \<notin> freed s \<and> stack (tcbs s t) = stack (tcbs s u) \<and> stack (tcbs s t) \<noteq> 0 \<longrightarrow> t = u)"

lemma stacks_same: "same_stacks s s' \<Longrightarrow> stacks_ok s \<Longrightarrow> stacks_ok s'"
  by (auto simp: stacks_ok_def same_stacks_def can_free_def intro: less_le_trans)

lemma same_stacks_dispatch: "dispatch n s = Inr s' \<Longrightarrow> same_stacks s s'"
  by (auto simp: dispatch_def worker_ops Let_def set_tcb_def same_stacks_def split: if_splits)

lemma same_stacks_resume: "resume_main s = Inr s' \<Longrightarrow> same_stacks s s'"
  by (auto simp: resume_main_def create_node_def worker_ops Let_def set_tcb_def same_stacks_def split: option.splits if_splits)

lemma same_stacks_run: "run_mlfq n s = Inr s' \<Longrightarrow> same_stacks s s'"
  using same_stacks_dispatch by (fastforce simp: run_mlfq_def worker_ops Let_def same_stacks_def split: sum.splits)

lemma same_stacks_pop: "pop_level k s = (n, s') \<Longrightarrow> same_stacks s s'"
  by (auto simp: pop_level_def Let_def same_stacks_def split: prod.splits)

lemma same_stacks_stamped: "same_stacks s (stamped s)"
  by (simp add: same_stacks_def stamped_def set_tcb_def)

lemma stacks_put_back:
  assumes "put_back_mlfq s = Inr s'" and "stacks_ok s" and "running_thread s \<notin> freed s"
  shows "stacks_ok s'"
proof (cases "status (tcbs s (running_thread s)) = FINISHED")
  case True
  let ?r = "running_thread s"
  from assms(1) True obtain s1 where s1: "release_threads mlfq ?r s = Inr s1"
      "(case free_stack (stack (tcbs s1 ?r)) (update_time_stats s1) of Inl f \<Rightarrow> Inl f | Inr s \<Rightarrow> Inr (free_tcb ?r s)) = Inr s'"
    by (auto simp: put_back_mlfq_def Let_def split: sum.splits)
  let ?u = "update_time_stats s1"
  have u: "stacks_ok ?u" by (rule stacks_same [OF same_stacks_release [OF s1(1)] assms(2)])
  have "stack (tcbs s1 ?r) = stack (tcbs ?u ?r)" by (simp add: update_time_stats_def Let_def)
  then have "s' = free_tcb ?r (?u\<lparr>stacks := stacks ?u - {stack (tcbs ?u ?r)}\<rparr>)"
    using s1(2) by (simp add: free_stack_def split: if_splits)
  moreover have "?r \<notin> freed ?u" using same_stacks_release [OF s1(1)] assms(3) by (simp add: same_stacks_def)
  ultimately show ?thesis using u by (auto simp: stacks_ok_def free_tcb_def can_free_def)
next
  case False
  have "same_stacks s s'" if "enqueue_level k n (set_tcb t ((demote (tcbs s t))\<lparr>status := READY\<rparr>) s) = Inr s'" for k n t
    using same_stacks_enqueue [OF that] by (auto simp: same_stacks_def set_tcb_def demote_def split: if_splits)
  then have "same_stacks s s'" if "status (tcbs s (running_thread s)) = RUNNING"
    using that assms(1) by (simp add: put_back_mlfq_def Let_def)
  moreover have "s' = s" if "status (tcbs s (running_thread s)) \<noteq> RUNNING"
    using that False assms(1) by (simp add: put_back_mlfq_def Let_def)
  ultimately show ?thesis using assms(2) stacks_same by blast
qed

lemma stacks_sched:
  assumes "sched_mlfq s = Inr s'" and "one_level s" and "stacks_ok s" and "running_thread s \<notin> freed s"
  shows "stacks_ok s'"
proof -
  let ?s = "s\<lparr>schedule_cycles := schedule_cycles s + 1\<rparr>"
  obtain s1 where s1: "put_back_mlfq ?s = Inr s1" using assms(1) by (auto simp: sched_mlfq_def split: sum.splits)
  have "stacks_ok ?s" using assms(3) by (rule stacks_same [rotated]) (simp add: same_stacks_def)
  then have ok: "stacks_ok s1" using assms(4) by (intro stacks_put_back [OF s1]) simp_all
  have one: "one_level s1" using one_level_put_back [OF s1] assms(2) by simp
  obtain k where k: "boost_if_due s1 = Inr (s1\<lparr>schedule_cycles := k\<rparr>)" using boost_flat [OF one] by blast
  obtain n s2 where s2: "pop_level 0 (s1\<lparr>schedule_cycles := k\<rparr>) = (n, s2)" by (cases "pop_level 0 (s1\<lparr>schedule_cycles := k\<rparr>)")
  have "(case n of None \<Rightarrow> resume_main (enable_signal s2) | Some n \<Rightarrow> run_mlfq n s2) = Inr s'"
    using assms(1) s1 k s2 next_is_pop [of "s1\<lparr>schedule_cycles := k\<rparr>"] one by (simp add: sched_mlfq_def)
  then have "same_stacks s2 s'"
    using same_stacks_run same_stacks_resume [of "enable_signal s2"]
    by (cases n) (auto simp: same_stacks_def enable_signal_def)
  moreover have "same_stacks s1 s2" using same_stacks_pop [OF s2] by (simp add: same_stacks_def)
  ultimately show ?thesis using ok stacks_same by blast
qed

lemma stacks_schedule:
  assumes "schedule mlfq s = Inr s'" and "one_level s" and "stacks_ok s" and "running_thread s \<notin> freed s"
  shows "stacks_ok s'"
proof (rule stacks_sched)
  show "sched_mlfq (stamped s) = Inr s'" using assms(1) by (simp add: stamped_mlfq)
  show "stacks_ok (stamped s)" by (rule stacks_same [OF same_stacks_stamped assms(3)])
qed (use assms in \<open>simp_all add: one_level_stamped\<close>, simp add: stamped_def set_tcb_def)

text \<open>A switch after steps that leave the stacks alone.\<close>

lemma stacks_switch:
  assumes "worker_yield mlfq t = Inr s'" and "same_stacks s t" and "one_level t" and "stacks_ok s" and "running_thread t \<notin> freed s"
  shows "stacks_ok s'"
proof (rule stacks_schedule)
  show "schedule mlfq (disable_signal t) = Inr s'" using assms(1) by (simp add: worker_yield_def)
  show "stacks_ok (disable_signal t)" by (rule stacks_same [OF _ assms(4)], use assms(2) in \<open>simp add: same_stacks_def disable_signal_def\<close>)
  show "running_thread (disable_signal t) \<notin> freed (disable_signal t)"
    using assms(2,5) by (simp add: same_stacks_def disable_signal_def)
qed (use assms(3) in simp)

lemma stacks_exit:
  assumes "worker_exit mlfq v s = Inr s'" and "one_level s" and "stacks_ok s" and "running_thread s \<notin> freed s"
  shows "stacks_ok s'"
proof -
  let ?r = "running_thread s"
  let ?s = "set_tcb ?r ((tcbs s ?r)\<lparr>status := FINISHED\<rparr>) (disable_signal s)"
  define u where "u = (if v \<noteq> 0 then ?s\<lparr>return_values := (return_values ?s)(unat (ids s ?r) := v)\<rparr> else ?s)"
  have u: "worker_yield mlfq u = Inr s'"
    using assms(1) by (cases "v = 0") (auto simp: worker_exit_def Let_def u_def split: if_splits)
  have "same_stacks s u" by (simp add: u_def same_stacks_def) (simp add: set_tcb_def disable_signal_def)
  moreover have "one_level u" "running_thread u = ?r" using assms(2) by (simp_all add: u_def priority_0)
  ultimately show ?thesis using assms(3,4) by (intro stacks_switch [OF u]) simp_all
qed

lemma stacks_join:
  assumes "worker_join mlfq i s = Inr (k, v, s')" and "one_level s" and "stacks_ok s" and "running_thread s \<notin> freed s"
  shows "stacks_ok s'"
proof -
  let ?r = "running_thread s" and ?d = "disable_signal s"
  obtain u where u: "find_ready_threads mlfq i ?d = Inr u" using assms(1) by (auto simp: worker_join_def Let_def split: sum.splits)
  have "same_stacks s ?d" "same_stacks s (enable_signal ?d)"
    by (simp_all add: same_stacks_def disable_signal_def enable_signal_def)
  then have stay: "stacks_ok ?d" "stacks_ok (enable_signal ?d)" using stacks_same assms(3) by blast+
  show ?thesis
  proof (cases u)
    case None
    then have "s' = enable_signal ?d" using assms(1) u by (auto simp: worker_join_def Let_def split: if_splits)
    then show ?thesis by (simp only: stay)
  next
    case (Some t)
    show ?thesis
    proof (cases "0 < sint (waiting_thread (tcbs s t))")
      case True
      then have "s' = ?d" using assms(1) u Some by (simp add: worker_join_def Let_def)
      then show ?thesis by (simp only: stay)
    next
      case False
      define a where "a = set_tcb t ((tcbs s t)\<lparr>waiting_thread := ids s ?r\<rparr>) ?d"
      define b where "b = set_tcb ?r ((tcbs a ?r)\<lparr>status := BLOCKED, waiting_for := ids a t\<rparr>) a"
      obtain w where w: "enqueue_waiting (running_node s) b = Inr w" "worker_yield mlfq w = Inr s'"
        using assms(1) u Some False by (simp add: worker_join_def Let_def a_def b_def split: sum.splits)
      have "same_stacks s b \<and> running_thread b = ?r \<and> one_level b"
        using assms(2) by (simp add: a_def b_def same_stacks_def priority_0) (simp add: disable_signal_def set_tcb_def)
      moreover have "same_stacks b w \<and> running_thread w = running_thread b"
        using w(1) by (auto simp: enqueue_waiting_def same_stacks_def split: sum.splits)
      ultimately show ?thesis
        using assms(3,4) same_stacks_trans one_level_enqueue(2) [OF w(1)] by (intro stacks_switch [OF w(2), of s]) auto
    qed
  qed
qed

text \<open>A new thread gets a new stack.\<close>

lemma stacks_new:
  assumes "stacks_ok s" and "fresh s \<le> p" and "stack x = p"
  shows "stacks_ok (s\<lparr>stacks := insert p (stacks s), tcbs := (tcbs s)(t := x), fresh := Suc p\<rparr>)" (is "stacks_ok ?s")
proof -
  have free: "stack (tcbs s u) = 0 \<or> stack (tcbs s u) \<in> stacks s \<and> stack (tcbs s u) \<noteq> p" if "u \<notin> freed s" for u
    using assms(1,2) that by (fastforce simp: stacks_ok_def can_free_def)
  have "\<forall>q \<in> stacks ?s. q < fresh ?s" using assms(1,2) by (fastforce simp: stacks_ok_def)
  moreover have "can_free ?s (stack (tcbs ?s u))" if "u \<notin> freed s" for u
    using free [OF that] assms(3) by (auto simp: can_free_def)
  moreover have "u = v" if "u \<notin> freed s" "v \<notin> freed s" "stack (tcbs ?s u) = stack (tcbs ?s v)" "stack (tcbs ?s u) \<noteq> 0" for u v
  proof (cases "u = t \<or> v = t")
    case True
    then show ?thesis using that free [of u] free [of v] assms(3) by (auto split: if_splits)
  next
    case False
    then have "u \<notin> freed s \<and> v \<notin> freed s \<and> stack (tcbs s u) = stack (tcbs s v) \<and> stack (tcbs s u) \<noteq> 0" using that by simp
    moreover have "\<forall>u v. u \<notin> freed s \<and> v \<notin> freed s \<and> stack (tcbs s u) = stack (tcbs s v) \<and> stack (tcbs s u) \<noteq> 0 \<longrightarrow> u = v"
      using assms(1) unfolding stacks_ok_def by (elim conjE)
    ultimately show ?thesis by blast
  qed
  ultimately show ?thesis unfolding stacks_ok_def by (intro conjI allI impI) simp_all
qed

lemma stacks_create:
  assumes "worker_create mlfq s = Inr (r, s')" and "thread_count s \<noteq> 0" and "stacks_ok s" and "call_ok s = (\<lambda>_. True)"
  shows "stacks_ok s'"
proof -
  let ?p = "Suc (fresh s)"
  let ?x = "\<lparr>tid = thread_count s, status = READY, stack = ?p, priority = 0, waiting_thread = -1, waiting_for = -1,
      first_schedule = True, created = now s (ticks s), first_run = zero_time, finished = zero_time,
      time_on_cpu = garbage_time s, mutex_blocked = False, blocked_from_mutex = None\<rparr>"
  let ?u = "s\<lparr>stacks := insert ?p (stacks s), tcbs := (tcbs s)(fresh s := ?x), fresh := Suc ?p\<rparr>"
  obtain n v where v: "enqueue_ready mlfq n v = Inr s'" "same_stacks ?u v"
    using assms(1,2,4)
    by (simp add: worker_create_def create_node_def Let_def worker_ops set_tcb_def split: sum.splits)
      (rule that, assumption, simp add: same_stacks_def)
  have "stacks_ok ?u" by (rule stacks_new [OF assms(3)]) simp_all
  moreover have "same_stacks v s'" using v(1) same_stacks_enqueue by (simp add: enqueue_ready_def)
  ultimately show ?thesis using v(2) stacks_same by blast
qed

lemma stacks_call:
  assumes "wk_call mlfq c s = Inr (r, s')" and "thread_count s \<noteq> 0" and "one_level s" and "stacks_ok s" and "running_thread s \<notin> freed s"
    and "call_ok s = (\<lambda>_. True)"
  shows "stacks_ok s'"
proof (cases c)
  case Spawn
  then show ?thesis using assms(1,2,4,6) by (auto simp: map_sum_Inr dest: stacks_create)
next
  case Yield
  have "same_stacks s s" by (simp add: same_stacks_def)
  then show ?thesis using Yield assms by (auto simp: map_sum_Inr runs_now_def dest: stacks_switch)
next
  case Tick
  then show ?thesis using assms by (auto simp: map_sum_Inr runs_now_def interrupt_handler_def dest: stacks_schedule split: if_splits)
next
  case (Quit v)
  then show ?thesis using assms by (auto simp: map_sum_Inr runs_now_def dest: stacks_exit)
next
  case (Join i)
  then obtain k v s1 where j: "worker_join mlfq i s = Inr (k, v, s1)"
      "(case k of Switched \<Rightarrow> runs_now s1 | Returned m \<Rightarrow> (Value m v, s1)) = (r, s')"
    using assms(1) by (auto simp: map_sum_Inr)
  then have "s' = s1" by (cases k) (simp_all add: runs_now_def)
  then show ?thesis using stacks_join [OF j(1) assms(3-5)] by simp
qed

definition mlfq_rel :: "worker \<Rightarrow> pool \<Rightarrow> bool" where
  "mlfq_rel s P \<longleftrightarrow> one_level s \<and> stacks_ok s \<and> pool_rel (flat s) P"

lemma pool_rel_no_stacks: "pool_rel (no_stacks s) P = pool_rel s P"
proof -
  have "same_view s (no_stacks s)" by (simp add: same_view_def no_stacks_def)
  from view_pool [OF this] show ?thesis by (simp add: pool_rel_def) (simp add: no_stacks_def)
qed

lemma pool_running:
  assumes "pool_rel (flat s) P"
  shows "thread_count s \<noteq> 0" "status (tcbs s (running_thread s)) = RUNNING" "running_thread s \<notin> freed s"
    "call_ok s = (\<lambda>_. True)"
  using assms by (auto simp: pool_rel_def pool_ok_def parked_def globals_ok_def runs_as_def threads_def flat_def flat_counters)

lemma mlfq_call_refines:
  assumes "mlfq_rel s P" and "pool_allows P c"
  shows "\<exists>r s' P'. wk_call mlfq c s = Inr (r, s') \<and> pool_step P c r P' \<and> mlfq_rel s' P'"
proof -
  have one: "one_level s" and ok: "stacks_ok s" and rel: "pool_rel (flat s) P" using assms(1) by (simp_all add: mlfq_rel_def)
  note run = pool_running [OF rel]
  obtain r t P' where step: "wk_call rr c (flat s) = Inr (r, t)" "pool_step P c r P'" "pool_rel t P'"
    using wk_call_refines [OF rel assms(2)] by blast
  have "can_free s (stack (tcbs s (running_thread s)))" using ok run(3) by (simp add: stacks_ok_def)
  from flat_call [OF one run(1,2) this, of c] step(1) obtain s' where s': "wk_call mlfq c s = Inr (r, s')" "no_stacks t = flat s'"
    by (cases "wk_call mlfq c s") auto
  have "pool_rel (flat s') P'" using step(3) pool_rel_no_stacks [of t] by (simp only: s'(2))
  then have "mlfq_rel s' P'"
    using one_level_call [OF s'(1) one] stacks_call [OF s'(1) run(1) one ok run(3,4)] by (simp add: mlfq_rel_def)
  then show ?thesis using s'(1) step(2) by blast
qed

interpretation mlfq_sim: simulation "wk_call mlfq" pool_step pool_allows mlfq_rel
  by unfold_locales (rule mlfq_call_refines)

text \<open>The first thread of a process, whose main thread carries the stack pointer \<open>p\<close> that its context happens to hold.\<close>

lemma first_create_mlfq:
  "\<exists>s. worker_create mlfq (process_start clock (\<lambda>_. True) no_queue p t) = Inr (1, s)
    \<and> one_level s \<and> pool_rel (flat s) first_pool \<and> stack (tcbs s (running_thread s)) = p \<and> stacks s = {4} \<and> (p = 0 \<longrightarrow> stacks_ok s)"
proof -
  obtain s where s: "worker_create mlfq (process_start clock (\<lambda>_. True) no_queue p t) = Inr (1, s)"
      "pool_ok (flat s) 2 RUNNING [5] [] first_pool" "\<not> interrupt_disabled (flat s)"
      "stack (tcbs s (running_thread s)) = p" "stacks s = {4}" "fresh s = 6" "freed s = {}"
      "\<forall>u. stack (tcbs s u) = (if u = 1 then p else if u = 3 then 4 else 0)"
    by (simp add: worker_create_def create_main_def init_worker_def create_node_def enqueue_ready_def enqueue_level_def
        enqueue_def worker_ops Let_def process_start_def set_tcb_def no_queue_def holds_def loose_node_def tcb_of_def ids_def id_of_def
        pool_ok_def parked_def runs_as_def threads_def globals_ok_def joiner_def waiting_ids_def first_pool_def flat_def flat_as_def
        idle_tcb_def)
  moreover have "one_level (process_start clock (\<lambda>_. True) no_queue p t)"
    by (simp add: one_level_def process_start_def idle_tcb_def no_queue_def MLFQ_LEVELS_def nth_Cons')
  ultimately show ?thesis
    using one_level_create [OF s(1)] by (auto simp: pool_rel_def first_pool_def stacks_ok_def can_free_def split: if_splits)
qed

text \<open>C3: Under either scheduler, and whatever the clock says, a process that has made its first thread sees the thread library
  as a queue of threads.  Its threads create, yield, are interrupted by the timer, exit and join, each next call depending
  on the answers so far; every call returns without a fault, and the numbers it gives, the threads that run and the values
  that joins read are those of the queue: a new thread gets the next number and goes to the end, a thread that yields goes
  to the end, one that joins a ready thread leaves the queue until that thread exits and then goes to its end, and a join
  on a finished thread reads what it returned.  The process starts with \<open>malloc\<close> and \<open>getcontext\<close> that succeed; the two
  queues, which nothing initialises, in zeroed memory; and, for the feedback queues, \<open>NULL\<close> in the stack pointer of the main
  thread, which nothing initialises either and the exit of that thread frees.  The timer interrupts between the calls.\<close>

theorem wk_implements_pool:
  assumes "obeys pool_step pool_allows cl first_pool" and "sch = rr \<or> p = 0"
  shows "\<exists>s rs s' P. worker_create sch (process_start clock (\<lambda>_. True) no_queue p t) = Inr (1, s)
    \<and> run_client (wk_call sch) cl s = Inr (rs, s') \<and> spec_run pool_step first_pool cl rs P"
proof (cases sch)
  case rr
  then show ?thesis using first_create [of clock p t] wk_sim.runs [OF _ assms(1)] by blast
next
  case mlfq
  then obtain s where "worker_create mlfq (process_start clock (\<lambda>_. True) no_queue p t) = Inr (1, s)" "mlfq_rel s first_pool"
    using first_create_mlfq [of clock p t] assms(2) by (auto simp: mlfq_rel_def)
  then show ?thesis using mlfq mlfq_sim.runs [OF _ assms(1)] by blast
qed

text \<open>The main thread makes a second thread and waits for the first, which exits with 7; the second yields, and the main
  thread reads the 7.\<close>

theorem wk_implements_pool_witness:
  "\<exists>s s'. worker_create mlfq (process_start (\<lambda>n. \<lparr>tv_sec = int n, tv_usec = 0\<rparr>) (\<lambda>_. True) no_queue 0 9) = Inr (1, s)
    \<and> run_client (wk_call mlfq) (scripted [Spawn, Join 1, Quit 7, Yield, Join 1]) s
        = Inr ([Made 2, Runs 1, Runs 2, Runs 0, Value 0 (Some 7)], s')"
proof -
  let ?cl = "scripted [Spawn, Join 1, Quit 7, Yield, Join 1] :: (wk_op, wk_reply) client"
  let ?s = "process_start (\<lambda>n. \<lparr>tv_sec = int n, tv_usec = 0\<rparr>) (\<lambda>_. True) no_queue 0 9"
  have "obeys pool_step pool_allows ?cl first_pool"
    by (auto simp: first_pool_def elim!: pool_step.cases) (simp_all add: woken_def waiting_ids_def)
  from wk_implements_pool [OF this, of mlfq 0] obtain s rs s' P where
    "worker_create mlfq ?s = Inr (1, s)" "run_client (wk_call mlfq) ?cl s = Inr (rs, s')"
    "spec_run pool_step first_pool ?cl rs P" by blast
  moreover from this have "rs = [Made 2, Runs 1, Runs 2, Runs 0, Value 0 (Some 7)]"
    by (auto simp: spec_run_Ask first_pool_def elim!: pool_step.cases) (simp_all add: woken_def)
  ultimately show ?thesis by blast
qed

text \<open>C18: The feedback queues are round robin as long as no signal arrives inside \<open>sched_mlfq\<close>: in every state in which a
  first thread was made, no thread has been demoted, and the running thread is marked as such, each call does with the first level exactly what the
  call under round robin does with the ready queue, with the same answers, faults, time slices and times, however many
  threads wait for one another; only the set of allocated stacks is left out, as round robin frees none.  The exception is the
  exit of a thread whose stack is neither \<open>NULL\<close> nor an allocated block: wherever round robin goes on, the feedback queue
  frees an invalid pointer.\<close>

theorem mlfq_is_round_robin:
  assumes "one_level s" and "thread_count s \<noteq> 0" and "status (tcbs s (running_thread s)) = RUNNING"
  shows "if (\<exists>v. c = Quit v) \<and> \<not> can_free s (stack (tcbs s (running_thread s)))
    then \<forall>x. wk_call rr c (flat s) = Inr x \<longrightarrow> wk_call mlfq c s = Inl InvalidFree
    else map_sum id (map_prod id no_stacks) (wk_call rr c (flat s)) = map_sum id (map_prod id flat) (wk_call mlfq c s)"
proof (cases "(\<exists>v. c = Quit v) \<and> \<not> can_free s (stack (tcbs s (running_thread s)))")
  case True
  then obtain v where v: "c = Quit v" "\<not> can_free s (stack (tcbs s (running_thread s)))" by blast
  then show ?thesis using exit_invalid [OF assms(1) v(2), of v "interrupt_disabled s"] by (auto simp: flat_def [of s] map_sum_Inr)
next
  case False
  then show ?thesis using flat_call [OF assms] by auto
qed

text \<open>The first thread is made by a main thread whose stack pointer happens to be 77: a timer tick does the same under both
  schedulers, and the exit of the main thread, which round robin survives, is an invalid \<open>free\<close> under the feedback queue.\<close>

theorem mlfq_is_round_robin_witness:
  "\<exists>s. worker_create mlfq (process_start (\<lambda>n. \<lparr>tv_sec = int n, tv_usec = 0\<rparr>) (\<lambda>_. True) no_queue 77 0) = Inr (1, s)
    \<and> map_sum id (map_prod id no_stacks) (wk_call rr Tick (flat s)) = map_sum id (map_prod id flat) (wk_call mlfq Tick s)
    \<and> (\<exists>x. wk_call rr (Quit 5) (flat s) = Inr x) \<and> wk_call mlfq (Quit 5) s = Inl InvalidFree"
proof -
  let ?s = "process_start (\<lambda>n. \<lparr>tv_sec = int n, tv_usec = 0\<rparr>) (\<lambda>_. True) no_queue 77 0"
  obtain s where s: "worker_create mlfq ?s = Inr (1, s)" "one_level s" "pool_rel (flat s) first_pool"
      "stack (tcbs s (running_thread s)) = 77" "stacks s = {4}"
    using first_create_mlfq by blast
  note run = pool_running [OF s(3)]
  have "\<exists>x. wk_call rr (Quit 5) (flat s) = Inr x"
    using wk_call_refines [OF s(3), of "Quit 5"] by (auto simp: first_pool_def)
  moreover from this have "wk_call mlfq (Quit 5) s = Inl InvalidFree"
    using mlfq_is_round_robin [OF s(2) run(1,2), of "Quit 5"] s(4,5) by (simp only: can_free_def) auto
  moreover have "map_sum id (map_prod id no_stacks) (wk_call rr Tick (flat s)) = map_sum id (map_prod id flat) (wk_call mlfq Tick s)"
    using mlfq_is_round_robin [OF s(2) run(1,2), of Tick] by simp
  ultimately show ?thesis using s(1) by blast
qed

end
