(* ===== verification/Wk_Signal.thy ===== *)
theory Wk_Signal
  imports Wk_Mlfq
begin

text \<open>
  The timer signal inside \<open>sched_mlfq\<close> (\<open>Level - 2/worker.c\<close>), which \<open>schedule\<close> enters with the signal enabled.  The
  scheduler is cut where the queues are consistent: after the thread that ran was put back, after the boost, and
  after the next thread was taken from its queue.  A signal at such a point swaps to the scheduler context, which starts
  \<open>schedule\<close> from the beginning; what the interrupted run held in its local variables is lost.  The context it
  leaves in the control block of the running thread is not modelled, nor is a signal inside a queue operation.
\<close>

subsection \<open>The scheduler in steps\<close>

datatype mlfq_phase = Put_Back | Boost | Pick | Picked "ptr option" | Switched_To

fun mlfq_step :: "mlfq_phase \<Rightarrow> worker \<Rightarrow> (mlfq_phase \<times> worker) result" where
  "mlfq_step Put_Back s = map_sum id (Pair Boost) (put_back_mlfq (s\<lparr>schedule_cycles := schedule_cycles s + 1\<rparr>))"
| "mlfq_step Boost s = map_sum id (Pair Pick) (boost_if_due s)"
| "mlfq_step Pick s = (let (n, s) = get_next_thread_mlfq s in Inr (Picked n, s))"
| "mlfq_step (Picked None) s = map_sum id (Pair Switched_To) (resume_main (enable_signal s))"
| "mlfq_step (Picked (Some n)) s = map_sum id (Pair Switched_To) (run_mlfq n s)"
| "mlfq_step Switched_To s = Inr (Switched_To, s)"

primrec mlfq_steps :: "nat \<Rightarrow> mlfq_phase \<Rightarrow> worker \<Rightarrow> (mlfq_phase \<times> worker) result" where
  "mlfq_steps 0 ph s = Inr (ph, s)"
| "mlfq_steps (Suc k) ph s = (case mlfq_step ph s of Inl f \<Rightarrow> Inl f | Inr (ph', s') \<Rightarrow> mlfq_steps k ph' s')"

text \<open>Without a signal the steps are the scheduler.\<close>

lemma mlfq_steps_sched: "mlfq_steps 4 Put_Back s = map_sum id (Pair Switched_To) (sched_mlfq s)"
proof -
  let ?s = "s\<lparr>schedule_cycles := schedule_cycles s + 1\<rparr>"
  have last: "mlfq_steps (Suc 0) (Picked n) s = map_sum id (Pair Switched_To) (case n of None \<Rightarrow> resume_main (enable_signal s) | Some n \<Rightarrow> run_mlfq n s)"
    for n s by (cases n) (auto split: sum.split)
  show ?thesis
  proof (cases "put_back_mlfq ?s")
    case (Inr s1)
    then show ?thesis
      by (cases "boost_if_due s1") (simp_all add: eval_nat_numeral sched_mlfq_def last [simplified] split: prod.split)
  qed (simp add: eval_nat_numeral sched_mlfq_def)
qed

text \<open>A step of the scheduler, or a signal.\<close>

inductive sched_move :: "mlfq_phase \<times> worker \<Rightarrow> mlfq_phase \<times> worker \<Rightarrow> bool" where
  sched_step: "mlfq_step ph s = Inr (ph', s') \<Longrightarrow> sched_move (ph, s) (ph', s')"
| sched_signal: "ph \<noteq> Switched_To \<Longrightarrow> \<not> interrupt_disabled s \<Longrightarrow> sched_move (ph, s) (Put_Back, stamped s)"

lemma steps_moves: "mlfq_steps k ph s = Inr (ph', s') \<Longrightarrow> sched_move\<^sup>*\<^sup>* (ph, s) (ph', s')"
proof (induction k arbitrary: ph s)
  case (Suc k)
  then obtain ph1 s1 where "mlfq_step ph s = Inr (ph1, s1)" "mlfq_steps k ph1 s1 = Inr (ph', s')"
    by (auto split: sum.splits)
  then show ?case using Suc.IH sched_step by (meson converse_rtranclp_into_rtranclp)
qed simp

subsection \<open>A lost thread\<close>

lemma put_back_keeps:
  assumes "put_back_mlfq s = Inr s'" and "status (tcbs s (running_thread s)) = RUNNING"
  shows "running_thread s' = running_thread s" "interrupt_disabled s' = interrupt_disabled s"
  using assms by (auto simp: put_back_mlfq_def Let_def enqueue_level_def set_tcb_def split: if_splits sum.splits)

lemma pop_keeps:
  assumes "pop_level k s = (n, s')"
  shows "running_thread s' = running_thread s" "interrupt_disabled s' = interrupt_disabled s" "tcbs s' = tcbs s"
  using assms by (auto simp: pop_level_def Let_def split: prod.splits)

text \<open>The first three steps put the running thread at the end and take the first one out.\<close>

lemma first_steps:
  assumes "one_level s" and "rr_ok (flat s) r xs" and "xs @ [r] = x # ys"
  shows "\<exists>s1. mlfq_steps 3 Put_Back s = Inr (Picked (Some x), s1) \<and> one_level s1 \<and> holds (nodes s1) (MLFQ_queue s1 ! 0) ys
    \<and> loose_node (nodes s1) x \<and> x \<notin> set ys \<and> tcb_of (nodes s1) = tcb_of (nodes s)
    \<and> (\<forall>y \<in> set (r # xs). status (tcbs s1 (tcb_of (nodes s) y)) = READY)
    \<and> running_thread s1 = running_thread s \<and> interrupt_disabled s1 = interrupt_disabled s"
proof -
  let ?s = "s\<lparr>schedule_cycles := schedule_cycles s + 1\<rparr>" and ?b = "interrupt_disabled s"
  obtain t1 x' ys' t2 where t: "xs @ [r] = x' # ys'" "put_back_rr (flat s) = Inr t1" "pop_ready t1 = (Some x', t2)"
      "holds (nodes t2) (ready_queue t2) ys'" "loose_node (nodes t2) x'" "x' \<notin> set ys'" "tcb_of (nodes t2) = tcb_of (nodes (flat s))"
      "\<forall>y \<in> set (r # xs). status (tcbs t2 (tcb_of (nodes (flat s)) y)) = READY"
    using put_back_running [OF assms(2)] by blast
  have run: "status (tcbs s (running_thread s)) = RUNNING" using assms(2) by (simp add: rr_ok_def flat_def)
  have "put_back_rr (flat_as ?b ?s) = map_sum id (flat_as ?b) (put_back_mlfq ?s)"
    by (rule flat_put_back) (simp_all add: assms(1) run running_frees_well)
  then obtain m1 where m1: "put_back_mlfq ?s = Inr m1" "t1 = flat_as ?b m1"
    using t(2) by (cases "put_back_mlfq ?s") (simp_all add: flat_def)
  have one: "one_level m1" using one_level_put_back [OF m1(1)] assms(1) by simp
  obtain k where k: "boost_if_due m1 = Inr (m1\<lparr>schedule_cycles := k\<rparr>)" using boost_flat [OF one] by blast
  let ?m = "m1\<lparr>schedule_cycles := k\<rparr>"
  obtain n m2 where m2: "pop_level 0 ?m = (n, m2)" by (cases "pop_level 0 ?m")
  then have "n = Some x'" "t2 = flat_as ?b m2" using t(3) flat_pop [of ?m ?b] one by (simp_all add: m1(2))
  moreover have "mlfq_steps 3 Put_Back s = Inr (Picked n, m2)"
    using m1(1) k m2 next_is_pop [of ?m] one by (simp add: eval_nat_numeral)
  moreover have "one_level m2" using one_level_pop [OF m2] one by simp
  moreover have "x' = x" "ys' = ys" using t(1) assms(3) by simp_all
  ultimately show ?thesis
    using t(4-8) put_back_keeps [OF m1(1)] run pop_keeps [OF m2] by (intro exI [of _ m2]) (simp add: flat_def)
qed

text \<open>With a thread that is marked ready, the steps put nothing back and run the next one.\<close>

lemma second_steps:
  assumes "one_level s" and "holds (nodes s) (MLFQ_queue s ! 0) (z # zs)" and "status (tcbs s (running_thread s)) = READY"
    and "\<forall>y \<in> set (z # zs). status (tcbs s (tcb_of (nodes s) y)) = READY" and "inj_on (tcb_of (nodes s)) (set (z # zs))"
  shows "\<exists>s'. mlfq_steps 4 Put_Back s = Inr (Switched_To, s') \<and> rr_ok (flat s') z zs \<and> tcb_of (nodes s') = tcb_of (nodes s)
    \<and> (\<forall>t. t \<noteq> tcb_of (nodes s) z \<longrightarrow> status (tcbs s' t) = status (tcbs s t))"
proof -
  let ?s = "s\<lparr>schedule_cycles := schedule_cycles s + 1\<rparr>"
  have one: "one_level ?s" using assms(1) by simp
  obtain k where k: "boost_if_due ?s = Inr (?s\<lparr>schedule_cycles := k\<rparr>)" using boost_flat [OF one] by blast
  let ?m = "?s\<lparr>schedule_cycles := k\<rparr>"
  obtain q h where pop: "pop_from_queue (MLFQ_queue s ! 0) (nodes s) = (Some z, q, h)" "holds h q zs" "next_node (h z) = None"
      "\<forall>y. node_tcb (h y) = node_tcb (nodes s y)"
    using pop_holds [OF assms(2)] by auto
  define u where "u = ?m\<lparr>MLFQ_queue := (MLFQ_queue s)[0 := q], nodes := h\<rparr>"
  have h: "tcb_of h = tcb_of (nodes s)" using pop(4) by (simp add: tcb_of_def fun_eq_iff)
  have next_u: "get_next_thread_mlfq ?m = (Some z, u)" using next_is_pop [of ?m] one pop(1) by (simp add: pop_level_def u_def)
  have u: "nodes u = h" "tcbs u = tcbs s" "MLFQ_queue u ! 0 = q"
    using assms(1) by (simp_all add: u_def one_level_def MLFQ_LEVELS_def)
  have "status (tcbs u (tcb_of (nodes u) z)) = READY" using assms(4) by (simp add: u h)
  from dispatch_ready [OF this] obtain v where v: "dispatch z u = Inr v" "running_node v = z" "running_thread v = tcb_of (nodes u) z"
      "status (tcbs v (tcb_of (nodes u) z)) = RUNNING" "\<forall>t. t \<noteq> tcb_of (nodes u) z \<longrightarrow> tcbs v t = tcbs u t" "nodes v = nodes u"
    by blast
  have q: "MLFQ_queue v = MLFQ_queue u" using v(1) by (auto simp: dispatch_def worker_ops Let_def set_tcb_def split: if_splits)
  obtain w where w: "run_mlfq z u = Inr w" "running_node w = z" "running_thread w = running_thread v" "tcbs w = tcbs v"
      "nodes w = nodes v" "MLFQ_queue w = MLFQ_queue v"
  proof -
    have "\<exists>w. run_mlfq z u = Inr w \<and> running_node w = z \<and> running_thread w = running_thread v \<and> tcbs w = tcbs v
        \<and> nodes w = nodes v \<and> MLFQ_queue w = MLFQ_queue v"
      using v(1,2) by (simp add: run_mlfq_def worker_ops Let_def)
    then show ?thesis using that by blast
  qed
  have "put_back_mlfq ?s = Inr ?s" using assms(3) by (simp add: put_back_mlfq_def)
  then have "sched_mlfq s = Inr w" using k next_u w(1) by (simp add: sched_mlfq_def)
  then have "mlfq_steps 4 Put_Back s = Inr (Switched_To, w)" by (simp add: mlfq_steps_sched)
  moreover have apart: "tcb_of (nodes s) y \<noteq> tcb_of (nodes s) z" if "y \<in> set zs" for y
    using that assms(2,5) by (auto simp: holds_def inj_on_def)
  have "rr_ok (flat w) z zs"
    using v(2-6) w(2-6) pop(2,3) assms(2,4,5) apart
    by (simp add: rr_ok_def flat_def q u h loose_node_def holds_def)
  ultimately show ?thesis using v(5) w(4,5) v(6) by (intro exI [of _ w]) (simp add: u h)
qed

text \<open>A signal between the choice and the switch loses the chosen thread: the scheduler that starts again runs the
  next one, and the chosen one, still marked ready, is in no queue and does not run.\<close>

theorem signal_loses_thread:
  assumes "one_level s" and "rr_ok (flat s) r (x # xs)" and "\<not> interrupt_disabled s"
  shows "\<exists>s1 s'. sched_move\<^sup>*\<^sup>* (Put_Back, s) (Picked (Some x), s1) \<and> sched_move (Picked (Some x), s1) (Put_Back, stamped s1)
    \<and> sched_move\<^sup>*\<^sup>* (Put_Back, stamped s1) (Switched_To, s')
    \<and> rr_ok (flat s') (hd (xs @ [r])) (tl (xs @ [r])) \<and> x \<notin> set (xs @ [r])
    \<and> status (tcbs s' (tcb_of (nodes s') x)) = READY \<and> running_thread s' \<noteq> tcb_of (nodes s') x"
proof -
  obtain s1 where s1: "mlfq_steps 3 Put_Back s = Inr (Picked (Some x), s1)" "one_level s1" "holds (nodes s1) (MLFQ_queue s1 ! 0) (xs @ [r])"
      "x \<notin> set (xs @ [r])" "tcb_of (nodes s1) = tcb_of (nodes s)"
      "\<forall>y \<in> set (r # x # xs). status (tcbs s1 (tcb_of (nodes s) y)) = READY"
      "running_thread s1 = running_thread s" "interrupt_disabled s1 = interrupt_disabled s"
    using first_steps [OF assms(1,2), of x "xs @ [r]"] by auto
  obtain z zs where z: "xs @ [r] = z # zs" by (cases "xs @ [r]") auto
  have same: "set (xs @ [r]) = set (z # zs)" by (simp only: z)
  have t: "nodes (stamped s1) = nodes s1" "MLFQ_queue (stamped s1) = MLFQ_queue s1" "running_thread (stamped s1) = running_thread s1"
      "status (tcbs (stamped s1) p) = status (tcbs s1 p)" for p
    by (simp_all add: stamped_def set_tcb_def)
  have inj: "inj_on (tcb_of (nodes s)) (set (r # x # xs))" using rr_inj [OF assms(2)] by (simp add: flat_def)
  obtain s' where s': "mlfq_steps 4 Put_Back (stamped s1) = Inr (Switched_To, s')" "rr_ok (flat s') z zs"
      "tcb_of (nodes s') = tcb_of (nodes s)" "\<forall>t. t \<noteq> tcb_of (nodes s) z \<longrightarrow> status (tcbs s' t) = status (tcbs s1 t)"
  proof -
    have "status (tcbs s1 (running_thread s1)) = READY" using s1(6,7) assms(2) by (simp add: rr_ok_def flat_def)
    moreover have "\<forall>y \<in> set (z # zs). status (tcbs s1 (tcb_of (nodes s) y)) = READY" using s1(6) unfolding same [symmetric] by auto
    moreover have "inj_on (tcb_of (nodes s)) (set (z # zs))" unfolding same [symmetric] by (rule inj_on_subset [OF inj]) auto
    ultimately show ?thesis
      using second_steps [of "stamped s1" z zs] one_level_stamped [OF s1(2)] s1(3) that by (auto simp: t s1(5) z)
  qed
  have xz: "tcb_of (nodes s) x \<noteq> tcb_of (nodes s) z"
  proof -
    have "z \<in> set (xs @ [r])" unfolding same by simp
    then show ?thesis using s1(4) inj_onD [OF inj, of x z] by auto
  qed
  have "sched_move\<^sup>*\<^sup>* (Put_Back, s) (Picked (Some x), s1)" by (rule steps_moves [OF s1(1)])
  moreover have "sched_move (Picked (Some x), s1) (Put_Back, stamped s1)" using assms(3) s1(8) by (intro sched_signal) simp_all
  moreover have "sched_move\<^sup>*\<^sup>* (Put_Back, stamped s1) (Switched_To, s')" by (rule steps_moves [OF s'(1)])
  moreover have "running_thread s' = tcb_of (nodes s) z" using s'(2,3) by (simp add: rr_ok_def flat_def)
  ultimately show ?thesis using s'(2-4) s1(4,6) xz by (intro exI [of _ s1] exI [of _ s']) (simp add: z)
qed

text \<open>With the main thread running and one other thread ready, the other thread is lost and the main thread goes on.\<close>

lemma signal_loses_first_thread:
  "\<exists>s s1 s'. worker_create mlfq worker_start = Inr (1, s) \<and> sched_move\<^sup>*\<^sup>* (Put_Back, s) (Picked (Some 5), s1)
    \<and> sched_move\<^sup>*\<^sup>* (Put_Back, stamped s1) (Switched_To, s') \<and> running_node s' = 2 \<and> head (MLFQ_queue s' ! 0) = None
    \<and> status (tcbs s' (tcb_of (nodes s') 5)) = READY"
proof -
  have one: "one_level worker_start"
    by (simp add: one_level_def start_defs idle_tcb_def no_queue_def MLFQ_LEVELS_def nth_Cons')
  obtain s where s: "worker_create mlfq worker_start = Inr (1, s)" "rr_ok (flat s) 2 [5]" "\<not> interrupt_disabled s"
    by (simp add: worker_create_def create_main_def init_worker_def create_node_def enqueue_ready_def enqueue_level_def
        enqueue_def worker_ops Let_def start_defs set_tcb_def no_queue_def rr_ok_def holds_def loose_node_def tcb_of_def flat_def
        flat_as_def)
  from signal_loses_thread [OF one_level_create [OF s(1) one] s(2,3)] obtain s1 s' where
    s': "sched_move\<^sup>*\<^sup>* (Put_Back, s) (Picked (Some 5), s1)" "sched_move\<^sup>*\<^sup>* (Put_Back, stamped s1) (Switched_To, s')"
      "rr_ok (flat s') 2 []" "status (tcbs s' (tcb_of (nodes s') 5)) = READY" by auto
  moreover from this have "running_node s' = 2" "head (MLFQ_queue s' ! 0) = None" by (simp_all add: rr_ok_def flat_def holds_def)
  ultimately show ?thesis using s(1) by blast
qed

subsection \<open>A stack freed twice\<close>

text \<open>A signal after the first step of a switch away from a finished thread starts the scheduler with the same running
  thread, whose control block, though freed, still says so: its stack is freed again.\<close>

theorem signal_frees_twice:
  assumes "status (tcbs s (running_thread s)) = FINISHED" and "sint (waiting_thread (tcbs s (running_thread s))) < 0"
    and "stack (tcbs s (running_thread s)) \<in> stacks s" and "stack (tcbs s (running_thread s)) \<noteq> 0" and "\<not> interrupt_disabled s"
  shows "\<exists>s1. sched_move (Put_Back, s) (Boost, s1) \<and> sched_move (Boost, s1) (Put_Back, stamped s1)
    \<and> mlfq_step Put_Back (stamped s1) = Inl InvalidFree"
proof -
  let ?r = "running_thread s" and ?s = "s\<lparr>schedule_cycles := schedule_cycles s + 1\<rparr>"
  let ?u = "update_time_stats ?s"
  define s1 where "s1 = free_tcb ?r (?u\<lparr>stacks := stacks ?u - {stack (tcbs s ?r)}\<rparr>)"
  have u: "stacks ?u = stacks s" "tcbs ?u = tcbs s" "running_thread ?u = ?r" "interrupt_disabled ?u = interrupt_disabled s"
    by (simp_all add: update_time_stats_def Let_def)
  have s1: "tcbs s1 = tcbs s" "running_thread s1 = ?r" "stacks s1 = stacks s - {stack (tcbs s ?r)}" "interrupt_disabled s1 = interrupt_disabled s"
    by (simp_all add: s1_def free_tcb_def u)
  have "put_back_mlfq ?s = Inr s1"
    using assms(1-3) by (simp add: put_back_mlfq_def Let_def release_threads_def free_stack_def can_free_def u s1_def)
  then have "sched_move (Put_Back, s) (Boost, s1)" by (intro sched_step) simp
  moreover have "sched_move (Boost, s1) (Put_Back, stamped s1)" using assms(5) s1(4) by (intro sched_signal) simp_all
  moreover have "mlfq_step Put_Back (stamped s1) = Inl InvalidFree"
  proof -
    let ?t = "(stamped s1)\<lparr>schedule_cycles := schedule_cycles (stamped s1) + 1\<rparr>"
    have t: "running_thread ?t = ?r" "status (tcbs ?t ?r) = FINISHED" "waiting_thread (tcbs ?t ?r) = waiting_thread (tcbs s ?r)"
        "stack (tcbs ?t ?r) = stack (tcbs s ?r)" "stacks ?t = stacks s1"
      using assms(1) by (simp_all add: stamped_def set_tcb_def s1)
    have "\<not> can_free (update_time_stats ?t) (stack (tcbs ?t ?r))"
      unfolding t(4) using assms(4) t(5) by (simp add: can_free_def) (simp add: update_time_stats_def Let_def s1)
    then have "put_back_mlfq ?t = Inl InvalidFree"
      using assms(2) t by (simp add: put_back_mlfq_def Let_def release_threads_def free_stack_def)
    then show ?thesis by simp
  qed
  ultimately show ?thesis by blast
qed

end
