(* ===== verification/Wk_Mutex.thy ===== *)
theory Wk_Mutex
  imports Prelude
begin

text \<open>
  \<open>worker_mutex_lock\<close> and \<open>worker_mutex_unlock\<close> of \<open>Level - 2/worker.c\<close> under preemption.  They do not
  disable the timer signal, so the scheduler can switch threads between any two of their
  accesses to the mutex.  A step is one access by one thread; a thread outside calls
  \<open>worker_mutex_lock\<close> next and a thread that holds the mutex \<open>worker_mutex_unlock\<close>.  The wake-up
  (\<open>unblock_threads\<close> and \<open>empty_queue\<close>) is one step; its loop over the linked queues is modelled in
  \<open>Wk_Threads\<close>.  Every thread that is not asleep may take the next step, whatever its status.

  The mutex does exclude: at most one thread is between the two calls.  But \<open>worker_mutex_unlock\<close>
  clears \<open>is_locked\<close> before \<open>owner\<close>, so it can wipe out the next owner, and a waiter can queue
  up after the wake-up.
\<close>

text \<open>Where a thread is; the names say what it does next.\<close>

datatype lock_pc = Outside | Test_set | Check_owner | Join_wait | Join_waiting | Asleep
  | Set_owner | Set_locked | Check_set | Critical | Un_test | Un_owner | Clear_locked | Clear_owner | Wake_all

record lock_state =
  is_locked :: bool
  owner :: "nat option" \<comment> \<open>None is \<open>-1\<close>\<close>
  wait_queue :: "nat list"
  waiting_queue :: "nat list"
  at :: "nat \<Rightarrow> lock_pc"
  exited :: bool

definition lock_start :: lock_state where
  "lock_start = \<lparr>is_locked = False, owner = None, wait_queue = [], waiting_queue = [], at = (\<lambda>_. Outside), exited = False\<rparr>"

definition goto :: "nat \<Rightarrow> lock_pc \<Rightarrow> lock_state \<Rightarrow> lock_state" where
  "goto t p s = s\<lparr>at := (at s)(t := p)\<rparr>"

text \<open>\<open>unblock_threads\<close>: the waiters that the waiting queue knows run the loop of \<open>worker_mutex_lock\<close>
  again.\<close>

definition wake_waiters :: "lock_state \<Rightarrow> lock_state" where
  "wake_waiters s =
     (let woken = filter (\<lambda>t. t \<in> set (waiting_queue s)) (wait_queue s)
      in s\<lparr>at := (\<lambda>t. if t \<in> set woken then Test_set else at s t),
           waiting_queue := filter (\<lambda>t. t \<notin> set woken) (waiting_queue s), wait_queue := []\<rparr>)"

definition lock_step :: "nat \<Rightarrow> lock_state \<Rightarrow> lock_state" where
  "lock_step t s =
     (case at s t of
        Outside \<Rightarrow> goto t Test_set s
      | Test_set \<Rightarrow> goto t (if is_locked s then Check_owner else Set_owner) (s\<lparr>is_locked := True\<rparr>)
      | Check_owner \<Rightarrow> goto t (if owner s = Some t then Critical else Join_wait) s
      | Join_wait \<Rightarrow> goto t Join_waiting (s\<lparr>wait_queue := wait_queue s @ [t]\<rparr>)
      | Join_waiting \<Rightarrow> goto t Asleep (s\<lparr>waiting_queue := waiting_queue s @ [t]\<rparr>)
      | Asleep \<Rightarrow> s
      | Set_owner \<Rightarrow> goto t Set_locked (s\<lparr>owner := Some t\<rparr>)
      | Set_locked \<Rightarrow> goto t Check_set (s\<lparr>is_locked := True\<rparr>)
      | Check_set \<Rightarrow> if owner s = None \<or> \<not> is_locked s then s\<lparr>exited := True\<rparr> else goto t Critical s
      | Critical \<Rightarrow> goto t Un_test s
      | Un_test \<Rightarrow> goto t (if is_locked s then Un_owner else Outside) s
      | Un_owner \<Rightarrow> goto t (if owner s \<noteq> Some t then Outside else Clear_locked) s
      | Clear_locked \<Rightarrow> goto t Clear_owner (s\<lparr>is_locked := False\<rparr>)
      | Clear_owner \<Rightarrow> goto t Wake_all (s\<lparr>owner := None\<rparr>)
      | Wake_all \<Rightarrow> goto t Outside (wake_waiters s))"

inductive lock_reach :: "lock_state \<Rightarrow> bool" where
  lock_init: "lock_reach lock_start"
| lock_next: "lock_reach s \<Longrightarrow> \<not> exited s \<Longrightarrow> lock_reach (lock_step t s)"

subsection \<open>Mutual exclusion\<close>

text \<open>From the test-and-set that found the mutex free to the store that frees it.\<close>

definition holding :: "lock_pc \<Rightarrow> bool" where
  "holding p \<longleftrightarrow> p \<in> {Set_owner, Set_locked, Check_set, Critical, Un_test, Un_owner, Clear_locked}"

definition lock_inv :: "lock_state \<Rightarrow> bool" where
  "lock_inv s \<longleftrightarrow> (\<forall>t u. holding (at s t) \<longrightarrow> holding (at s u) \<longrightarrow> t = u) \<and> (\<forall>t. holding (at s t) \<longrightarrow> is_locked s)
     \<and> (\<forall>t. owner s = Some t \<longrightarrow> holding (at s t) \<or> at s t = Clear_owner) \<and> (\<forall>t \<in> set (waiting_queue s). at s t = Asleep)"

lemma holding_simps [simp]:
  "holding Set_owner" "holding Set_locked" "holding Check_set" "holding Critical" "holding Un_test" "holding Un_owner"
  "holding Clear_locked" "\<not> holding Outside" "\<not> holding Test_set" "\<not> holding Check_owner" "\<not> holding Join_wait"
  "\<not> holding Join_waiting" "\<not> holding Asleep" "\<not> holding Clear_owner" "\<not> holding Wake_all"
  by (simp_all add: holding_def)

lemma lock_inv_wake: "lock_inv s \<Longrightarrow> lock_inv (wake_waiters s)"
  by (auto simp: lock_inv_def wake_waiters_def Let_def)

lemma lock_inv_step: "lock_inv s \<Longrightarrow> lock_inv (lock_step t s)"
proof -
  assume inv: "lock_inv s"
  have wait: "t \<notin> set (waiting_queue s)" if "at s t \<noteq> Asleep" using inv that by (auto simp: lock_inv_def)
  have own: "owner s \<noteq> Some t" if "\<not> holding (at s t)" "at s t \<noteq> Clear_owner" using inv that by (auto simp: lock_inv_def)
  have locked: "is_locked s" if "holding (at s t)" using inv that by (auto simp: lock_inv_def)
  show ?thesis
  proof (cases "at s t")
    case Wake_all
    have w: "lock_inv (wake_waiters s)" by (rule lock_inv_wake [OF inv])
    have "t \<notin> set (waiting_queue s)" using wait Wake_all by simp
    then have "at (wake_waiters s) t = Wake_all" "t \<notin> set (waiting_queue (wake_waiters s))"
      using Wake_all by (auto simp: wake_waiters_def Let_def)
    then show ?thesis using w Wake_all by (auto simp: lock_step_def goto_def lock_inv_def)
  next
    case Asleep
    then show ?thesis using inv by (simp add: lock_step_def)
  qed (use inv wait own locked in \<open>auto simp: lock_step_def goto_def lock_inv_def\<close>)
qed

lemma lock_reach_inv: "lock_reach s \<Longrightarrow> lock_inv s"
proof (induction rule: lock_reach.induct)
  case lock_init
  show ?case by (simp add: lock_inv_def lock_start_def)
next
  case (lock_next s t)
  from lock_next.IH show ?case by (rule lock_inv_step)
qed

text \<open>C14: The mutex excludes, whatever the scheduler does: in every reachable state at most one thread is
  between its return from \<open>worker_mutex_lock\<close> and the store in \<open>worker_mutex_unlock\<close> that frees
  the mutex, and the mutex is locked then.\<close>

theorem mutex_excludes:
  assumes "lock_reach s" and "holding (at s t)"
  shows "is_locked s \<and> (\<forall>u. holding (at s u) \<longrightarrow> u = t)"
proof -
  from assms(1) have "lock_inv s" by (rule lock_reach_inv)
  then show ?thesis using assms(2) by (auto simp: lock_inv_def)
qed

subsection \<open>Runs\<close>

primrec lock_run :: "nat list \<Rightarrow> lock_state \<Rightarrow> lock_state" where
  "lock_run [] s = s"
| "lock_run (t # ts) s = (if exited s then s else lock_run ts (lock_step t s))"

lemma lock_run_reach: "lock_reach s \<Longrightarrow> lock_reach (lock_run ts s)"
  by (induction ts arbitrary: s) (simp_all add: lock_next)

lemmas run_simps = lock_run.simps lock_step_def goto_def lock_start_def wake_waiters_def Let_def

theorem mutex_excludes_witness:
  "\<exists>s. lock_reach s \<and> at s 0 = Critical \<and> at s 1 = Asleep \<and> is_locked s"
proof -
  let ?s = "lock_run [0, 0, 0, 0, 0, 1, 1, 1, 1, 1] lock_start"
  have s: "lock_reach ?s" "at ?s 0 = Critical" "at ?s 1 = Asleep"
    by (rule lock_run_reach [OF lock_init]) (simp_all add: run_simps)
  then have "holding (at ?s 0)" by simp
  from mutex_excludes [OF s(1) this] s show ?thesis by blast
qed

text \<open>C33: Preempted in the wrong place, the unlocking thread erases the owner that the next thread has just
  entered, and that thread ends the whole process by \<open>exit(-1)\<close>; preempted elsewhere, a thread
  falls asleep on a mutex that nobody holds.\<close>

theorem mutex_races:
  "(\<exists>s. lock_reach s \<and> exited s) \<and> (\<exists>s. lock_reach s \<and> \<not> is_locked s \<and> at s = (\<lambda>_. Outside)(1 := Asleep))"
proof
  let ?s = "lock_run [0, 0, 0, 0, 0, 0, 0, 0, 0, 1, 1, 1, 0, 1, 1] lock_start"
  have "exited ?s" by (simp add: run_simps)
  then show "\<exists>s. lock_reach s \<and> exited s" using lock_run_reach [OF lock_init] by blast
next
  let ?s = "lock_run [0, 0, 0, 0, 0, 1, 1, 1, 0, 0, 0, 0, 0, 0, 1, 1] lock_start"
  have "\<not> is_locked ?s \<and> at ?s = (\<lambda>_. Outside)(1 := Asleep)" by (auto simp: run_simps)
  then show "\<exists>s. lock_reach s \<and> \<not> is_locked s \<and> at s = (\<lambda>_. Outside)(1 := Asleep)"
    using lock_run_reach [OF lock_init] by blast
qed

end
