(* ===== verification/Fs_Disk.thy ===== *)
theory Fs_Disk
  imports Prelude
begin

text \<open>
  The state of the file system (\<open>Level - 4/rufs.c\<close>, \<open>rufs.h\<close>), its block device
  (\<open>Level - 4/block.c\<close>) and the layout of its on-disk structures.

  The emulated disk is a file that grows on demand; block \<open>k\<close> of it is \<open>disk s k\<close>, always
  \<open>BLOCK_SIZE\<close> bytes, zero where nothing was written.  Structures are records; \<open>memcpy\<close> between
  a structure and a block goes through their little-endian encodings.  \<open>struct stat\<close> is kept as
  its 144 bytes, with its fields read and written at their offsets (x86-64 Linux).
\<close>

subsection \<open>Sizes and error numbers\<close>

definition BLOCK_SIZE :: nat where "BLOCK_SIZE = 4096"
definition MAX_INUM :: nat where "MAX_INUM = 1024"
definition MAX_DNUM :: nat where "MAX_DNUM = 16384"

definition sizeof_inode :: nat where "sizeof_inode = 256"
definition sizeof_dirent :: nat where "sizeof_dirent = 214"

definition ENOENT :: int where "ENOENT = 2"
definition EEXIST :: int where "EEXIST = 17"
definition ENOSPC :: int where "ENOSPC = 28"
definition ENOTEMPTY :: int where "ENOTEMPTY = 39"

subsection \<open>Structures\<close>

record superblock =
  magic_num :: "32 word"
  max_inum :: "16 word"
  max_dnum :: "16 word"
  i_bitmap_blk :: "32 word"
  d_bitmap_blk :: "32 word"
  i_start_blk :: "32 word"
  d_start_blk :: "32 word"

record inode =
  ino :: "16 word"
  valid :: "16 word"
  isize :: "32 word"
  itype :: "32 word"
  ilink :: "32 word"
  direct_ptr :: "32 word list"
  indirect_ptr :: "32 word list"
  vstat :: "byte list"

record dirent =
  d_ino :: "16 word"
  d_valid :: "16 word"
  d_name :: "byte list"
  d_len :: "16 word"

text \<open>The globals; the answers of \<open>time\<close>, \<open>getuid\<close> and \<open>getgid\<close> are part of the state.\<close>

record fs =
  disk_file :: bool \<comment> \<open>the disk file exists\<close>
  diskfile :: bool \<comment> \<open>\<open>diskfile >= 0\<close>\<close>
  fd_closed :: bool \<comment> \<open>the descriptor \<open>diskfile\<close> has been closed\<close>
  disk :: "nat \<Rightarrow> byte list"
  super_block :: superblock
  inode_bitmap :: "byte list"
  data_bitmap :: "byte list"
  max_dir_entries :: int
  inodes_per_block :: int
  total_inodes_used :: int
  total_inodes_cleared :: int
  data_blocks_used :: int
  data_blocks_cleared :: int
  fs_mutex :: bool
  clock :: "nat \<Rightarrow> 64 word"
  ticks :: nat
  uid :: "32 word"
  gid :: "32 word"

definition get_time :: "fs \<Rightarrow> 64 word \<times> fs" where
  "get_time s = (clock s (ticks s), s\<lparr>ticks := Suc (ticks s)\<rparr>)"

subsection \<open>Block device\<close>

definition dev_init :: "fs \<Rightarrow> fs" where
  "dev_init s =
     (if diskfile s then s
      else if disk_file s then s\<lparr>diskfile := True, fd_closed := False\<rparr>
      else s\<lparr>diskfile := True, fd_closed := False, disk_file := True, disk := \<lambda>_. replicate BLOCK_SIZE 0\<rparr>)"

definition dev_open :: "fs \<Rightarrow> int \<times> fs" where
  "dev_open s =
     (if diskfile s then (0, s)
      else if disk_file s then (0, s\<lparr>diskfile := True, fd_closed := False\<rparr>)
      else (-1, s))"

text \<open>\<open>dev_close\<close> closes the descriptor but keeps its number.\<close>

definition dev_close :: "fs \<Rightarrow> fs" where
  "dev_close s = (if diskfile s then s\<lparr>fd_closed := True\<rparr> else s)"

text \<open>
  \<open>pread\<close> and \<open>pwrite\<close> fail on a descriptor that is not open and on a negative offset; a failed read
  is answered with a zeroed buffer.  The byte offset \<open>block_num*BLOCK_SIZE\<close> is an \<open>int\<close>.
\<close>

definition dev_ready :: "fs \<Rightarrow> bool" where
  "dev_ready s \<longleftrightarrow> diskfile s \<and> \<not> fd_closed s"

definition block_index :: "32 word \<Rightarrow> nat option" where
  "block_index b = (let off = sint (b * of_nat BLOCK_SIZE)
     in if off < 0 then None else Some (nat off div BLOCK_SIZE))"

definition bio_read :: "fs \<Rightarrow> 32 word \<Rightarrow> byte list" where
  "bio_read s b = (case block_index b of None \<Rightarrow> replicate BLOCK_SIZE 0 | Some k \<Rightarrow> if dev_ready s then disk s k else replicate BLOCK_SIZE 0)"

definition bio_write :: "fs \<Rightarrow> 32 word \<Rightarrow> byte list \<Rightarrow> fs" where
  "bio_write s b buf = (case block_index b of None \<Rightarrow> s | Some k \<Rightarrow> if dev_ready s then s\<lparr>disk := (disk s)(k := buf)\<rparr> else s)"

definition bio_fails :: "fs \<Rightarrow> 32 word \<Rightarrow> bool" where
  "bio_fails s b \<longleftrightarrow> block_index b = None \<or> \<not> dev_ready s"

subsection \<open>Encodings\<close>

definition encode_superblock :: "superblock \<Rightarrow> byte list" where
  "encode_superblock sb =
     le_bytes 4 (magic_num sb) @ le_bytes 2 (max_inum sb) @ le_bytes 2 (max_dnum sb)
     @ le_bytes 4 (i_bitmap_blk sb) @ le_bytes 4 (d_bitmap_blk sb)
     @ le_bytes 4 (i_start_blk sb) @ le_bytes 4 (d_start_blk sb)
     @ replicate (BLOCK_SIZE - 24) 0"

definition encode_inode :: "inode \<Rightarrow> byte list" where
  "encode_inode i =
     le_bytes 2 (ino i) @ le_bytes 2 (valid i) @ le_bytes 4 (isize i) @ le_bytes 4 (itype i)
     @ le_bytes 4 (ilink i) @ concat (map (le_bytes 4) (direct_ptr i))
     @ concat (map (le_bytes 4) (indirect_ptr i)) @ vstat i"

definition encode_dirent :: "dirent \<Rightarrow> byte list" where
  "encode_dirent d = le_bytes 2 (d_ino d) @ le_bytes 2 (d_valid d) @ d_name d @ le_bytes 2 (d_len d)"

text \<open>The \<open>n\<close> bytes at an offset, and an array of \<open>n\<close> 32-bit words.\<close>

definition bytes_at :: "nat \<Rightarrow> nat \<Rightarrow> byte list \<Rightarrow> byte list" where
  "bytes_at off n bs = take n (drop off bs)"

definition words_at :: "nat \<Rightarrow> nat \<Rightarrow> byte list \<Rightarrow> 32 word list" where
  "words_at off n bs = map (\<lambda>k. un_bytes (bytes_at (off + 4 * k) 4 bs)) [0..<n]"

definition decode_inode :: "byte list \<Rightarrow> inode" where
  "decode_inode bs = \<lparr>ino = un_bytes (bytes_at 0 2 bs), valid = un_bytes (bytes_at 2 2 bs),
     isize = un_bytes (bytes_at 4 4 bs), itype = un_bytes (bytes_at 8 4 bs),
     ilink = un_bytes (bytes_at 12 4 bs), direct_ptr = words_at 16 16 bs,
     indirect_ptr = words_at 80 8 bs, vstat = bytes_at 112 144 bs\<rparr>"

definition decode_dirent :: "byte list \<Rightarrow> dirent" where
  "decode_dirent bs = \<lparr>d_ino = un_bytes (bytes_at 0 2 bs), d_valid = un_bytes (bytes_at 2 2 bs),
     d_name = bytes_at 4 208 bs, d_len = un_bytes (bytes_at 212 2 bs)\<rparr>"

definition wf_inode :: "inode \<Rightarrow> bool" where
  "wf_inode i \<longleftrightarrow> length (direct_ptr i) = 16 \<and> length (indirect_ptr i) = 8 \<and> length (vstat i) = 144"

definition wf_dirent :: "dirent \<Rightarrow> bool" where
  "wf_dirent d \<longleftrightarrow> length (d_name d) = 208"

text \<open>The fields of \<open>struct stat\<close> that the code sets.\<close>

definition st_ino :: nat where "st_ino = 8"
definition st_nlink :: nat where "st_nlink = 16"
definition st_mode :: nat where "st_mode = 24"
definition st_uid :: nat where "st_uid = 28"
definition st_gid :: nat where "st_gid = 32"
definition st_size :: nat where "st_size = 48"
definition st_atime :: nat where "st_atime = 72"
definition st_mtime :: nat where "st_mtime = 88"
definition st_ctime :: nat where "st_ctime = 104"

definition stat32 :: "nat \<Rightarrow> 32 word \<Rightarrow> inode \<Rightarrow> inode" where
  "stat32 off v i = i\<lparr>vstat := splice off (le_bytes 4 v) (vstat i)\<rparr>"

definition stat64 :: "nat \<Rightarrow> 64 word \<Rightarrow> inode \<Rightarrow> inode" where
  "stat64 off v i = i\<lparr>vstat := splice off (le_bytes 8 v) (vstat i)\<rparr>"

subsection \<open>Round trips\<close>

lemma bytes_at_0 [simp]: "length xs = n \<Longrightarrow> bytes_at 0 n (xs @ ys) = xs"
  by (simp add: bytes_at_def)

lemma bytes_at_skip: "length xs \<le> off \<Longrightarrow> bytes_at off n (xs @ ys) = bytes_at (off - length xs) n ys"
  by (simp add: bytes_at_def)

lemma bytes_at_all [simp]: "length xs = n \<Longrightarrow> bytes_at 0 n xs = xs"
  by (simp add: bytes_at_def)

lemma length_bytes_at [simp]: "off + n \<le> length bs \<Longrightarrow> length (bytes_at off n bs) = n"
  by (simp add: bytes_at_def)

lemma length_concat_le_bytes [simp]: "length (concat (map (le_bytes n) ws)) = n * length ws"
  by (induction ws) simp_all

lemma bytes_at_concat:
  "k < length ws \<Longrightarrow> bytes_at (4 * k) 4 (concat (map (le_bytes 4) ws) @ ys) = le_bytes 4 (ws ! k)"
proof (induction ws arbitrary: k)
  case (Cons w ws)
  then show ?case by (cases k) (simp_all add: bytes_at_skip)
qed simp

lemma words_at_concat:
  "length ws = n \<Longrightarrow> words_at 0 n (concat (map (le_bytes 4) ws) @ ys) = ws"
  by (rule nth_equalityI) (simp_all add: words_at_def bytes_at_concat)

lemma words_at_skip: "length xs \<le> off \<Longrightarrow> words_at off n (xs @ ys) = words_at (off - length xs) n ys"
  by (simp add: words_at_def bytes_at_skip)

lemma length_encode_inode [simp]: "wf_inode i \<Longrightarrow> length (encode_inode i) = 256"
  by (simp add: encode_inode_def wf_inode_def)

lemma length_encode_dirent [simp]: "wf_dirent d \<Longrightarrow> length (encode_dirent d) = 214"
  by (simp add: encode_dirent_def wf_dirent_def)

lemma decode_encode_inode:
  assumes "wf_inode i"
  shows "decode_inode (encode_inode i) = i"
proof -
  have len: "length (direct_ptr i) = 16" "length (indirect_ptr i) = 8" "length (vstat i) = 144"
    using assms by (simp_all add: wf_inode_def)
  then show ?thesis
    by (simp add: decode_inode_def encode_inode_def bytes_at_skip words_at_skip words_at_concat)
qed

lemma decode_encode_dirent:
  assumes "wf_dirent d"
  shows "decode_dirent (encode_dirent d) = d"
  using assms by (simp add: decode_dirent_def encode_dirent_def wf_dirent_def bytes_at_skip)

lemma bytes_at_append: "bytes_at off n bs @ bytes_at (off + n) m bs = bytes_at off (n + m) bs"
  by (simp add: bytes_at_def take_add add.commute [of off n])

lemma bytes_at_join: "k = off + n \<Longrightarrow> bytes_at off n bs @ bytes_at k m bs = bytes_at off (n + m) bs"
  by (simp only: bytes_at_append)

lemma concat_words_at:
  assumes "off + 4 * n \<le> length bs"
  shows "concat (map (le_bytes 4) (words_at off n bs)) = bytes_at off (4 * n) bs"
  using assms
proof (induction n)
  case 0
  then show ?case by (simp add: words_at_def bytes_at_def)
next
  case (Suc n)
  have "le_bytes 4 (un_bytes (bytes_at (off + 4 * n) 4 bs) :: 32 word) = bytes_at (off + 4 * n) 4 bs"
    using le_un_bytes [of "bytes_at (off + 4 * n) 4 bs", where 'a = 32] Suc.prems by simp
  then show ?case
    using Suc bytes_at_append [of off "4 * n" bs 4] by (simp add: words_at_def add.commute)
qed

lemma le_bytes_at:
  assumes "off + n \<le> length bs" and "8 * n \<le> LENGTH('a::len)"
  shows "le_bytes n (un_bytes (bytes_at off n bs) :: 'a word) = bytes_at off n bs"
  using le_un_bytes [of "bytes_at off n bs", where 'a = 'a] assms by simp

lemma encode_decode_inode:
  assumes "length bs = 256"
  shows "encode_inode (decode_inode bs) = bs"
proof -
  have "encode_inode (decode_inode bs) = bytes_at 0 2 bs @ bytes_at 2 2 bs @ bytes_at 4 4 bs @ bytes_at 8 4 bs
      @ bytes_at 12 4 bs @ bytes_at 16 64 bs @ bytes_at 80 32 bs @ bytes_at 112 144 bs"
    using assms by (simp add: encode_inode_def decode_inode_def le_bytes_at concat_words_at)
  also have "\<dots> = bytes_at 0 256 bs"
    by (simp add: bytes_at_join flip: append_assoc)
  finally show ?thesis using assms by simp
qed

lemma encode_decode_dirent:
  assumes "length bs = 214"
  shows "encode_dirent (decode_dirent bs) = bs"
proof -
  have "encode_dirent (decode_dirent bs) = bytes_at 0 2 bs @ bytes_at 2 2 bs @ bytes_at 4 208 bs @ bytes_at 212 2 bs"
    using assms by (simp add: encode_dirent_def decode_dirent_def le_bytes_at)
  also have "\<dots> = bytes_at 0 214 bs"
    by (simp add: bytes_at_join flip: append_assoc)
  finally show ?thesis using assms by simp
qed

lemma wf_decode_inode [simp]: "length bs = 256 \<Longrightarrow> wf_inode (decode_inode bs)"
  by (simp add: wf_inode_def decode_inode_def words_at_def)

lemma wf_decode_dirent [simp]: "length bs = 214 \<Longrightarrow> wf_dirent (decode_dirent bs)"
  by (simp add: wf_dirent_def decode_dirent_def)

end
