(* ===== verification/Fs_Inode.thy ===== *)
theory Fs_Inode
  imports Fs_Disk Bit_Array
begin

text \<open>
  The bitmaps, the allocators and the inode table of the file system (\<open>Level - 4/rufs.h\<close>,
  \<open>rufs.c\<close>).

  \<open>struct inode\<close> has eight indirect pointers, but three loops run over sixteen of them.  In the
  structure the pointers are followed by \<open>vstat\<close>, so pointer \<open>8 + k\<close> is the \<open>k\<close>-th word of
  \<open>vstat\<close>; the model follows the layout and faults behind the end of the structure.
\<close>

subsection \<open>Bitmaps\<close>

definition set_bitmap :: "byte list \<Rightarrow> int \<Rightarrow> byte list result" where
  "set_bitmap b i =
     (let k = i sdiv 8
      in if 0 \<le> k \<and> k < int (length b)
         then Inr (b[nat k := b ! nat k OR push_bit (nat (i AND 7)) 1])
         else Inl OutOfBounds)"

definition unset_bitmap :: "byte list \<Rightarrow> int \<Rightarrow> byte list result" where
  "unset_bitmap b i =
     (let k = i sdiv 8
      in if 0 \<le> k \<and> k < int (length b)
         then Inr (b[nat k := b ! nat k AND NOT (push_bit (nat (i AND 7)) 1)])
         else Inl OutOfBounds)"

definition get_bitmap :: "byte list \<Rightarrow> int \<Rightarrow> int result" where
  "get_bitmap b i =
     (let k = i sdiv 8
      in if 0 \<le> k \<and> k < int (length b)
         then Inr (if b ! nat k AND push_bit (nat (i AND 7)) 1 \<noteq> 0 then 1 else 0)
         else Inl OutOfBounds)"

text \<open>Bit \<open>i mod 8\<close> of byte \<open>i div 8\<close>.\<close>

definition lb_get :: "byte list \<Rightarrow> nat \<Rightarrow> bool" where
  "lb_get b i = bit (b ! (i div 8)) (i mod 8)"

definition lb_set :: "byte list \<Rightarrow> nat \<Rightarrow> byte list" where
  "lb_set b i = b[i div 8 := b ! (i div 8) OR push_bit (i mod 8) 1]"

definition lb_unset :: "byte list \<Rightarrow> nat \<Rightarrow> byte list" where
  "lb_unset b i = b[i div 8 := b ! (i div 8) AND NOT (push_bit (i mod 8) 1)]"

lemma length_lb [simp]: "length (lb_set b i) = length b" "length (lb_unset b i) = length b"
  by (simp_all add: lb_set_def lb_unset_def)

lemma int_index: "int i sdiv 8 = int (i div 8)" "nat (int i AND 7) = i mod 8"
proof -
  show "int i sdiv 8 = int (i div 8)" by (simp add: c_arith zdiv_int)
  have "int i AND 7 = int i AND mask 3" by (simp add: mask_eq_exp_minus_1)
  also have "\<dots> = int i mod 8" by (simp only: flip: take_bit_eq_mask) (simp add: take_bit_eq_mod)
  finally show "nat (int i AND 7) = i mod 8" by (simp add: nat_mod_distrib)
qed

lemma bitmap_in:
  assumes "i < 8 * length b"
  shows "set_bitmap b (int i) = Inr (lb_set b i)" "unset_bitmap b (int i) = Inr (lb_unset b i)"
    "get_bitmap b (int i) = Inr (of_bool (lb_get b i))"
proof -
  have "i div 8 < length b" using assms by (simp add: less_mult_imp_div_less mult.commute)
  then show "set_bitmap b (int i) = Inr (lb_set b i)" "unset_bitmap b (int i) = Inr (lb_unset b i)"
    "get_bitmap b (int i) = Inr (of_bool (lb_get b i))"
    by (simp_all only: set_bitmap_def unset_bitmap_def get_bitmap_def Let_def int_index lb_set_def
        lb_unset_def lb_get_def) (simp_all add: bit_iff_and_push_bit_not_eq_0)
qed

lemma bitmap_out:
  assumes "8 * length b \<le> i"
  shows "set_bitmap b (int i) = Inl OutOfBounds" "unset_bitmap b (int i) = Inl OutOfBounds"
    "get_bitmap b (int i) = Inl OutOfBounds"
proof -
  have "length b \<le> i div 8" using assms by (simp add: less_eq_div_iff_mult_less_eq mult.commute)
  then show "set_bitmap b (int i) = Inl OutOfBounds" "unset_bitmap b (int i) = Inl OutOfBounds"
    "get_bitmap b (int i) = Inl OutOfBounds"
    by (simp_all only: set_bitmap_def unset_bitmap_def get_bitmap_def Let_def int_index) simp_all
qed

lemma same_byte: "j div 8 = i div 8 \<Longrightarrow> i mod 8 = j mod 8 \<longleftrightarrow> j = (i::nat)"
  by (metis div_mult_mod_eq)

lemma lb_get_set: "i < 8 * length b \<Longrightarrow> lb_get (lb_set b i) j \<longleftrightarrow> j = i \<or> lb_get b j"
  using same_byte [of j i]
  by (cases "j div 8 = i div 8")
    (auto simp: lb_get_def lb_set_def bit_simps less_mult_imp_div_less mult.commute nth_list_update)

lemma lb_get_unset: "i < 8 * length b \<Longrightarrow> lb_get (lb_unset b i) j \<longleftrightarrow> j \<noteq> i \<and> lb_get b j"
  using same_byte [of j i]
  by (cases "j div 8 = i div 8")
    (auto simp: lb_get_def lb_unset_def bit_simps less_mult_imp_div_less mult.commute nth_list_update)

interpretation fsb: bit_array_clear "\<lambda>b. 8 * length b" get_bitmap set_bitmap unset_bitmap
proof -
  have in_set: "i < 8 * length b" if "set_bitmap b (int i) = Inr b'" for b b' i
    using that bitmap_out [of b i] by (cases "i < 8 * length b") auto
  have in_unset: "i < 8 * length b" if "unset_bitmap b (int i) = Inr b'" for b b' i
    using that bitmap_out [of b i] by (cases "i < 8 * length b") auto
  show "bit_array_clear (\<lambda>b. 8 * length b) get_bitmap set_bitmap unset_bitmap"
  proof (unfold_locales, goal_cases)
    case (5 b i b')
    with in_set [OF 5] show ?case by (auto simp: bitmap_in)
  next
    case (6 b i b' j)
    with in_set [OF 6(1)] show ?case by (auto simp: bitmap_in lb_get_set)
  next
    case (8 b i b')
    with in_unset [OF 8] show ?case by (auto simp: bitmap_in)
  next
    case (9 b i b' j)
    with in_unset [OF 9(1)] show ?case by (auto simp: bitmap_in lb_get_unset)
  qed (simp_all add: bitmap_in bitmap_out)
qed

subsection \<open>Allocation\<close>

function avail_loop :: "nat \<Rightarrow> nat \<Rightarrow> byte list \<Rightarrow> nat option result" where
  "avail_loop n i b =
     (if i < n
      then case get_bitmap b (int i) of
          Inl f \<Rightarrow> Inl f
        | Inr get_bit \<Rightarrow> if get_bit = 0 then Inr (Some i) else avail_loop n (Suc i) b
      else Inr None)"
  by pat_completeness auto

termination by (relation "measure (\<lambda>(n, i, _). n - i)") auto

declare avail_loop.simps [simp del]

definition get_avail_ino :: "fs \<Rightarrow> (int \<times> fs) result" where
  "get_avail_ino s =
     (let blk = i_bitmap_blk (super_block s);
          s = s\<lparr>inode_bitmap := bio_read s blk\<rparr>
      in case avail_loop MAX_INUM 0 (inode_bitmap s) of
           Inl f \<Rightarrow> Inl f
         | Inr None \<Rightarrow> Inr (-1, s)
         | Inr (Some i) \<Rightarrow>
             (case set_bitmap (inode_bitmap s) (int i) of
                Inl f \<Rightarrow> Inl f
              | Inr b \<Rightarrow>
                  Inr (int i, bio_write (s\<lparr>total_inodes_used := total_inodes_used s + 1, inode_bitmap := b\<rparr>) blk b)))"

definition get_avail_blkno :: "fs \<Rightarrow> (int \<times> fs) result" where
  "get_avail_blkno s =
     (let blk = d_bitmap_blk (super_block s);
          s = s\<lparr>data_bitmap := bio_read s blk\<rparr>
      in case avail_loop MAX_DNUM 0 (data_bitmap s) of
           Inl f \<Rightarrow> Inl f
         | Inr None \<Rightarrow> Inr (-1, s)
         | Inr (Some i) \<Rightarrow>
             (case set_bitmap (data_bitmap s) (int i) of
                Inl f \<Rightarrow> Inl f
              | Inr b \<Rightarrow>
                  Inr (sint (d_start_blk (super_block s) + of_nat i),
                    bio_write (s\<lparr>data_blocks_used := data_blocks_used s + 1, data_bitmap := b\<rparr>) blk b)))"

subsection \<open>The inode table\<close>

definition inode_block :: "fs \<Rightarrow> 16 word \<Rightarrow> 32 word" where
  "inode_block s n = i_start_blk (super_block s) + of_int (uint n sdiv inodes_per_block s)"

definition inode_offset :: "fs \<Rightarrow> 16 word \<Rightarrow> nat" where
  "inode_offset s n = nat (uint n smod inodes_per_block s) * sizeof_inode"

definition readi :: "fs \<Rightarrow> 16 word \<Rightarrow> inode" where
  "readi s n = decode_inode (bytes_at (inode_offset s n) sizeof_inode (bio_read s (inode_block s n)))"

definition writei :: "fs \<Rightarrow> 16 word \<Rightarrow> inode \<Rightarrow> int \<times> fs" where
  "writei s n i =
     (if unat n > MAX_INUM then (-1, s)
      else
      let buf = bio_read s (inode_block s n);
          (now, s) = get_time s;
          i = stat64 st_ctime now i
      in (0, bio_write s (inode_block s n) (splice (inode_offset s n) (encode_inode i) buf)))"

definition set_indirect :: "nat \<Rightarrow> 32 word \<Rightarrow> inode \<Rightarrow> inode result" where
  "set_indirect k v i =
     (if k < 8 then Inr (i\<lparr>indirect_ptr := (indirect_ptr i)[k := v]\<rparr>)
      else if k < 44 then Inr (stat32 (4 * (k - 8)) v i)
      else Inl OutOfBounds)"

definition get_indirect :: "nat \<Rightarrow> inode \<Rightarrow> 32 word result" where
  "get_indirect k i =
     (if k < 8 then Inr (indirect_ptr i ! k)
      else if k < 44 then Inr (un_bytes (bytes_at (4 * (k - 8)) 4 (vstat i)))
      else Inl OutOfBounds)"

text \<open>The two loops that set all pointers to \<open>-1\<close>; the second one runs to 16 as well.\<close>

primrec clear_direct_loop :: "nat \<Rightarrow> inode \<Rightarrow> inode" where
  "clear_direct_loop 0 i = i"
| "clear_direct_loop (Suc n) i =
     (let i = clear_direct_loop n i in i\<lparr>direct_ptr := (direct_ptr i)[n := -1]\<rparr>)"

primrec clear_indirect_loop :: "nat \<Rightarrow> inode \<Rightarrow> inode result" where
  "clear_indirect_loop 0 i = Inr i"
| "clear_indirect_loop (Suc n) i =
     (case clear_indirect_loop n i of Inl f \<Rightarrow> Inl f | Inr i \<Rightarrow> set_indirect n (-1) i)"

definition init_inode :: "fs \<Rightarrow> inode \<Rightarrow> 16 word \<Rightarrow> 32 word \<Rightarrow> (inode \<times> fs) result" where
  "init_inode s new_inode n typ =
     (case clear_indirect_loop 16 (clear_direct_loop 16
         (new_inode\<lparr>ino := n, isize := 0, itype := typ, valid := 1\<rparr>)) of
        Inl f \<Rightarrow> Inl f
      | Inr i \<Rightarrow>
          let (now, s) = get_time s; i = stat64 st_atime now i;
              (now, s) = get_time s; i = stat64 st_mtime now i;
              (now, s) = get_time s; i = stat64 st_ctime now i;
              i = stat64 st_ino (ucast n) i;
              i = stat32 st_uid (uid s) i;
              i = stat32 st_gid (gid s) i;
              i = (if typ = 1 then (stat32 st_mode (0x4000 OR 0x1ED) i)\<lparr>ilink := 2\<rparr>
                   else (stat32 st_mode (0x8000 OR 0x1A4) i)\<lparr>ilink := 1\<rparr>);
              i = stat64 st_size (ucast (isize i)) i;
              i = stat64 st_nlink (ucast (ilink i)) i
          in Inr (i, s))"

definition clear_inode :: "fs \<Rightarrow> int \<Rightarrow> fs result" where
  "clear_inode s ino_num =
     (case clear_indirect_loop 16 (clear_direct_loop 16
         ((readi s (of_int ino_num))\<lparr>ino := 0, ilink := 0, isize := 0, itype := 0, valid := 0\<rparr>)) of
        Inl f \<Rightarrow> Inl f
      | Inr i \<Rightarrow>
          let (_, s) = writei s (of_int ino_num) i;
              blk = i_bitmap_blk (super_block s);
              s = s\<lparr>inode_bitmap := bio_read s blk\<rparr>
          in case unset_bitmap (inode_bitmap s) ino_num of
               Inl f \<Rightarrow> Inl f
             | Inr b \<Rightarrow>
                 let s = bio_write (s\<lparr>inode_bitmap := b\<rparr>) blk b
                 in Inr (s\<lparr>total_inodes_cleared := total_inodes_cleared s + 1\<rparr>))"

definition clear_data_block :: "fs \<Rightarrow> 32 word \<Rightarrow> fs result" where
  "clear_data_block s blk_no =
     (let s = bio_write s blk_no (replicate BLOCK_SIZE 0);
          blk = d_bitmap_blk (super_block s);
          s = s\<lparr>data_bitmap := bio_read s blk\<rparr>
      in case unset_bitmap (data_bitmap s) (sint (blk_no - d_start_blk (super_block s))) of
           Inl f \<Rightarrow> Inl f
         | Inr b \<Rightarrow>
             let s = bio_write (s\<lparr>data_bitmap := b\<rparr>) blk b
             in Inr (s\<lparr>data_blocks_cleared := data_blocks_cleared s + 1\<rparr>))"

definition init_indirect_blk :: "byte list" where
  "init_indirect_blk = concat (map (le_bytes 4) (replicate (BLOCK_SIZE div 4) (-1 :: 32 word)))"

subsection \<open>The block device\<close>

lemma block_index_small:
  assumes "unat b < 524288"
  shows "block_index b = Some (unat b)"
proof -
  have "unat (b * of_nat BLOCK_SIZE) = unat b * 4096"
    using assms by (simp add: BLOCK_SIZE_def unat_word_ariths)
  moreover from this have "unat (b * of_nat BLOCK_SIZE) < 2 ^ 31" using assms by simp
  ultimately have "sint (b * of_nat BLOCK_SIZE) = int (unat b * 4096)"
    by (simp only: sint_index)
  then show ?thesis
    by (simp only: block_index_def Let_def nat_int of_nat_less_0_iff if_False) (simp add: BLOCK_SIZE_def)
qed

lemma dev_ready_updates [simp]:
  "dev_ready (s\<lparr>disk := d\<rparr>) = dev_ready s" "dev_ready (s\<lparr>super_block := sb\<rparr>) = dev_ready s"
  "dev_ready (s\<lparr>inode_bitmap := b\<rparr>) = dev_ready s" "dev_ready (s\<lparr>data_bitmap := b\<rparr>) = dev_ready s"
  "dev_ready (s\<lparr>total_inodes_used := n\<rparr>) = dev_ready s" "dev_ready (s\<lparr>total_inodes_cleared := n\<rparr>) = dev_ready s"
  "dev_ready (s\<lparr>data_blocks_used := n\<rparr>) = dev_ready s" "dev_ready (s\<lparr>data_blocks_cleared := n\<rparr>) = dev_ready s"
  "dev_ready (s\<lparr>ticks := t\<rparr>) = dev_ready s" "dev_ready (s\<lparr>fs_mutex := m\<rparr>) = dev_ready s"
  "dev_ready (s\<lparr>max_dir_entries := n\<rparr>) = dev_ready s" "dev_ready (s\<lparr>inodes_per_block := n\<rparr>) = dev_ready s"
  by (simp_all add: dev_ready_def)

lemma bio_read_small: "unat b < 524288 \<Longrightarrow> dev_ready s \<Longrightarrow> bio_read s b = disk s (unat b)"
  by (simp add: bio_read_def block_index_small)

lemma bio_write_small: "unat b < 524288 \<Longrightarrow> dev_ready s \<Longrightarrow> bio_write s b buf = s\<lparr>disk := (disk s)(unat b := buf)\<rparr>"
  by (simp add: bio_write_def block_index_small)

subsection \<open>A mounted file system\<close>

text \<open>The disk is open with the geometry that \<open>rufs_mkfs\<close> lays out: bitmaps in blocks 1 and 2, inodes from block 3,
  data from block 67; sixteen inodes and nineteen directory entries per block.\<close>

definition mounted :: "fs \<Rightarrow> bool" where
  "mounted s \<longleftrightarrow> i_bitmap_blk (super_block s) = 1 \<and> d_bitmap_blk (super_block s) = 2
     \<and> i_start_blk (super_block s) = 3 \<and> d_start_blk (super_block s) = 67
     \<and> inodes_per_block s = 16 \<and> max_dir_entries s = 19 \<and> dev_ready s
     \<and> (\<forall>k. length (disk s k) = BLOCK_SIZE)"

lemma mountedD:
  assumes "mounted s"
  shows "i_bitmap_blk (super_block s) = 1" "d_bitmap_blk (super_block s) = 2"
    "i_start_blk (super_block s) = 3" "d_start_blk (super_block s) = 67"
    "inodes_per_block s = 16" "max_dir_entries s = 19" "length (disk s k) = 4096"
  using assms by (simp_all add: mounted_def BLOCK_SIZE_def)

lemma mounted_ready [simp]: "mounted s \<Longrightarrow> dev_ready s"
  by (simp add: mounted_def)

lemma mounted_write:
  "mounted s \<Longrightarrow> unat b < 524288 \<Longrightarrow> length buf = 4096 \<Longrightarrow> mounted (bio_write s b buf)"
  by (simp add: mounted_def bio_write_small BLOCK_SIZE_def)

lemma mounted_more [simp]:
  "mounted (s\<lparr>inode_bitmap := b\<rparr>) = mounted s" "mounted (s\<lparr>data_bitmap := b\<rparr>) = mounted s"
  "mounted (s\<lparr>total_inodes_used := n\<rparr>) = mounted s" "mounted (s\<lparr>total_inodes_cleared := n\<rparr>) = mounted s"
  "mounted (s\<lparr>data_blocks_used := n\<rparr>) = mounted s" "mounted (s\<lparr>data_blocks_cleared := n\<rparr>) = mounted s"
  "mounted (s\<lparr>ticks := t\<rparr>) = mounted s" "mounted (s\<lparr>fs_mutex := m\<rparr>) = mounted s"
  by (simp_all add: mounted_def)

subsection \<open>Allocation\<close>

lemma avail_loop_spec:
  assumes "n \<le> 8 * length b" and "i \<le> n"
  shows "avail_loop n i b = Inr (find (\<lambda>k. \<not> lb_get b k) [i..<n])"
  using assms
proof (induction n i b rule: avail_loop.induct)
  case (1 n i b)
  show ?case
  proof (cases "i < n")
    case True
    have "[i..<n] = i # [Suc i..<n]" using True by (simp add: upt_conv_Cons)
    moreover have "get_bitmap b (int i) = Inr (of_bool (lb_get b i))"
      using True 1(2) by (intro bitmap_in) simp
    ultimately show ?thesis using 1 True by (subst avail_loop.simps) auto
  next
    case False
    then show ?thesis by (subst avail_loop.simps) simp
  qed
qed

definition first_clear :: "nat \<Rightarrow> byte list \<Rightarrow> nat option" where
  "first_clear n b = find (\<lambda>k. \<not> lb_get b k) [0..<n]"

lemma first_clear_Some:
  assumes "first_clear n b = Some i"
  shows "i < n \<and> \<not> lb_get b i \<and> (\<forall>j < i. lb_get b j)"
  using assms by (auto simp: first_clear_def find_Some_iff)

lemma first_clear_None: "first_clear n b = None \<longleftrightarrow> (\<forall>j < n. lb_get b j)"
  by (auto simp: first_clear_def find_None_iff)

lemma get_avail_ino_mounted:
  assumes "mounted s"
  shows "get_avail_ino s = Inr (case first_clear MAX_INUM (disk s 1) of
      None \<Rightarrow> (-1, s\<lparr>inode_bitmap := disk s 1\<rparr>)
    | Some i \<Rightarrow> (int i, s\<lparr>total_inodes_used := total_inodes_used s + 1,
        inode_bitmap := lb_set (disk s 1) i, disk := (disk s)(1 := lb_set (disk s 1) i)\<rparr>))"
proof -
  note D = mountedD [OF assms]
  have "avail_loop MAX_INUM 0 (disk s 1) = Inr (first_clear MAX_INUM (disk s 1))"
    unfolding first_clear_def using D(7) by (intro avail_loop_spec) (simp_all add: MAX_INUM_def)
  moreover have "set_bitmap (disk s 1) (int i) = Inr (lb_set (disk s 1) i)"
    if "first_clear MAX_INUM (disk s 1) = Some i" for i
    using first_clear_Some [OF that] D(7) by (intro bitmap_in) (simp add: MAX_INUM_def)
  ultimately show ?thesis
    using D(1) mounted_ready [OF assms] by (simp add: get_avail_ino_def Let_def bio_read_small bio_write_small split: option.split)
qed

lemma get_avail_blkno_mounted:
  assumes "mounted s"
  shows "get_avail_blkno s = Inr (case first_clear MAX_DNUM (disk s 2) of
      None \<Rightarrow> (-1, s\<lparr>data_bitmap := disk s 2\<rparr>)
    | Some i \<Rightarrow> (int (67 + i), s\<lparr>data_blocks_used := data_blocks_used s + 1,
        data_bitmap := lb_set (disk s 2) i, disk := (disk s)(2 := lb_set (disk s 2) i)\<rparr>))"
proof -
  note D = mountedD [OF assms]
  have "avail_loop MAX_DNUM 0 (disk s 2) = Inr (first_clear MAX_DNUM (disk s 2))"
    unfolding first_clear_def using D(7) by (intro avail_loop_spec) (simp_all add: MAX_DNUM_def)
  moreover have "set_bitmap (disk s 2) (int i) = Inr (lb_set (disk s 2) i)"
    "sint (67 + of_nat i :: 32 word) = int (67 + i)"
    if "first_clear MAX_DNUM (disk s 2) = Some i" for i
  proof -
    have i: "i < 16384" using first_clear_Some [OF that] by (simp add: MAX_DNUM_def)
    then show "set_bitmap (disk s 2) (int i) = Inr (lb_set (disk s 2) i)" using D(7) by (intro bitmap_in) simp
    have "unat (67 + of_nat i :: 32 word) = 67 + i"
      using i unat_base_plus [of 67 i] by simp
    then show "sint (67 + of_nat i :: 32 word) = int (67 + i)" using i sint_index [of "67 + of_nat i"] by simp
  qed
  ultimately show ?thesis
    using D(2,4) mounted_ready [OF assms] by (simp add: get_avail_blkno_def Let_def bio_read_small bio_write_small split: option.split)
qed

subsection \<open>Reading and writing inodes\<close>

lemma wf_inode_updates [simp]:
  "wf_inode (i\<lparr>ino := n\<rparr>) = wf_inode i" "wf_inode (i\<lparr>valid := n\<rparr>) = wf_inode i"
  "wf_inode (i\<lparr>isize := w\<rparr>) = wf_inode i" "wf_inode (i\<lparr>itype := w\<rparr>) = wf_inode i"
  "wf_inode (i\<lparr>ilink := w\<rparr>) = wf_inode i"
  "wf_inode (i\<lparr>direct_ptr := (direct_ptr i)[k := w]\<rparr>) = wf_inode i"
  by (simp_all add: wf_inode_def)

lemma wf_stat [simp]:
  "wf_inode i \<Longrightarrow> off + 4 \<le> 144 \<Longrightarrow> wf_inode (stat32 off v i)"
  "wf_inode i \<Longrightarrow> off + 8 \<le> 144 \<Longrightarrow> wf_inode (stat64 off w i)"
  by (simp_all add: wf_inode_def stat32_def stat64_def)

lemma stat_fields [simp]:
  "direct_ptr (stat32 off v i) = direct_ptr i" "direct_ptr (stat64 off w i) = direct_ptr i"
  "indirect_ptr (stat32 off v i) = indirect_ptr i" "indirect_ptr (stat64 off w i) = indirect_ptr i"
  "ino (stat32 off v i) = ino i" "ino (stat64 off w i) = ino i"
  "isize (stat32 off v i) = isize i" "isize (stat64 off w i) = isize i"
  "itype (stat32 off v i) = itype i" "itype (stat64 off w i) = itype i"
  "ilink (stat32 off v i) = ilink i" "ilink (stat64 off w i) = ilink i"
  "valid (stat32 off v i) = valid i" "valid (stat64 off w i) = valid i"
  by (simp_all add: stat32_def stat64_def)

lemma int_index16: "int i sdiv 16 = int (i div 16)" "int i smod 16 = int (i mod 16)"
  by (simp_all add: c_arith zdiv_int zmod_int)

lemma inode_place:
  assumes "mounted s"
  shows "unat (inode_block s n) = 3 + unat n div 16" "inode_offset s n = unat n mod 16 * 256"
proof -
  have n: "unat n < 65536" using unsigned_less [of n, where 'a = nat] by simp
  have d: "uint n sdiv 16 = int (unat n div 16)" "uint n smod 16 = int (unat n mod 16)"
    by (simp_all only: uint_nat int_index16)
  have "unat (3 + of_nat (unat n div 16) :: 32 word) = 3 + unat n div 16"
    using n unat_base_plus [of 3 "unat n div 16"] by simp
  then show "unat (inode_block s n) = 3 + unat n div 16"
    using mountedD [OF assms] d by (simp add: inode_block_def)
  show "inode_offset s n = unat n mod 16 * 256"
    using mountedD [OF assms] d(2) by (simp only: inode_offset_def sizeof_inode_def nat_int)
qed

lemma inode_block_small: "mounted s \<Longrightarrow> unat (inode_block s n) < 524288"
  using unsigned_less [of n, where 'a = nat] by (simp add: inode_place)

lemma inode_block_cong: "super_block s' = super_block s \<Longrightarrow> inodes_per_block s' = inodes_per_block s
    \<Longrightarrow> inode_block s' n = inode_block s n \<and> inode_offset s' n = inode_offset s n"
  by (simp add: inode_block_def inode_offset_def)

lemma readi_mounted:
  assumes "mounted s"
  shows "readi s n = decode_inode (bytes_at (unat n mod 16 * 256) 256 (disk s (3 + unat n div 16)))"
  using bio_read_small [OF inode_block_small [OF assms] mounted_ready [OF assms]] inode_place [OF assms]
  by (simp add: readi_def sizeof_inode_def)

lemma wf_readi [simp]: "mounted s \<Longrightarrow> wf_inode (readi s n)"
proof -
  assume m: "mounted s"
  have "unat n mod 16 * 256 + 256 \<le> 4096" by simp
  then show ?thesis using mountedD(7) [OF m] by (simp only: readi_mounted [OF m]) (intro wf_decode_inode, simp)
qed

text \<open>What \<open>writei\<close> does to a mounted disk: one block changes.\<close>

definition put_inode :: "fs \<Rightarrow> 16 word \<Rightarrow> inode \<Rightarrow> byte list" where
  "put_inode s n i = splice (unat n mod 16 * 256) (encode_inode (stat64 st_ctime (clock s (ticks s)) i))
     (disk s (3 + unat n div 16))"

lemma writei_mounted:
  assumes "mounted s" and "unat n \<le> 1024"
  shows "writei s n i = (0, s\<lparr>ticks := Suc (ticks s), disk := (disk s)(3 + unat n div 16 := put_inode s n i)\<rparr>)"
proof -
  have same: "inode_block (s\<lparr>ticks := t\<rparr>) n = inode_block s n" "inode_offset (s\<lparr>ticks := t\<rparr>) n = inode_offset s n" for t
    using inode_block_cong [of "s\<lparr>ticks := t\<rparr>" s n] by simp_all
  show ?thesis
    using assms by (simp add: writei_def Let_def get_time_def MAX_INUM_def same bio_read_small bio_write_small
        inode_block_small inode_place put_inode_def)
qed

lemma length_put_inode:
  assumes "mounted s" and "wf_inode i"
  shows "length (put_inode s n i) = 4096"
proof -
  have "unat n mod 16 * 256 + 256 \<le> 4096" by simp
  then show ?thesis
    using assms(2) mountedD(7) [OF assms(1)] by (simp add: put_inode_def st_ctime_def)
qed

lemma mounted_writei:
  assumes "mounted s" and "wf_inode i" and "unat n \<le> 1024"
  shows "mounted (snd (writei s n i))"
  using assms length_put_inode [OF assms(1,2), of n]
  by (simp add: writei_mounted) (simp add: mounted_def BLOCK_SIZE_def)

lemma readi_put_inode:
  assumes "mounted s" and "wf_inode i" and "s' = snd (writei s n i)" and "unat n \<le> 1024"
  shows "readi s' m = (if m = n then stat64 st_ctime (clock s (ticks s)) i else readi s m)"
proof -
  let ?i = "stat64 st_ctime (clock s (ticks s)) i"
  have m': "mounted s'" using assms mounted_writei by simp
  have wf: "wf_inode ?i" using assms(2) by (simp add: st_ctime_def)
  have len: "length (disk s (3 + unat n div 16)) = 4096" using mountedD(7) [OF assms(1)] .
  have fit: "unat n mod 16 * 256 + length (encode_inode ?i) \<le> length (disk s (3 + unat n div 16))"
    using wf len by simp
  have blk: "disk s' (3 + unat m div 16) = (if unat m div 16 = unat n div 16 then put_inode s n i else disk s (3 + unat m div 16))"
    using assms(1,3,4) by (simp add: writei_mounted)
  show ?thesis
  proof (cases "unat m div 16 = unat n div 16")
    case False
    then have "m \<noteq> n" by auto
    then show ?thesis using False blk by (simp add: readi_mounted m' assms(1))
  next
    case blk_eq: True
    show ?thesis
    proof (cases "m = n")
      case True
      have "bytes_at (unat n mod 16 * 256) 256 (put_inode s n i) = encode_inode ?i"
        using splice_same [OF fit] wf by (simp add: put_inode_def bytes_at_def)
      then show ?thesis using True blk decode_encode_inode [OF wf] by (simp add: readi_mounted m')
    next
      case False
      then have "unat m mod 16 \<noteq> unat n mod 16"
        using blk_eq by (metis div_mult_mod_eq word_unat_eq_iff)
      then have "unat m mod 16 * 256 + 256 \<le> unat n mod 16 * 256 \<or> unat n mod 16 * 256 + 256 \<le> unat m mod 16 * 256"
        by linarith
      then have "bytes_at (unat m mod 16 * 256) 256 (put_inode s n i) =
          bytes_at (unat m mod 16 * 256) 256 (disk s (3 + unat n div 16))"
        using fit wf len unfolding put_inode_def bytes_at_def by (intro splice_other) auto
      then show ?thesis using False blk blk_eq by (simp add: readi_mounted m' assms(1))
    qed
  qed
qed

text \<open>C22: On a mounted file system the inode table is an array: \<open>writei\<close> of a well formed inode
  succeeds, reading the same number back gives that inode with its change time set, and every
  other inode, the bitmaps and all data blocks are unchanged.\<close>

theorem readi_writei:
  assumes "mounted s" and "wf_inode i" and "unat n < MAX_INUM"
  shows "\<exists>s'. writei s n i = (0, s') \<and> mounted s'
    \<and> readi s' n = stat64 st_ctime (clock s (ticks s)) i \<and> (\<forall>m. m \<noteq> n \<longrightarrow> readi s' m = readi s m)
    \<and> (\<forall>k. k < 3 \<or> 67 \<le> k \<longrightarrow> disk s' k = disk s k)"
proof -
  have n: "unat n \<le> 1024" "unat n div 16 < 64" using assms(3) by (simp_all add: MAX_INUM_def less_mult_imp_div_less)
  define s' where "s' = snd (writei s n i)"
  have w: "writei s n i = (0, s')" using assms(1) n(1) by (simp add: s'_def writei_mounted)
  have "disk s' k = disk s k" if "k < 3 \<or> 67 \<le> k" for k
    using that n assms(1) by (auto simp: s'_def writei_mounted)
  moreover have "mounted s'" unfolding s'_def by (rule mounted_writei [OF assms(1,2) n(1)])
  ultimately show ?thesis
    using w readi_put_inode [OF assms(1,2) s'_def n(1)] by (intro exI [of _ s']) simp
qed

text \<open>A disk of zeros with the geometry of \<open>rufs_mkfs\<close>.\<close>

definition blank_fs :: fs where
  "blank_fs = \<lparr>disk_file = True, diskfile = True, fd_closed = False, disk = \<lambda>_. replicate BLOCK_SIZE 0,
     super_block = \<lparr>magic_num = 0, max_inum = 0, max_dnum = 0, i_bitmap_blk = 1, d_bitmap_blk = 2,
       i_start_blk = 3, d_start_blk = 67\<rparr>,
     inode_bitmap = [], data_bitmap = [], max_dir_entries = 19, inodes_per_block = 16,
     total_inodes_used = 0, total_inodes_cleared = 0, data_blocks_used = 0, data_blocks_cleared = 0,
     fs_mutex = False, clock = (\<lambda>k. of_nat k), ticks = 0, uid = 0, gid = 0\<rparr>"

lemma mounted_blank: "mounted blank_fs"
  by (simp add: mounted_def blank_fs_def dev_ready_def)

theorem readi_writei_witness:
  "\<exists>s'. writei blank_fs 17 (readi blank_fs 3) = (0, s')
    \<and> readi s' 17 = stat64 st_ctime 0 (readi blank_fs 3) \<and> readi s' 18 = readi blank_fs 18"
  using readi_writei [OF mounted_blank wf_readi [OF mounted_blank], of 17 3]
  by (auto simp: MAX_INUM_def blank_fs_def)

text \<open>\<open>get_avail_ino\<close> hands out the least inode number whose bit is clear, sets exactly that bit
  on the disk and changes no other block; with all 1024 bits set it answers \<open>-1\<close> and writes
  nothing.\<close>

theorem get_avail_ino_least:
  assumes "mounted s"
  shows "\<exists>r s'. get_avail_ino s = Inr (r, s') \<and> mounted s' \<and> (\<forall>k. k \<noteq> 1 \<longrightarrow> disk s' k = disk s k)
    \<and> (if \<forall>i < MAX_INUM. lb_get (disk s 1) i then r = -1 \<and> disk s' = disk s
       else \<exists>i < MAX_INUM. r = int i \<and> \<not> lb_get (disk s 1) i \<and> (\<forall>j < i. lb_get (disk s 1) j)
         \<and> (\<forall>j. lb_get (disk s' 1) j \<longleftrightarrow> j = i \<or> lb_get (disk s 1) j))"
proof (cases "first_clear MAX_INUM (disk s 1)")
  case None
  then have "\<forall>i < MAX_INUM. lb_get (disk s 1) i" by (simp add: first_clear_None)
  then show ?thesis using None get_avail_ino_mounted [OF assms] assms by auto
next
  case (Some i)
  note i = first_clear_Some [OF Some]
  let ?b = "lb_set (disk s 1) i"
  let ?s = "s\<lparr>total_inodes_used := total_inodes_used s + 1, inode_bitmap := ?b, disk := (disk s)(1 := ?b)\<rparr>"
  have "i < 8 * length (disk s 1)" using i mountedD(7) [OF assms] by (simp add: MAX_INUM_def)
  then have "lb_get ?b j \<longleftrightarrow> j = i \<or> lb_get (disk s 1) j" for j by (rule lb_get_set)
  moreover have "mounted ?s" using assms by (simp add: mounted_def)
  moreover have "get_avail_ino s = Inr (int i, ?s)" using get_avail_ino_mounted [OF assms] Some by simp
  ultimately show ?thesis using i by (intro exI [of _ "int i"] exI [of _ ?s]) auto
qed

theorem get_avail_ino_least_witness:
  "\<exists>s'. get_avail_ino blank_fs = Inr (0, s') \<and> lb_get (disk s' 1) 0"
proof -
  have z: "\<not> lb_get (disk blank_fs 1) 0" by (simp add: blank_fs_def lb_get_def BLOCK_SIZE_def)
  then have nz: "\<not> (\<forall>i < MAX_INUM. lb_get (disk blank_fs 1) i)"
    using zero_less_numeral unfolding MAX_INUM_def by blast
  then obtain r s' i where s': "get_avail_ino blank_fs = Inr (r, s')" "r = int i" "\<not> lb_get (disk blank_fs 1) i"
      "\<forall>j < i. lb_get (disk blank_fs 1) j" "\<forall>j. lb_get (disk s' 1) j \<longleftrightarrow> j = i \<or> lb_get (disk blank_fs 1) j"
    using get_avail_ino_least [OF mounted_blank] unfolding if_not_P [OF nz] by blast
  have "i = 0" using s'(4) z by auto
  then show ?thesis using s' by auto
qed

end
