(* ===== verification/Fs_Dir.thy ===== *)
theory Fs_Dir
  imports Fs_Inode
begin

text \<open>
  Directories of the file system (\<open>Level - 4/rufs.c\<close>): one block holding a table of entries,
  searched, extended and shortened by \<open>dir_find\<close>, \<open>dir_add\<close> and \<open>dir_remove\<close>.

  Names are C strings: byte lists without a zero byte, terminated by one in the 208 bytes of the
  entry.  \<open>strcpy\<close> of a longer name writes past the array (\<open>OutOfBounds\<close>).
\<close>

subsection \<open>Tables and names\<close>

definition cstr :: "byte list \<Rightarrow> byte list" where
  "cstr bs = takeWhile (\<lambda>b. b \<noteq> 0) bs"

definition strcpy :: "byte list \<Rightarrow> byte list \<Rightarrow> byte list result" where
  "strcpy dst src =
     (if length src < length dst then Inr (splice 0 (src @ [0]) dst) else Inl OutOfBounds)"

definition entry_at :: "byte list \<Rightarrow> nat \<Rightarrow> dirent" where
  "entry_at table k = decode_dirent (bytes_at (k * sizeof_dirent) sizeof_dirent table)"

definition set_entry :: "byte list \<Rightarrow> nat \<Rightarrow> dirent \<Rightarrow> byte list" where
  "set_entry table k d = splice (k * sizeof_dirent) (encode_dirent d) table"

text \<open>\<open>"."\<close> and \<open>".."\<close>.\<close>

definition dot :: "byte list" where "dot = [46]"
definition dotdot :: "byte list" where "dotdot = [46, 46]"

primrec init_table_loop :: "nat \<Rightarrow> byte list \<Rightarrow> 16 word \<Rightarrow> 16 word \<Rightarrow> byte list result" where
  "init_table_loop 0 table curr_ino par_ino = Inr table"
| "init_table_loop (Suc k) table curr_ino par_ino =
     (case init_table_loop k table curr_ino par_ino of
        Inl f \<Rightarrow> Inl f
      | Inr table \<Rightarrow>
          let d = entry_at table k;
              (nm, i, l, v) = (if k = 0 then (dotdot, par_ino, 2, 1)
                else if k = 1 then (dot, curr_ino, 1, 1) else ([], 0, 0, 0))
          in case strcpy (d_name d) nm of
               Inl f \<Rightarrow> Inl f
             | Inr nm \<Rightarrow> Inr (set_entry table k (d\<lparr>d_name := nm, d_ino := i, d_len := l, d_valid := v\<rparr>)))"

definition init_dirent_table :: "fs \<Rightarrow> byte list \<Rightarrow> 16 word \<Rightarrow> 16 word \<Rightarrow> byte list result" where
  "init_dirent_table s table curr_ino par_ino = init_table_loop (nat (max_dir_entries s)) table curr_ino par_ino"

definition is_directory_empty :: "fs \<Rightarrow> byte list \<Rightarrow> bool" where
  "is_directory_empty s table \<longleftrightarrow>
     list_all (\<lambda>k. d_valid (entry_at table k) = 0) [2..<nat (max_dir_entries s)]"

subsection \<open>Operations\<close>

text \<open>The entry that \<open>dir_find\<close> copies out; None where it returns \<open>-1\<close>.\<close>

definition dir_find :: "fs \<Rightarrow> 16 word \<Rightarrow> byte list \<Rightarrow> dirent option" where
  "dir_find s n fname =
     (let table = bio_read s (direct_ptr (readi s n) ! 0)
      in map_option (entry_at table)
           (find (\<lambda>k. cstr (d_name (entry_at table k)) = fname) [0..<nat (max_dir_entries s)]))"

text \<open>The update of the directory's inode after its table has been written.\<close>

definition touch_dir :: "fs \<Rightarrow> inode \<Rightarrow> 32 word \<Rightarrow> fs" where
  "touch_dir s dir_inode sz =
     (let i = dir_inode\<lparr>isize := sz\<rparr>;
          i = stat64 st_size (ucast (isize i)) i;
          (now, s) = get_time s; i = stat64 st_mtime now i;
          (now, s) = get_time s; i = stat64 st_atime now i
      in snd (writei s (ino i) i))"

definition dir_add :: "fs \<Rightarrow> inode \<Rightarrow> 16 word \<Rightarrow> byte list \<Rightarrow> (int \<times> fs) result" where
  "dir_add s dir_inode f_ino fname =
     (if dir_find s (ino dir_inode) fname \<noteq> None then Inr (- EEXIST, s)
      else
      let dir_blk = direct_ptr dir_inode ! 0;
          table = bio_read s dir_blk
      in case find (\<lambda>k. d_valid (entry_at table k) = 0) [0..<nat (max_dir_entries s)] of
           None \<Rightarrow> Inr (- ENOSPC, s)
         | Some k \<Rightarrow>
             (case strcpy (d_name (entry_at table k)) fname of
                Inl f \<Rightarrow> Inl f
              | Inr nm \<Rightarrow>
                  let d = (entry_at table k)\<lparr>d_name := nm, d_ino := f_ino,
                        d_len := of_nat (length fname), d_valid := 1\<rparr>;
                      s = bio_write s dir_blk (set_entry table k d)
                  in Inr (0, touch_dir s dir_inode (isize dir_inode + of_nat sizeof_dirent))))"

definition dir_remove :: "fs \<Rightarrow> inode \<Rightarrow> byte list \<Rightarrow> (int \<times> fs) result" where
  "dir_remove s dir_inode fname =
     (let dir_blk = direct_ptr dir_inode ! 0;
          table = bio_read s dir_blk
      in case find (\<lambda>k. cstr (d_name (entry_at table k)) = fname) [0..<nat (max_dir_entries s)] of
           None \<Rightarrow> Inr (-1, s)
         | Some k \<Rightarrow>
             (case strcpy (d_name (entry_at table k)) [] of
                Inl f \<Rightarrow> Inl f
              | Inr nm \<Rightarrow>
                  let d = (entry_at table k)\<lparr>d_name := nm, d_ino := 0, d_len := 0, d_valid := 0\<rparr>;
                      s = bio_write s dir_blk (set_entry table k d)
                  in Inr (0, touch_dir s dir_inode (isize dir_inode - of_nat sizeof_dirent))))"

subsection \<open>Tables as arrays of entries\<close>

lemma entry_place: "(k::nat) < 19 \<Longrightarrow> k * 214 + 214 \<le> 4096"
  by simp

lemma wf_entry_at [simp]: "length table = 4096 \<Longrightarrow> k < 19 \<Longrightarrow> wf_dirent (entry_at table k)"
  using entry_place [of k] by (simp add: entry_at_def sizeof_dirent_def)

lemma length_set_entry:
  "length table = 4096 \<Longrightarrow> k < 19 \<Longrightarrow> wf_dirent d \<Longrightarrow> length (set_entry table k d) = 4096"
  using entry_place [of k] by (simp add: set_entry_def sizeof_dirent_def)

lemma entry_set_entry:
  assumes "length table = 4096" and "k < 19" and "j < 19" and "wf_dirent d"
  shows "entry_at (set_entry table k d) j = (if j = k then d else entry_at table j)"
proof -
  have fit: "k * 214 + length (encode_dirent d) \<le> length table"
    using entry_place [OF assms(2)] assms(1,4) by simp
  show ?thesis
  proof (cases "j = k")
    case True
    then show ?thesis
      using splice_same [OF fit] assms(4) decode_encode_dirent [OF assms(4)]
      by (simp add: entry_at_def set_entry_def bytes_at_def sizeof_dirent_def)
  next
    case False
    then have "j * 214 + 214 \<le> k * 214 \<or> k * 214 + 214 \<le> j * 214" by linarith
    then have "bytes_at (j * 214) 214 (set_entry table k d) = bytes_at (j * 214) 214 table"
      using fit assms entry_place [OF assms(3)] unfolding set_entry_def bytes_at_def sizeof_dirent_def
      by (intro splice_other) auto
    then show ?thesis using False by (simp add: entry_at_def sizeof_dirent_def)
  qed
qed

lemma cstr_terminated: "0 \<notin> set src \<Longrightarrow> cstr (src @ 0 # xs) = src"
  by (induction src) (auto simp: cstr_def)

lemma strcpy_short:
  assumes "length src < length dst" and "0 \<notin> set src"
  shows "\<exists>nm. strcpy dst src = Inr nm \<and> length nm = length dst \<and> cstr nm = src"
  using assms cstr_terminated [OF assms(2)] by (simp add: strcpy_def splice_def)

subsection \<open>A directory as a map from names to inode numbers\<close>

definition entry_name :: "byte list \<Rightarrow> nat \<Rightarrow> byte list" where
  "entry_name table k = cstr (d_name (entry_at table k))"

text \<open>Unused entries have the empty name, used ones are marked with 1 and have distinct names.\<close>

definition table_ok :: "byte list \<Rightarrow> bool" where
  "table_ok table \<longleftrightarrow> length table = 4096
     \<and> (\<forall>k < 19. d_valid (entry_at table k) = (if entry_name table k = [] then 0 else 1))
     \<and> (\<forall>j < 19. \<forall>k < 19. entry_name table j = entry_name table k \<longrightarrow> entry_name table j \<noteq> [] \<longrightarrow> j = k)"

definition dir_block :: "fs \<Rightarrow> 16 word \<Rightarrow> nat" where
  "dir_block s n = unat (direct_ptr (readi s n) ! 0)"

definition dir_ok :: "fs \<Rightarrow> 16 word \<Rightarrow> bool" where
  "dir_ok s n \<longleftrightarrow> mounted s \<and> unat n < MAX_INUM \<and> ino (readi s n) = n
     \<and> 67 \<le> dir_block s n \<and> dir_block s n < 524288 \<and> table_ok (disk s (dir_block s n))"

definition dir_map :: "fs \<Rightarrow> 16 word \<Rightarrow> byte list \<Rightarrow> 16 word option" where
  "dir_map s n name = (if name = [] then None else map_option d_ino (dir_find s n name))"

definition table_map :: "byte list \<Rightarrow> byte list \<Rightarrow> 16 word option" where
  "table_map table name = (if name = [] then None
     else map_option (\<lambda>k. d_ino (entry_at table k)) (find (\<lambda>k. entry_name table k = name) [0..<19]))"

lemma find_unique:
  assumes "k < n" and "P k" and "\<And>j. j < n \<Longrightarrow> P j \<Longrightarrow> j = k"
  shows "find P [0..<n] = Some k"
proof -
  have "\<not> P j" if "j < k" for j
  proof
    assume "P j"
    moreover have "j < n" using that assms(1) by (rule less_trans)
    ultimately show False using assms(3) that by blast
  qed
  then show ?thesis unfolding find_Some_iff using assms(1,2) by (intro exI [of _ k]) simp
qed

lemma table_map_Some:
  assumes "table_ok table" and "k < 19" and "entry_name table k = name" and "name \<noteq> []"
  shows "table_map table name = Some (d_ino (entry_at table k))"
proof -
  have "find (\<lambda>k. entry_name table k = name) [0..<19] = Some k"
    using assms by (intro find_unique) (auto simp: table_ok_def)
  then show ?thesis using assms(4) by (simp add: table_map_def)
qed

lemma table_map_None:
  assumes "\<And>k. k < 19 \<Longrightarrow> entry_name table k \<noteq> name"
  shows "table_map table name = None"
  using assms by (auto simp: table_map_def find_None_iff)

lemma table_map_cases:
  assumes "table_ok table" and "name \<noteq> []"
  obtains k where "k < 19" "entry_name table k = name" "table_map table name = Some (d_ino (entry_at table k))"
  | "\<And>k. k < 19 \<Longrightarrow> entry_name table k \<noteq> name" "table_map table name = None"
  using table_map_Some [OF assms(1) _ _ assms(2)] table_map_None by metis

text \<open>Replacing an unused entry, and emptying a used one.\<close>

lemma table_add:
  assumes ok: "table_ok table" and k: "k < 19" "entry_name table k = []"
    and d: "wf_dirent d" "cstr (d_name d) = name" "d_valid d = 1" and name: "name \<noteq> []"
    and new: "\<And>j. j < 19 \<Longrightarrow> entry_name table j \<noteq> name"
  shows "table_ok (set_entry table k d)"
    and "table_map (set_entry table k d) = (table_map table)(name \<mapsto> d_ino d)"
proof -
  let ?t = "set_entry table k d"
  have len: "length table = 4096" using ok by (simp add: table_ok_def)
  have e: "entry_at ?t j = (if j = k then d else entry_at table j)" if "j < 19" for j
    by (rule entry_set_entry [OF len k(1) that d(1)])
  have n: "entry_name ?t j = (if j = k then name else entry_name table j)" if "j < 19" for j
    using e [OF that] d(2) by (simp add: entry_name_def)
  have "length ?t = 4096" by (rule length_set_entry [OF len k(1) d(1)])
  moreover have "d_valid (entry_at ?t j) = (if entry_name ?t j = [] then 0 else 1)" if "j < 19" for j
    using e [OF that] n [OF that] ok d(3) name that by (simp add: table_ok_def)
  moreover have "i = j" if "i < 19" "j < 19" "entry_name ?t i = entry_name ?t j" "entry_name ?t i \<noteq> []" for i j
    using that n [OF that(1)] n [OF that(2)] new ok by (auto simp: table_ok_def split: if_splits)
  ultimately show ok': "table_ok ?t" by (simp add: table_ok_def)
  show "table_map ?t = (table_map table)(name \<mapsto> d_ino d)"
  proof
    fix x
    consider "x = []" | "x = name" | "x \<noteq> []" "x \<noteq> name" by blast
    then show "table_map ?t x = ((table_map table)(name \<mapsto> d_ino d)) x"
    proof cases
      case 1
      then show ?thesis using name by (simp add: table_map_def)
    next
      case 2
      then show ?thesis using table_map_Some [OF ok' k(1) _ name] n [OF k(1)] e [OF k(1)] by simp
    next
      case 3
      from ok 3(1) show ?thesis
      proof (cases rule: table_map_cases)
        case (1 j)
        then have "j \<noteq> k" using k(2) 3(1) by auto
        then show ?thesis using 1 3 table_map_Some [OF ok' 1(1) _ 3(1)] n [OF 1(1)] e [OF 1(1)] by simp
      next
        case 2
        then have "table_map ?t x = None" using n 3 k(2) by (intro table_map_None) auto
        then show ?thesis using 2 3 by simp
      qed
    qed
  qed
qed

lemma table_remove:
  assumes ok: "table_ok table" and k: "k < 19" "entry_name table k = name" and name: "name \<noteq> []"
    and d: "wf_dirent d" "cstr (d_name d) = []" "d_valid d = 0"
  shows "table_ok (set_entry table k d)"
    and "table_map (set_entry table k d) = (table_map table)(name := None)"
proof -
  let ?t = "set_entry table k d"
  have len: "length table = 4096" using ok by (simp add: table_ok_def)
  have e: "entry_at ?t j = (if j = k then d else entry_at table j)" if "j < 19" for j
    by (rule entry_set_entry [OF len k(1) that d(1)])
  have n: "entry_name ?t j = (if j = k then [] else entry_name table j)" if "j < 19" for j
    using e [OF that] d(2) by (simp add: entry_name_def)
  have "length ?t = 4096" by (rule length_set_entry [OF len k(1) d(1)])
  moreover have "d_valid (entry_at ?t j) = (if entry_name ?t j = [] then 0 else 1)" if "j < 19" for j
    using e [OF that] n [OF that] ok d(3) that by (simp add: table_ok_def)
  moreover have "i = j" if "i < 19" "j < 19" "entry_name ?t i = entry_name ?t j" "entry_name ?t i \<noteq> []" for i j
    using that n [OF that(1)] n [OF that(2)] ok by (auto simp: table_ok_def split: if_splits)
  ultimately show ok': "table_ok ?t" by (simp add: table_ok_def)
  show "table_map ?t = (table_map table)(name := None)"
  proof
    fix x
    consider "x = []" | "x = name" | "x \<noteq> []" "x \<noteq> name" by blast
    then show "table_map ?t x = ((table_map table)(name := None)) x"
    proof cases
      case 1
      then show ?thesis by (simp add: table_map_def)
    next
      case 2
      have "entry_name ?t j \<noteq> name" if "j < 19" for j
        using n [OF that] ok k name that by (auto simp: table_ok_def)
      then show ?thesis using 2 table_map_None by simp
    next
      case 3
      from ok 3(1) show ?thesis
      proof (cases rule: table_map_cases)
        case (1 j)
        then have "j \<noteq> k" using k(2) 3(2) by auto
        then show ?thesis using 1 3 table_map_Some [OF ok' 1(1) _ 3(1)] n [OF 1(1)] e [OF 1(1)] by simp
      next
        case 2
        then have "table_map ?t x = None" using n 3 by (intro table_map_None) auto
        then show ?thesis using 2 3 by simp
      qed
    qed
  qed
qed

subsection \<open>The operations on the disk\<close>

lemma inode_block_lt: "unat n < MAX_INUM \<Longrightarrow> 3 + unat n div 16 < 67"
  by (simp add: MAX_INUM_def less_mult_imp_div_less)

lemma readi_other_block:
  assumes "mounted s" and "mounted s'" and "unat n < MAX_INUM"
    and "disk s' (3 + unat n div 16) = disk s (3 + unat n div 16)"
  shows "readi s' n = readi s n"
  using assms by (simp add: readi_mounted)

lemma mounted_ticks: "mounted s \<Longrightarrow> mounted (s\<lparr>ticks := t, disk := d\<rparr>) \<longleftrightarrow> (\<forall>k. length (d k) = BLOCK_SIZE)"
  by (simp add: mounted_def)

text \<open>What an update of a directory leaves of its inode.\<close>

definition same_node :: "inode \<Rightarrow> inode \<Rightarrow> bool" where
  "same_node i i' \<longleftrightarrow> ino i' = ino i \<and> direct_ptr i' = direct_ptr i \<and> indirect_ptr i' = indirect_ptr i
     \<and> itype i' = itype i \<and> valid i' = valid i"

lemma same_node_refl [simp]: "same_node i i"
  by (simp add: same_node_def)

text \<open>Writing a directory's table and then its inode.\<close>

lemma write_dir:
  assumes ok: "dir_ok s n" and i: "i = readi s n" and t: "table_ok t"
    and s': "s' = touch_dir (bio_write s (direct_ptr i ! 0) t) i sz"
  shows "dir_ok s' n" and "disk s' (dir_block s n) = t" and "dir_block s' n = dir_block s n"
    and "isize (readi s' n) = sz" and "same_node i (readi s' n)"
    and "unat m < MAX_INUM \<Longrightarrow> m \<noteq> n \<Longrightarrow> readi s' m = readi s m"
    and "k < 3 \<or> 67 \<le> k \<Longrightarrow> k \<noteq> dir_block s n \<Longrightarrow> disk s' k = disk s k"
proof -
  let ?b = "dir_block s n" and ?s = "bio_write s (direct_ptr i ! 0) t"
  have D: "mounted s" "unat n < MAX_INUM" "ino i = n" "67 \<le> ?b" "?b < 524288" using ok i by (simp_all add: dir_ok_def)
  have n: "unat n \<le> 1024" using D(2) by (simp add: MAX_INUM_def)
  have b: "unat (direct_ptr i ! 0) = ?b" by (simp add: i dir_block_def)
  have s1: "?s = s\<lparr>disk := (disk s)(?b := t)\<rparr>" using D(1,5) b by (simp add: bio_write_small)
  have m1: "mounted ?s" using D b t by (intro mounted_write) (simp_all add: table_ok_def)
  have r1: "readi ?s m = readi s m" if "unat m < MAX_INUM" for m
    using D(4) inode_block_lt [OF that] by (intro readi_other_block [OF D(1) m1 that]) (simp add: s1)
  have wf: "wf_inode i" using D(1) i by simp
  define j where "j = stat64 st_atime (clock s (Suc (ticks s))) (stat64 st_mtime (clock s (ticks s))
      (stat64 st_size (ucast sz) (i\<lparr>isize := sz\<rparr>)))"
  have j: "wf_inode j" "ino j = n" "isize j = sz" "same_node i j"
    using wf D(3) by (simp_all add: j_def st_size_def st_mtime_def st_atime_def same_node_def)
  define s2 where "s2 = ?s\<lparr>ticks := Suc (Suc (ticks s))\<rparr>"
  have s2: "mounted s2" using m1 by (simp add: s2_def)
  have r2: "readi s2 m = readi s m" if "unat m < MAX_INUM" for m
    using r1 [OF that] by (intro trans [OF readi_other_block [OF m1 s2 that]]) (simp add: s2_def)
  have s'_eq: "s' = snd (writei s2 n j)"
    using D(3) by (simp add: s' touch_dir_def Let_def get_time_def j_def s2_def s1 stat64_def)
  note W = writei_mounted [OF s2 n, of j]
  have ms': "mounted s'" unfolding s'_eq by (rule mounted_writei [OF s2 j(1) n])
  note R = readi_put_inode [OF s2 j(1) s'_eq n]
  have rn: "direct_ptr (readi s' n) = direct_ptr i" "isize (readi s' n) = sz" "ino (readi s' n) = n"
      "same_node i (readi s' n)"
    using R j by (simp_all add: same_node_def)
  have blk: "dir_block s' n = ?b" using rn b by (simp add: dir_block_def)
  have dsk: "disk s' k = disk ?s k" if "k \<noteq> 3 + unat n div 16" for k
    using that W by (simp add: s'_eq s2_def)
  have "disk s' ?b = t" using dsk [of ?b] D(4) inode_block_lt [OF D(2)] by (simp add: s1)
  then show "disk s' ?b = t" "dir_block s' n = ?b" "dir_ok s' n"
    using blk ms' D rn t by (simp_all add: dir_ok_def)
  show "isize (readi s' n) = sz" "same_node i (readi s' n)" by (fact rn)+
  show "readi s' m = readi s m" if "unat m < MAX_INUM" "m \<noteq> n" using that R r2 by simp
  show "disk s' k = disk s k" if "k < 3 \<or> 67 \<le> k" "k \<noteq> ?b"
    using that dsk [of k] inode_block_lt [OF D(2)] by (auto simp: s1)
qed

lemma dir_find_ok:
  assumes "dir_ok s n"
  shows "dir_find s n name = map_option (entry_at (disk s (dir_block s n)))
      (find (\<lambda>k. entry_name (disk s (dir_block s n)) k = name) [0..<19])"
proof -
  have "bio_read s (direct_ptr (readi s n) ! 0) = disk s (dir_block s n)"
    using assms by (simp add: bio_read_small dir_ok_def dir_block_def)
  then show ?thesis using assms mountedD(6) [of s] by (simp add: dir_find_def Let_def entry_name_def dir_ok_def)
qed

lemma dir_map_table:
  assumes "dir_ok s n"
  shows "dir_map s n = table_map (disk s (dir_block s n))"
  by (rule ext) (simp add: dir_map_def table_map_def dir_find_ok [OF assms] option.map_comp o_def)

text \<open>A name as the path functions produce it.\<close>

definition name_ok :: "byte list \<Rightarrow> bool" where
  "name_ok name \<longleftrightarrow> name \<noteq> [] \<and> 0 \<notin> set name \<and> length name < 208"

definition dir_full :: "fs \<Rightarrow> 16 word \<Rightarrow> bool" where
  "dir_full s n \<longleftrightarrow> (\<forall>k < 19. d_valid (entry_at (disk s (dir_block s n)) k) \<noteq> 0)"

lemma dir_add_cases:
  assumes "dir_ok s n" and "name_ok name" and "i = readi s n"
  shows "dir_map s n name \<noteq> None \<Longrightarrow> dir_add s i f name = Inr (- EEXIST, s)"
    and "dir_map s n name = None \<Longrightarrow> dir_full s n \<Longrightarrow> dir_add s i f name = Inr (- ENOSPC, s)"
    and "dir_map s n name = None \<Longrightarrow> \<not> dir_full s n \<Longrightarrow>
      \<exists>s'. dir_add s i f name = Inr (0, s') \<and> dir_ok s' n \<and> dir_map s' n = (dir_map s n)(name \<mapsto> f)
        \<and> dir_block s' n = dir_block s n \<and> isize (readi s' n) = isize i + 214 \<and> same_node i (readi s' n)
        \<and> (\<forall>m. unat m < MAX_INUM \<longrightarrow> m \<noteq> n \<longrightarrow> readi s' m = readi s m)
        \<and> (\<forall>k. (k < 3 \<or> 67 \<le> k) \<and> k \<noteq> dir_block s n \<longrightarrow> disk s' k = disk s k)"
proof -
  let ?t = "disk s (dir_block s n)"
  have D: "mounted s" "ino i = n" "table_ok ?t" using assms(1,3) by (simp_all add: dir_ok_def)
  have name: "name \<noteq> []" "0 \<notin> set name" "length name < 208" using assms(2) by (simp_all add: name_ok_def)
  have rd: "bio_read s (direct_ptr i ! 0) = ?t"
    using assms(1,3) by (simp add: bio_read_small dir_ok_def dir_block_def)
  have none: "dir_map s n name = None \<longleftrightarrow> dir_find s n name = None" using name(1) by (simp add: dir_map_def)
  have md: "max_dir_entries s = 19" using mountedD(6) [OF D(1)] .
  show "dir_map s n name \<noteq> None \<Longrightarrow> dir_add s i f name = Inr (- EEXIST, s)"
    using none D(2) by (simp add: dir_add_def)
  show "dir_map s n name = None \<Longrightarrow> dir_full s n \<Longrightarrow> dir_add s i f name = Inr (- ENOSPC, s)"
  proof -
    assume "dir_map s n name = None" "dir_full s n"
    moreover from this have "find (\<lambda>k. d_valid (entry_at ?t k) = 0) [0..<19] = None"
      by (auto simp: find_None_iff dir_full_def)
    ultimately show ?thesis using none D(2) md rd by (simp add: dir_add_def Let_def)
  qed
  assume fresh: "dir_map s n name = None" and room: "\<not> dir_full s n"
  have "find (\<lambda>k. d_valid (entry_at ?t k) = 0) [0..<19] \<noteq> None"
    using room by (auto simp: find_None_iff dir_full_def)
  then obtain k where k: "find (\<lambda>k. d_valid (entry_at ?t k) = 0) [0..<19] = Some k" by blast
  then have k19: "k < 19" and kv: "d_valid (entry_at ?t k) = 0" by (auto simp: find_Some_iff)
  have len: "length ?t = 4096" and kn: "entry_name ?t k = []" using D(3) k19 kv by (simp_all add: table_ok_def split: if_splits)
  have wf: "wf_dirent (entry_at ?t k)" using len k19 by simp
  then have "length (d_name (entry_at ?t k)) = 208" by (simp add: wf_dirent_def)
  then obtain nm where nm: "strcpy (d_name (entry_at ?t k)) name = Inr nm" "length nm = 208" "cstr nm = name"
    using strcpy_short [of name "d_name (entry_at ?t k)"] name by auto
  define d where "d = (entry_at ?t k)\<lparr>d_name := nm, d_ino := f, d_len := of_nat (length name), d_valid := 1\<rparr>"
  have d: "wf_dirent d" "cstr (d_name d) = name" "d_valid d = 1" "d_ino d = f"
    using nm by (simp_all add: d_def wf_dirent_def)
  have new: "entry_name ?t j \<noteq> name" if "j < 19" for j
    using fresh table_map_Some [OF D(3) that _ name(1)] by (auto simp: dir_map_table [OF assms(1)])
  note T = table_add [OF D(3) k19 kn d(1-3) name(1) new]
  define s' where "s' = touch_dir (bio_write s (direct_ptr i ! 0) (set_entry ?t k d)) i (isize i + 214)"
  have run: "dir_add s i f name = Inr (0, s')"
    using none fresh D(2) md rd k nm(1) by (simp add: dir_add_def Let_def s'_def d_def sizeof_dirent_def)
  note W = write_dir [OF assms(1,3) T(1) s'_def]
  have "dir_map s' n = (dir_map s n)(name \<mapsto> f)"
    using T(2) d(4) W(2,3) by (simp add: dir_map_table [OF W(1)] dir_map_table [OF assms(1)])
  then show "\<exists>s'. dir_add s i f name = Inr (0, s') \<and> dir_ok s' n \<and> dir_map s' n = (dir_map s n)(name \<mapsto> f)
        \<and> dir_block s' n = dir_block s n \<and> isize (readi s' n) = isize i + 214 \<and> same_node i (readi s' n)
        \<and> (\<forall>m. unat m < MAX_INUM \<longrightarrow> m \<noteq> n \<longrightarrow> readi s' m = readi s m)
        \<and> (\<forall>k. (k < 3 \<or> 67 \<le> k) \<and> k \<noteq> dir_block s n \<longrightarrow> disk s' k = disk s k)"
    using run W(1,3,4,5,6,7) by (intro exI [of _ s']) blast
qed

lemma dir_remove_cases:
  assumes "dir_ok s n" and "name \<noteq> []" and "i = readi s n"
  shows "dir_map s n name = None \<Longrightarrow> dir_remove s i name = Inr (-1, s)"
    and "dir_map s n name \<noteq> None \<Longrightarrow>
      \<exists>s'. dir_remove s i name = Inr (0, s') \<and> dir_ok s' n \<and> dir_map s' n = (dir_map s n)(name := None)
        \<and> dir_block s' n = dir_block s n \<and> isize (readi s' n) = isize i - 214 \<and> same_node i (readi s' n)
        \<and> (\<forall>m. unat m < MAX_INUM \<longrightarrow> m \<noteq> n \<longrightarrow> readi s' m = readi s m)
        \<and> (\<forall>k. (k < 3 \<or> 67 \<le> k) \<and> k \<noteq> dir_block s n \<longrightarrow> disk s' k = disk s k)"
proof -
  let ?t = "disk s (dir_block s n)"
  let ?f = "find (\<lambda>k. cstr (d_name (entry_at ?t k)) = name) [0..<19]"
  have D: "mounted s" "table_ok ?t" using assms(1) by (simp_all add: dir_ok_def)
  have rd: "bio_read s (direct_ptr i ! 0) = ?t"
    using assms(1,3) by (simp add: bio_read_small dir_ok_def dir_block_def)
  have md: "max_dir_entries s = 19" using mountedD(6) [OF D(1)] .
  have f: "dir_map s n name = map_option (\<lambda>k. d_ino (entry_at ?t k)) ?f"
    using assms(2) by (simp add: dir_map_table [OF assms(1)] table_map_def entry_name_def)
  show "dir_map s n name = None \<Longrightarrow> dir_remove s i name = Inr (-1, s)"
    using f md rd by (simp add: dir_remove_def Let_def)
  assume "dir_map s n name \<noteq> None"
  then obtain k where k: "?f = Some k" using f by auto
  then have k19: "k < 19" and kn: "entry_name ?t k = name" by (auto simp: find_Some_iff entry_name_def)
  have len: "length ?t = 4096" using D(2) by (simp add: table_ok_def)
  have "length (d_name (entry_at ?t k)) = 208" using len k19 wf_entry_at wf_dirent_def by blast
  then obtain nm where nm: "strcpy (d_name (entry_at ?t k)) [] = Inr nm" "length nm = 208" "cstr nm = []"
    using strcpy_short [of "[]" "d_name (entry_at ?t k)"] by auto
  define d where "d = (entry_at ?t k)\<lparr>d_name := nm, d_ino := 0, d_len := 0, d_valid := 0\<rparr>"
  have d: "wf_dirent d" "cstr (d_name d) = []" "d_valid d = 0" using nm by (simp_all add: d_def wf_dirent_def)
  note T = table_remove [OF D(2) k19 kn assms(2) d]
  define s' where "s' = touch_dir (bio_write s (direct_ptr i ! 0) (set_entry ?t k d)) i (isize i - 214)"
  have run: "dir_remove s i name = Inr (0, s')"
    using md rd k nm(1) by (simp add: dir_remove_def Let_def s'_def d_def sizeof_dirent_def)
  note W = write_dir [OF assms(1,3) T(1) s'_def]
  have "dir_map s' n = (dir_map s n)(name := None)"
    using T(2) W(2,3) by (simp add: dir_map_table [OF W(1)] dir_map_table [OF assms(1)])
  then show "\<exists>s'. dir_remove s i name = Inr (0, s') \<and> dir_ok s' n \<and> dir_map s' n = (dir_map s n)(name := None)
        \<and> dir_block s' n = dir_block s n \<and> isize (readi s' n) = isize i - 214 \<and> same_node i (readi s' n)
        \<and> (\<forall>m. unat m < MAX_INUM \<longrightarrow> m \<noteq> n \<longrightarrow> readi s' m = readi s m)
        \<and> (\<forall>k. (k < 3 \<or> 67 \<le> k) \<and> k \<noteq> dir_block s n \<longrightarrow> disk s' k = disk s k)"
    using run W(1,3,4,5,6,7) by (intro exI [of _ s']) blast
qed

subsection \<open>A fresh directory\<close>

definition fresh_entry :: "16 word \<Rightarrow> 16 word \<Rightarrow> nat \<Rightarrow> dirent \<Rightarrow> bool" where
  "fresh_entry cur par k d \<longleftrightarrow> wf_dirent d
     \<and> cstr (d_name d) = (if k = 0 then dotdot else if k = 1 then dot else [])
     \<and> d_ino d = (if k = 0 then par else if k = 1 then cur else 0)
     \<and> d_valid d = (if k < 2 then 1 else 0)"

lemma dots [simp]: "dot \<noteq> []" "dotdot \<noteq> []" "[] \<noteq> dot" "[] \<noteq> dotdot" "dot \<noteq> dotdot" "dotdot \<noteq> dot" "0 \<notin> set dot" "0 \<notin> set dotdot"
  by (simp_all add: dot_def dotdot_def)

lemma init_table_loop_spec:
  assumes "length table = 4096" and "n \<le> 19"
  shows "\<exists>t. init_table_loop n table cur par = Inr t \<and> length t = 4096
    \<and> (\<forall>k < n. fresh_entry cur par k (entry_at t k))"
  using assms(2)
proof (induction n)
  case 0
  then show ?case using assms(1) by simp
next
  case (Suc n)
  then obtain t where t: "init_table_loop n table cur par = Inr t" "length t = 4096"
      "\<forall>k < n. fresh_entry cur par k (entry_at t k)" by auto
  have n: "n < 19" using Suc.prems by simp
  let ?d = "entry_at t n" and ?nm = "if n = 0 then dotdot else if n = 1 then dot else []"
  have "length (d_name ?d) = 208" using wf_entry_at [OF t(2) n] by (simp add: wf_dirent_def)
  moreover have "length ?nm < 208" "0 \<notin> set ?nm" by (simp_all add: dot_def dotdot_def)
  ultimately obtain nm where nm: "strcpy (d_name ?d) ?nm = Inr nm" "length nm = 208" "cstr nm = ?nm"
    using strcpy_short [of ?nm "d_name ?d"] by auto
  define d where "d = ?d\<lparr>d_name := nm, d_ino := (if n = 0 then par else if n = 1 then cur else 0),
    d_len := (if n = 0 then 2 else if n = 1 then 1 else 0), d_valid := (if n < 2 then 1 else 0)\<rparr>"
  have d: "fresh_entry cur par n d" "wf_dirent d" using nm by (simp_all add: d_def fresh_entry_def wf_dirent_def)
  have run: "init_table_loop (Suc n) table cur par = Inr (set_entry t n d)"
    using t(1) nm(1) by (auto simp: d_def Let_def)
  have "fresh_entry cur par k (entry_at (set_entry t n d) k)" if "k < Suc n" for k
    using entry_set_entry [OF t(2) n _ d(2), of k] that n d(1) t(3) by (cases "k = n") auto
  then show ?case using run length_set_entry [OF t(2) n d(2)] by blast
qed

lemma fresh_table:
  assumes "length t = 4096" and "\<forall>k < 19. fresh_entry cur par k (entry_at t k)"
  shows "table_ok t" and "table_map t = [dotdot \<mapsto> par, dot \<mapsto> cur]"
    and "\<exists>k < 19. d_valid (entry_at t k) = 0"
proof -
  have e: "entry_name t k = (if k = 0 then dotdot else if k = 1 then dot else [])"
    "d_ino (entry_at t k) = (if k = 0 then par else if k = 1 then cur else 0)"
    "d_valid (entry_at t k) = (if k < 2 then 1 else 0)" if "k < 19" for k
    using assms(2) that by (simp_all add: fresh_entry_def entry_name_def)
  have who: "entry_name t k = [] \<or> k = 0 \<and> entry_name t k = dotdot \<or> k = 1 \<and> entry_name t k = dot"
    if "k < 19" for k using e(1) [OF that] by (cases "k = 0"; cases "k = 1") simp_all
  have names: "i = j" if "i < 19" "j < 19" "entry_name t i = entry_name t j" "entry_name t i \<noteq> []" for i j
    using who [OF that(1)] who [OF that(2)] that(3,4) dots by metis
  have "d_valid (entry_at t k) = (if entry_name t k = [] then 0 else 1)" if "k < 19" for k
    using e(1,3) [OF that] by (cases "k = 0"; cases "k = 1") simp_all
  then show ok: "table_ok t" unfolding table_ok_def using assms(1) names by blast
  show "table_map t = [dotdot \<mapsto> par, dot \<mapsto> cur]"
  proof
    fix x
    consider "x = []" | "x = dotdot" | "x = dot" | "x \<noteq> []" "x \<noteq> dot" "x \<noteq> dotdot" by blast
    then show "table_map t x = [dotdot \<mapsto> par, dot \<mapsto> cur] x"
    proof cases
      case 1
      then show ?thesis by (simp add: table_map_def)
    next
      case 2
      then show ?thesis using table_map_Some [OF ok, of 0 dotdot] e by simp
    next
      case 3
      then show ?thesis using table_map_Some [OF ok, of 1 dot] e by simp
    next
      case 4
      then have "table_map t x = None" using e by (intro table_map_None) auto
      then show ?thesis using 4 by simp
    qed
  qed
  show "\<exists>k < 19. d_valid (entry_at t k) = 0" using e(3) [of 2] by (intro exI [of _ 2]) simp
qed

end
