(* ===== verification/Fs_Path.thy ===== *)
theory Fs_Path
  imports Fs_Dir
begin

text \<open>
  Path resolution of the file system (\<open>get_node_by_path\<close> of \<open>Level - 4/rufs.c\<close>).  \<open>basename\<close> and
  \<open>dirname\<close> are those of \<open>libgen.h\<close> (a path of slashes only is \<open>"/"\<close> for both).

  The code counts the levels with a loop that cuts the last component off until the basename is
  \<open>"/"\<close>; a relative path never gets there.  The lemmas show that an absolute path does, and that
  resolution is the walk along its components from the root.
\<close>

subsection \<open>Path strings\<close>

definition slash :: byte where "slash = 47"

definition strip :: "byte list \<Rightarrow> byte list" where
  "strip p = rev (dropWhile (\<lambda>b. b = slash) (rev p))"

definition basename :: "byte list \<Rightarrow> byte list" where
  "basename p =
     (if p = [] then dot
      else let q = strip p
        in if q = [] then [slash] else rev (takeWhile (\<lambda>b. b \<noteq> slash) (rev q)))"

definition dirname :: "byte list \<Rightarrow> byte list" where
  "dirname p =
     (let q = strip p
      in if q = [] then (if p = [] then dot else [slash])
         else let r = rev (dropWhile (\<lambda>b. b \<noteq> slash) (rev q))
           in if r = [] then dot else if strip r = [] then [slash] else strip r)"

subsection \<open>Resolution\<close>

text \<open>The first loop; None when it does not end.\<close>

partial_function (option) num_levels :: "byte list \<Rightarrow> nat option" where
  "num_levels path =
     (if basename path = [slash] then Some 0
      else Option.bind (num_levels (dirname path)) (\<lambda>n. Some (Suc n)))"

primrec level_names :: "nat \<Rightarrow> byte list \<Rightarrow> byte list list" where
  "level_names 0 path = []"
| "level_names (Suc n) path = basename path # level_names n (dirname path)"

primrec walk_names :: "fs \<Rightarrow> 16 word \<Rightarrow> byte list list \<Rightarrow> 16 word option" where
  "walk_names s n [] = Some n"
| "walk_names s n (nm # nms) =
     (case dir_find s n nm of None \<Rightarrow> None | Some d \<Rightarrow> walk_names s (d_ino d) nms)"

definition get_node_by_path :: "fs \<Rightarrow> byte list \<Rightarrow> 16 word \<Rightarrow> inode option result" where
  "get_node_by_path s path n =
     (case num_levels path of
        None \<Rightarrow> Inl Diverges
      | Some k \<Rightarrow>
          if k = 0 then Inr (Some (readi s n))
          else Inr (map_option (readi s) (walk_names s n (rev (level_names k path)))))"

subsection \<open>Components\<close>

function comps :: "byte list \<Rightarrow> byte list list" where
  "comps p = (let q = dropWhile (\<lambda>b. b = slash) p
     in if q = [] then [] else takeWhile (\<lambda>b. b \<noteq> slash) q # comps (dropWhile (\<lambda>b. b \<noteq> slash) q))"
  by pat_completeness auto

termination
proof (relation "measure length", goal_cases)
  case (2 p q)
  then have "length q \<le> length p" by (simp add: length_dropWhile_le)
  moreover have "hd q \<noteq> slash" using 2 hd_dropWhile [of "\<lambda>b. b = slash" p] by simp
  then have "dropWhile (\<lambda>b. b \<noteq> slash) q = dropWhile (\<lambda>b. b \<noteq> slash) (tl q)"
    using 2(2) by (cases q) simp_all
  moreover have "length (dropWhile (\<lambda>b. b \<noteq> slash) (tl q)) \<le> length (tl q)" by (rule length_dropWhile_le)
  moreover have "length (tl q) < length q" using 2(2) by (cases q) simp_all
  ultimately show ?case by simp
qed simp

declare comps.simps [simp del]

lemma comps_step:
  "dropWhile (\<lambda>b. b = slash) p \<noteq> [] \<Longrightarrow> comps p = takeWhile (\<lambda>b. b \<noteq> slash) (dropWhile (\<lambda>b. b = slash) p)
     # comps (dropWhile (\<lambda>b. b \<noteq> slash) (dropWhile (\<lambda>b. b = slash) p))"
  using comps.simps [of p] by (simp only: Let_def if_False)

lemma comps_Nil [simp]: "comps [] = []"
  by (simp add: comps.simps)

lemma dropWhile_append1': "\<exists>b \<in> set xs. \<not> P b \<Longrightarrow> dropWhile P (xs @ ys) = dropWhile P xs @ ys"
  by (induction xs) auto

lemma takeWhile_slash:
  "takeWhile (\<lambda>b. b \<noteq> slash) (xs @ slash # y) = takeWhile (\<lambda>b. b \<noteq> slash) xs"
  by (induction xs) auto

lemma dropWhile_slash:
  "dropWhile (\<lambda>b. b \<noteq> slash) (xs @ slash # y) = dropWhile (\<lambda>b. b \<noteq> slash) xs @ slash # y"
  by (induction xs) auto

lemma hd_dropWhile_not: "dropWhile P xs \<noteq> [] \<Longrightarrow> \<not> P (hd (dropWhile P xs))"
  by (rule hd_dropWhile)

lemma comps_append_slash: "comps (x @ slash # y) = comps x @ comps y"
proof (induction x rule: comps.induct)
  case (1 x)
  let ?q = "dropWhile (\<lambda>b. b = slash) x"
  show ?case
  proof (cases "?q = []")
    case True
    then have "dropWhile (\<lambda>b. b = slash) (x @ slash # y) = dropWhile (\<lambda>b. b = slash) y"
      by (simp add: dropWhile_append)
    moreover have "comps x = []" using True by (subst comps.simps) simp
    ultimately show ?thesis by (subst comps.simps) (subst (2) comps.simps, simp)
  next
    case False
    then have d: "dropWhile (\<lambda>b. b = slash) (x @ slash # y) = ?q @ slash # y"
      by (intro dropWhile_append1') (use False in \<open>simp add: dropWhile_eq_Nil_conv\<close>)
    have t: "takeWhile (\<lambda>b. b \<noteq> slash) (?q @ slash # y) = takeWhile (\<lambda>b. b \<noteq> slash) ?q"
      by (rule takeWhile_slash)
    have r: "dropWhile (\<lambda>b. b \<noteq> slash) (?q @ slash # y) = dropWhile (\<lambda>b. b \<noteq> slash) ?q @ slash # y"
      by (rule dropWhile_slash)
    have "comps (x @ slash # y) = takeWhile (\<lambda>b. b \<noteq> slash) ?q # comps (dropWhile (\<lambda>b. b \<noteq> slash) ?q @ slash # y)"
      using comps_step [of "x @ slash # y"] unfolding d t r by simp
    moreover have "comps x = takeWhile (\<lambda>b. b \<noteq> slash) ?q # comps (dropWhile (\<lambda>b. b \<noteq> slash) ?q)"
      using False by (rule comps_step)
    ultimately show ?thesis using 1 [OF refl False] by simp
  qed
qed

lemma comps_single: "c \<noteq> [] \<Longrightarrow> slash \<notin> set c \<Longrightarrow> comps c = [c]"
proof -
  assume c: "c \<noteq> []" "slash \<notin> set c"
  then have "dropWhile (\<lambda>b. b = slash) c = c" by (cases c) auto
  moreover have "takeWhile (\<lambda>b. b \<noteq> slash) c = c" "dropWhile (\<lambda>b. b \<noteq> slash) c = []"
    using c(2) by auto
  moreover have "comps c = (let q = dropWhile (\<lambda>b. b = slash) c
     in if q = [] then [] else takeWhile (\<lambda>b. b \<noteq> slash) q # comps (dropWhile (\<lambda>b. b \<noteq> slash) q))"
    by (rule comps.simps)
  ultimately show ?thesis using c(1) by (simp only: Let_def if_False comps_Nil)
qed

lemma strip_split: "\<exists>k. p = strip p @ replicate k slash"
proof -
  let ?t = "takeWhile (\<lambda>b. b = slash) (rev p)"
  have "rev p = ?t @ dropWhile (\<lambda>b. b = slash) (rev p)" by simp
  then have "p = strip p @ rev ?t" unfolding strip_def by (metis rev_append rev_rev_ident)
  moreover have "?t = replicate (length ?t) slash"
    by (metis (mono_tags, lifting) replicate_eqI set_takeWhileD)
  ultimately show ?thesis by (metis rev_replicate)
qed

lemma comps_replicate: "comps (x @ replicate k slash) = comps x"
proof (induction k)
  case (Suc k)
  have "x @ replicate (Suc k) slash = (x @ replicate k slash) @ slash # []"
    by (simp add: replicate_append_same)
  then show ?case using Suc comps_append_slash [of "x @ replicate k slash" "[]"] by simp
qed simp

lemma comps_strip [simp]: "comps (strip p) = comps p"
  using strip_split [of p] comps_replicate by metis

lemma strip_hd:
  assumes "strip p \<noteq> []" and "p \<noteq> []" and "hd p = slash"
  shows "hd (strip p) = slash"
proof -
  obtain k where "p = strip p @ replicate k slash" using strip_split by blast
  then have "hd p = hd (strip p)" using assms(1) by (metis hd_append2)
  then show ?thesis using assms(3) by simp
qed

lemma strip_last: "strip p \<noteq> [] \<Longrightarrow> last (strip p) \<noteq> slash"
  unfolding strip_def last_rev rev_is_Nil_conv by (rule hd_dropWhile_not)

text \<open>An absolute path is all slashes, or its directory followed by a last component.\<close>

lemma absolute_cases:
  assumes "p \<noteq> []" and "hd p = slash"
  obtains "strip p = []" "comps p = []" "basename p = [slash]"
  | c where "basename p = c" "c \<noteq> []" "slash \<notin> set c" "comps p = comps (dirname p) @ [c]"
      "dirname p \<noteq> []" "hd (dirname p) = slash"
proof (cases "strip p = []")
  case True
  then have "comps p = []" using comps_strip [of p] by simp
  then show ?thesis using that(1) True assms(1) by (simp add: basename_def)
next
  case False
  let ?q = "strip p"
  let ?c = "rev (takeWhile (\<lambda>b. b \<noteq> slash) (rev ?q))" and ?r = "rev (dropWhile (\<lambda>b. b \<noteq> slash) (rev ?q))"
  have q: "?q = ?r @ ?c" by (metis rev_append rev_rev_ident takeWhile_dropWhile_id)
  have c: "?c \<noteq> []" using strip_last [OF False] False by (cases "rev ?q") (auto simp: last_rev hd_rev)
  have cs: "slash \<notin> set ?c" using set_takeWhileD by fastforce
  have h: "hd ?q = slash" using strip_hd [OF False assms] .
  have r: "?r \<noteq> []"
  proof
    assume "?r = []"
    then have "?q = ?c" using q by (metis append_Nil)
    then show False using h cs c by (metis hd_in_set)
  qed
  then have "last ?r = slash"
    using hd_dropWhile_not [of "\<lambda>b. b \<noteq> slash" "rev ?q"] unfolding last_rev rev_is_Nil_conv by blast
  then obtain r0 where r0: "?r = r0 @ [slash]" using r by (metis append_butlast_last_id)
  have "comps p = comps r0 @ comps ?c"
    using comps_strip [of p] q r0 comps_append_slash [of r0 ?c] by simp
  moreover have "comps ?c = [?c]" using c cs by (rule comps_single)
  moreover have cr: "comps ?r = comps r0" using r0 comps_append_slash [of r0 "[]"] by simp
  moreover have d: "dirname p = (if strip ?r = [] then [slash] else strip ?r)"
    by (simp only: dirname_def Let_def False r if_False)
  moreover have "comps (dirname p) = comps r0"
  proof (cases "strip ?r = []")
    case True
    then have "comps r0 = []" using cr comps_strip [of ?r] by simp
    then show ?thesis using d True comps_append_slash [of "[]" "[]"] by simp
  next
    case False
    then show ?thesis using d cr comps_strip [of ?r] by simp
  qed
  moreover have "hd ?r = slash" using h q r by (metis hd_append2)
  then have "dirname p \<noteq> []" "hd (dirname p) = slash" using d strip_hd [of ?r] r by auto
  moreover have "basename p = ?c" using False assms(1) by (simp add: basename_def Let_def)
  ultimately show ?thesis using that(2) [OF _ c cs] by simp
qed

text \<open>The loop that counts the levels ends on every absolute path, and the names it collects are
  the components, last one first.\<close>

lemma levels_absolute:
  assumes "p \<noteq> []" and "hd p = slash"
  shows "num_levels p = Some (length (comps p)) \<and> level_names (length (comps p)) p = rev (comps p)"
  using assms
proof (induction "length (comps p)" arbitrary: p)
  case 0
  from 0(2,3) show ?case
  proof (cases rule: absolute_cases)
    case 1
    then show ?thesis by (subst num_levels.simps) simp
  next
    case (2 c)
    then show ?thesis using 0(1) by simp
  qed
next
  case (Suc n)
  from Suc(3,4) show ?case
  proof (cases rule: absolute_cases)
    case 1
    then show ?thesis using Suc(2) by simp
  next
    case (2 c)
    then have "n = length (comps (dirname p))" using Suc(2) by simp
    from Suc(1) [OF this 2(5,6)]
    have IH: "num_levels (dirname p) = Some (length (comps (dirname p)))"
      "level_names (length (comps (dirname p))) (dirname p) = rev (comps (dirname p))" by auto
    have "basename p \<noteq> [slash]" using 2(1,3) by auto
    then show ?thesis using 2(1,4) IH by (subst num_levels.simps) simp
  qed
qed

lemma comps_nonempty: "[] \<notin> set (comps p)"
proof (induction p rule: comps.induct)
  case (1 p)
  let ?q = "dropWhile (\<lambda>b. b = slash) p"
  show ?case
  proof (cases "?q = []")
    case True
    then show ?thesis by (subst comps.simps) simp
  next
    case False
    then have "hd ?q \<noteq> slash" using hd_dropWhile [of "\<lambda>b. b = slash" p] by simp
    then have "takeWhile (\<lambda>b. b \<noteq> slash) ?q \<noteq> []" using False by (cases ?q) simp_all
    moreover have "comps p = takeWhile (\<lambda>b. b \<noteq> slash) ?q # comps (dropWhile (\<lambda>b. b \<noteq> slash) ?q)"
      using False by (rule comps_step)
    ultimately show ?thesis using 1 [OF refl False] by simp
  qed
qed

lemma get_node_absolute:
  assumes "p \<noteq> []" and "hd p = slash"
  shows "get_node_by_path s p n = Inr (map_option (readi s) (walk_names s n (comps p)))"
  using levels_absolute [OF assms] by (simp add: get_node_by_path_def)

end
