(* ===== verification/Fs_Ops.thy ===== *)
theory Fs_Ops
  imports Fs_Path
begin

text \<open>
  The FUSE operations on directories and attributes (\<open>Level - 4/rufs.c\<close>): \<open>rufs_mkfs\<close>, \<open>rufs_init\<close>,
  \<open>rufs_getattr\<close>, \<open>rufs_opendir\<close>, \<open>rufs_readdir\<close>, \<open>rufs_mkdir\<close>, \<open>rufs_rmdir\<close>, \<open>rufs_create\<close> and
  \<open>rufs_open\<close>.  Every one but the first two takes the mutex on entry and releases it on each of
  its return paths.  The root directory is inode 0.
\<close>

subsection \<open>Mounting\<close>

definition no_superblock :: superblock where
  "no_superblock = \<lparr>magic_num = 0, max_inum = 0, max_dnum = 0, i_bitmap_blk = 0, d_bitmap_blk = 0,
     i_start_blk = 0, d_start_blk = 0\<rparr>"

definition zero_block :: "byte list" where
  "zero_block = replicate BLOCK_SIZE 0"

definition zero_inode :: inode where
  "zero_inode = decode_inode (replicate sizeof_inode 0)"

definition rufs_mkfs :: "fs \<Rightarrow> (int \<times> fs) result" where
  "rufs_mkfs s =
     (let s = dev_init s;
          inode_blocks = (MAX_INUM * sizeof_inode + BLOCK_SIZE - 1) div BLOCK_SIZE;
          s = s\<lparr>inodes_per_block := int (BLOCK_SIZE div sizeof_inode),
                max_dir_entries := int (BLOCK_SIZE div sizeof_dirent),
                super_block := no_superblock\<lparr>d_bitmap_blk := 2, i_bitmap_blk := 1,
                  d_start_blk := of_nat (3 + inode_blocks), i_start_blk := 3\<rparr>\<rparr>;
          s = bio_write s 0 (encode_superblock (super_block s));
          s = s\<lparr>inode_bitmap := zero_block\<rparr>;
          s = bio_write s (i_bitmap_blk (super_block s)) (inode_bitmap s);
          s = s\<lparr>data_bitmap := zero_block\<rparr>;
          s = bio_write s (d_bitmap_blk (super_block s)) (data_bitmap s)
      in case get_avail_ino s of
           Inl f \<Rightarrow> Inl f
         | Inr (inode_num, s) \<Rightarrow>
             if inode_num < 0 then Inr (-1, s)
             else case init_inode s zero_inode (of_int inode_num) 1 of
               Inl f \<Rightarrow> Inl f
             | Inr (root_inode, s) \<Rightarrow>
                 (case get_avail_blkno s of
                    Inl f \<Rightarrow> Inl f
                  | Inr (data_block_num, s) \<Rightarrow>
                      if data_block_num < 0 then Inr (-1, s)
                      else
                      let root_inode = root_inode\<lparr>direct_ptr := (direct_ptr root_inode)[0 := of_int data_block_num]\<rparr>;
                          (_, s) = writei s (of_int inode_num) root_inode
                      in case init_dirent_table s zero_block (of_int inode_num) (of_int inode_num) of
                           Inl f \<Rightarrow> Inl f
                         | Inr table \<Rightarrow> Inr (0, bio_write s (of_int data_block_num) table)))"

definition rufs_init :: "fs \<Rightarrow> fs result" where
  "rufs_init s =
     (let (r, s) = dev_open s
      in if r < 0
         then case rufs_mkfs s of
             Inl f \<Rightarrow> Inl f
           | Inr (status, s) \<Rightarrow>
               if status < 0 then Inr s
               else Inr ((snd (dev_open s))\<lparr>fs_mutex := False\<rparr>)
         else
         let s = s\<lparr>super_block := no_superblock\<rparr>;
             s = s\<lparr>data_bitmap := bio_read s (d_bitmap_blk (super_block s))\<rparr>;
             s = s\<lparr>inode_bitmap := bio_read s (i_bitmap_blk (super_block s))\<rparr>
         in Inr (s\<lparr>inodes_per_block := int (BLOCK_SIZE div sizeof_inode),
                max_dir_entries := int (BLOCK_SIZE div sizeof_dirent), fs_mutex := False\<rparr>))"

subsection \<open>Operations\<close>

definition with_mutex :: "(fs \<Rightarrow> ('a \<times> fs) result) \<Rightarrow> fs \<Rightarrow> ('a \<times> fs) result" where
  "with_mutex body s =
     (if fs_mutex s then Inl Deadlock
      else case body (s\<lparr>fs_mutex := True\<rparr>) of
        Inl f \<Rightarrow> Inl f
      | Inr (r, s) \<Rightarrow> Inr (r, s\<lparr>fs_mutex := False\<rparr>))"

text \<open>The attributes that \<open>rufs_getattr\<close> stores.\<close>

record attr =
  a_uid :: "32 word"
  a_gid :: "32 word"
  a_mode :: "32 word"
  a_nlink :: "64 word"
  a_size :: "64 word"
  a_atime :: "64 word"
  a_mtime :: "64 word"

definition stat_field :: "nat \<Rightarrow> inode \<Rightarrow> 'a::len word" where
  "stat_field off i = un_bytes (bytes_at off (LENGTH('a) div 8) (vstat i))"

definition rufs_getattr :: "byte list \<Rightarrow> fs \<Rightarrow> ((int \<times> attr option) \<times> fs) result" where
  "rufs_getattr path = with_mutex (\<lambda>s.
     case get_node_by_path s path 0 of
       Inl f \<Rightarrow> Inl f
     | Inr None \<Rightarrow> Inr ((- ENOENT, None), s)
     | Inr (Some i) \<Rightarrow> Inr ((0, Some \<lparr>a_uid = uid s, a_gid = gid s, a_mode = stat_field st_mode i,
           a_nlink = stat_field st_nlink i, a_size = stat_field st_size i,
           a_atime = stat_field st_atime i, a_mtime = stat_field st_mtime i\<rparr>), s))"

text \<open>\<open>rufs_opendir\<close> and \<open>rufs_open\<close> have the same body.\<close>

definition rufs_open :: "byte list \<Rightarrow> fs \<Rightarrow> (int \<times> fs) result" where
  "rufs_open path = with_mutex (\<lambda>s.
     case get_node_by_path s path 0 of
       Inl f \<Rightarrow> Inl f
     | Inr None \<Rightarrow> Inr (- ENOENT, s)
     | Inr (Some i) \<Rightarrow> Inr (0, s))"

definition rufs_opendir :: "byte list \<Rightarrow> fs \<Rightarrow> (int \<times> fs) result" where
  "rufs_opendir path = with_mutex (\<lambda>s.
     case get_node_by_path s path 0 of
       Inl f \<Rightarrow> Inl f
     | Inr None \<Rightarrow> Inr (- ENOENT, s)
     | Inr (Some i) \<Rightarrow> Inr (0, s))"

text \<open>\<open>filler\<close> is the callback of FUSE; it is called with the buffer so far and a name.\<close>

primrec fill_loop :: "('b \<Rightarrow> byte list \<Rightarrow> int \<times> 'b) \<Rightarrow> byte list \<Rightarrow> nat list \<Rightarrow> 'b \<Rightarrow> int \<times> 'b" where
  "fill_loop filler block [] buffer = (0, buffer)"
| "fill_loop filler block (k # ks) buffer =
     (let d = entry_at block k
      in if d_valid d = 1
         then let (r, buffer) = filler buffer (cstr (d_name d))
           in if r \<noteq> 0 then (-1, buffer) else fill_loop filler block ks buffer
         else fill_loop filler block ks buffer)"

definition rufs_readdir :: "byte list \<Rightarrow> ('b \<Rightarrow> byte list \<Rightarrow> int \<times> 'b) \<Rightarrow> 'b \<Rightarrow> fs
    \<Rightarrow> ((int \<times> 'b) \<times> fs) result" where
  "rufs_readdir path filler buffer = with_mutex (\<lambda>s.
     case get_node_by_path s path 0 of
       Inl f \<Rightarrow> Inl f
     | Inr None \<Rightarrow> Inr ((- ENOENT, buffer), s)
     | Inr (Some i) \<Rightarrow>
         Inr (fill_loop filler (bio_read s (direct_ptr i ! 0)) [0..<nat (max_dir_entries s)] buffer, s))"

definition rufs_mkdir :: "byte list \<Rightarrow> fs \<Rightarrow> (int \<times> fs) result" where
  "rufs_mkdir path = with_mutex (\<lambda>s.
     case get_node_by_path s (dirname path) 0 of
       Inl f \<Rightarrow> Inl f
     | Inr None \<Rightarrow> Inr (- ENOENT, s)
     | Inr (Some parent) \<Rightarrow>
    (case get_avail_ino s of
       Inl f \<Rightarrow> Inl f
     | Inr (avail_inode, s) \<Rightarrow>
         if avail_inode \<le> 0 then Inr (- ENOSPC, s)
         else case get_avail_blkno s of
           Inl f \<Rightarrow> Inl f
         | Inr (dblock, s) \<Rightarrow>
             if dblock \<le> 0 then Inr (- ENOSPC, s)
             else case dir_add s parent (of_int avail_inode) (basename path) of
               Inl f \<Rightarrow> Inl f
             | Inr (dir_add_status, s) \<Rightarrow>
                 if dir_add_status \<noteq> 0 then Inr (dir_add_status, s)
                 else case init_inode s (readi s (of_int avail_inode)) (of_int avail_inode) 1 of
                   Inl f \<Rightarrow> Inl f
                 | Inr (i, s) \<Rightarrow>
                     let i = i\<lparr>direct_ptr := (direct_ptr i)[0 := of_int dblock]\<rparr>
                     in if bio_fails s (of_int dblock) then Inr (-1, s)
                        else case init_dirent_table s (bio_read s (of_int dblock)) (of_int avail_inode) (ino parent) of
                          Inl f \<Rightarrow> Inl f
                        | Inr table \<Rightarrow>
                            let (r, s) = writei (bio_write s (of_int dblock) table) (of_int avail_inode) i
                            in Inr (if r < 0 then -1 else 0, s)))"

text \<open>\<open>for(i = 0; i < 16; i++) if (direct_ptr[i] != -1) clear_data_block(direct_ptr[i])\<close>\<close>

primrec clear_blocks_loop :: "32 word list \<Rightarrow> fs \<Rightarrow> fs result" where
  "clear_blocks_loop [] s = Inr s"
| "clear_blocks_loop (b # bs) s =
     (if b \<noteq> -1
      then case clear_data_block s b of Inl f \<Rightarrow> Inl f | Inr s \<Rightarrow> clear_blocks_loop bs s
      else clear_blocks_loop bs s)"

text \<open>
  The last part of \<open>rufs_rmdir\<close> and \<open>rufs_unlink\<close>: the inode is cleared, then the entry is taken
  out of the parent directory.
\<close>

definition remove_node :: "byte list \<Rightarrow> inode \<Rightarrow> fs \<Rightarrow> (int \<times> fs) result" where
  "remove_node path node s =
     (case clear_inode s (uint (ino node)) of
        Inl f \<Rightarrow> Inl f
      | Inr s \<Rightarrow>
          (case get_node_by_path s (dirname path) 0 of
             Inl f \<Rightarrow> Inl f
           | Inr None \<Rightarrow> Inr (- ENOENT, s)
           | Inr (Some parent) \<Rightarrow>
               (case dir_remove s parent (basename path) of
                  Inl f \<Rightarrow> Inl f
                | Inr (r, s) \<Rightarrow> Inr (if r < 0 then -1 else 0, s))))"

text \<open>
  The emptiness test of \<open>rufs_rmdir\<close> looks at a table that was only zeroed, never read from
  the directory's block.
\<close>

definition rufs_rmdir :: "byte list \<Rightarrow> fs \<Rightarrow> (int \<times> fs) result" where
  "rufs_rmdir path = with_mutex (\<lambda>s.
     case get_node_by_path s path 0 of
       Inl f \<Rightarrow> Inl f
     | Inr None \<Rightarrow> Inr (- ENOENT, s)
     | Inr (Some node) \<Rightarrow>
         let s = s\<lparr>data_bitmap := bio_read s (d_bitmap_blk (super_block s))\<rparr>
         in if \<not> is_directory_empty s zero_block then Inr (- ENOTEMPTY, s)
            else case clear_blocks_loop (direct_ptr node) s of
              Inl f \<Rightarrow> Inl f
            | Inr s \<Rightarrow> remove_node path node s)"

definition rufs_create :: "byte list \<Rightarrow> 32 word \<Rightarrow> fs \<Rightarrow> (int \<times> fs) result" where
  "rufs_create path mode = with_mutex (\<lambda>s.
     case get_node_by_path s (dirname path) 0 of
       Inl f \<Rightarrow> Inl f
     | Inr None \<Rightarrow> Inr (- ENOENT, s)
     | Inr (Some parent) \<Rightarrow>
    (case get_avail_ino s of
       Inl f \<Rightarrow> Inl f
     | Inr (avail_inode, s) \<Rightarrow>
         if avail_inode \<le> 0 then Inr (- ENOSPC, s)
         else case dir_add s parent (of_int avail_inode) (basename path) of
           Inl f \<Rightarrow> Inl f
         | Inr (dir_add_status, s) \<Rightarrow>
             if dir_add_status \<noteq> 0 then Inr (dir_add_status, s)
             else case init_inode s (readi s (of_int avail_inode)) (of_int avail_inode) 0 of
               Inl f \<Rightarrow> Inl f
             | Inr (i, s) \<Rightarrow>
                 let (r, s) = writei s (of_int avail_inode) (stat32 st_mode (0x8000 OR mode) i)
                 in Inr (if r \<noteq> 0 then -1 else 0, s)))"

subsection \<open>Fresh inodes\<close>

lemma clear_direct_loop_16:
  assumes "length (direct_ptr i) = 16"
  shows "clear_direct_loop 16 i = i\<lparr>direct_ptr := replicate 16 (-1)\<rparr>"
proof -
  have "clear_direct_loop n i = i\<lparr>direct_ptr := replicate n (-1) @ drop n (direct_ptr i)\<rparr>" if "n \<le> 16" for n
    using that
  proof (induction n)
    case (Suc n)
    have "(replicate n (-1) @ drop n (direct_ptr i))[n := -1] = replicate (Suc n) (-1) @ drop (Suc n) (direct_ptr i)"
    proof -
      have "drop n (direct_ptr i) = direct_ptr i ! n # drop (Suc n) (direct_ptr i)"
        using Suc.prems assms by (simp add: Cons_nth_drop_Suc)
      moreover have "replicate (Suc n) (-1 :: 32 word) = replicate n (-1) @ [-1]"
        by (simp add: replicate_append_same)
      ultimately show ?thesis by (simp add: list_update_append del: replicate_Suc)
    qed
    then show ?case using Suc by (simp add: Let_def)
  qed simp
  from this [of 16] show ?thesis using assms by simp
qed

lemma set_indirect_ok:
  assumes "k < 16" and "wf_inode i"
  shows "\<exists>i'. set_indirect k v i = Inr i' \<and> wf_inode i' \<and> direct_ptr i' = direct_ptr i \<and> ino i' = ino i
    \<and> isize i' = isize i \<and> itype i' = itype i \<and> valid i' = valid i \<and> ilink i' = ilink i"
  using assms by (cases "k < 8") (auto simp: set_indirect_def wf_inode_def stat32_def)

lemma clear_indirect_loop_ok:
  assumes "n \<le> 16" and "wf_inode i"
  shows "\<exists>i'. clear_indirect_loop n i = Inr i' \<and> wf_inode i' \<and> direct_ptr i' = direct_ptr i \<and> ino i' = ino i
    \<and> isize i' = isize i \<and> itype i' = itype i \<and> valid i' = valid i \<and> ilink i' = ilink i"
  using assms(1)
proof (induction n)
  case 0
  then show ?case using assms(2) by simp
next
  case (Suc n)
  then obtain i' where i': "clear_indirect_loop n i = Inr i'" "wf_inode i'" "direct_ptr i' = direct_ptr i" "ino i' = ino i"
      "isize i' = isize i" "itype i' = itype i" "valid i' = valid i" "ilink i' = ilink i" by auto
  then show ?case using set_indirect_ok [of n i' "-1"] Suc.prems by auto
qed

lemma clear_indirect_loop_first:
  assumes "clear_indirect_loop n i = Inr i'" and "0 < n" and "wf_inode i" and "n \<le> 16"
  shows "indirect_ptr i' ! 0 = -1"
  using assms(1,2,4)
proof (induction n arbitrary: i')
  case (Suc n)
  then obtain j where j: "clear_indirect_loop n i = Inr j" "wf_inode j"
    using clear_indirect_loop_ok [of n i] assms(3) by auto
  then have "length (indirect_ptr j) = 8" by (simp add: wf_inode_def)
  moreover have "set_indirect n (-1) j = Inr i'" using Suc.prems(1) j(1) by simp
  ultimately show ?case
    using Suc.IH [OF j(1)] Suc.prems(3) by (cases n) (auto simp: set_indirect_def stat32_def split: if_splits)
qed simp

lemma init_inode_spec:
  assumes "wf_inode i"
  shows "\<exists>i'. init_inode s i n typ = Inr (i', s\<lparr>ticks := ticks s + 3\<rparr>) \<and> wf_inode i' \<and> ino i' = n \<and> isize i' = 0
    \<and> itype i' = typ \<and> valid i' = 1 \<and> direct_ptr i' = replicate 16 (-1) \<and> indirect_ptr i' ! 0 = -1"
proof -
  let ?i = "i\<lparr>ino := n, isize := 0, itype := typ, valid := 1\<rparr>"
  have "wf_inode (clear_direct_loop 16 ?i)" and d: "direct_ptr (clear_direct_loop 16 ?i) = replicate 16 (-1)"
    "ino (clear_direct_loop 16 ?i) = n" "isize (clear_direct_loop 16 ?i) = 0" "itype (clear_direct_loop 16 ?i) = typ"
    "valid (clear_direct_loop 16 ?i) = 1"
    using assms by (simp_all add: clear_direct_loop_16 wf_inode_def)
  then obtain j where j: "clear_indirect_loop 16 (clear_direct_loop 16 ?i) = Inr j" "wf_inode j"
      "direct_ptr j = replicate 16 (-1)" "ino j = n" "isize j = 0" "itype j = typ" "valid j = 1"
    using clear_indirect_loop_ok [of 16 "clear_direct_loop 16 ?i"] by auto
  have first: "indirect_ptr j ! 0 = -1"
    using clear_indirect_loop_first [OF j(1)] \<open>wf_inode (clear_direct_loop 16 ?i)\<close> by simp
  have upd: "ilink_update (\<lambda>_. w) x = x\<lparr>ilink := w\<rparr>" for w x by simp
  show ?thesis
    using j first by (simp add: init_inode_def Let_def get_time_def st_atime_def st_mtime_def st_ctime_def st_ino_def
        st_uid_def st_gid_def st_mode_def st_size_def st_nlink_def numeral_3_eq_3)
qed

subsection \<open>Making the file system\<close>

lemma length_encode_superblock [simp]: "length (encode_superblock sb) = 4096"
  by (simp add: encode_superblock_def BLOCK_SIZE_def)

lemma first_clear_zero:
  assumes "0 < n"
  shows "first_clear n (replicate 4096 0) = Some 0"
proof -
  have "[0..<n] = 0 # [1..<n]" using assms by (simp add: upt_conv_Cons)
  then show ?thesis by (simp add: first_clear_def lb_get_def)
qed

lemma rufs_mkfs_spec:
  assumes "\<not> diskfile s" and "\<not> disk_file s"
  shows "\<exists>s'. rufs_mkfs s = Inr (0, s') \<and> dir_ok s' 0 \<and> dir_map s' 0 = [dotdot \<mapsto> 0, dot \<mapsto> 0] \<and> \<not> dir_full s' 0
    \<and> (\<forall>j < MAX_INUM. lb_get (disk s' 1) j \<longleftrightarrow> j = 0) \<and> (\<forall>j < MAX_DNUM. lb_get (disk s' 2) j \<longleftrightarrow> j = 0)
    \<and> disk_file s' \<and> diskfile s' \<and> fs_mutex s' = fs_mutex s \<and> dir_block s' 0 = 67
    \<and> direct_ptr (readi s' 0) = (replicate 16 (-1))[0 := 67] \<and> indirect_ptr (readi s' 0) ! 0 = -1"
proof -
  define sb where "sb = no_superblock\<lparr>d_bitmap_blk := 2, i_bitmap_blk := 1, d_start_blk := 67, i_start_blk := 3\<rparr>"
  define z where "z = replicate 4096 (0 :: byte)"
  define s1 where "s1 = s\<lparr>diskfile := True, fd_closed := False, disk_file := True, inodes_per_block := 16, max_dir_entries := 19,
    super_block := sb, inode_bitmap := z, data_bitmap := z,
    disk := (\<lambda>_. z)(0 := encode_superblock sb, 1 := z, 2 := z)\<rparr>"
  have m1: "mounted s1" by (simp add: mounted_def dev_ready_def s1_def sb_def z_def BLOCK_SIZE_def)
  have start: "rufs_mkfs s = (case get_avail_ino s1 of
           Inl f \<Rightarrow> Inl f
         | Inr (inode_num, s) \<Rightarrow>
             if inode_num < 0 then Inr (-1, s)
             else case init_inode s zero_inode (of_int inode_num) 1 of
               Inl f \<Rightarrow> Inl f
             | Inr (root_inode, s) \<Rightarrow>
                 (case get_avail_blkno s of
                    Inl f \<Rightarrow> Inl f
                  | Inr (data_block_num, s) \<Rightarrow>
                      if data_block_num < 0 then Inr (-1, s)
                      else
                      let root_inode = root_inode\<lparr>direct_ptr := (direct_ptr root_inode)[0 := of_int data_block_num]\<rparr>;
                          (_, s) = writei s (of_int inode_num) root_inode
                      in case init_dirent_table s zero_block (of_int inode_num) (of_int inode_num) of
                           Inl f \<Rightarrow> Inl f
                         | Inr table \<Rightarrow> Inr (0, bio_write s (of_int data_block_num) table)))"
    using assms by (simp add: rufs_mkfs_def Let_def dev_init_def MAX_INUM_def sizeof_inode_def sizeof_dirent_def
        BLOCK_SIZE_def zero_block_def bio_write_small dev_ready_def s1_def sb_def z_def no_superblock_def)
  define s2 where "s2 = s1\<lparr>total_inodes_used := total_inodes_used s1 + 1, inode_bitmap := lb_set z 0,
    disk := (disk s1)(1 := lb_set z 0)\<rparr>"
  have "get_avail_ino s1 = Inr (0, s2)"
    using get_avail_ino_mounted [OF m1] first_clear_zero [of MAX_INUM] by (simp add: s1_def s2_def z_def MAX_INUM_def)
  moreover have m2: "mounted s2" using m1 by (simp add: s2_def mounted_def z_def BLOCK_SIZE_def)
  moreover have "wf_inode zero_inode" by (simp add: zero_inode_def sizeof_inode_def)
  then obtain r where r: "init_inode s2 zero_inode 0 1 = Inr (r, s2\<lparr>ticks := ticks s2 + 3\<rparr>)" "wf_inode r" "ino r = 0"
      "direct_ptr r = replicate 16 (-1)" "indirect_ptr r ! 0 = -1"
    using init_inode_spec by blast
  define s3 where "s3 = s2\<lparr>ticks := ticks s2 + 3\<rparr>"
  have m3: "mounted s3" using m2 by (simp add: s3_def)
  define s4 where "s4 = s3\<lparr>data_blocks_used := data_blocks_used s3 + 1, data_bitmap := lb_set z 0,
    disk := (disk s3)(2 := lb_set z 0)\<rparr>"
  have b: "get_avail_blkno s3 = Inr (67, s4)"
    using get_avail_blkno_mounted [OF m3] first_clear_zero [of MAX_DNUM]
    by (simp add: s1_def s2_def s3_def s4_def z_def MAX_DNUM_def)
  have m4: "mounted s4" using m3 by (simp add: s4_def mounted_def z_def BLOCK_SIZE_def)
  define r' where "r' = r\<lparr>direct_ptr := (direct_ptr r)[0 := 67]\<rparr>"
  have wr: "wf_inode r'" using r(2) by (simp add: r'_def)
  define s5 where "s5 = snd (writei s4 0 r')"
  have m5: "mounted s5" unfolding s5_def using m4 wr by (intro mounted_writei) simp_all
  have r5: "readi s5 0 = stat64 st_ctime (clock s4 (ticks s4)) r'"
    using readi_put_inode [OF m4 wr s5_def] by simp
  have d5: "disk s5 k = disk s4 k" if "k \<noteq> 3" for k
    using that writei_mounted [OF m4, of 0 r'] by (simp add: s5_def)
  obtain t where t: "init_table_loop 19 zero_block 0 0 = Inr t" "length t = 4096" "\<forall>k < 19. fresh_entry 0 0 k (entry_at t k)"
    using init_table_loop_spec [of zero_block 19 0 0] by (auto simp: zero_block_def BLOCK_SIZE_def)
  note T = fresh_table [OF t(2,3)]
  define s6 where "s6 = s5\<lparr>disk := (disk s5)(67 := t)\<rparr>"
  have run: "rufs_mkfs s = Inr (0, s6)"
  proof -
    have "init_dirent_table s5 zero_block 0 0 = Inr t"
      using t(1) mountedD(6) [OF m5] by (simp add: init_dirent_table_def)
    moreover obtain w where "writei s4 0 r' = (w, s5)" by (metis s5_def prod.collapse)
    ultimately show ?thesis
      using \<open>get_avail_ino s1 = Inr (0, s2)\<close> r(1) b
      by (simp add: start s3_def [symmetric] r'_def [symmetric] bio_write_small m5 s6_def)
  qed
  have m6: "mounted s6" using m5 t(2) by (simp add: s6_def mounted_def BLOCK_SIZE_def)
  have r6: "readi s6 0 = readi s5 0" using m5 m6 by (simp add: readi_mounted s6_def)
  have blk: "dir_block s6 0 = 67" using r(4) by (simp add: dir_block_def r6 r5 r'_def)
  have ok: "dir_ok s6 0"
    using m6 blk T(1) r(3) by (simp add: dir_ok_def r6 r5 r'_def MAX_INUM_def) (simp add: s6_def)
  have "dir_map s6 0 = [dotdot \<mapsto> 0, dot \<mapsto> 0]" using T(2) by (simp add: dir_map_table [OF ok] blk) (simp add: s6_def)
  moreover have "\<not> dir_full s6 0" using T(3) blk by (auto simp: dir_full_def s6_def)
  moreover have bits: "lb_get (lb_set z 0) j \<longleftrightarrow> j = 0" if "j < 32768" for j
    using lb_get_set [of 0 z j] that by (simp add: z_def lb_get_def less_mult_imp_div_less)
  have "disk s6 1 = lb_set z 0" "disk s6 2 = lb_set z 0" using d5 by (simp_all add: s6_def s4_def s3_def s2_def)
  moreover have "disk_file s6 \<and> diskfile s6 \<and> fs_mutex s6 = fs_mutex s"
    using writei_mounted [OF m4, of 0 r'] by (simp add: s6_def s5_def s4_def s3_def s2_def s1_def)
  moreover have "direct_ptr (readi s6 0) = (replicate 16 (-1))[0 := 67]" "indirect_ptr (readi s6 0) ! 0 = -1"
    using r(4,5) by (simp_all add: r6 r5 r'_def)
  ultimately show ?thesis
    using run ok bits blk by (intro exI [of _ s6]) (simp add: MAX_INUM_def MAX_DNUM_def)
qed

text \<open>Making the file system on a machine without a disk file succeeds; the new disk holds the
  root directory as inode 0 with exactly the entries \<open>".."\<close> and \<open>"."\<close>, both naming inode 0,
  and the bitmaps mark exactly inode 0 and the first data block as used.\<close>

theorem rufs_mkfs_root:
  assumes "\<not> diskfile s" and "\<not> disk_file s"
  shows "\<exists>s'. rufs_mkfs s = Inr (0, s') \<and> dir_ok s' 0 \<and> dir_map s' 0 = [dotdot \<mapsto> 0, dot \<mapsto> 0]
    \<and> (\<forall>j < MAX_INUM. lb_get (disk s' 1) j \<longleftrightarrow> j = 0) \<and> (\<forall>j < MAX_DNUM. lb_get (disk s' 2) j \<longleftrightarrow> j = 0)"
  using rufs_mkfs_spec [OF assms] by blast

definition no_disk :: fs where
  "no_disk = blank_fs\<lparr>disk_file := False, diskfile := False\<rparr>"

lemma fresh_fs:
  "\<exists>s. rufs_mkfs no_disk = Inr (0, s) \<and> dir_ok s 0 \<and> dir_map s 0 = [dotdot \<mapsto> 0, dot \<mapsto> 0] \<and> \<not> dir_full s 0
    \<and> (\<forall>j < MAX_INUM. lb_get (disk s 1) j \<longleftrightarrow> j = 0) \<and> (\<forall>j < MAX_DNUM. lb_get (disk s 2) j \<longleftrightarrow> j = 0)
    \<and> disk_file s \<and> diskfile s \<and> \<not> fs_mutex s \<and> dir_block s 0 = 67"
proof -
  have "\<not> diskfile no_disk" "\<not> disk_file no_disk" "\<not> fs_mutex no_disk" by (simp_all add: no_disk_def blank_fs_def)
  with rufs_mkfs_spec [of no_disk] show ?thesis by metis
qed

theorem rufs_mkfs_root_witness:
  "\<exists>s. rufs_mkfs no_disk = Inr (0, s) \<and> dir_map s 0 dot = Some 0 \<and> dir_map s 0 [97] = None"
proof -
  have "\<not> diskfile no_disk" "\<not> disk_file no_disk" by (simp_all add: no_disk_def)
  from rufs_mkfs_root [OF this] show ?thesis by (auto simp: dot_def dotdot_def)
qed

subsection \<open>Directories as maps\<close>

text \<open>C13: \<open>dir_add\<close> implements insertion into the directory's map from names to inode numbers: a
  name that is there gives \<open>EEXIST\<close>, a full table \<open>ENOSPC\<close>, both without a write; otherwise
  the new map has exactly the new name added, the size of the directory grows by one entry, and
  no other inode and no other block outside the inode table changes.\<close>

theorem dir_add_inserts:
  assumes "dir_ok s n" and "name_ok name" and "i = readi s n"
  shows "if dir_map s n name \<noteq> None then dir_add s i f name = Inr (- EEXIST, s)
    else if dir_full s n then dir_add s i f name = Inr (- ENOSPC, s)
    else \<exists>s'. dir_add s i f name = Inr (0, s') \<and> dir_ok s' n \<and> dir_map s' n = (dir_map s n)(name \<mapsto> f)
        \<and> isize (readi s' n) = isize i + 214
        \<and> (\<forall>m. unat m < MAX_INUM \<longrightarrow> m \<noteq> n \<longrightarrow> readi s' m = readi s m)
        \<and> (\<forall>k. (k < 3 \<or> 67 \<le> k) \<and> k \<noteq> dir_block s n \<longrightarrow> disk s' k = disk s k)"
  using dir_add_cases [OF assms, of f] by (cases "dir_map s n name") auto

theorem dir_add_inserts_witness:
  "\<exists>s s'. dir_add s (readi s 0) 5 [97] = Inr (0, s') \<and> dir_map s' 0 = [dotdot \<mapsto> 0, dot \<mapsto> 0, [97] \<mapsto> 5]"
proof -
  obtain s where s: "dir_ok s 0" "dir_map s 0 = [dotdot \<mapsto> 0, dot \<mapsto> 0]" "\<not> dir_full s 0"
    using fresh_fs by blast
  have "name_ok [97]" "\<not> dir_map s 0 [97] \<noteq> None" using s(2) by (simp_all add: name_ok_def dot_def dotdot_def)
  then obtain s' where "dir_add s (readi s 0) 5 [97] = Inr (0, s')" "dir_map s' 0 = (dir_map s 0)([97] \<mapsto> 5)"
    using dir_add_inserts [OF s(1) _ refl, of "[97]" 5] s(3) by auto
  then show ?thesis using s(2) by auto
qed

text \<open>\<open>dir_remove\<close> implements removal from the map: an unknown name gives \<open>-1\<close> without a write;
  otherwise exactly this name disappears, the size shrinks by one entry, and no other inode and
  no other block outside the inode table changes.\<close>

theorem dir_remove_deletes:
  assumes "dir_ok s n" and "name \<noteq> []" and "i = readi s n"
  shows "if dir_map s n name = None then dir_remove s i name = Inr (-1, s)
    else \<exists>s'. dir_remove s i name = Inr (0, s') \<and> dir_ok s' n \<and> dir_map s' n = (dir_map s n)(name := None)
        \<and> isize (readi s' n) = isize i - 214
        \<and> (\<forall>m. unat m < MAX_INUM \<longrightarrow> m \<noteq> n \<longrightarrow> readi s' m = readi s m)
        \<and> (\<forall>k. (k < 3 \<or> 67 \<le> k) \<and> k \<noteq> dir_block s n \<longrightarrow> disk s' k = disk s k)"
  using dir_remove_cases [OF assms] by (cases "dir_map s n name") auto

theorem dir_remove_deletes_witness:
  "\<exists>s s'. dir_remove s (readi s 0) dotdot = Inr (0, s') \<and> dir_map s' 0 = [dot \<mapsto> 0]"
proof -
  obtain s where s: "dir_ok s 0" "dir_map s 0 = [dotdot \<mapsto> 0, dot \<mapsto> 0]"
    using fresh_fs by blast
  have "\<not> dir_map s 0 dotdot = None" using s(2) by simp
  then obtain s' where "dir_remove s (readi s 0) dotdot = Inr (0, s')" "dir_map s' 0 = (dir_map s 0)(dotdot := None)"
    using dir_remove_deletes [OF s(1) _ refl, of dotdot] by auto
  moreover have "[dotdot \<mapsto> 0, dot \<mapsto> 0](dotdot := None) = [dot \<mapsto> (0 :: 16 word)]" by (auto simp: fun_eq_iff)
  ultimately show ?thesis using s(2) by metis
qed

text \<open>C26: For an absolute path \<open>get_node_by_path\<close> returns, and what it returns is the inode at the
  end of the walk that looks up the components of the path one after the other, starting in
  the given directory; repeated and trailing slashes do not matter.\<close>

theorem resolve_absolute_path:
  assumes "p \<noteq> []" and "hd p = slash"
  shows "get_node_by_path s p n = Inr (map_option (readi s) (walk_names s n (comps p)))
    \<and> (\<forall>q. comps q = comps p \<longrightarrow> q \<noteq> [] \<longrightarrow> hd q = slash \<longrightarrow> get_node_by_path s q n = get_node_by_path s p n)"
  using get_node_absolute [OF assms] get_node_absolute by simp

theorem resolve_absolute_path_witness:
  "\<exists>s. get_node_by_path s [47, 46, 47, 47, 46, 46] 0 = Inr (Some (readi s 0))"
proof -
  obtain s where s: "dir_ok s 0" "dir_map s 0 = [dotdot \<mapsto> 0, dot \<mapsto> 0]" using fresh_fs by blast
  have "dir_map s 0 dot = Some 0" "dir_map s 0 dotdot = Some 0" using s(2) by simp_all
  then have "map_option d_ino (dir_find s 0 dot) = Some 0" "map_option d_ino (dir_find s 0 dotdot) = Some 0"
    by (simp_all add: dir_map_def)
  then obtain d e where found: "dir_find s 0 dot = Some d" "d_ino d = 0" "dir_find s 0 dotdot = Some e" "d_ino e = 0"
    by auto
  have "comps [47, 46, 47, 47, 46, 46] = [dot, dotdot]"
    by (simp add: comps.simps slash_def dot_def dotdot_def)
  moreover have "walk_names s 0 [dot, dotdot] = Some 0"
    using found by simp
  ultimately show ?thesis
    using resolve_absolute_path [of "[47, 46, 47, 47, 46, 46]" s 0] by (auto simp: slash_def)
qed

end
