(* ===== verification/Fs_Namespace.thy ===== *)
theory Fs_Namespace
  imports Fs_Ops
begin

text \<open>
  What creating, making and removing names does to the file system of \<open>Level - 4/rufs.c\<close>: the
  effect of \<open>rufs_create\<close> and \<open>rufs_mkdir\<close> on the parent directory, the new inode and the
  allocation bitmaps, and the paths on which the code departs from its own comments.
\<close>

subsection \<open>What a directory depends on\<close>

lemma dir_frame:
  assumes "dir_ok s n" and "mounted s'" and "readi s' n = readi s n"
    and "disk s' (dir_block s n) = disk s (dir_block s n)"
  shows "dir_ok s' n" "dir_map s' n = dir_map s n" "dir_block s' n = dir_block s n" "dir_full s' n = dir_full s n"
proof -
  show b: "dir_block s' n = dir_block s n" using assms(3) by (simp add: dir_block_def)
  then show ok: "dir_ok s' n" using assms by (simp add: dir_ok_def)
  show "dir_map s' n = dir_map s n" using assms(4) b by (simp add: dir_map_table [OF ok] dir_map_table [OF assms(1)])
  show "dir_full s' n = dir_full s n" using assms(4) b by (simp add: dir_full_def)
qed

lemma bio_frame [simp]: "bio_read (s\<lparr>fs_mutex := b\<rparr>) x = bio_read s x" "bio_read (s\<lparr>ticks := t\<rparr>) x = bio_read s x"
  "bio_read (s\<lparr>data_bitmap := d\<rparr>) x = bio_read s x"
  by (cases "block_index x"; simp add: bio_read_def)+

lemma readi_frame [simp]: "readi (s\<lparr>fs_mutex := b\<rparr>) n = readi s n" "readi (s\<lparr>ticks := t\<rparr>) n = readi s n"
  "readi (s\<lparr>data_bitmap := d\<rparr>) n = readi s n"
  by (simp_all add: readi_def inode_block_def inode_offset_def)

lemma mutex_frame [simp]: "dir_find (s\<lparr>fs_mutex := b\<rparr>) n nm = dir_find s n nm"
  "dir_find (s\<lparr>data_bitmap := d\<rparr>) n nm = dir_find s n nm"
  by (simp_all add: dir_find_def)

lemma walk_mutex [simp]: "walk_names (s\<lparr>fs_mutex := b\<rparr>) n nms = walk_names s n nms"
  "walk_names (s\<lparr>data_bitmap := d\<rparr>) n nms = walk_names s n nms"
  by (induction nms arbitrary: n) (simp_all split: option.split)

lemma mutex_map [simp]: "dir_map (s\<lparr>fs_mutex := b\<rparr>) n = dir_map s n" "dir_map (s\<lparr>data_bitmap := d\<rparr>) n = dir_map s n"
  "dir_block (s\<lparr>fs_mutex := b\<rparr>) n = dir_block s n" "dir_block (s\<lparr>data_bitmap := d\<rparr>) n = dir_block s n"
  "dir_full (s\<lparr>fs_mutex := b\<rparr>) n = dir_full s n"
  "dir_ok (s\<lparr>fs_mutex := b\<rparr>) n = dir_ok s n" "dir_ok (s\<lparr>data_bitmap := d\<rparr>) n = dir_ok s n"
  by (simp_all add: dir_map_def dir_block_def dir_full_def dir_ok_def fun_eq_iff)

text \<open>The absolute path of a new name, and the directory that is to hold it.\<close>

definition new_name :: "fs \<Rightarrow> byte list \<Rightarrow> 16 word \<Rightarrow> bool" where
  "new_name s path n \<longleftrightarrow> path \<noteq> [] \<and> hd path = slash \<and> name_ok (basename path)
     \<and> walk_names s 0 (comps (dirname path)) = Some n \<and> dir_ok s n \<and> lb_get (disk s 1) (unat n)"

lemma dirname_absolute:
  assumes "path \<noteq> []" and "hd path = slash"
  shows "dirname path \<noteq> [] \<and> hd (dirname path) = slash"
  using assms
proof (cases rule: absolute_cases)
  case 1
  then show ?thesis using assms(1) by (simp add: dirname_def)
next
  case (2 c)
  then show ?thesis by simp
qed

lemma parent_found:
  assumes "new_name s path n"
  shows "get_node_by_path (s\<lparr>fs_mutex := b\<rparr>) (dirname path) 0 = Inr (Some (readi s n))"
proof -
  have "path \<noteq> []" "hd path = slash" using assms by (simp_all add: new_name_def)
  from dirname_absolute [OF this] show ?thesis using assms by (simp add: get_node_absolute new_name_def)
qed

subsection \<open>Allocating inside an operation\<close>

lemma ino_allocated:
  assumes ok: "dir_ok s n" and k: "first_clear MAX_INUM (disk s 1) = Some k"
  shows "\<exists>s'. get_avail_ino s = Inr (int k, s') \<and> mounted s' \<and> dir_ok s' n \<and> dir_map s' n = dir_map s n
    \<and> dir_full s' n = dir_full s n \<and> dir_block s' n = dir_block s n \<and> readi s' n = readi s n
    \<and> (\<forall>m. unat m < MAX_INUM \<longrightarrow> readi s' m = readi s m)
    \<and> (\<forall>j. lb_get (disk s' 1) j \<longleftrightarrow> j = k \<or> lb_get (disk s 1) j) \<and> (\<forall>j. j \<noteq> 1 \<longrightarrow> disk s' j = disk s j)
    \<and> fs_mutex s' = fs_mutex s"
proof -
  have m: "mounted s" "unat n < MAX_INUM" "67 \<le> dir_block s n" using ok by (simp_all add: dir_ok_def)
  let ?b = "lb_set (disk s 1) k"
  let ?s = "s\<lparr>total_inodes_used := total_inodes_used s + 1, inode_bitmap := ?b, disk := (disk s)(1 := ?b)\<rparr>"
  have run: "get_avail_ino s = Inr (int k, ?s)" using get_avail_ino_mounted [OF m(1)] k by simp
  have ms: "mounted ?s" using m(1) by (simp add: mounted_def)
  have r: "readi ?s x = readi s x" if "unat x < MAX_INUM" for x
    by (rule readi_other_block [OF m(1) ms that]) simp
  note frame = dir_frame [OF ok ms r [OF m(2)]]
  have "k < 8 * length (disk s 1)" using first_clear_Some [OF k] mountedD(7) [OF m(1)] by (simp add: MAX_INUM_def)
  then have "\<forall>j. lb_get ?b j \<longleftrightarrow> j = k \<or> lb_get (disk s 1) j" using lb_get_set by blast
  then show ?thesis using run ms frame m(2,3) r by (intro exI [of _ ?s]) auto
qed

lemma blkno_allocated:
  assumes ok: "dir_ok s n" and k: "first_clear MAX_DNUM (disk s 2) = Some k"
  shows "\<exists>s'. get_avail_blkno s = Inr (int (67 + k), s') \<and> mounted s' \<and> dir_ok s' n \<and> dir_map s' n = dir_map s n
    \<and> dir_full s' n = dir_full s n \<and> dir_block s' n = dir_block s n \<and> readi s' n = readi s n
    \<and> (\<forall>m. unat m < MAX_INUM \<longrightarrow> readi s' m = readi s m)
    \<and> (\<forall>j. lb_get (disk s' 2) j \<longleftrightarrow> j = k \<or> lb_get (disk s 2) j) \<and> (\<forall>j. j \<noteq> 2 \<longrightarrow> disk s' j = disk s j)
    \<and> fs_mutex s' = fs_mutex s"
proof -
  have m: "mounted s" "unat n < MAX_INUM" "67 \<le> dir_block s n" using ok by (simp_all add: dir_ok_def)
  let ?b = "lb_set (disk s 2) k"
  let ?s = "s\<lparr>data_blocks_used := data_blocks_used s + 1, data_bitmap := ?b, disk := (disk s)(2 := ?b)\<rparr>"
  have run: "get_avail_blkno s = Inr (int (67 + k), ?s)" using get_avail_blkno_mounted [OF m(1)] k by simp
  have ms: "mounted ?s" using m(1) by (simp add: mounted_def)
  have r: "readi ?s x = readi s x" if "unat x < MAX_INUM" for x
    by (rule readi_other_block [OF m(1) ms that]) simp
  note frame = dir_frame [OF ok ms r [OF m(2)]]
  have "k < 8 * length (disk s 2)" using first_clear_Some [OF k] mountedD(7) [OF m(1)] by (simp add: MAX_DNUM_def)
  then have "\<forall>j. lb_get ?b j \<longleftrightarrow> j = k \<or> lb_get (disk s 2) j" using lb_get_set by blast
  then show ?thesis using run ms frame m(2,3) r by (intro exI [of _ ?s]) auto
qed

text \<open>Writing the new inode after the directory has its entry.\<close>

lemma new_inode_written:
  assumes ok: "dir_ok s n" and i: "wf_inode i" and w: "(r, s') = writei s m i"
    and m: "unat m < MAX_INUM" "m \<noteq> n"
  shows "r = 0" "dir_ok s' n" "dir_map s' n = dir_map s n" "readi s' m = stat64 st_ctime (clock s (ticks s)) i"
    "unat x < MAX_INUM \<Longrightarrow> x \<noteq> m \<Longrightarrow> readi s' x = readi s x" "j < 3 \<or> 67 \<le> j \<Longrightarrow> disk s' j = disk s j"
    "fs_mutex s' = fs_mutex s"
proof -
  have D: "mounted s" "unat n < MAX_INUM" "67 \<le> dir_block s n" using ok by (simp_all add: dir_ok_def)
  have mm: "unat m \<le> 1024" using m(1) by (simp add: MAX_INUM_def)
  have s': "s' = snd (writei s m i)" using w by (metis snd_conv)
  note W = writei_mounted [OF D(1) mm, of i]
  note R = readi_put_inode [OF D(1) i s' mm]
  have ms: "mounted s'" unfolding s' by (rule mounted_writei [OF D(1) i mm])
  show "r = 0" using w W by simp
  show disk: "j < 3 \<or> 67 \<le> j \<Longrightarrow> disk s' j = disk s j" for j
    using W inode_block_lt [OF m(1)] by (auto simp: s')
  have "disk s' (dir_block s n) = disk s (dir_block s n)" using disk D(3) by blast
  from dir_frame [OF ok ms _ this] show "dir_ok s' n" "dir_map s' n = dir_map s n" using R m by simp_all
  show "readi s' m = stat64 st_ctime (clock s (ticks s)) i" using R by simp
  show "unat x < MAX_INUM \<Longrightarrow> x \<noteq> m \<Longrightarrow> readi s' x = readi s x" using R by simp
  show "fs_mutex s' = fs_mutex s" using W by (simp add: s')
qed

lemma ticks_frame:
  assumes "dir_ok s n"
  shows "dir_ok (s\<lparr>ticks := t\<rparr>) n" "dir_map (s\<lparr>ticks := t\<rparr>) n = dir_map s n"
proof -
  have "mounted (s\<lparr>ticks := t\<rparr>)" using assms by (simp add: dir_ok_def)
  from dir_frame [OF assms this] show "dir_ok (s\<lparr>ticks := t\<rparr>) n" "dir_map (s\<lparr>ticks := t\<rparr>) n = dir_map s n" by simp_all
qed

subsection \<open>Creating a file\<close>

lemma file_created:
  assumes "new_name s path n" and "\<not> fs_mutex s" and "dir_map s n (basename path) = None" and "\<not> dir_full s n"
    and "first_clear MAX_INUM (disk s 1) = Some k" and "0 < k"
  shows "\<exists>s'. rufs_create path mode s = Inr (0, s') \<and> \<not> fs_mutex s' \<and> dir_ok s' n
    \<and> dir_map s' n = (dir_map s n)(basename path \<mapsto> of_nat k)
    \<and> valid (readi s' (of_nat k)) = 1 \<and> isize (readi s' (of_nat k)) = 0 \<and> itype (readi s' (of_nat k)) = 0
    \<and> ino (readi s' (of_nat k)) = of_nat k \<and> direct_ptr (readi s' (of_nat k)) = replicate 16 (-1)
    \<and> (\<forall>m. unat m < MAX_INUM \<longrightarrow> m \<noteq> n \<longrightarrow> m \<noteq> of_nat k \<longrightarrow> readi s' m = readi s m)
    \<and> (\<forall>j. lb_get (disk s' 1) j \<longleftrightarrow> j = k \<or> lb_get (disk s 1) j)
    \<and> (\<forall>j. j \<noteq> 1 \<longrightarrow> (j < 3 \<or> 67 \<le> j) \<longrightarrow> j \<noteq> dir_block s n \<longrightarrow> disk s' j = disk s j)
    \<and> dir_block s' n = dir_block s n \<and> same_node (readi s n) (readi s' n) \<and> indirect_ptr (readi s' (of_nat k)) ! 0 = -1"
proof -
  let ?s = "s\<lparr>fs_mutex := True\<rparr>" and ?k = "of_nat k :: 16 word" and ?nm = "basename path"
  have N: "name_ok ?nm" "dir_ok ?s n" "lb_get (disk s 1) (unat n)" using assms(1) by (simp_all add: new_name_def)
  have kb: "k < MAX_INUM" "\<not> lb_get (disk s 1) k" using first_clear_Some [OF assms(5)] by auto
  have uk: "unat ?k = k" using kb(1) by (simp only: unat_of_nat) (simp add: MAX_INUM_def)
  then have km: "unat ?k < MAX_INUM" "?k \<noteq> n" using kb N(3) by auto
  have ik: "of_int (int k) = ?k" by simp
  obtain s1 where s1: "get_avail_ino ?s = Inr (int k, s1)" "dir_ok s1 n" "dir_map s1 n = dir_map s n"
      "dir_full s1 n = dir_full s n" "dir_block s1 n = dir_block s n" "readi s1 n = readi s n"
      "\<forall>m. unat m < MAX_INUM \<longrightarrow> readi s1 m = readi s m" "\<forall>j. lb_get (disk s1 1) j \<longleftrightarrow> j = k \<or> lb_get (disk s 1) j"
      "\<forall>j. j \<noteq> 1 \<longrightarrow> disk s1 j = disk s j" "fs_mutex s1"
    using ino_allocated [OF N(2), of k] assms(5) by auto
  obtain s2 where s2: "dir_add s1 (readi s n) ?k ?nm = Inr (0, s2)" "dir_ok s2 n"
      "dir_map s2 n = (dir_map s n)(?nm \<mapsto> ?k)" "dir_block s2 n = dir_block s n" "same_node (readi s n) (readi s2 n)"
      "\<forall>m. unat m < MAX_INUM \<longrightarrow> m \<noteq> n \<longrightarrow> readi s2 m = readi s1 m"
      "\<forall>j. (j < 3 \<or> 67 \<le> j) \<and> j \<noteq> dir_block s n \<longrightarrow> disk s2 j = disk s1 j"
    using dir_add_cases(3) [OF s1(2) N(1), of "readi s n" ?k] s1(3-6) assms(3,4) by auto
  have wf: "wf_inode (readi s2 ?k)" using s2(2) by (simp add: dir_ok_def)
  obtain i where i: "init_inode s2 (readi s2 ?k) ?k 0 = Inr (i, s2\<lparr>ticks := ticks s2 + 3\<rparr>)" "wf_inode i" "ino i = ?k"
      "isize i = 0" "itype i = 0" "valid i = 1" "direct_ptr i = replicate 16 (-1)" "indirect_ptr i ! 0 = -1"
    using init_inode_spec [OF wf, of s2 ?k 0] by blast
  define s3 where "s3 = s2\<lparr>ticks := ticks s2 + 3\<rparr>"
  have s3: "dir_ok s3 n" "dir_map s3 n = dir_map s2 n" "readi s3 m = readi s2 m" "disk s3 = disk s2" for m
    using ticks_frame [OF s2(2)] by (simp_all add: s3_def)
  define j where "j = stat32 st_mode (0x8000 OR mode) i"
  have j: "wf_inode j" "ino j = ?k" "isize j = 0" "itype j = 0" "valid j = 1" "direct_ptr j = replicate 16 (-1)" "indirect_ptr j ! 0 = -1"
    using i by (simp_all add: j_def st_mode_def)
  obtain r s4 where w: "(r, s4) = writei s3 ?k j" by (metis surj_pair)
  note W = new_inode_written [OF s3(1) j(1) w km]
  have fm: "fs_mutex s2"
    using s2(1) s1(10) by (auto simp: dir_add_def Let_def touch_dir_def get_time_def writei_def bio_write_def
        split: if_splits option.splits sum.splits)
  have run: "rufs_create path mode s = Inr (0, s4\<lparr>fs_mutex := False\<rparr>)"
    using assms(2,6) parent_found [OF assms(1)] s1(1) s2(1) i(1) w W(1)
    by (simp add: rufs_create_def with_mutex_def s3_def [symmetric] j_def [symmetric] ik) (simp flip: w)
  have bits: "lb_get (disk s4 1) x \<longleftrightarrow> x = k \<or> lb_get (disk s 1) x" for x
  proof -
    have "dir_block s n \<noteq> 1" using N(2) by (auto simp: dir_ok_def)
    then have "disk s4 1 = disk s1 1" using W(6) [of 1] s2(7) by (simp add: s3(4))
    then show ?thesis using s1(8) by simp
  qed
  have node: "readi s4 ?k = stat64 st_ctime (clock s3 (ticks s3)) j" by (rule W(4))
  have other: "readi s4 m = readi s m" if "unat m < MAX_INUM" "m \<noteq> n" "m \<noteq> ?k" for m
    using that W(5) s2(6) s1(7) s3(3) by simp
  have blocks: "disk s4 x = disk s x" if "x \<noteq> 1" "x < 3 \<or> 67 \<le> x" "x \<noteq> dir_block s n" for x
    using that W(6) s2(7) s1(9) by (simp add: s3(4))
  have "readi s4 n = readi s2 n" using W(5) [of n] km(2) N(2) s3(3) by (simp add: dir_ok_def)
  then have parent: "dir_block s4 n = dir_block s n" "same_node (readi s n) (readi s4 n)"
    using s2(4,5) by (simp_all add: dir_block_def)
  show ?thesis
    using run W(2,3) s2(3) s3(2) node j bits other blocks parent
    by (intro exI [of _ "s4\<lparr>fs_mutex := False\<rparr>"]) simp
qed

text \<open>C8: Creating a file under a new name in an existing directory that has room returns 0 with the
  name added to exactly this directory and bound to the least free inode number; that inode is a
  valid empty regular file without data blocks, its bit is set, and every other inode but the
  parent's and every other data block is unchanged.\<close>

theorem rufs_create_adds_file:
  assumes "new_name s path n" and "\<not> fs_mutex s" and "dir_map s n (basename path) = None" and "\<not> dir_full s n"
    and "first_clear MAX_INUM (disk s 1) = Some k" and "0 < k"
  shows "\<exists>s'. rufs_create path mode s = Inr (0, s') \<and> \<not> fs_mutex s' \<and> dir_ok s' n
    \<and> dir_map s' n = (dir_map s n)(basename path \<mapsto> of_nat k)
    \<and> valid (readi s' (of_nat k)) = 1 \<and> isize (readi s' (of_nat k)) = 0 \<and> itype (readi s' (of_nat k)) = 0
    \<and> ino (readi s' (of_nat k)) = of_nat k \<and> direct_ptr (readi s' (of_nat k)) = replicate 16 (-1)
    \<and> (\<forall>m. unat m < MAX_INUM \<longrightarrow> m \<noteq> n \<longrightarrow> m \<noteq> of_nat k \<longrightarrow> readi s' m = readi s m)
    \<and> (\<forall>j. lb_get (disk s' 1) j \<longleftrightarrow> j = k \<or> lb_get (disk s 1) j)
    \<and> (\<forall>j. j \<noteq> 1 \<longrightarrow> (j < 3 \<or> 67 \<le> j) \<longrightarrow> j \<noteq> dir_block s n \<longrightarrow> disk s' j = disk s j)"
  using file_created [OF assms] by blast

text \<open>The new name \<open>"/a"\<close> in the root directory of a fresh disk.\<close>

definition path_a :: "byte list" where "path_a = [47, 97]"

lemma path_a [simp]: "basename path_a = [97]" "comps (dirname path_a) = []" "path_a \<noteq> []" "hd path_a = slash"
  by (simp_all add: path_a_def basename_def dirname_def strip_def slash_def comps.simps)

lemma fresh_new_name:
  assumes "dir_ok s 0" and "\<forall>j < MAX_INUM. lb_get (disk s 1) j \<longleftrightarrow> j = 0"
  shows "new_name s path_a 0" "first_clear MAX_INUM (disk s 1) = Some 1"
proof -
  show "new_name s path_a 0"
    using assms by (simp add: new_name_def name_ok_def MAX_INUM_def)
  show "first_clear MAX_INUM (disk s 1) = Some 1"
    unfolding first_clear_def find_Some_iff using assms(2) by (intro exI [of _ 1]) (simp add: MAX_INUM_def)
qed

theorem rufs_create_adds_file_witness:
  "\<exists>s s'. rufs_create path_a 0x1A4 s = Inr (0, s') \<and> dir_map s' 0 = [dotdot \<mapsto> 0, dot \<mapsto> 0, [97] \<mapsto> 1]"
proof -
  obtain s where s: "dir_ok s 0" "dir_map s 0 = [dotdot \<mapsto> 0, dot \<mapsto> 0]" "\<not> dir_full s 0" "\<not> fs_mutex s"
      "\<forall>j < MAX_INUM. lb_get (disk s 1) j \<longleftrightarrow> j = 0"
    using fresh_fs by blast
  note N = fresh_new_name [OF s(1,5)]
  have "dir_map s 0 (basename path_a) = None" using s(2) by (simp add: dot_def dotdot_def)
  from rufs_create_adds_file [OF N(1) s(4) this s(3) N(2), of "0x1A4"]
  obtain s' where "rufs_create path_a 0x1A4 s = Inr (0, s')" "dir_map s' 0 = (dir_map s 0)([97] \<mapsto> 1)"
    by auto
  then show ?thesis using s(2) by auto
qed

subsection \<open>Making a directory\<close>

lemma block_written:
  assumes ok: "dir_ok s n" and b: "67 \<le> unat b" "unat b < 524288" "unat b \<noteq> dir_block s n"
    and buf: "length buf = 4096" and s': "s' = bio_write s b buf"
  shows "dir_ok s' n" "dir_map s' n = dir_map s n" "unat m < MAX_INUM \<Longrightarrow> readi s' m = readi s m"
    "disk s' = (disk s)(unat b := buf)" "fs_mutex s' = fs_mutex s" "ticks s' = ticks s" "clock s' = clock s"
proof -
  have D: "mounted s" "unat n < MAX_INUM" using ok by (simp_all add: dir_ok_def)
  have w: "s' = s\<lparr>disk := (disk s)(unat b := buf)\<rparr>" using s' b(2) by (simp add: bio_write_small D(1))
  show dsk: "disk s' = (disk s)(unat b := buf)" "fs_mutex s' = fs_mutex s" "ticks s' = ticks s" "clock s' = clock s"
    using w by simp_all
  have m: "mounted s'" unfolding s' by (rule mounted_write [OF D(1) b(2) buf])
  show r: "unat m < MAX_INUM \<Longrightarrow> readi s' m = readi s m" for m
    using b(1) inode_block_lt [of m] by (intro readi_other_block [OF D(1) m]) (auto simp: dsk)
  have "disk s' (dir_block s n) = disk s (dir_block s n)" using b(3) dsk by simp
  from dir_frame [OF ok m r [OF D(2)] this] show "dir_ok s' n" "dir_map s' n = dir_map s n" by simp_all
qed

text \<open>The state that \<open>dir_add\<close> leaves has the mutex as before.\<close>

lemma dir_add_mutex: "dir_add s i f nm = Inr (r, s') \<Longrightarrow> fs_mutex s' = fs_mutex s"
  by (auto simp: dir_add_def Let_def touch_dir_def get_time_def writei_def bio_write_def
      split: if_splits option.splits sum.splits)

lemma fresh_table_written:
  assumes "length t = 4096"
  shows "\<exists>t'. init_table_loop 19 t cur par = Inr t' \<and> table_ok t' \<and> table_map t' = [dotdot \<mapsto> par, dot \<mapsto> cur]
    \<and> length t' = 4096"
proof -
  obtain t' where t': "init_table_loop 19 t cur par = Inr t'" "length t' = 4096"
      "\<forall>k < 19. fresh_entry cur par k (entry_at t' k)"
    using init_table_loop_spec [OF assms, of 19 cur par] by auto
  show ?thesis using t'(1,2) fresh_table(1,2) [OF t'(2,3)] by blast
qed

lemma directory_made:
  assumes "new_name s path n" and "\<not> fs_mutex s" and "dir_map s n (basename path) = None" and "\<not> dir_full s n"
    and "first_clear MAX_INUM (disk s 1) = Some k" and "0 < k" and "first_clear MAX_DNUM (disk s 2) = Some d"
    and "lb_get (disk s 2) (dir_block s n - 67)"
  shows "\<exists>s'. rufs_mkdir path s = Inr (0, s') \<and> \<not> fs_mutex s' \<and> dir_ok s' n \<and> dir_ok s' (of_nat k)
    \<and> dir_map s' n = (dir_map s n)(basename path \<mapsto> of_nat k)
    \<and> dir_map s' (of_nat k) = [dotdot \<mapsto> n, dot \<mapsto> of_nat k]
    \<and> (\<forall>m. unat m < MAX_INUM \<longrightarrow> m \<noteq> n \<longrightarrow> m \<noteq> of_nat k \<longrightarrow> readi s' m = readi s m)
    \<and> (\<forall>j. lb_get (disk s' 1) j \<longleftrightarrow> j = k \<or> lb_get (disk s 1) j)
    \<and> (\<forall>j. lb_get (disk s' 2) j \<longleftrightarrow> j = d \<or> lb_get (disk s 2) j)
    \<and> dir_block s' n = dir_block s n \<and> same_node (readi s n) (readi s' n)
    \<and> direct_ptr (readi s' (of_nat k)) = (replicate 16 (-1))[0 := 67 + of_nat d] \<and> indirect_ptr (readi s' (of_nat k)) ! 0 = -1
    \<and> (\<forall>j. 67 \<le> j \<longrightarrow> j \<noteq> dir_block s n \<longrightarrow> j \<noteq> 67 + d \<longrightarrow> disk s' j = disk s j)"
proof -
  let ?s = "s\<lparr>fs_mutex := True\<rparr>" and ?k = "of_nat k :: 16 word" and ?nm = "basename path" and ?b = "67 + of_nat d :: 32 word"
  have N: "name_ok ?nm" "dir_ok ?s n" "lb_get (disk s 1) (unat n)" using assms(1) by (simp_all add: new_name_def)
  have kb: "k < MAX_INUM" "\<not> lb_get (disk s 1) k" using first_clear_Some [OF assms(5)] by auto
  have uk: "unat ?k = k" using kb(1) by (simp only: unat_of_nat) (simp add: MAX_INUM_def)
  then have km: "unat ?k < MAX_INUM" "?k \<noteq> n" using kb N(3) by auto
  have ik: "of_int (int k) = ?k" by simp
  have db: "d < 16384" "\<not> lb_get (disk s 2) d" using first_clear_Some [OF assms(7)] by (auto simp: MAX_DNUM_def)
  have ub: "unat ?b = 67 + d" using db(1) unat_base_plus [of 67 d] by simp
  have bb: "67 \<le> unat ?b" "unat ?b < 524288" using ub db(1) by simp_all
  have ib: "of_int (int (67 + d)) = ?b" by simp
  have "67 \<le> dir_block s n" using N(2) by (simp add: dir_ok_def)
  then have blk: "67 + d \<noteq> dir_block s n" using assms(8) db(2) by (metis diff_add_inverse)
  obtain s1 where s1: "get_avail_ino ?s = Inr (int k, s1)" "dir_ok s1 n" "dir_map s1 n = dir_map s n"
      "dir_full s1 n = dir_full s n" "dir_block s1 n = dir_block s n" "readi s1 n = readi s n"
      "\<forall>m. unat m < MAX_INUM \<longrightarrow> readi s1 m = readi s m" "\<forall>j. lb_get (disk s1 1) j \<longleftrightarrow> j = k \<or> lb_get (disk s 1) j"
      "\<forall>j. j \<noteq> 1 \<longrightarrow> disk s1 j = disk s j" "fs_mutex s1"
    using ino_allocated [OF N(2), of k] assms(5) by auto
  have d1: "first_clear MAX_DNUM (disk s1 2) = Some d" using s1(9) assms(7) by simp
  obtain s2 where s2: "get_avail_blkno s1 = Inr (int (67 + d), s2)" "dir_ok s2 n" "dir_map s2 n = dir_map s n"
      "dir_full s2 n = dir_full s n" "dir_block s2 n = dir_block s n" "readi s2 n = readi s n"
      "\<forall>m. unat m < MAX_INUM \<longrightarrow> readi s2 m = readi s m" "\<forall>j. lb_get (disk s2 2) j \<longleftrightarrow> j = d \<or> lb_get (disk s 2) j"
      "\<forall>j. j \<noteq> 2 \<longrightarrow> disk s2 j = disk s1 j" "fs_mutex s2"
    using blkno_allocated [OF s1(2) d1] s1(3-10) by auto
  obtain s3 where s3: "dir_add s2 (readi s n) ?k ?nm = Inr (0, s3)" "dir_ok s3 n"
      "dir_map s3 n = (dir_map s n)(?nm \<mapsto> ?k)" "dir_block s3 n = dir_block s n" "same_node (readi s n) (readi s3 n)"
      "\<forall>m. unat m < MAX_INUM \<longrightarrow> m \<noteq> n \<longrightarrow> readi s3 m = readi s m"
      "\<forall>j. (j < 3 \<or> 67 \<le> j) \<and> j \<noteq> dir_block s n \<longrightarrow> disk s3 j = disk s2 j"
    using dir_add_cases(3) [OF s2(2) N(1), of "readi s n" ?k] s2(3-7) assms(3,4) by auto
  have m3: "mounted s3" using s3(2) by (simp add: dir_ok_def)
  then obtain i where i: "init_inode s3 (readi s3 ?k) ?k 1 = Inr (i, s3\<lparr>ticks := ticks s3 + 3\<rparr>)" "wf_inode i"
      "ino i = ?k" "direct_ptr i = replicate 16 (-1)" "indirect_ptr i ! 0 = -1"
    using init_inode_spec [OF wf_readi, of s3 s3 ?k ?k 1] by blast
  define s4 where "s4 = s3\<lparr>ticks := ticks s3 + 3\<rparr>"
  have s4: "dir_ok s4 n" "dir_map s4 n = dir_map s3 n" "readi s4 m = readi s3 m" "disk s4 = disk s3"
      "dir_block s4 n = dir_block s3 n" for m
    using ticks_frame [OF s3(2)] by (simp_all add: s4_def dir_block_def)
  define j where "j = i\<lparr>direct_ptr := (direct_ptr i)[0 := ?b]\<rparr>"
  have j: "wf_inode j" "ino j = ?k" "direct_ptr j ! 0 = ?b" "direct_ptr j = (replicate 16 (-1))[0 := ?b]" "indirect_ptr j ! 0 = -1"
    using i(2,3,5) i(4) by (simp_all add: j_def wf_inode_def)
  have m4: "mounted s4" using s4(1) by (simp add: dir_ok_def)
  then obtain t where t: "init_table_loop 19 (bio_read s4 ?b) ?k n = Inr t" "table_ok t"
      "table_map t = [dotdot \<mapsto> n, dot \<mapsto> ?k]" "length t = 4096"
    using fresh_table_written [of "disk s4 (unat ?b)" ?k n] mountedD(7) [OF m4] bb bio_read_small [of ?b s4] m4 by auto
  have tab: "init_dirent_table s4 (bio_read s4 ?b) ?k n = Inr t"
    using t(1) mountedD(6) [OF m4] by (simp add: init_dirent_table_def)
  define s5 where "s5 = bio_write s4 ?b t"
  have b4: "unat ?b \<noteq> dir_block s4 n" using blk ub s4(5) s3(4) by simp
  note W5 = block_written [OF s4(1) bb b4 t(4) s5_def]
  obtain r s6 where w: "(r, s6) = writei s5 ?k j" by (metis surj_pair)
  note W6 = new_inode_written [OF W5(1) j(1) w km]
  have fm: "fs_mutex s6" "mounted s6"
    using W6(2,7) W5(5) dir_add_mutex [OF s3(1)] s2(10) by (simp_all add: s4_def dir_ok_def)
  have run: "rufs_mkdir path s = Inr (0, s6\<lparr>fs_mutex := False\<rparr>)"
    using assms(2,6) parent_found [OF assms(1)] s1(1) s2(1) s3(1) i(1) w W6(1) tab block_index_small [OF bb(2)] N(2) mounted_ready [OF m4]
    by (simp add: rufs_mkdir_def with_mutex_def s4_def [symmetric] j_def [symmetric] s5_def [symmetric] ik ib bio_fails_def
        dir_ok_def flip: w)
  have node: "readi s6 ?k = stat64 st_ctime (clock s5 (ticks s5)) j" by (rule W6(4))
  have kblk: "dir_block s6 ?k = 67 + d" using node j(3) ub by (simp add: dir_block_def)
  have kt: "disk s6 (67 + d) = t" using W6(6) [of "67 + d"] W5(4) ub by simp
  have kok: "dir_ok s6 ?k"
    using fm(2) km(1) node j(2) kblk kt t(2) db(1) by (simp add: dir_ok_def)
  have kmap: "dir_map s6 ?k = [dotdot \<mapsto> n, dot \<mapsto> ?k]"
    using dir_map_table [OF kok] kblk kt t(3) by simp
  have other: "readi s6 m = readi s m" if "unat m < MAX_INUM" "m \<noteq> n" "m \<noteq> ?k" for m
    using that W6(5) W5(3) s4(3) s3(6) by simp
  have low: "disk s6 x = disk s2 x" if "x < 3" for x
  proof -
    have "x \<noteq> dir_block s n" "x \<noteq> unat ?b" using that N(2) ub by (auto simp: dir_ok_def)
    then show ?thesis using that W6(6) [of x] W5(4) s4(4) s3(7) by simp
  qed
  have bits: "lb_get (disk s6 1) x \<longleftrightarrow> x = k \<or> lb_get (disk s 1) x" "lb_get (disk s6 2) x \<longleftrightarrow> x = d \<or> lb_get (disk s 2) x" for x
    using low [of 1] low [of 2] s2(8,9) s1(8) by simp_all
  have "readi s6 n = readi s3 n" using W6(5) [of n] W5(3) km(2) N(2) s4(3) by (simp add: dir_ok_def)
  then have parent: "dir_block s6 n = dir_block s n" "same_node (readi s n) (readi s6 n)"
    using s3(4,5) by (simp_all add: dir_block_def)
  have blocks: "disk s6 x = disk s x" if "67 \<le> x" "x \<noteq> dir_block s n" "x \<noteq> 67 + d" for x
    using that W6(6) [of x] W5(4) s4(4) s3(7) s2(9) s1(9) ub by simp
  show ?thesis
    using run W6(2,3) W5(2) s4(2) s3(3) kok kmap other bits parent blocks node j(4,5)
    by (intro exI [of _ "s6\<lparr>fs_mutex := False\<rparr>"]) simp
qed

text \<open>C7: Making a directory under a new name in an existing directory that has room returns 0; the
  name is added to the parent's map, and the new inode is a directory whose only entries are
  \<open>".."\<close>, bound to the parent, and \<open>"."\<close>, bound to itself; exactly the least free inode and the
  least free data block become used.\<close>

theorem rufs_mkdir_adds_directory:
  assumes "new_name s path n" and "\<not> fs_mutex s" and "dir_map s n (basename path) = None" and "\<not> dir_full s n"
    and "first_clear MAX_INUM (disk s 1) = Some k" and "0 < k" and "first_clear MAX_DNUM (disk s 2) = Some d"
    and "lb_get (disk s 2) (dir_block s n - 67)"
  shows "\<exists>s'. rufs_mkdir path s = Inr (0, s') \<and> \<not> fs_mutex s' \<and> dir_ok s' n \<and> dir_ok s' (of_nat k)
    \<and> dir_map s' n = (dir_map s n)(basename path \<mapsto> of_nat k)
    \<and> dir_map s' (of_nat k) = [dotdot \<mapsto> n, dot \<mapsto> of_nat k]
    \<and> (\<forall>m. unat m < MAX_INUM \<longrightarrow> m \<noteq> n \<longrightarrow> m \<noteq> of_nat k \<longrightarrow> readi s' m = readi s m)
    \<and> (\<forall>j. lb_get (disk s' 1) j \<longleftrightarrow> j = k \<or> lb_get (disk s 1) j)
    \<and> (\<forall>j. lb_get (disk s' 2) j \<longleftrightarrow> j = d \<or> lb_get (disk s 2) j)"
  using directory_made [OF assms] by blast

theorem rufs_mkdir_adds_directory_witness:
  "\<exists>s s'. rufs_mkdir path_a s = Inr (0, s') \<and> dir_map s' 0 = [dotdot \<mapsto> 0, dot \<mapsto> 0, [97] \<mapsto> 1]
    \<and> dir_map s' 1 = [dotdot \<mapsto> 0, dot \<mapsto> 1]"
proof -
  obtain s where s: "dir_ok s 0" "dir_map s 0 = [dotdot \<mapsto> 0, dot \<mapsto> 0]" "\<not> dir_full s 0" "\<not> fs_mutex s"
      "\<forall>j < MAX_INUM. lb_get (disk s 1) j \<longleftrightarrow> j = 0" "\<forall>j < MAX_DNUM. lb_get (disk s 2) j \<longleftrightarrow> j = 0" "dir_block s 0 = 67"
    using fresh_fs by blast
  note N = fresh_new_name [OF s(1,5)]
  have "dir_map s 0 (basename path_a) = None" using s(2) by (simp add: dot_def dotdot_def)
  moreover have "first_clear MAX_DNUM (disk s 2) = Some 1"
    unfolding first_clear_def find_Some_iff using s(6) by (intro exI [of _ 1]) (simp add: MAX_DNUM_def)
  moreover have "lb_get (disk s 2) (dir_block s 0 - 67)" using s(6,7) by (simp add: MAX_DNUM_def)
  ultimately obtain s' where "rufs_mkdir path_a s = Inr (0, s')" "dir_map s' 0 = (dir_map s 0)([97] \<mapsto> 1)"
      "dir_map s' 1 = [dotdot \<mapsto> 0, dot \<mapsto> 1]"
    using rufs_mkdir_adds_directory [OF N(1) s(4) _ s(3) N(2)] by fastforce
  then show ?thesis using s(2) by auto
qed

subsection \<open>Names that are taken\<close>

text \<open>C28: Making a directory under a name that is taken returns \<open>EEXIST\<close> and leaves the directory
  alone, but the free inode and the free data block that were reserved first stay marked as used:
  the bitmaps on the disk lose one of each with every such call.\<close>

theorem rufs_mkdir_existing_leaks:
  assumes "new_name s path n" and "\<not> fs_mutex s" and "dir_map s n (basename path) \<noteq> None"
    and "first_clear MAX_INUM (disk s 1) = Some k" and "0 < k" and "first_clear MAX_DNUM (disk s 2) = Some d"
  shows "\<exists>s'. rufs_mkdir path s = Inr (- EEXIST, s') \<and> \<not> fs_mutex s' \<and> dir_map s' n = dir_map s n
    \<and> (\<forall>m. unat m < MAX_INUM \<longrightarrow> readi s' m = readi s m)
    \<and> \<not> lb_get (disk s 1) k \<and> lb_get (disk s' 1) k \<and> \<not> lb_get (disk s 2) d \<and> lb_get (disk s' 2) d"
proof -
  let ?s = "s\<lparr>fs_mutex := True\<rparr>" and ?k = "of_nat k :: 16 word"
  have N: "name_ok (basename path)" "dir_ok ?s n" using assms(1) by (simp_all add: new_name_def)
  have ik: "of_int (int k) = ?k" by simp
  have free: "\<not> lb_get (disk s 1) k" "\<not> lb_get (disk s 2) d"
    using first_clear_Some [OF assms(4)] first_clear_Some [OF assms(6)] by auto
  obtain s1 where s1: "get_avail_ino ?s = Inr (int k, s1)" "dir_ok s1 n" "dir_map s1 n = dir_map s n"
      "readi s1 n = readi s n" "\<forall>m. unat m < MAX_INUM \<longrightarrow> readi s1 m = readi s m"
      "\<forall>j. lb_get (disk s1 1) j \<longleftrightarrow> j = k \<or> lb_get (disk s 1) j" "\<forall>j. j \<noteq> 1 \<longrightarrow> disk s1 j = disk s j"
    using ino_allocated [OF N(2), of k] assms(4) by auto
  have d1: "first_clear MAX_DNUM (disk s1 2) = Some d" using s1(7) assms(6) by simp
  obtain s2 where s2: "get_avail_blkno s1 = Inr (int (67 + d), s2)" "dir_ok s2 n" "dir_map s2 n = dir_map s n"
      "readi s2 n = readi s n" "\<forall>m. unat m < MAX_INUM \<longrightarrow> readi s2 m = readi s m"
      "\<forall>j. lb_get (disk s2 2) j \<longleftrightarrow> j = d \<or> lb_get (disk s1 2) j" "\<forall>j. j \<noteq> 2 \<longrightarrow> disk s2 j = disk s1 j"
    using blkno_allocated [OF s1(2) d1] s1(3-5) by auto
  have "dir_add s2 (readi s n) ?k (basename path) = Inr (- EEXIST, s2)"
    using dir_add_cases(1) [OF s2(2) N(1) s2(4) [symmetric]] s2(3) assms(3) by simp
  then have "rufs_mkdir path s = Inr (- EEXIST, s2\<lparr>fs_mutex := False\<rparr>)"
    using assms(2,5) parent_found [OF assms(1)] s1(1) s2(1)
    by (simp add: rufs_mkdir_def with_mutex_def ik EEXIST_def)
  then show ?thesis
    using s1 s2 free by (intro exI [of _ "s2\<lparr>fs_mutex := False\<rparr>"]) simp
qed

theorem rufs_mkdir_existing_leaks_witness:
  "\<exists>s s'. rufs_mkdir [47, 46] s = Inr (- EEXIST, s') \<and> \<not> lb_get (disk s 1) 1 \<and> lb_get (disk s' 1) 1
    \<and> \<not> lb_get (disk s 2) 1 \<and> lb_get (disk s' 2) 1"
proof -
  obtain s where s: "dir_ok s 0" "dir_map s 0 = [dotdot \<mapsto> 0, dot \<mapsto> 0]" "\<not> fs_mutex s"
      "\<forall>j < MAX_INUM. lb_get (disk s 1) j \<longleftrightarrow> j = 0" "\<forall>j < MAX_DNUM. lb_get (disk s 2) j \<longleftrightarrow> j = 0"
    using fresh_fs by blast
  have base: "basename [47, 46] = dot" by (simp add: basename_def strip_def slash_def dot_def)
  have new: "new_name s [47, 46] 0"
    using s(1,4) base by (simp add: new_name_def name_ok_def MAX_INUM_def)
      (simp add: slash_def dirname_def strip_def comps.simps dot_def)
  have "dir_map s 0 (basename [47, 46]) \<noteq> None" using s(2) base by simp
  moreover have "first_clear MAX_DNUM (disk s 2) = Some 1"
    unfolding first_clear_def find_Some_iff using s(5) by (intro exI [of _ 1]) (simp add: MAX_DNUM_def)
  ultimately show ?thesis
    using rufs_mkdir_existing_leaks [OF new s(3) _ fresh_new_name(2) [OF s(1,4)]] by fastforce
qed

lemma un_bytes_zero: "set bs \<subseteq> {0} \<Longrightarrow> un_bytes bs = 0"
  by (induction bs) simp_all

lemma zero_entry: "d_valid (entry_at zero_block k) = 0" "cstr (d_name (entry_at zero_block k)) = []"
proof -
  show "d_valid (entry_at zero_block k) = 0"
  proof -
    have "set (bytes_at 2 2 (bytes_at (k * sizeof_dirent) sizeof_dirent zero_block)) \<subseteq> set zero_block"
      unfolding bytes_at_def by (meson order.trans set_drop_subset set_take_subset)
    then show ?thesis by (simp add: entry_at_def decode_dirent_def un_bytes_zero zero_block_def BLOCK_SIZE_def)
  qed
  have "set (d_name (entry_at zero_block k)) \<subseteq> {0}"
  proof -
    have "set (bytes_at 4 208 (bytes_at (k * sizeof_dirent) sizeof_dirent zero_block)) \<subseteq> set zero_block"
      unfolding bytes_at_def by (meson order.trans set_drop_subset set_take_subset)
    then show ?thesis by (simp add: entry_at_def decode_dirent_def zero_block_def BLOCK_SIZE_def)
  qed
  then show "cstr (d_name (entry_at zero_block k)) = []" unfolding cstr_def by (cases "d_name (entry_at zero_block k)") auto
qed

lemma zero_block_empty: "is_directory_empty s zero_block"
  by (simp add: is_directory_empty_def list_all_iff zero_entry)

text \<open>\<open>rufs_rmdir\<close> never answers \<open>ENOTEMPTY\<close>: its emptiness test looks at a table that was zeroed
  and never read from the disk, so a directory with entries is removed like an empty one.\<close>

theorem rufs_rmdir_never_not_empty: "rufs_rmdir path s \<noteq> Inr (- ENOTEMPTY, s')"
proof -
  have "remove_node p i x \<noteq> Inr (- ENOTEMPTY, y)" for p i x y
    by (auto simp: remove_node_def ENOENT_def ENOTEMPTY_def split: sum.splits option.splits if_splits)
  then show ?thesis using zero_block_empty
    by (auto simp: rufs_rmdir_def with_mutex_def ENOENT_def ENOTEMPTY_def Let_def
        split: sum.splits option.splits if_splits)
qed

subsection \<open>Listing a directory\<close>

text \<open>A filler that collects the names.\<close>

definition collect :: "byte list list \<Rightarrow> byte list \<Rightarrow> int \<times> byte list list" where
  "collect buffer nm = (0, buffer @ [nm])"

lemma fill_loop_collect:
  "fill_loop collect block ks buffer
    = (0, buffer @ map (entry_name block) (filter (\<lambda>k. d_valid (entry_at block k) = 1) ks))"
  by (induction ks arbitrary: buffer) (simp_all add: collect_def entry_name_def)

lemma distinct_names:
  assumes "table_ok t" and "distinct ks" and "\<forall>k \<in> set ks. k < 19 \<and> entry_name t k \<noteq> []"
  shows "distinct (map (entry_name t) ks)"
  using assms by (fastforce simp: distinct_map inj_on_def table_ok_def)

text \<open>Listing a directory with a filler that takes every name returns 0 and hands over each name of
  the directory's map exactly once, and nothing else; the disk is unchanged.\<close>

theorem rufs_readdir_lists:
  assumes "path \<noteq> []" and "hd path = slash" and "walk_names s 0 (comps path) = Some n" and "dir_ok s n" and "\<not> fs_mutex s"
  shows "\<exists>names. rufs_readdir path collect [] s = Inr ((0, names), s) \<and> distinct names \<and> set names = dom (dir_map s n)"
proof -
  let ?t = "disk s (dir_block s n)"
  let ?ks = "filter (\<lambda>k. d_valid (entry_at ?t k) = 1) [0..<19]"
  have t: "table_ok ?t" "mounted s" using assms(4) by (simp_all add: dir_ok_def)
  have "bio_read s (direct_ptr (readi s n) ! 0) = ?t" using assms(4) by (simp add: bio_read_small dir_ok_def dir_block_def)
  then have run: "rufs_readdir path collect [] s = Inr ((0, map (entry_name ?t) ?ks), s)"
    using assms(1-3,5) mountedD(6) [OF t(2)] by (simp add: rufs_readdir_def with_mutex_def get_node_absolute fill_loop_collect)
  have v: "d_valid (entry_at ?t k) = 1 \<longleftrightarrow> entry_name ?t k \<noteq> []" if "k < 19" for k
    using t(1) that by (simp add: table_ok_def)
  have "distinct (map (entry_name ?t) ?ks)" using v by (intro distinct_names [OF t(1)]) auto
  moreover have "set (map (entry_name ?t) ?ks) = dom (dir_map s n)"
  proof (intro set_eqI iffI)
    fix nm
    assume "nm \<in> set (map (entry_name ?t) ?ks)"
    then obtain k where "k < 19" "entry_name ?t k = nm" "nm \<noteq> []" using v by auto
    then show "nm \<in> dom (dir_map s n)" using table_map_Some [OF t(1)] by (auto simp: dir_map_table [OF assms(4)])
  next
    fix nm
    assume d: "nm \<in> dom (dir_map s n)"
    then have nm: "nm \<noteq> []" by (auto simp: dir_map_def)
    have "table_map ?t nm \<noteq> None" using d by (simp add: dir_map_table [OF assms(4)] domIff)
    then obtain k where "k < 19" "entry_name ?t k = nm" using table_map_None by metis
    then show "nm \<in> set (map (entry_name ?t) ?ks)" using v [of k] nm by force
  qed
  ultimately show ?thesis using run by blast
qed

theorem rufs_readdir_lists_witness:
  "\<exists>s names. rufs_readdir [47] collect [] s = Inr ((0, names), s) \<and> set names = {dot, dotdot}"
proof -
  obtain s where s: "dir_ok s 0" "dir_map s 0 = [dotdot \<mapsto> 0, dot \<mapsto> 0]" "\<not> fs_mutex s"
    using fresh_fs by blast
  have "walk_names s 0 (comps [47]) = Some 0" "hd [47] = slash" by (simp_all add: comps.simps slash_def)
  from rufs_readdir_lists [OF _ this(2,1) s(1,3)] show ?thesis using s(2) by auto
qed

subsection \<open>Mounting an existing disk\<close>

text \<open>C31: Mounting an existing disk never reads the superblock from it: all its fields are 0 afterwards,
  so inodes are looked up from block 0 on instead of block 3, where \<open>rufs_mkfs\<close> put them.\<close>

theorem rufs_init_forgets_superblock:
  assumes "disk_file s" and "\<not> fd_closed s"
  shows "\<exists>s'. rufs_init s = Inr s' \<and> super_block s' = no_superblock \<and> disk s' = disk s
    \<and> readi s' n = decode_inode (bytes_at (unat n mod 16 * 256) 256 (disk s (unat n div 16)))"
proof -
  have n: "unat n < 65536" using unsigned_less [of n, where 'a = nat] by simp
  have d: "uint n sdiv 16 = int (unat n div 16)" "uint n smod 16 = int (unat n mod 16)"
    by (simp_all only: uint_nat int_index16)
  have u: "unat (of_nat (unat n div 16) :: 32 word) = unat n div 16"
    using n unat_base_plus [of 0 "unat n div 16"] by simp
  define s1 where "s1 = s\<lparr>diskfile := True\<rparr>"
  have o: "dev_open s = (0, s1)" using assms by (simp add: dev_open_def s1_def)
  define s' where "s' = s1\<lparr>super_block := no_superblock, data_bitmap := disk s 0, inode_bitmap := disk s 0,
    inodes_per_block := 16, max_dir_entries := 19, fs_mutex := False\<rparr>"
  have "rufs_init s = Inr s'"
    using o assms(2) by (simp add: rufs_init_def s'_def s1_def dev_ready_def no_superblock_def bio_read_small BLOCK_SIZE_def sizeof_inode_def sizeof_dirent_def)
  moreover have "inode_block s' n = of_nat (unat n div 16)" "inode_offset s' n = unat n mod 16 * 256"
    using d by (simp_all add: inode_block_def inode_offset_def s'_def no_superblock_def sizeof_inode_def nat_mod_as_int)
  then have "readi s' n = decode_inode (bytes_at (unat n mod 16 * 256) 256 (disk s (unat n div 16)))"
    using n u assms(2) by (simp add: readi_def bio_read_small sizeof_inode_def dev_ready_def s'_def s1_def)
  ultimately show ?thesis by (intro exI [of _ s']) (simp add: s'_def s1_def)
qed

theorem rufs_init_forgets_superblock_witness:
  "\<exists>s'. rufs_init blank_fs = Inr s' \<and> super_block blank_fs \<noteq> super_block s'"
proof -
  have "disk_file blank_fs" "\<not> fd_closed blank_fs" by (simp_all add: blank_fs_def)
  from rufs_init_forgets_superblock [OF this] obtain s' where "rufs_init blank_fs = Inr s'" "super_block s' = no_superblock"
    by blast
  moreover have "super_block blank_fs \<noteq> no_superblock" by (simp add: blank_fs_def no_superblock_def)
  ultimately show ?thesis by auto
qed

end
