(* ===== verification/Fs_File.thy ===== *)
theory Fs_File
  imports Fs_Namespace
begin

text \<open>
  The FUSE operations on the contents of files (\<open>Level - 4/rufs.c\<close>): \<open>rufs_read\<close>, \<open>rufs_write\<close>
  and \<open>rufs_unlink\<close>.  Sizes are \<open>size_t\<close> and offsets \<open>off_t\<close>, both of 64 bits; the caller's
  buffer is a byte list, and an access past its end is a fault.

  The loops copy one block per round.  They never advance the buffer, so every block goes to, and
  comes from, its beginning.
\<close>

subsection \<open>Positions\<close>

text \<open>\<open>int start_block = offset / BLOCK_SIZE\<close> and \<open>int offset_in_block = offset % BLOCK_SIZE\<close>.\<close>

definition start_block :: "64 word \<Rightarrow> int" where
  "start_block offset = sint (of_int (sint offset sdiv int BLOCK_SIZE) :: 32 word)"

definition offset_in_block :: "64 word \<Rightarrow> int" where
  "offset_in_block offset = sint offset smod int BLOCK_SIZE"

text \<open>A \<open>size_t\<close> returned as an \<open>int\<close>.\<close>

definition as_int :: "64 word \<Rightarrow> int" where
  "as_int w = sint (ucast w :: 32 word)"

definition indir_cap :: nat where
  "indir_cap = BLOCK_SIZE div 4"

text \<open>The table and the place in it of an indirect block.\<close>

definition indirect_blk :: "int \<Rightarrow> nat" where
  "indirect_blk b = nat (b - 16) div indir_cap"

definition blk_index :: "int \<Rightarrow> nat" where
  "blk_index b = nat (b - 16) mod indir_cap"

subsection \<open>Reading\<close>

text \<open>The block that holds the data; None where the code says there is none.\<close>

definition block_ptr :: "fs \<Rightarrow> inode \<Rightarrow> int \<Rightarrow> 32 word option result" where
  "block_ptr s i b =
     (if b < 0 then Inl OutOfBounds
      else if b \<le> 15
      then let p = direct_ptr i ! nat b in Inr (if p = -1 then None else Some p)
      else case get_indirect (indirect_blk b) i of
          Inl f \<Rightarrow> Inl f
        | Inr t \<Rightarrow>
            if t = -1 then Inr None
            else let p = words_at 0 indir_cap (bio_read s t) ! blk_index b
              in Inr (if p = -1 then None else Some p))"

text \<open>The loop returns the number of bytes left: 0 when it ran to its end, more when it was left by
  the \<open>return size - size_copy\<close> in it.\<close>

function read_loop :: "fs \<Rightarrow> inode \<Rightarrow> int \<Rightarrow> int \<Rightarrow> nat \<Rightarrow> byte list \<Rightarrow> (nat \<times> byte list) result" where
  "read_loop s i b ofs size_copy buffer =
     (if size_copy = 0 then Inr (0, buffer)
      else case block_ptr s i b of
          Inl f \<Rightarrow> Inl f
        | Inr None \<Rightarrow> Inr (size_copy, buffer)
        | Inr (Some p) \<Rightarrow>
            if ofs < 0 \<or> int BLOCK_SIZE \<le> ofs then Inl OutOfBounds
            else let n = min size_copy (BLOCK_SIZE - nat ofs)
              in if length buffer < n then Inl OutOfBounds
                 else read_loop s i (b + 1) 0 (size_copy - n) (splice 0 (bytes_at (nat ofs) n (bio_read s p)) buffer))"
  by pat_completeness auto

termination
  by (relation "measure (\<lambda>(_, _, _, _, size_copy, _). size_copy)") auto

declare read_loop.simps [simp del]

definition rufs_read :: "byte list \<Rightarrow> byte list \<Rightarrow> 64 word \<Rightarrow> 64 word \<Rightarrow> fs \<Rightarrow> ((int \<times> byte list) \<times> fs) result" where
  "rufs_read path buffer sz offset = with_mutex (\<lambda>s.
     case get_node_by_path s path 0 of
       Inl f \<Rightarrow> Inl f
     | Inr None \<Rightarrow> Inr ((- ENOENT, buffer), s)
     | Inr (Some i) \<Rightarrow>
         if unat (offset + sz) > unat (isize i) then Inr ((0, buffer), s)
         else case read_loop s i (start_block offset) (offset_in_block offset) (unat sz) buffer of
           Inl f \<Rightarrow> Inl f
         | Inr (left, buffer) \<Rightarrow>
             if left > 0 then Inr ((as_int (sz - of_nat left), buffer), s)
             else
             let (now, s) = get_time s;
                 i = stat64 st_atime now i;
                 (_, s) = writei s (ino i) i
             in Inr ((as_int sz, buffer), s))"

subsection \<open>Writing\<close>

text \<open>The block to write to, allocated where there is none yet; None when the disk is full.\<close>

definition direct_block :: "fs \<Rightarrow> inode \<Rightarrow> int \<Rightarrow> ((32 word \<times> inode) option \<times> fs) result" where
  "direct_block s i b =
     (let p = direct_ptr i ! nat b
      in if b < 0 then Inl OutOfBounds
         else if p \<noteq> -1 then Inr (Some (p, i), s)
         else case get_avail_blkno s of
           Inl f \<Rightarrow> Inl f
         | Inr (p, s) \<Rightarrow>
             if p < 0 then Inr (None, s)
             else Inr (Some (of_int p, i\<lparr>direct_ptr := (direct_ptr i)[nat b := of_int p]\<rparr>), s))"

definition indirect_table :: "fs \<Rightarrow> inode \<Rightarrow> int \<Rightarrow> ((32 word \<times> inode) option \<times> fs) result" where
  "indirect_table s i b =
     (case get_indirect (indirect_blk b) i of
        Inl f \<Rightarrow> Inl f
      | Inr t \<Rightarrow>
          if t \<noteq> -1 then Inr (Some (t, i), s)
          else case get_avail_blkno s of
            Inl f \<Rightarrow> Inl f
          | Inr (new_blk, s) \<Rightarrow>
              if new_blk < 0 then Inr (None, s)
              else case set_indirect (indirect_blk b) (of_int new_blk) i of
                Inl f \<Rightarrow> Inl f
              | Inr i \<Rightarrow> Inr (Some (of_int new_blk, i), bio_write s (of_int new_blk) init_indirect_blk))"

definition indirect_block :: "fs \<Rightarrow> inode \<Rightarrow> int \<Rightarrow> ((32 word \<times> inode) option \<times> fs) result" where
  "indirect_block s i b =
     (case indirect_table s i b of
        Inl f \<Rightarrow> Inl f
      | Inr (None, s) \<Rightarrow> Inr (None, s)
      | Inr (Some (t, i), s) \<Rightarrow>
          let blk_ptrs = bio_read s t;
              p = words_at 0 indir_cap blk_ptrs ! blk_index b
          in if p \<noteq> -1 then Inr (Some (p, i), s)
             else case get_avail_blkno s of
               Inl f \<Rightarrow> Inl f
             | Inr (new_blk, s) \<Rightarrow>
                 if new_blk < 0 then Inr (None, s)
                 else Inr (Some (of_int new_blk, i),
                        bio_write s t (splice (4 * blk_index b) (le_bytes 4 (of_int new_blk :: 32 word)) blk_ptrs)))"

text \<open>How the loop ends: all written, no direct block left, no indirect block left.\<close>

datatype write_end = Written inode | No_direct nat | No_indirect

function write_loop :: "byte list \<Rightarrow> int \<Rightarrow> int \<Rightarrow> nat \<Rightarrow> inode \<Rightarrow> fs \<Rightarrow> (write_end \<times> fs) result" where
  "write_loop buffer b ofs size_copy i s =
     (if size_copy = 0 then Inr (Written i, s)
      else case (if b \<le> 15 then direct_block s i b else indirect_block s i b) of
          Inl f \<Rightarrow> Inl f
        | Inr (None, s) \<Rightarrow> Inr (if b \<le> 15 then No_direct size_copy else No_indirect, s)
        | Inr (Some (p, i), s) \<Rightarrow>
            if ofs < 0 \<or> int BLOCK_SIZE \<le> ofs then Inl OutOfBounds
            else let n = min size_copy (BLOCK_SIZE - nat ofs)
              in if length buffer < n then Inl OutOfBounds
                 else write_loop buffer (b + 1) 0 (size_copy - n) i
                        (bio_write s p (splice (nat ofs) (take n buffer) (bio_read s p))))"
  by pat_completeness auto

termination
  by (relation "measure (\<lambda>(_, _, _, size_copy, _, _). size_copy)") auto

declare write_loop.simps [simp del]

definition rufs_write :: "byte list \<Rightarrow> byte list \<Rightarrow> 64 word \<Rightarrow> 64 word \<Rightarrow> fs \<Rightarrow> (int \<times> fs) result" where
  "rufs_write path buffer sz offset = with_mutex (\<lambda>s.
     case get_node_by_path s path 0 of
       Inl f \<Rightarrow> Inl f
     | Inr None \<Rightarrow> Inr (- ENOENT, s)
     | Inr (Some i) \<Rightarrow>
         if sint offset > uint (isize i) then Inr (0, s)
         else case write_loop buffer (start_block offset) (offset_in_block offset) (unat sz) i s of
           Inl f \<Rightarrow> Inl f
         | Inr (No_direct left, s) \<Rightarrow> Inr (as_int (sz - of_nat left), s)
         | Inr (No_indirect, s) \<Rightarrow> Inr (- ENOSPC, s)
         | Inr (Written i, s) \<Rightarrow>
             let (now, s) = get_time s;
                 i = stat64 st_mtime now i;
                 i = i\<lparr>isize := isize i + ucast sz\<rparr>;
                 i = stat64 st_size (ucast (isize i)) i;
                 (_, s) = writei s (ino i) i
             in Inr (as_int sz, s))"

subsection \<open>Unlinking\<close>

text \<open>The blocks of an indirect table up to the first \<open>-1\<close>, and the tables up to the first \<open>-1\<close>.\<close>

primrec clear_ptrs_loop :: "32 word list \<Rightarrow> fs \<Rightarrow> fs result" where
  "clear_ptrs_loop [] s = Inr s"
| "clear_ptrs_loop (p # ps) s =
     (if p = -1 then Inr s
      else case clear_data_block s p of Inl f \<Rightarrow> Inl f | Inr s \<Rightarrow> clear_ptrs_loop ps s)"

primrec clear_tables_loop :: "inode \<Rightarrow> nat list \<Rightarrow> fs \<Rightarrow> fs result" where
  "clear_tables_loop i [] s = Inr s"
| "clear_tables_loop i (k # ks) s =
     (case get_indirect k i of
        Inl f \<Rightarrow> Inl f
      | Inr t \<Rightarrow>
          if t = -1 then Inr s
          else case clear_ptrs_loop (words_at 0 indir_cap (bio_read s t)) s of
            Inl f \<Rightarrow> Inl f
          | Inr s \<Rightarrow>
              (case clear_data_block s t of Inl f \<Rightarrow> Inl f | Inr s \<Rightarrow> clear_tables_loop i ks s))"

definition rufs_unlink :: "byte list \<Rightarrow> fs \<Rightarrow> (int \<times> fs) result" where
  "rufs_unlink path = with_mutex (\<lambda>s.
     case get_node_by_path s path 0 of
       Inl f \<Rightarrow> Inl f
     | Inr None \<Rightarrow> Inr (- ENOENT, s)
     | Inr (Some node) \<Rightarrow>
         (case clear_blocks_loop (direct_ptr node) s of
            Inl f \<Rightarrow> Inl f
          | Inr s \<Rightarrow>
              (case clear_tables_loop node [0..<16] s of
                 Inl f \<Rightarrow> Inl f
               | Inr s \<Rightarrow> remove_node path node s)))"

subsection \<open>Positions as numbers\<close>

lemma uint_of_nat_small: "n < 2147483648 \<Longrightarrow> unat (of_nat n :: 64 word) = n"
  by (simp add: unat_of_nat)

lemma sint_of_nat_small:
  assumes "n < 2147483648"
  shows "sint (of_nat n :: 64 word) = int n" "sint (of_nat n :: 32 word) = int n"
  using assms by (simp_all add: sint_uint unsigned_of_nat take_bit_nat_eq_self signed_take_bit_int_eq_self of_nat_take_bit)

lemma position_small:
  assumes "off < 2147483648"
  shows "start_block (of_nat off) = int (off div 4096)" "offset_in_block (of_nat off) = int (off mod 4096)"
    "as_int (of_nat off) = int off"
proof -
  note s = sint_of_nat_small [OF assms]
  have q: "sint (of_nat off :: 64 word) sdiv 4096 = int (off div 4096)"
    by (simp only: s) (simp add: c_arith zdiv_int)
  have "off div 4096 < 2147483648" using assms by linarith
  from sint_of_nat_small(2) [OF this] show "start_block (of_nat off) = int (off div 4096)"
    by (simp only: start_block_def BLOCK_SIZE_def of_nat_numeral q of_int_of_nat_eq)
  show "offset_in_block (of_nat off) = int (off mod 4096)"
    by (simp only: offset_in_block_def s) (simp add: BLOCK_SIZE_def c_arith zmod_int)
  have "(ucast (of_nat off :: 64 word) :: 32 word) = of_nat off"
    by (rule bit_word_eqI) (auto simp: bit_simps)
  then show "as_int (of_nat off) = int off" by (simp only: as_int_def s)
qed

subsection \<open>Files within the direct blocks\<close>

text \<open>The path names inode \<open>k\<close>.\<close>

definition file_at :: "fs \<Rightarrow> byte list \<Rightarrow> 16 word \<Rightarrow> bool" where
  "file_at s path k \<longleftrightarrow> path \<noteq> [] \<and> hd path = slash \<and> walk_names s 0 (comps path) = Some k
     \<and> mounted s \<and> unat k < MAX_INUM \<and> ino (readi s k) = k"

lemma file_found: "file_at s path k \<Longrightarrow> get_node_by_path (s\<lparr>fs_mutex := b\<rparr>) path 0 = Inr (Some (readi s k))"
  by (simp add: file_at_def get_node_absolute)

definition data_block :: "32 word \<Rightarrow> bool" where
  "data_block p \<longleftrightarrow> 67 \<le> unat p \<and> unat p < 16451"

lemma data_block_simps [simp]:
  assumes "data_block p"
  shows "p \<noteq> -1" "dev_ready s \<Longrightarrow> bio_read s p = disk s (unat p)"
    "dev_ready s \<Longrightarrow> bio_write s p buf = s\<lparr>disk := (disk s)(unat p := buf)\<rparr>"
proof -
  have u: "unat p < 524288" using assms by (simp add: data_block_def)
  have "unat (-1 :: 32 word) = 4294967295" by (simp add: unsigned_minus_1_eq_mask mask_eq_exp_minus_1)
  then have "unat p \<noteq> unat (-1 :: 32 word)" using u by linarith
  then show "p \<noteq> -1" by blast
  show "dev_ready s \<Longrightarrow> bio_read s p = disk s (unat p)" "dev_ready s \<Longrightarrow> bio_write s p buf = s\<lparr>disk := (disk s)(unat p := buf)\<rparr>"
    using u by (simp_all add: bio_read_small bio_write_small)
qed

lemma block_ptr_direct:
  "b \<le> 15 \<Longrightarrow> direct_ptr i ! b = p \<Longrightarrow> data_block p \<Longrightarrow> block_ptr s i (int b) = Inr (Some p)"
  by (auto simp: block_ptr_def Let_def)

lemma take_splice_front: "length xs = m \<Longrightarrow> take m (splice 0 xs ys) = xs"
  by (simp add: splice_def)

lemma drop_splice_front: "length xs \<le> m \<Longrightarrow> drop m (splice 0 xs ys) = drop m ys"
  by (simp add: splice_def)

text \<open>One block, and two.\<close>

lemma read_loop_one:
  assumes "b \<le> 15" and "data_block (direct_ptr i ! b)" and "ofs < 4096" and "0 < n" and "ofs + n \<le> 4096"
    and "n \<le> length buffer" and "dev_ready s"
  shows "read_loop s i (int b) (int ofs) n buffer
    = Inr (0, splice 0 (bytes_at ofs n (disk s (unat (direct_ptr i ! b)))) buffer)"
  using assms by (subst read_loop.simps) (simp add: block_ptr_direct BLOCK_SIZE_def Let_def read_loop.simps [of _ _ _ _ 0])

lemma read_loop_two:
  assumes "b < 15" and "data_block (direct_ptr i ! b)" and "data_block (direct_ptr i ! Suc b)" and "ofs < 4096"
    and "4096 < ofs + n" and "ofs + n \<le> 8192" and "4096 \<le> length buffer" and "mounted s"
  shows "read_loop s i (int b) (int ofs) n buffer
    = Inr (0, splice 0 (bytes_at 0 (ofs + n - 4096) (disk s (unat (direct_ptr i ! Suc b))))
        (splice 0 (bytes_at ofs (4096 - ofs) (disk s (unat (direct_ptr i ! b)))) buffer))"
proof -
  let ?c = "bytes_at ofs (4096 - ofs) (disk s (unat (direct_ptr i ! b)))"
  have "length (splice 0 ?c buffer) = length buffer"
    using assms mountedD(7) [OF assms(8)] by simp
  moreover have "min n (4096 - ofs) = 4096 - ofs" "n - (4096 - ofs) = ofs + n - 4096" using assms by simp_all
  ultimately show ?thesis
    using assms read_loop_one [of "Suc b" i 0 "ofs + n - 4096" "splice 0 ?c buffer" s]
    by (subst read_loop.simps) (simp add: block_ptr_direct BLOCK_SIZE_def Let_def add.commute)
qed

subsection \<open>Reading a file\<close>

text \<open>Storing a changed inode of the file: what the rest of the disk keeps.\<close>

definition only_inode :: "fs \<Rightarrow> 16 word \<Rightarrow> fs \<Rightarrow> bool" where
  "only_inode s k s' \<longleftrightarrow> mounted s' \<and> (\<forall>m. m \<noteq> k \<longrightarrow> readi s' m = readi s m)
     \<and> (\<forall>j. j < 3 \<or> 67 \<le> j \<longrightarrow> disk s' j = disk s j)"

lemma inode_stored:
  assumes m: "mounted s" and wf: "wf_inode i" and k: "unat k < MAX_INUM" and s': "s' = snd (writei s k i)"
  shows "only_inode s k s'" "readi s' k = stat64 st_ctime (clock s (ticks s)) i" "fs_mutex s' = fs_mutex s"
proof -
  have k': "unat k \<le> 1024" using k by (simp add: MAX_INUM_def)
  note W = writei_mounted [OF m k', of i] and R = readi_put_inode [OF m wf s' k']
  have "disk s' j = disk s j" if "j < 3 \<or> 67 \<le> j" for j using that W inode_block_lt [OF k] by (auto simp: s')
  then show "only_inode s k s'"
    using R mounted_writei [OF m wf k'] by (simp add: only_inode_def s')
  show "readi s' k = stat64 st_ctime (clock s (ticks s)) i" using R by simp
  show "fs_mutex s' = fs_mutex s" using W by (simp add: s')
qed

lemma mutex_inode [simp]: "only_inode s k (s'\<lparr>fs_mutex := b\<rparr>) = only_inode s k s'"
  "only_inode (s\<lparr>fs_mutex := b\<rparr>) k s' = only_inode s k s'" "only_inode (s\<lparr>ticks := t\<rparr>) k s' = only_inode s k s'"
  by (simp_all add: only_inode_def)

lemma read_finish:
  assumes f: "file_at s path k" "\<not> fs_mutex s" and size: "off + n \<le> unat (isize (readi s k))" "off + n < 2147483648"
    and run: "read_loop (s\<lparr>fs_mutex := True\<rparr>) (readi s k) (int (off div 4096)) (int (off mod 4096)) n buffer = Inr (0, buffer')"
  shows "\<exists>s'. rufs_read path buffer (of_nat n) (of_nat off) s = Inr ((int n, buffer'), s') \<and> \<not> fs_mutex s'
    \<and> only_inode s k s' \<and> isize (readi s' k) = isize (readi s k) \<and> direct_ptr (readi s' k) = direct_ptr (readi s k)"
proof -
  let ?s = "s\<lparr>fs_mutex := True\<rparr>" and ?i = "readi s k"
  have D: "mounted s" "unat k < MAX_INUM" "ino ?i = k" using f(1) by (simp_all add: file_at_def)
  define i where "i = stat64 st_atime (clock s (ticks s)) ?i"
  have wf: "wf_inode i" "ino i = k" using D by (simp_all add: i_def st_atime_def)
  define s1 where "s1 = ?s\<lparr>ticks := Suc (ticks s)\<rparr>"
  have m1: "mounted s1" using D(1) by (simp add: s1_def)
  obtain r s2 where w: "writei s1 k i = (r, s2)" by (metis surj_pair)
  then have "s2 = snd (writei s1 k i)" by simp
  note W = inode_stored [OF m1 wf(1) D(2) this]
  have "unat (of_nat off + of_nat n :: 64 word) = off + n"
    using size(2) uint_of_nat_small [of "off + n"] by (simp only: of_nat_add)
  moreover have "n < 2147483648" "off < 2147483648" using size(2) by simp_all
  ultimately have "rufs_read path buffer (of_nat n) (of_nat off) s = Inr ((int n, buffer'), s2\<lparr>fs_mutex := False\<rparr>)"
    using f size(1) run w
    by (simp add: rufs_read_def with_mutex_def file_found position_small uint_of_nat_small get_time_def
        i_def [symmetric] s1_def [symmetric] D(3))
  then show ?thesis
    using W(1,2) by (intro exI [of _ "s2\<lparr>fs_mutex := False\<rparr>"]) (simp add: s1_def i_def)
qed

lemma rufs_read_block_run:
  assumes "file_at s path k" and "\<not> fs_mutex s" and "off + n \<le> unat (isize (readi s k))" and "off + n < 2147483648"
    and "off div 4096 \<le> 15" and "data_block (direct_ptr (readi s k) ! (off div 4096))"
    and "0 < n" and "off mod 4096 + n \<le> 4096" and "n \<le> length buffer"
  shows "\<exists>s'. rufs_read path buffer (of_nat n) (of_nat off) s =
        Inr ((int n, bytes_at (off mod 4096) n (disk s (unat (direct_ptr (readi s k) ! (off div 4096)))) @ drop n buffer), s')
    \<and> \<not> fs_mutex s' \<and> only_inode s k s' \<and> isize (readi s' k) = isize (readi s k)"
proof -
  let ?blk = "disk s (unat (direct_ptr (readi s k) ! (off div 4096)))"
  have "mounted s" using assms(1) by (simp add: file_at_def)
  then have "length (bytes_at (off mod 4096) n ?blk) = n" using assms(8) mountedD(7) by simp
  then have "splice 0 (bytes_at (off mod 4096) n ?blk) buffer = bytes_at (off mod 4096) n ?blk @ drop n buffer"
    by (simp add: splice_def)
  moreover have "off mod 4096 < 4096" "dev_ready s" using \<open>mounted s\<close> by simp_all
  ultimately show ?thesis
    using read_loop_one [OF assms(5,6) _ assms(7,8,9), of "s\<lparr>fs_mutex := True\<rparr>"]
      read_finish [OF assms(1-4)] by fastforce
qed

text \<open>A read that stays inside one direct block of the file returns the bytes of the block at the
  offset, puts them at the start of the buffer and leaves the rest of the buffer, every other
  inode and every data block alone.\<close>

theorem rufs_read_block:
  assumes "file_at s path k" and "\<not> fs_mutex s" and "off + n \<le> unat (isize (readi s k))" and "off + n < 2147483648"
    and "off div 4096 \<le> 15" and "data_block (direct_ptr (readi s k) ! (off div 4096))"
    and "0 < n" and "off mod 4096 + n \<le> 4096" and "n \<le> length buffer"
  shows "\<exists>s'. rufs_read path buffer (of_nat n) (of_nat off) s =
        Inr ((int n, bytes_at (off mod 4096) n (disk s (unat (direct_ptr (readi s k) ! (off div 4096)))) @ drop n buffer), s')
    \<and> \<not> fs_mutex s' \<and> only_inode s k s' \<and> isize (readi s' k) = isize (readi s k)"
  using rufs_read_block_run [OF assms] .

text \<open>C30: A read that crosses from one direct block into the following one reports all \<open>n\<close> bytes as read, but the second block's
  bytes are copied over the first block's at the start of the buffer, and the buffer from position
  \<open>4096\<close> on is never filled.\<close>

theorem rufs_read_crossing_overlaps:
  assumes "file_at s path k" and "\<not> fs_mutex s" and "off + n \<le> unat (isize (readi s k))" and "off + n < 2147483648"
    and "b = off div 4096" and "b < 15" and "data_block (direct_ptr (readi s k) ! b)" and "data_block (direct_ptr (readi s k) ! Suc b)"
    and "4096 < off mod 4096 + n" and "off mod 4096 + n \<le> 8192" and "n \<le> length buffer" and "4096 \<le> length buffer"
  shows "\<exists>s' buffer'. rufs_read path buffer (of_nat n) (of_nat off) s = Inr ((int n, buffer'), s')
    \<and> take (off mod 4096 + n - 4096) buffer' =
        bytes_at 0 (off mod 4096 + n - 4096) (disk s (unat (direct_ptr (readi s k) ! Suc b)))
    \<and> drop 4096 buffer' = drop 4096 buffer"
proof -
  let ?o = "off mod 4096" and ?m = "off mod 4096 + n - 4096"
  let ?c = "bytes_at ?o (4096 - ?o) (disk s (unat (direct_ptr (readi s k) ! b)))"
  let ?d = "bytes_at 0 ?m (disk s (unat (direct_ptr (readi s k) ! Suc b)))"
  have m: "mounted s" using assms(1) by (simp add: file_at_def)
  have o: "?o < 4096" by simp
  have len: "length ?c = 4096 - ?o" "length ?d = ?m" using o assms(10) mountedD(7) [OF m] by simp_all
  have run: "read_loop (s\<lparr>fs_mutex := True\<rparr>) (readi s k) (int (off div 4096)) (int ?o) n buffer
      = Inr (0, splice 0 ?d (splice 0 ?c buffer))"
    using read_loop_two [OF assms(6,7,8) o assms(9,10,12), of "s\<lparr>fs_mutex := True\<rparr>"] m by (simp add: assms(5))
  have "take ?m (splice 0 ?d (splice 0 ?c buffer)) = ?d" using len(2) by (intro take_splice_front)
  moreover have "length ?d \<le> 4096" "length ?c \<le> 4096" using len assms(10) by linarith+
  then have "drop 4096 (splice 0 ?d (splice 0 ?c buffer)) = drop 4096 buffer" by (simp only: drop_splice_front)
  ultimately show ?thesis using read_finish [OF assms(1-4) run] by blast
qed

text \<open>A file \<open>"/a"\<close> of two blocks on a fresh disk.\<close>

lemma fresh_file:
  "\<exists>s. file_at s path_a 1 \<and> \<not> fs_mutex s \<and> isize (readi s 1) = 8192
    \<and> direct_ptr (readi s 1) = 70 # 71 # replicate 14 (-1) \<and> indirect_ptr (readi s 1) = replicate 8 (-1)
    \<and> dir_ok s 0 \<and> dir_block s 0 = 67 \<and> dir_map s 0 = [dotdot \<mapsto> 0, dot \<mapsto> 0, [97] \<mapsto> 1]
    \<and> (\<forall>j < MAX_INUM. lb_get (disk s 1) j \<longleftrightarrow> j = 0) \<and> (\<forall>j < MAX_DNUM. lb_get (disk s 2) j \<longleftrightarrow> j = 0)"
proof -
  obtain s where s: "dir_ok s 0" "dir_map s 0 = [dotdot \<mapsto> 0, dot \<mapsto> 0]" "\<not> dir_full s 0" "\<not> fs_mutex s"
      "\<forall>j < MAX_INUM. lb_get (disk s 1) j \<longleftrightarrow> j = 0" "\<forall>j < MAX_DNUM. lb_get (disk s 2) j \<longleftrightarrow> j = 0" "dir_block s 0 = 67"
    using fresh_fs by blast
  have "name_ok [97]" "dir_map s 0 [97] = None" using s(2) by (simp_all add: name_ok_def dot_def dotdot_def)
  then obtain s1 where s1: "dir_add s (readi s 0) 1 [97] = Inr (0, s1)" "dir_ok s1 0" "dir_map s1 0 = (dir_map s 0)([97] \<mapsto> 1)"
      "dir_block s1 0 = dir_block s 0" "\<forall>k. (k < 3 \<or> 67 \<le> k) \<and> k \<noteq> dir_block s 0 \<longrightarrow> disk s1 k = disk s k"
    using dir_add_cases(3) [OF s(1) _ refl, of "[97]" 1] s(3) by blast
  define i where "i = \<lparr>ino = 1, valid = 1, isize = 8192, itype = 0, ilink = 1, direct_ptr = 70 # 71 # replicate 14 (-1),
    indirect_ptr = replicate 8 (-1), vstat = replicate 144 0\<rparr>"
  have i: "wf_inode i" by (simp add: i_def wf_inode_def)
  have k: "unat (1 :: 16 word) < MAX_INUM" "(1 :: 16 word) \<noteq> 0" by (simp_all add: MAX_INUM_def)
  obtain r s2 where w: "(r, s2) = writei s1 1 i" by (metis surj_pair)
  note W = new_inode_written [OF s1(2) i w k]
  have ok: "mounted s2" using W(2) by (simp add: dir_ok_def)
  have "dir_map s2 0 [97] = Some 1" using W(3) s1(3) by simp
  then obtain e where "dir_find s2 0 [97] = Some e" "d_ino e = 1" by (auto simp: dir_map_def)
  moreover have "comps path_a = [[97]]" by (simp add: path_a_def comps.simps slash_def)
  ultimately have at: "file_at s2 path_a 1"
    using ok W(4) k(1) by (simp add: file_at_def i_def)
  have low: "disk s2 j = disk s j" if "j < 3" for j using that W(6) s1(5) s(7) by simp
  have node: "direct_ptr (readi s2 1) = 70 # 71 # replicate 14 (-1)" "indirect_ptr (readi s2 1) = replicate 8 (-1)"
    "isize (readi s2 1) = 8192"
    using W(4) by (simp_all add: i_def)
  have "direct_ptr (readi s2 0) = direct_ptr (readi s1 0)" using W(5) [of 0] k by (simp add: MAX_INUM_def)
  then have blk: "dir_block s2 0 = 67" using s1(4) s(7) by (simp add: dir_block_def)
  have "\<not> fs_mutex s2" using W(7) dir_add_mutex [OF s1(1)] s(4) by simp
  then show ?thesis
    using at node W(2,3) blk s1(3) s(2,5,6) low [of 1] low [of 2] by (intro exI [of _ s2]) (simp add: dot_def dotdot_def)
qed

theorem rufs_read_block_witness:
  "\<exists>s s'. rufs_read path_a (replicate 4096 7) 100 4096 s = Inr ((100, bytes_at 0 100 (disk s 71) @ replicate 3996 7), s')"
proof -
  obtain s where s: "file_at s path_a 1" "\<not> fs_mutex s" "isize (readi s 1) = 8192"
      "direct_ptr (readi s 1) = 70 # 71 # replicate 14 (-1)"
    using fresh_file by blast
  have "data_block (direct_ptr (readi s 1) ! (4096 div 4096))" using s(4) by (simp add: data_block_def)
  then show ?thesis
    using rufs_read_block [OF s(1,2), of 4096 100 "replicate 4096 7"] s(3,4) by auto
qed

theorem rufs_read_crossing_overlaps_witness:
  "\<exists>s s' buffer'. rufs_read path_a (replicate 8192 7) 8192 0 s = Inr ((8192, buffer'), s')
    \<and> take 4096 buffer' = disk s 71 \<and> drop 4096 buffer' = replicate 4096 7"
proof -
  obtain s where s: "file_at s path_a 1" "\<not> fs_mutex s" "isize (readi s 1) = 8192"
      "direct_ptr (readi s 1) = 70 # 71 # replicate 14 (-1)"
    using fresh_file by blast
  have d: "data_block (direct_ptr (readi s 1) ! 0)" "data_block (direct_ptr (readi s 1) ! Suc 0)"
    using s(4) by (simp_all add: data_block_def)
  have "length (disk s 71) = 4096" using s(1) mountedD(7) by (simp add: file_at_def)
  then show ?thesis
    using rufs_read_crossing_overlaps [OF s(1,2), of 0 8192 0 "replicate 8192 7"] s(3,4) d by (auto simp: bytes_at_def)
qed

subsection \<open>Writing a file\<close>

lemma write_loop_one:
  assumes "b \<le> 15" and "data_block (direct_ptr i ! b)" and "ofs < 4096" and "0 < n" and "ofs + n \<le> 4096"
    and "n \<le> length buffer" and "dev_ready s"
  shows "write_loop buffer (int b) (int ofs) n i s = Inr (Written i,
      s\<lparr>disk := (disk s)(unat (direct_ptr i ! b) := splice ofs (take n buffer) (disk s (unat (direct_ptr i ! b))))\<rparr>)"
  using assms by (subst write_loop.simps)
    (simp add: direct_block_def BLOCK_SIZE_def Let_def write_loop.simps [of _ _ _ 0])

text \<open>A block that is not there yet.\<close>

lemma write_loop_new:
  assumes "b \<le> 15" and "direct_ptr i ! b = -1" and "length (direct_ptr i) = 16" and "mounted s"
    and d: "first_clear MAX_DNUM (disk s 2) = Some d" and "ofs < 4096" and "0 < n" and "ofs + n \<le> 4096" and "n \<le> length buffer"
  shows "\<exists>s1. get_avail_blkno s = Inr (int (67 + d), s1) \<and> mounted s1 \<and> write_loop buffer (int b) (int ofs) n i s
    = Inr (Written (i\<lparr>direct_ptr := (direct_ptr i)[b := 67 + of_nat d]\<rparr>),
        s1\<lparr>disk := (disk s1)(67 + d := splice ofs (take n buffer) (disk s1 (67 + d)))\<rparr>)"
proof -
  let ?p = "67 + of_nat d :: 32 word"
  have db: "d < 16384" using first_clear_Some [OF d] by (simp add: MAX_DNUM_def)
  have u: "unat ?p = 67 + d" using db unat_base_plus [of 67 d] by simp
  then have p: "data_block ?p" using db by (simp add: data_block_def)
  have e: "of_int (int (67 + d)) = ?p" by simp
  define s1 where "s1 = s\<lparr>data_blocks_used := data_blocks_used s + 1, data_bitmap := lb_set (disk s 2) d,
    disk := (disk s)(2 := lb_set (disk s 2) d)\<rparr>"
  have a: "get_avail_blkno s = Inr (int (67 + d), s1)" using get_avail_blkno_mounted [OF assms(4)] d by (simp add: s1_def)
  have "direct_block s i (int b) = Inr (Some (?p, i\<lparr>direct_ptr := (direct_ptr i)[b := ?p]\<rparr>), s1)"
    using assms(1,2) a e by (simp add: direct_block_def)
  moreover have "mounted s1" using assms(4) by (simp add: s1_def mounted_def)
  ultimately show ?thesis
    using assms(1,6-9) a p u
    by (subst write_loop.simps) (simp add: BLOCK_SIZE_def Let_def write_loop.simps [of _ _ _ 0])
qed

lemma write_finish:
  assumes f: "file_at s path k" "\<not> fs_mutex s" and size: "off \<le> unat (isize (readi s k))" "off + n < 2147483648"
    and run: "write_loop buffer (int (off div 4096)) (int (off mod 4096)) n (readi s k) (s\<lparr>fs_mutex := True\<rparr>)
      = Inr (Written i, s1)"
    and s1: "mounted s1" and i: "wf_inode i" "ino i = k"
  shows "\<exists>s'. rufs_write path buffer (of_nat n) (of_nat off) s = Inr (int n, s') \<and> \<not> fs_mutex s'
    \<and> only_inode s1 k s' \<and> isize (readi s' k) = isize i + of_nat n \<and> direct_ptr (readi s' k) = direct_ptr i
    \<and> ino (readi s' k) = k \<and> indirect_ptr (readi s' k) = indirect_ptr i"
proof -
  have k: "unat k < MAX_INUM" using f(1) by (simp add: file_at_def)
  define i' where "i' = stat64 st_size (ucast (isize i + of_nat n))
    ((stat64 st_mtime (clock s1 (ticks s1)) i)\<lparr>isize := isize i + of_nat n\<rparr>)"
  have i': "wf_inode i'" "ino i' = k" "isize i' = isize i + of_nat n" "direct_ptr i' = direct_ptr i" "indirect_ptr i' = indirect_ptr i"
    using i by (simp_all add: i'_def st_size_def st_mtime_def)
  define s2 where "s2 = s1\<lparr>ticks := Suc (ticks s1)\<rparr>"
  have m2: "mounted s2" using s1 by (simp add: s2_def)
  obtain r s3 where w: "writei s2 k i' = (r, s3)" by (metis surj_pair)
  then have "s3 = snd (writei s2 k i')" by simp
  note W = inode_stored [OF m2 i'(1) k this]
  have n: "n < 2147483648" and o: "off < 2147483648" using size(2) by simp_all
  have u: "(ucast (of_nat n :: 64 word) :: 32 word) = of_nat n" by (rule bit_word_eqI) (auto simp: bit_simps)
  have "int off \<le> uint (isize (readi s k))" using size(1) by (simp only: uint_nat of_nat_le_iff)
  then have "\<not> sint (of_nat off :: 64 word) > uint (isize (readi s k))" by (simp only: sint_of_nat_small [OF o] not_less)
  then have "rufs_write path buffer (of_nat n) (of_nat off) s = Inr (int n, s3\<lparr>fs_mutex := False\<rparr>)"
    using f run w i
    by (simp add: rufs_write_def with_mutex_def file_found position_small [OF n] position_small [OF o]
        uint_of_nat_small [OF n] get_time_def u i'_def [symmetric] s2_def [symmetric] i'(2))
  then show ?thesis
    using W(1,2) i' by (intro exI [of _ "s3\<lparr>fs_mutex := False\<rparr>"]) (simp add: s2_def)
qed

lemma write_block:
  assumes "file_at s path k" and "\<not> fs_mutex s" and "off \<le> unat (isize (readi s k))" and "off + n < 2147483648"
    and "off div 4096 \<le> 15" and "data_block (direct_ptr (readi s k) ! (off div 4096))"
    and "0 < n" and "off mod 4096 + n \<le> 4096" and "n \<le> length buffer"
    and p: "p = unat (direct_ptr (readi s k) ! (off div 4096))"
  shows "\<exists>s'. rufs_write path buffer (of_nat n) (of_nat off) s = Inr (int n, s') \<and> \<not> fs_mutex s' \<and> mounted s'
    \<and> disk s' p = splice (off mod 4096) (take n buffer) (disk s p)
    \<and> (\<forall>j. (j < 3 \<or> 67 \<le> j) \<longrightarrow> j \<noteq> p \<longrightarrow> disk s' j = disk s j) \<and> (\<forall>m. unat m < MAX_INUM \<longrightarrow> m \<noteq> k \<longrightarrow> readi s' m = readi s m)
    \<and> direct_ptr (readi s' k) = direct_ptr (readi s k) \<and> isize (readi s' k) = isize (readi s k) + of_nat n
    \<and> ino (readi s' k) = k \<and> indirect_ptr (readi s' k) = indirect_ptr (readi s k)"
proof -
  let ?s = "s\<lparr>fs_mutex := True\<rparr>"
  have D: "mounted s" "unat k < MAX_INUM" "ino (readi s k) = k" using assms(1) by (simp_all add: file_at_def)
  have pb: "67 \<le> p" "p < 524288" using assms(6) p by (simp_all add: data_block_def)
  let ?new = "splice (off mod 4096) (take n buffer) (disk s p)"
  define s1 where "s1 = ?s\<lparr>disk := (disk s)(p := ?new)\<rparr>"
  have "off mod 4096 < 4096" by simp
  from write_loop_one [OF assms(5,6) this assms(7,8,9), of ?s]
  have run: "write_loop buffer (int (off div 4096)) (int (off mod 4096)) n (readi s k) ?s = Inr (Written (readi s k), s1)"
    using mounted_ready [OF D(1)] by (simp add: s1_def p)
  have "length ?new = 4096" using assms(8,9) mountedD(7) [OF D(1)] by simp
  then have m1: "mounted s1" using D(1) by (simp add: s1_def mounted_def BLOCK_SIZE_def)
  have r1: "readi s1 m = readi s m" if "unat m < MAX_INUM" for m
    using pb(1) inode_block_lt [OF that] by (intro readi_other_block [OF D(1) m1 that]) (simp add: s1_def)
  obtain s' where s': "rufs_write path buffer (of_nat n) (of_nat off) s = Inr (int n, s')" "\<not> fs_mutex s'" "only_inode s1 k s'"
      "isize (readi s' k) = isize (readi s k) + of_nat n" "direct_ptr (readi s' k) = direct_ptr (readi s k)" "ino (readi s' k) = k"
      "indirect_ptr (readi s' k) = indirect_ptr (readi s k)"
    using write_finish [OF assms(1-4) run m1 _ D(3)] D(1) by auto
  have dsk: "disk s' j = disk s1 j" if "j < 3 \<or> 67 \<le> j" for j using that s'(3) unfolding only_inode_def by blast
  have "disk s' p = ?new" using dsk [of p] pb(1) by (simp add: s1_def)
  then show ?thesis
    using s' dsk r1 by (intro exI [of _ s']) (simp add: only_inode_def s1_def)
qed

text \<open>A write that stays inside one present direct block of the file replaces exactly the bytes at
  the offset in that block, and no other data block, bitmap or inode changes.  The size of the
  file grows by the number of bytes written even where they overwrite old contents.\<close>

theorem rufs_write_block:
  assumes "file_at s path k" and "\<not> fs_mutex s" and "off \<le> unat (isize (readi s k))" and "off + n < 2147483648"
    and "off div 4096 \<le> 15" and "data_block (direct_ptr (readi s k) ! (off div 4096))"
    and "0 < n" and "off mod 4096 + n \<le> 4096" and "n \<le> length buffer"
    and "p = unat (direct_ptr (readi s k) ! (off div 4096))"
  shows "\<exists>s'. rufs_write path buffer (of_nat n) (of_nat off) s = Inr (int n, s') \<and> \<not> fs_mutex s'
    \<and> disk s' p = splice (off mod 4096) (take n buffer) (disk s p)
    \<and> (\<forall>j. (j < 3 \<or> 67 \<le> j) \<longrightarrow> j \<noteq> p \<longrightarrow> disk s' j = disk s j) \<and> (\<forall>m. unat m < MAX_INUM \<longrightarrow> m \<noteq> k \<longrightarrow> readi s' m = readi s m)
    \<and> direct_ptr (readi s' k) = direct_ptr (readi s k) \<and> isize (readi s' k) = isize (readi s k) + of_nat n"
  using write_block [OF assms] by blast

theorem rufs_write_block_witness:
  "\<exists>s s'. rufs_write path_a [1, 2, 3] 3 10 s = Inr (3, s') \<and> disk s' 70 = splice 10 [1, 2, 3] (disk s 70)
    \<and> isize (readi s 1) = 8192 \<and> isize (readi s' 1) = 8195"
proof -
  obtain s where s: "file_at s path_a 1" "\<not> fs_mutex s" "isize (readi s 1) = 8192"
      "direct_ptr (readi s 1) = 70 # 71 # replicate 14 (-1)"
    using fresh_file by blast
  have "data_block (direct_ptr (readi s 1) ! (10 div 4096))" using s(4) by (simp add: data_block_def)
  then show ?thesis
    using rufs_write_block [OF s(1,2), of 10 3 "[1, 2, 3]" 70] s(3,4) by auto
qed

subsection \<open>Writing and reading back\<close>

text \<open>The directories that the resolution of a path looks at.\<close>

primrec visits :: "fs \<Rightarrow> 16 word \<Rightarrow> byte list list \<Rightarrow> 16 word list" where
  "visits s n [] = []"
| "visits s n (nm # nms) = n # (case dir_find s n nm of None \<Rightarrow> [] | Some d \<Rightarrow> visits s (d_ino d) nms)"

lemma visits_frame [simp]: "visits (s\<lparr>fs_mutex := b\<rparr>) n nms = visits s n nms"
  "visits (s\<lparr>data_bitmap := d\<rparr>) n nms = visits s n nms"
  by (induction nms arbitrary: n) (simp_all split: option.split)

lemma walk_frame:
  assumes "mounted s'"
    and "\<forall>m \<in> set (visits s n nms). dir_ok s m \<and> readi s' m = readi s m \<and> disk s' (dir_block s m) = disk s (dir_block s m)"
  shows "walk_names s' n nms = walk_names s n nms"
  using assms(2)
proof (induction nms arbitrary: n)
  case (Cons nm nms)
  then have n: "dir_ok s n" "readi s' n = readi s n" "disk s' (dir_block s n) = disk s (dir_block s n)" by simp_all
  note F = dir_frame [OF n(1) assms(1) n(2,3)]
  have "dir_find s' n nm = dir_find s n nm"
    using n(3) by (simp only: dir_find_ok [OF n(1)] dir_find_ok [OF F(1)] F(3))
  then show ?case using Cons by (simp split: option.split)
qed simp

text \<open>The path runs through directories, none of which is the node \<open>k\<close> or keeps its table in one of
  the given blocks.\<close>

definition path_apart :: "fs \<Rightarrow> byte list list \<Rightarrow> 16 word \<Rightarrow> nat set \<Rightarrow> bool" where
  "path_apart s nms k B \<longleftrightarrow> (\<forall>m \<in> set (visits s 0 nms). dir_ok s m \<and> m \<noteq> k \<and> dir_block s m \<notin> B)"

lemma walk_apart:
  assumes "mounted s'" and "path_apart s nms k B" and "\<And>m. unat m < MAX_INUM \<Longrightarrow> m \<noteq> k \<Longrightarrow> readi s' m = readi s m"
    and "\<And>j. 67 \<le> j \<Longrightarrow> j \<notin> B \<Longrightarrow> disk s' j = disk s j"
  shows "walk_names s' 0 nms = walk_names s 0 nms"
proof (rule walk_frame [OF assms(1)], rule ballI)
  fix m
  assume "m \<in> set (visits s 0 nms)"
  then have "dir_ok s m" "m \<noteq> k" "dir_block s m \<notin> B" using assms(2) by (auto simp: path_apart_def)
  moreover from this have "unat m < MAX_INUM" "67 \<le> dir_block s m" by (simp_all add: dir_ok_def)
  ultimately show "dir_ok s m \<and> readi s' m = readi s m \<and> disk s' (dir_block s m) = disk s (dir_block s m)"
    using assms(3,4) by blast
qed

text \<open>C11: Within one direct block, what was written is read back: after a write of \<open>n\<close> bytes at an
  offset, a read of \<open>n\<close> bytes at the same offset returns \<open>n\<close> and these bytes.  The block is allocated, the offset is not
  beyond the end of the file, the new size and the offsets fit their integers, and the path to the file does not go through
  the block.\<close>

theorem write_read_roundtrip:
  assumes "file_at s path k" and "\<not> fs_mutex s" and "off \<le> unat (isize (readi s k))" and "off + n < 2147483648"
    and "off div 4096 \<le> 15" and "data_block (direct_ptr (readi s k) ! (off div 4096))"
    and "0 < n" and "off mod 4096 + n \<le> 4096" and "n \<le> length data" and "n \<le> length buffer"
    and "unat (isize (readi s k)) + n < 4294967296"
    and "path_apart s (comps path) k {unat (direct_ptr (readi s k) ! (off div 4096))}"
  shows "\<exists>s' s''. rufs_write path data (of_nat n) (of_nat off) s = Inr (int n, s')
    \<and> rufs_read path buffer (of_nat n) (of_nat off) s' = Inr ((int n, take n data @ drop n buffer), s'')"
proof -
  let ?p = "unat (direct_ptr (readi s k) ! (off div 4096))"
  obtain s' where s': "rufs_write path data (of_nat n) (of_nat off) s = Inr (int n, s')" "\<not> fs_mutex s'" "mounted s'"
      "disk s' ?p = splice (off mod 4096) (take n data) (disk s ?p)"
      "\<forall>j. (j < 3 \<or> 67 \<le> j) \<longrightarrow> j \<noteq> ?p \<longrightarrow> disk s' j = disk s j" "\<forall>m. unat m < MAX_INUM \<longrightarrow> m \<noteq> k \<longrightarrow> readi s' m = readi s m"
      "direct_ptr (readi s' k) = direct_ptr (readi s k)" "isize (readi s' k) = isize (readi s k) + of_nat n" "ino (readi s' k) = k"
    using write_block [OF assms(1-9) refl] by blast
  have "walk_names s' 0 (comps path) = walk_names s 0 (comps path)"
    using s'(5,6) by (intro walk_apart [OF s'(3) assms(12)]) auto
  then have at: "file_at s' path k" using assms(1) s'(3,9) by (simp add: file_at_def)
  have "unat (isize (readi s' k)) = unat (isize (readi s k)) + n"
    using assms(4,11) s'(8) by (simp add: unat_word_ariths unat_of_nat)
  then have size: "off + n \<le> unat (isize (readi s' k))" using assms(3) by simp
  have d: "data_block (direct_ptr (readi s' k) ! (off div 4096))" using assms(6) s'(7) by simp
  have "mounted s" using assms(1) by (simp add: file_at_def)
  then have "off mod 4096 + length (take n data) \<le> length (disk s ?p)" using assms(8,9) mountedD(7) by simp
  from splice_same [OF this] have "bytes_at (off mod 4096) n (disk s' ?p) = take n data"
    using assms(9) s'(4) by (simp add: bytes_at_def)
  then show ?thesis
    using s'(1,7) rufs_read_block_run [OF at s'(2) size assms(4,5) d assms(7,8,10)] by auto
qed

theorem write_read_roundtrip_witness:
  "\<exists>s s' s''. rufs_write path_a [1, 2, 3] 3 4097 s = Inr (3, s') \<and> rufs_read path_a [9, 9, 9, 9] 3 4097 s' = Inr ((3, [1, 2, 3, 9]), s'')"
proof -
  obtain s where s: "file_at s path_a 1" "\<not> fs_mutex s" "isize (readi s 1) = 8192"
      "direct_ptr (readi s 1) = 70 # 71 # replicate 14 (-1)" "dir_ok s 0" "dir_block s 0 = 67"
    using fresh_file by blast
  have "data_block (direct_ptr (readi s 1) ! (4097 div 4096))" using s(4) by (simp add: data_block_def)
  moreover have "comps path_a = [[97]]" by (simp add: path_a_def comps.simps slash_def)
  then have "path_apart s (comps path_a) 1 {unat (direct_ptr (readi s 1) ! (4097 div 4096))}"
    using s(4-6) by (simp add: path_apart_def split: option.split)
  ultimately show ?thesis
    using write_read_roundtrip [OF s(1,2), of 4097 3 "[1, 2, 3]" "[9, 9, 9, 9]"] s(3,4) by auto
qed

subsection \<open>Writing to a new block\<close>

lemma write_new:
  assumes "file_at s path k" and "\<not> fs_mutex s" and "off \<le> unat (isize (readi s k))" and "off + n < 2147483648"
    and "b = off div 4096" and "b \<le> 15" and "direct_ptr (readi s k) ! b = -1"
    and "0 < n" and "off mod 4096 + n \<le> 4096" and "n \<le> length buffer"
  shows "case first_clear MAX_DNUM (disk s 2) of
      None \<Rightarrow> \<exists>s'. rufs_write path buffer (of_nat n) (of_nat off) s = Inr (0, s') \<and> disk s' = disk s \<and> s' = s\<lparr>data_bitmap := disk s 2\<rparr>
    | Some d \<Rightarrow> \<exists>s'. rufs_write path buffer (of_nat n) (of_nat off) s = Inr (int n, s') \<and> \<not> fs_mutex s'
        \<and> direct_ptr (readi s' k) = (direct_ptr (readi s k))[b := 67 + of_nat d]
        \<and> isize (readi s' k) = isize (readi s k) + of_nat n
        \<and> disk s' (67 + d) = splice (off mod 4096) (take n buffer) (disk s (67 + d))
        \<and> (\<forall>j. lb_get (disk s' 2) j \<longleftrightarrow> j = d \<or> lb_get (disk s 2) j)
        \<and> (\<forall>j. (j < 2 \<or> 67 \<le> j) \<longrightarrow> j \<noteq> 67 + d \<longrightarrow> disk s' j = disk s j)
        \<and> mounted s' \<and> (\<forall>m. unat m < MAX_INUM \<longrightarrow> m \<noteq> k \<longrightarrow> readi s' m = readi s m)
        \<and> ino (readi s' k) = k \<and> indirect_ptr (readi s' k) = indirect_ptr (readi s k)"
proof -
  let ?s = "s\<lparr>fs_mutex := True\<rparr>" and ?i = "readi s k"
  have D: "mounted ?s" "mounted s" "ino ?i = k" using assms(1) by (simp_all add: file_at_def)
  have len: "length (direct_ptr ?i) = 16" using wf_readi [OF D(2)] by (simp add: wf_inode_def)
  show ?thesis
  proof (cases "first_clear MAX_DNUM (disk s 2)")
    case None
    have n: "n < 2147483648" and o: "off < 2147483648" using assms(4) by simp_all
    have "write_loop buffer (int b) (int (off mod 4096)) n ?i ?s = Inr (No_direct n, ?s\<lparr>data_bitmap := disk s 2\<rparr>)"
      using None assms(6-8) get_avail_blkno_mounted [OF D(1)]
      by (subst write_loop.simps) (simp add: direct_block_def)
    moreover have "int off \<le> uint (isize ?i)" using assms(3) by (simp only: uint_nat of_nat_le_iff)
    then have "\<not> sint (of_nat off :: 64 word) > uint (isize ?i)" by (simp only: sint_of_nat_small [OF o] not_less)
    moreover have "as_int 0 = 0" by (simp add: as_int_def)
    ultimately have "rufs_write path buffer (of_nat n) (of_nat off) s = Inr (0, s\<lparr>fs_mutex := False, data_bitmap := disk s 2\<rparr>)"
      using assms(1,2,5) by (simp add: rufs_write_def with_mutex_def file_found position_small [OF o] uint_of_nat_small [OF n])
    then show ?thesis using None assms(2) by auto
  next
    case (Some d)
    have db: "d < 16384" using first_clear_Some [OF Some] by (simp add: MAX_DNUM_def)
    let ?p = "67 + of_nat d :: 32 word"
    obtain s1 where s1: "get_avail_blkno ?s = Inr (int (67 + d), s1)" "mounted s1"
        "write_loop buffer (int b) (int (off mod 4096)) n ?i ?s = Inr (Written (?i\<lparr>direct_ptr := (direct_ptr ?i)[b := ?p]\<rparr>),
          s1\<lparr>disk := (disk s1)(67 + d := splice (off mod 4096) (take n buffer) (disk s1 (67 + d)))\<rparr>)"
      using write_loop_new [OF assms(6,7) len D(1), of d "off mod 4096" n buffer] Some assms(8-10) by auto
    have d1: "disk s1 = (disk s)(2 := lb_set (disk s 2) d)"
      using s1(1) get_avail_blkno_mounted [OF D(1)] Some by auto
    let ?new = "splice (off mod 4096) (take n buffer) (disk s1 (67 + d))"
    define s2 where "s2 = s1\<lparr>disk := (disk s1)(67 + d := ?new)\<rparr>"
    have "length ?new = 4096" using assms(9,10) mountedD(7) [OF s1(2)] by simp
    then have m2: "mounted s2" using s1(2) by (simp add: s2_def mounted_def BLOCK_SIZE_def)
    have i: "wf_inode (?i\<lparr>direct_ptr := (direct_ptr ?i)[b := ?p]\<rparr>)" using wf_readi [OF D(2)] by simp
    have run: "write_loop buffer (int (off div 4096)) (int (off mod 4096)) n ?i ?s
        = Inr (Written (?i\<lparr>direct_ptr := (direct_ptr ?i)[b := ?p]\<rparr>), s2)"
      using s1(3) by (simp add: s2_def assms(5))
    obtain s' where s': "rufs_write path buffer (of_nat n) (of_nat off) s = Inr (int n, s')" "\<not> fs_mutex s'" "only_inode s2 k s'"
        "isize (readi s' k) = isize ?i + of_nat n" "direct_ptr (readi s' k) = (direct_ptr ?i)[b := ?p]"
        "ino (readi s' k) = k" "indirect_ptr (readi s' k) = indirect_ptr ?i"
      using write_finish [OF assms(1-4) run m2 i] D(3) by auto
    have dsk: "disk s' j = disk s2 j" if "j < 3 \<or> 67 \<le> j" for j using that s'(3) unfolding only_inode_def by blast
    have "d < 8 * length (disk s 2)" using db mountedD(7) [OF D(2)] by simp
    then have "lb_get (disk s' 2) j \<longleftrightarrow> j = d \<or> lb_get (disk s 2) j" for j
      using dsk [of 2] lb_get_set by (simp add: s2_def d1)
    moreover have "disk s' j = disk s j" if "j < 2 \<or> 67 \<le> j" "j \<noteq> 67 + d" for j
      using that dsk [of j] by (auto simp: s2_def d1)
    moreover have "disk s' (67 + d) = splice (off mod 4096) (take n buffer) (disk s (67 + d))"
      using dsk [of "67 + d"] by (simp add: s2_def d1)
    moreover have "readi s' m = readi s m" if "unat m < MAX_INUM" "m \<noteq> k" for m
    proof -
      have "readi s' m = readi s2 m" using s'(3) that(2) by (simp add: only_inode_def)
      also have "\<dots> = readi s m"
        using inode_block_lt [OF that(1)] by (intro readi_other_block [OF D(2) m2 that(1)]) (simp add: s2_def d1)
      finally show ?thesis .
    qed
    moreover have "mounted s'" using s'(3) by (simp add: only_inode_def)
    ultimately show ?thesis using s' Some by auto
  qed
qed

text \<open>A write into a direct block that the file does not have yet takes the least free data block,
  marks exactly it in the bitmap, enters it in the inode and writes the bytes at the offset in it; with no data
  block left nothing is written and the result is 0.\<close>

theorem rufs_write_allocates:
  assumes "file_at s path k" and "\<not> fs_mutex s" and "off \<le> unat (isize (readi s k))" and "off + n < 2147483648"
    and "b = off div 4096" and "b \<le> 15" and "direct_ptr (readi s k) ! b = -1"
    and "0 < n" and "off mod 4096 + n \<le> 4096" and "n \<le> length buffer"
  shows "case first_clear MAX_DNUM (disk s 2) of
      None \<Rightarrow> \<exists>s'. rufs_write path buffer (of_nat n) (of_nat off) s = Inr (0, s') \<and> disk s' = disk s
    | Some d \<Rightarrow> \<exists>s'. rufs_write path buffer (of_nat n) (of_nat off) s = Inr (int n, s') \<and> \<not> fs_mutex s'
        \<and> direct_ptr (readi s' k) = (direct_ptr (readi s k))[b := 67 + of_nat d]
        \<and> isize (readi s' k) = isize (readi s k) + of_nat n
        \<and> disk s' (67 + d) = splice (off mod 4096) (take n buffer) (disk s (67 + d))
        \<and> (\<forall>j. lb_get (disk s' 2) j \<longleftrightarrow> j = d \<or> lb_get (disk s 2) j)
        \<and> (\<forall>j. (j < 2 \<or> 67 \<le> j) \<longrightarrow> j \<noteq> 67 + d \<longrightarrow> disk s' j = disk s j)"
  using write_new [OF assms] by (auto split: option.splits)

theorem rufs_write_allocates_witness:
  "\<exists>s s'. direct_ptr (readi s 1) ! 2 = -1 \<and> rufs_write path_a [1, 2, 3] 3 8192 s = Inr (3, s')
    \<and> direct_ptr (readi s' 1) ! 2 = 68 \<and> take 3 (disk s' 68) = [1, 2, 3]"
proof -
  obtain s where s: "file_at s path_a 1" "\<not> fs_mutex s" "isize (readi s 1) = 8192"
      "direct_ptr (readi s 1) = 70 # 71 # replicate 14 (-1)" "\<forall>j < MAX_DNUM. lb_get (disk s 2) j \<longleftrightarrow> j = 0"
    using fresh_file by blast
  have "first_clear MAX_DNUM (disk s 2) = Some 1"
    unfolding first_clear_def find_Some_iff using s(5) by (intro exI [of _ 1]) (simp add: MAX_DNUM_def)
  moreover have "direct_ptr (readi s 1) ! 2 = -1" using s(4) by simp
  ultimately obtain s' where s': "rufs_write path_a [1, 2, 3] 3 8192 s = Inr (3, s')"
      "direct_ptr (readi s' 1) = (direct_ptr (readi s 1))[2 := 68]" "disk s' 68 = splice 0 [1, 2, 3] (disk s 68)"
    using rufs_write_allocates [OF s(1,2), of 8192 3 2 "[1, 2, 3]"] s(3,4) by fastforce
  have "take 3 (splice 0 [1, 2, 3] (disk s 68)) = [1, 2, 3]" by (rule take_splice_front) simp
  moreover have "direct_ptr (readi s 1) ! 2 = -1" "direct_ptr (readi s' 1) ! 2 = 68" using s(4) s'(2) by simp_all
  ultimately show ?thesis using s'(1,3) by metis
qed

end
