(* ===== verification/Fs_Remove.thy ===== *)
theory Fs_Remove
  imports Fs_File
begin

text \<open>
  Removing names (\<open>Level - 4/rufs.c\<close>): what \<open>clear_data_block\<close>, \<open>clear_inode\<close>, \<open>rufs_unlink\<close>
  and \<open>rufs_rmdir\<close> do to the disk.
\<close>

subsection \<open>Giving data blocks back\<close>

definition cleared :: "fs \<Rightarrow> nat set \<Rightarrow> fs \<Rightarrow> bool" where
  "cleared s B s' \<longleftrightarrow> mounted s' \<and> (\<forall>b \<in> B. 67 \<le> b \<and> disk s' b = zero_block)
     \<and> (\<forall>j. lb_get (disk s' 2) j \<longleftrightarrow> lb_get (disk s 2) j \<and> 67 + j \<notin> B)
     \<and> (\<forall>j. j \<noteq> 2 \<longrightarrow> j \<notin> B \<longrightarrow> disk s' j = disk s j) \<and> fs_mutex s' = fs_mutex s"

lemma cleared_none: "mounted s \<Longrightarrow> cleared s {} s"
  by (simp add: cleared_def)

lemma cleared_trans:
  assumes "cleared s A s1" and "cleared s1 B s2"
  shows "cleared s (A \<union> B) s2"
proof -
  have "disk s2 b = zero_block" if "b \<in> A \<union> B" for b
  proof (cases "b \<in> B")
    case True
    then show ?thesis using assms(2) by (simp add: cleared_def)
  next
    case False
    then have "67 \<le> b" "disk s1 b = zero_block" using that assms(1) by (auto simp: cleared_def)
    moreover from this have "b \<noteq> 2" by simp
    ultimately show ?thesis using False assms(2) by (simp add: cleared_def)
  qed
  then show ?thesis using assms by (auto simp: cleared_def)
qed

lemma clear_data_block_spec:
  assumes m: "mounted s" and p: "data_block p"
  shows "\<exists>s'. clear_data_block s p = Inr s' \<and> cleared s {unat p} s'"
proof -
  note D = mountedD [OF m]
  have pb: "67 \<le> unat p" "unat p < 16451" using p by (simp_all add: data_block_def)
  have "unat (p - 67) = unat p - 67" using pb(1) by (simp add: unat_sub word_le_nat_alt)
  moreover from this have "sint (p - 67) = int (unat (p - 67))" using pb by (intro sint_index) simp
  ultimately have ix: "sint (p - d_start_blk (super_block s)) = int (unat p - 67)" by (simp only: D(4))
  define s1 where "s1 = s\<lparr>disk := (disk s)(unat p := zero_block), data_bitmap := disk s 2\<rparr>"
  let ?b = "lb_unset (disk s 2) (unat p - 67)"
  have bits: "unat p - 67 < 8 * length (disk s 2)" using pb D(7) by simp
  define s' where "s' = s1\<lparr>data_bitmap := ?b, disk := (disk s1)(2 := ?b), data_blocks_cleared := data_blocks_cleared s1 + 1\<rparr>"
  have run: "clear_data_block s p = Inr s'"
    using p pb(1) bitmap_in(2) [OF bits] D(2) ix mounted_ready [OF m]
    by (simp add: clear_data_block_def Let_def bio_read_small bio_write_small s'_def s1_def zero_block_def)
  have "mounted s'" using m by (simp add: s'_def s1_def mounted_def zero_block_def)
  moreover have "lb_get (disk s' 2) j \<longleftrightarrow> lb_get (disk s 2) j \<and> 67 + j \<noteq> unat p" for j
    using lb_get_unset [OF bits, of j] pb(1) by (auto simp: s'_def)
  ultimately have "cleared s {unat p} s'"
    using pb(1) by (auto simp: cleared_def s'_def s1_def)
  then show ?thesis using run by blast
qed

text \<open>The blocks behind an array of pointers.\<close>

definition blocks_of :: "32 word list \<Rightarrow> nat set" where
  "blocks_of ps = unat ` {p \<in> set ps. p \<noteq> -1}"

definition pointers_ok :: "32 word list \<Rightarrow> bool" where
  "pointers_ok ps \<longleftrightarrow> (\<forall>p \<in> set ps. p = -1 \<or> data_block p)"

lemma clear_blocks_loop_spec:
  assumes "mounted s" and "pointers_ok ps"
  shows "\<exists>s'. clear_blocks_loop ps s = Inr s' \<and> cleared s (blocks_of ps) s'"
  using assms
proof (induction ps arbitrary: s)
  case Nil
  then show ?case by (simp add: cleared_none blocks_of_def)
next
  case (Cons p ps)
  have ps: "pointers_ok ps" using Cons.prems by (simp add: pointers_ok_def)
  show ?case
  proof (cases "p = -1")
    case True
    then have "blocks_of (p # ps) = blocks_of ps" by (auto simp: blocks_of_def)
    then show ?thesis using True Cons.IH [OF Cons.prems(1) ps] by simp
  next
    case False
    then have "data_block p" using Cons.prems by (simp add: pointers_ok_def)
    then obtain s1 where s1: "clear_data_block s p = Inr s1" "cleared s {unat p} s1"
      using clear_data_block_spec [OF Cons.prems(1)] by blast
    then have "mounted s1" by (simp add: cleared_def)
    then obtain s2 where s2: "clear_blocks_loop ps s1 = Inr s2" "cleared s1 (blocks_of ps) s2"
      using Cons.IH ps by blast
    have "blocks_of (p # ps) = {unat p} \<union> blocks_of ps" using False by (auto simp: blocks_of_def)
    then show ?thesis using False s1(1) s2(1) cleared_trans [OF s1(2) s2(2)] by simp
  qed
qed

text \<open>Clearing data blocks leaves the inodes alone.\<close>

lemma cleared_readi:
  assumes "mounted s" and "cleared s B s'" and "unat m < MAX_INUM"
  shows "readi s' m = readi s m"
proof (rule readi_other_block [OF assms(1) _ assms(3)])
  show "mounted s'" using assms(2) by (simp add: cleared_def)
  have "3 + unat m div 16 \<notin> B" using assms(2) inode_block_lt [OF assms(3)] by (auto simp: cleared_def)
  then show "disk s' (3 + unat m div 16) = disk s (3 + unat m div 16)" using assms(2) by (simp add: cleared_def)
qed

subsection \<open>Giving inodes back\<close>

lemma clear_inode_spec:
  assumes m: "mounted s" and k: "unat k < MAX_INUM"
  shows "\<exists>s'. clear_inode s (uint k) = Inr s' \<and> mounted s' \<and> (\<forall>m. unat m < MAX_INUM \<longrightarrow> m \<noteq> k \<longrightarrow> readi s' m = readi s m)
    \<and> valid (readi s' k) = 0 \<and> (\<forall>j. lb_get (disk s' 1) j \<longleftrightarrow> lb_get (disk s 1) j \<and> j \<noteq> unat k)
    \<and> (\<forall>j. j = 2 \<or> 67 \<le> j \<longrightarrow> disk s' j = disk s j) \<and> fs_mutex s' = fs_mutex s"
proof -
  let ?i = "(readi s k)\<lparr>ino := 0, ilink := 0, isize := 0, itype := 0, valid := 0\<rparr>"
  have wf: "wf_inode ?i" using wf_readi [OF m] by simp
  then have "length (direct_ptr ?i) = 16" by (simp add: wf_inode_def)
  then have c: "clear_direct_loop 16 ?i = ?i\<lparr>direct_ptr := replicate 16 (-1)\<rparr>" by (rule clear_direct_loop_16)
  have "wf_inode (?i\<lparr>direct_ptr := replicate 16 (-1)\<rparr>)" using wf by (simp add: wf_inode_def)
  then obtain i where i: "clear_indirect_loop 16 (clear_direct_loop 16 ?i) = Inr i" "wf_inode i" "valid i = 0"
    using clear_indirect_loop_ok [of 16 "?i\<lparr>direct_ptr := replicate 16 (-1)\<rparr>"] c by auto
  obtain r s1 where w: "writei s k i = (r, s1)" by (metis surj_pair)
  then have "s1 = snd (writei s k i)" by simp
  note W = inode_stored [OF m i(2) k this]
  have m1: "mounted s1" using W(1) by (simp add: only_inode_def)
  note D = mountedD [OF m1]
  let ?b = "lb_unset (disk s1 1) (unat k)"
  have bits: "unat k < 8 * length (disk s1 1)" using k D(7) by (simp add: MAX_INUM_def)
  define s' where "s' = s1\<lparr>inode_bitmap := ?b, disk := (disk s1)(1 := ?b), total_inodes_cleared := total_inodes_cleared s1 + 1\<rparr>"
  have run: "clear_inode s (uint k) = Inr s'"
    using i(1) w bitmap_in(2) [OF bits] D(1) mounted_ready [OF m1]
    by (simp add: clear_inode_def Let_def bio_read_small bio_write_small s'_def)
  have m': "mounted s'" using m1 by (simp add: s'_def mounted_def)
  have r: "readi s' x = readi s1 x" if "unat x < MAX_INUM" for x
    by (rule readi_other_block [OF m1 m' that]) (simp add: s'_def)
  have "disk s1 1 = disk s 1" using W(1) by (simp add: only_inode_def)
  then have "\<forall>j. lb_get (disk s' 1) j \<longleftrightarrow> lb_get (disk s 1) j \<and> j \<noteq> unat k"
    using lb_get_unset [OF bits] by (auto simp: s'_def)
  moreover have "valid (readi s' k) = 0" using r [OF k] W(2) i(3) by simp
  moreover have "\<forall>m. unat m < MAX_INUM \<longrightarrow> m \<noteq> k \<longrightarrow> readi s' m = readi s m" using r W(1) by (simp add: only_inode_def)
  moreover have "\<forall>j. j = 2 \<or> 67 \<le> j \<longrightarrow> disk s' j = disk s j" using W(1) by (auto simp: s'_def only_inode_def)
  ultimately show ?thesis using run m' W(3) by (intro exI [of _ s']) (simp add: s'_def)
qed

subsection \<open>Removing a name\<close>

text \<open>The path names node \<open>k\<close> in the directory \<open>n\<close>; the blocks of the node hold none of the
  directories that the path goes through.\<close>

definition removable :: "fs \<Rightarrow> byte list \<Rightarrow> 16 word \<Rightarrow> 16 word \<Rightarrow> bool" where
  "removable s path n k \<longleftrightarrow> file_at s path k \<and> dir_ok s n \<and> n \<noteq> k
     \<and> walk_names s 0 (comps (dirname path)) = Some n \<and> basename path \<noteq> [] \<and> dir_map s n (basename path) = Some k
     \<and> pointers_ok (direct_ptr (readi s k)) \<and> dir_block s n \<notin> blocks_of (direct_ptr (readi s k))
     \<and> path_apart s (comps (dirname path)) k (blocks_of (direct_ptr (readi s k)))"

text \<open>The disk afterwards.\<close>

definition removed :: "fs \<Rightarrow> byte list \<Rightarrow> 16 word \<Rightarrow> 16 word \<Rightarrow> fs \<Rightarrow> bool" where
  "removed s path n k s' \<longleftrightarrow> dir_ok s' n \<and> dir_map s' n = (dir_map s n)(basename path := None)
     \<and> same_node (readi s n) (readi s' n)
     \<and> valid (readi s' k) = 0 \<and> (\<forall>j. lb_get (disk s' 1) j \<longleftrightarrow> lb_get (disk s 1) j \<and> j \<noteq> unat k)
     \<and> (\<forall>j. lb_get (disk s' 2) j \<longleftrightarrow> lb_get (disk s 2) j \<and> 67 + j \<notin> blocks_of (direct_ptr (readi s k)))
     \<and> (\<forall>m. unat m < MAX_INUM \<longrightarrow> m \<noteq> n \<longrightarrow> m \<noteq> k \<longrightarrow> readi s' m = readi s m)
     \<and> (\<forall>b. 67 \<le> b \<longrightarrow> b \<noteq> dir_block s n \<longrightarrow> disk s' b = (if b \<in> blocks_of (direct_ptr (readi s k)) then zero_block else disk s b))"

lemma mutex_removed [simp]: "removed s path n k (s'\<lparr>fs_mutex := b\<rparr>) = removed s path n k s'"
  by (simp add: removed_def)

lemma dir_remove_mutex: "dir_remove s i nm = Inr (r, s') \<Longrightarrow> fs_mutex s' = fs_mutex s"
  by (auto simp: dir_remove_def Let_def touch_dir_def get_time_def writei_def bio_write_def
      split: if_splits option.splits sum.splits)

lemma node_removed:
  assumes rm: "removable s path n k" and c: "cleared s (blocks_of (direct_ptr (readi s k))) s1"
  shows "\<exists>s'. remove_node path (readi s k) s1 = Inr (0, s') \<and> removed s path n k s' \<and> fs_mutex s' = fs_mutex s"
proof -
  let ?B = "blocks_of (direct_ptr (readi s k))"
  have R: "file_at s path k" "dir_ok s n" "n \<noteq> k" "walk_names s 0 (comps (dirname path)) = Some n" "basename path \<noteq> []"
      "dir_map s n (basename path) = Some k" "dir_block s n \<notin> ?B" "path_apart s (comps (dirname path)) k ?B"
    using rm by (simp_all add: removable_def)
  have K: "mounted s" "unat k < MAX_INUM" "ino (readi s k) = k" "path \<noteq> []" "hd path = slash"
    using R(1) by (simp_all add: file_at_def)
  have m1: "mounted s1" using c by (simp add: cleared_def)
  obtain s2 where s2: "clear_inode s1 (uint k) = Inr s2" "mounted s2" "\<forall>m. unat m < MAX_INUM \<longrightarrow> m \<noteq> k \<longrightarrow> readi s2 m = readi s1 m"
      "valid (readi s2 k) = 0" "\<forall>j. lb_get (disk s2 1) j \<longleftrightarrow> lb_get (disk s1 1) j \<and> j \<noteq> unat k"
      "\<forall>j. j = 2 \<or> 67 \<le> j \<longrightarrow> disk s2 j = disk s1 j" "fs_mutex s2 = fs_mutex s1"
    using clear_inode_spec [OF m1 K(2)] by blast
  have r2: "readi s2 m = readi s m" if "unat m < MAX_INUM" "m \<noteq> k" for m
    using that s2(3) cleared_readi [OF K(1) c] by simp
  have d2: "disk s2 j = (if j \<in> ?B then zero_block else disk s j)" if "67 \<le> j" for j
    using that s2(6) c by (auto simp: cleared_def)
  have n: "unat n < MAX_INUM" "67 \<le> dir_block s n" using R(2) by (simp_all add: dir_ok_def)
  have "disk s2 (dir_block s n) = disk s (dir_block s n)" using d2 [OF n(2)] R(7) by simp
  note N = dir_frame [OF R(2) s2(2) r2 [OF n(1) R(3)] this]
  have "walk_names s2 0 (comps (dirname path)) = Some n"
    using walk_apart [OF s2(2) R(8)] r2 d2 R(4) by simp
  moreover have "dirname path \<noteq> [] \<and> hd (dirname path) = slash" by (rule dirname_absolute [OF K(4,5)])
  ultimately have found: "get_node_by_path s2 (dirname path) 0 = Inr (Some (readi s2 n))" by (simp add: get_node_absolute)
  have "dir_map s2 n (basename path) \<noteq> None" using N(2) R(6) by simp
  then obtain s3 where s3: "dir_remove s2 (readi s2 n) (basename path) = Inr (0, s3)" "dir_ok s3 n"
      "dir_map s3 n = (dir_map s2 n)(basename path := None)" "\<forall>m. unat m < MAX_INUM \<longrightarrow> m \<noteq> n \<longrightarrow> readi s3 m = readi s2 m"
      "\<forall>k. (k < 3 \<or> 67 \<le> k) \<and> k \<noteq> dir_block s2 n \<longrightarrow> disk s3 k = disk s2 k" "same_node (readi s2 n) (readi s3 n)"
    using dir_remove_cases(2) [OF N(1) R(5) refl] by blast
  have run: "remove_node path (readi s k) s1 = Inr (0, s3)"
    using s2(1) found s3(1) by (simp add: remove_node_def K(3))
  have low: "disk s3 j = disk s2 j" if "j < 3" for j
    using that s3(5) N(3) n(2) by simp
  have "1 \<notin> ?B" using c by (force simp: cleared_def)
  then have "disk s1 1 = disk s 1" using c by (simp add: cleared_def)
  then have "removed s path n k s3"
    using s2(4-6) s3(2-6) N(2,3) n(1) R(3) K(2) r2 d2 low [of 1] low [of 2] c
    by (simp add: removed_def cleared_def)
  moreover have "fs_mutex s3 = fs_mutex s" using dir_remove_mutex [OF s3(1)] s2(7) c by (simp add: cleared_def)
  ultimately show ?thesis using run by blast
qed

lemma rufs_unlink_removed:
  assumes "removable s path n k" and "\<not> fs_mutex s" and "indirect_ptr (readi s k) ! 0 = -1"
  shows "\<exists>s'. rufs_unlink path s = Inr (0, s') \<and> removed s path n k s' \<and> \<not> fs_mutex s'"
proof -
  let ?s = "s\<lparr>fs_mutex := True\<rparr>"
  have R: "removable ?s path n k" "mounted ?s" "file_at s path k" "pointers_ok (direct_ptr (readi s k))"
    using assms(1) by (simp_all add: removable_def file_at_def path_apart_def)
  obtain s1 where s1: "clear_blocks_loop (direct_ptr (readi s k)) ?s = Inr s1" "cleared ?s (blocks_of (direct_ptr (readi ?s k))) s1"
    using clear_blocks_loop_spec [OF R(2,4)] by auto
  have "clear_tables_loop (readi s k) [0..<16] s1 = Inr s1"
    using assms(3) by (simp add: upt_conv_Cons get_indirect_def)
  moreover obtain s' where "remove_node path (readi s k) s1 = Inr (0, s')" "removed ?s path n k s'"
    using node_removed [OF R(1) s1(2)] by auto
  moreover from this(2) have "removed s path n k s'" by (simp add: removed_def)
  ultimately show ?thesis
    using s1(1) assms(2) file_found [OF R(3)]
    by (intro exI [of _ "s'\<lparr>fs_mutex := False\<rparr>"]) (simp add: rufs_unlink_def with_mutex_def)
qed

text \<open>C12: Unlinking a file without indirect blocks returns 0: its name disappears from the directory, its
  inode becomes invalid and free, its data blocks are zeroed and free, and every other inode,
  block and bit keeps its value.\<close>

theorem rufs_unlink_removes:
  assumes "removable s path n k" and "\<not> fs_mutex s" and "indirect_ptr (readi s k) ! 0 = -1"
  shows "\<exists>s'. rufs_unlink path s = Inr (0, s') \<and> removed s path n k s' \<and> \<not> fs_mutex s'"
  by (rule rufs_unlink_removed [OF assms])

lemma rufs_rmdir_removed:
  assumes "removable s path n k" and "\<not> fs_mutex s"
  shows "\<exists>s'. rufs_rmdir path s = Inr (0, s') \<and> removed s path n k s' \<and> \<not> fs_mutex s'"
proof -
  let ?s = "s\<lparr>fs_mutex := True, data_bitmap := bio_read s (d_bitmap_blk (super_block s))\<rparr>"
  have R: "removable ?s path n k" "mounted ?s" "file_at s path k" "pointers_ok (direct_ptr (readi s k))"
    using assms(1) by (simp_all add: removable_def file_at_def path_apart_def)
  obtain s1 where s1: "clear_blocks_loop (direct_ptr (readi s k)) ?s = Inr s1" "cleared ?s (blocks_of (direct_ptr (readi ?s k))) s1"
    using clear_blocks_loop_spec [OF R(2,4)] by auto
  moreover obtain s' where "remove_node path (readi s k) s1 = Inr (0, s')" "removed ?s path n k s'"
    using node_removed [OF R(1) s1(2)] by auto
  moreover from this(2) have "removed s path n k s'" by (simp add: removed_def)
  ultimately show ?thesis
    using assms(2) file_found [OF R(3)] zero_block_empty
    by (intro exI [of _ "s'\<lparr>fs_mutex := False\<rparr>"]) (simp add: rufs_rmdir_def with_mutex_def)
qed

text \<open>C29: \<open>rufs_rmdir\<close> removes what the path names, whatever it is: an empty directory, a directory with
  entries (which become unreachable) or a regular file; the effect is that of \<open>rufs_unlink\<close>.\<close>

theorem rufs_rmdir_removes_anything:
  assumes "removable s path n k" and "\<not> fs_mutex s"
  shows "\<exists>s'. rufs_rmdir path s = Inr (0, s') \<and> removed s path n k s' \<and> \<not> fs_mutex s'"
  by (rule rufs_rmdir_removed [OF assms])

subsection \<open>Examples\<close>

lemma fresh_removable:
  "\<exists>s. removable s path_a 0 1 \<and> \<not> fs_mutex s \<and> indirect_ptr (readi s 1) ! 0 = -1
    \<and> dir_map s 0 = [dotdot \<mapsto> 0, dot \<mapsto> 0, [97] \<mapsto> 1] \<and> blocks_of (direct_ptr (readi s 1)) = {70, 71}"
proof -
  obtain s where s: "file_at s path_a 1" "\<not> fs_mutex s" "direct_ptr (readi s 1) = 70 # 71 # replicate 14 (-1)"
      "indirect_ptr (readi s 1) = replicate 8 (-1)" "dir_ok s 0" "dir_block s 0 = 67"
      "dir_map s 0 = [dotdot \<mapsto> 0, dot \<mapsto> 0, [97] \<mapsto> 1]"
    using fresh_file by blast
  have "{p \<in> set (70 # 71 # replicate 14 (-1 :: 32 word)). p \<noteq> -1} = {70, 71}" by auto
  then have b: "blocks_of (direct_ptr (readi s 1)) = {70, 71}" by (simp only: blocks_of_def s(3)) simp
  have "pointers_ok (direct_ptr (readi s 1))" by (simp add: s(3) pointers_ok_def data_block_def)
  then have "removable s path_a 0 1"
    using s(1,5-7) b by (simp add: removable_def path_apart_def)
  then show ?thesis using s(2,4,7) b by (intro exI [of _ s]) simp
qed

lemma without_a: "([dotdot \<mapsto> 0, dot \<mapsto> 0, [97] \<mapsto> 1])([97] := None) = [dotdot \<mapsto> 0, dot \<mapsto> (0 :: 16 word)]"
  by (auto simp: fun_eq_iff dot_def dotdot_def)

theorem rufs_unlink_removes_witness:
  "\<exists>s s'. rufs_unlink path_a s = Inr (0, s') \<and> dir_map s' 0 = [dotdot \<mapsto> 0, dot \<mapsto> 0] \<and> disk s' 70 = zero_block"
proof -
  obtain s where s: "removable s path_a 0 1" "\<not> fs_mutex s" "indirect_ptr (readi s 1) ! 0 = -1"
      "dir_map s 0 = [dotdot \<mapsto> 0, dot \<mapsto> 0, [97] \<mapsto> 1]" "blocks_of (direct_ptr (readi s 1)) = {70, 71}"
    using fresh_removable by blast
  obtain s' where s': "rufs_unlink path_a s = Inr (0, s')" "removed s path_a 0 1 s'"
    using rufs_unlink_removes [OF s(1-3)] by blast
  have "dir_block s 0 \<noteq> 70" using s(1,5) by (auto simp: removable_def)
  then show ?thesis using s' s(4,5) without_a by (intro exI [of _ s] exI [of _ s']) (simp add: removed_def)
qed

theorem rufs_rmdir_removes_anything_witness:
  "\<exists>s s'. rufs_rmdir path_a s = Inr (0, s') \<and> dir_map s' 0 = [dotdot \<mapsto> 0, dot \<mapsto> 0] \<and> valid (readi s' 1) = 0"
proof -
  obtain s where s: "removable s path_a 0 1" "\<not> fs_mutex s" "dir_map s 0 = [dotdot \<mapsto> 0, dot \<mapsto> 0, [97] \<mapsto> 1]"
    using fresh_removable by blast
  obtain s' where "rufs_rmdir path_a s = Inr (0, s')" "removed s path_a 0 1 s'"
    using rufs_rmdir_removes_anything [OF s(1,2)] by blast
  then show ?thesis using s(3) without_a by (intro exI [of _ s] exI [of _ s']) (simp add: removed_def)
qed

end
