(* ===== verification/Fs_Calls.thy ===== *)
theory Fs_Calls
  imports Fs_Remove
begin

text \<open>
  The file system as FUSE drives it (\<open>Level - 4/rufs.c\<close>): the table \<open>rufs_ope\<close> of operations, calls and
  runs of calls.  Every run keeps the geometry of the disk and leaves the mutex free.
\<close>

subsection \<open>Operations without effect\<close>

definition rufs_releasedir :: "byte list \<Rightarrow> fs \<Rightarrow> (int \<times> fs) result" where
  "rufs_releasedir path s = Inr (0, s)"

definition rufs_truncate :: "byte list \<Rightarrow> 64 word \<Rightarrow> fs \<Rightarrow> (int \<times> fs) result" where
  "rufs_truncate path sz s = Inr (0, s)"

definition rufs_release :: "byte list \<Rightarrow> fs \<Rightarrow> (int \<times> fs) result" where
  "rufs_release path s = Inr (0, s)"

definition rufs_flush :: "byte list \<Rightarrow> fs \<Rightarrow> (int \<times> fs) result" where
  "rufs_flush path s = Inr (0, s)"

definition rufs_utimens :: "byte list \<Rightarrow> (64 word \<times> 64 word) list \<Rightarrow> fs \<Rightarrow> (int \<times> fs) result" where
  "rufs_utimens path tv s = Inr (0, s)"

text \<open>
  The four numbers that \<open>rufs_destroy\<close> prints, and the closed device.  The divisions are those of
  \<open>double\<close>; by 0 they give no integer, which the conversion of the machine answers with the least one.
  The memory it frees is not read any more.
\<close>

definition ceil_div :: "int \<Rightarrow> int \<Rightarrow> int" where
  "ceil_div a b = (if b = 0 then - 2147483648 else - ((- a) div b))"

definition rufs_destroy :: "fs \<Rightarrow> int list \<times> fs" where
  "rufs_destroy s =
     (let inode_blocks_in_use = ceil_div (total_inodes_used s - total_inodes_cleared s) (inodes_per_block s);
          total_inode_blocks = ceil_div (total_inodes_used s) (inodes_per_block s);
          data_blocks_in_use = data_blocks_used s - data_blocks_cleared s
      in ([data_blocks_used s, data_blocks_in_use, total_inode_blocks, inode_blocks_in_use], dev_close s))"

subsection \<open>The table of operations\<close>

datatype fuse_op =
    Getattr "byte list"
  | Readdir "byte list"
  | Opendir "byte list"
  | Releasedir "byte list"
  | Mkdir "byte list"
  | Rmdir "byte list"
  | Create "byte list" "32 word"
  | Open "byte list"
  | Read "byte list" "byte list" "64 word" "64 word"
  | Write "byte list" "byte list" "64 word" "64 word"
  | Unlink "byte list"
  | Truncate "byte list" "64 word"
  | Flush "byte list"
  | Utimens "byte list" "(64 word \<times> 64 word) list"
  | Release "byte list"

text \<open>What the caller gets besides the status: attributes, the names handed to the filler, the buffer.\<close>

datatype reply =
    Status int
  | Attributes int "attr option"
  | Names int "byte list list"
  | Contents int "byte list"

definition answer :: "('a \<Rightarrow> reply) \<Rightarrow> ('a \<times> fs) result \<Rightarrow> (reply \<times> fs) result" where
  "answer f r = (case r of Inl e \<Rightarrow> Inl e | Inr (x, s) \<Rightarrow> Inr (f x, s))"

primrec fuse_call :: "fuse_op \<Rightarrow> fs \<Rightarrow> (reply \<times> fs) result" where
  "fuse_call (Getattr path) s = answer (\<lambda>(r, a). Attributes r a) (rufs_getattr path s)"
| "fuse_call (Readdir path) s = answer (\<lambda>(r, names). Names r names) (rufs_readdir path collect [] s)"
| "fuse_call (Opendir path) s = answer Status (rufs_opendir path s)"
| "fuse_call (Releasedir path) s = answer Status (rufs_releasedir path s)"
| "fuse_call (Mkdir path) s = answer Status (rufs_mkdir path s)"
| "fuse_call (Rmdir path) s = answer Status (rufs_rmdir path s)"
| "fuse_call (Create path mode) s = answer Status (rufs_create path mode s)"
| "fuse_call (Open path) s = answer Status (rufs_open path s)"
| "fuse_call (Read path buffer sz ofs) s = answer (\<lambda>(r, buffer). Contents r buffer) (rufs_read path buffer sz ofs s)"
| "fuse_call (Write path buffer sz ofs) s = answer Status (rufs_write path buffer sz ofs s)"
| "fuse_call (Unlink path) s = answer Status (rufs_unlink path s)"
| "fuse_call (Truncate path sz) s = answer Status (rufs_truncate path sz s)"
| "fuse_call (Flush path) s = answer Status (rufs_flush path s)"
| "fuse_call (Utimens path tv) s = answer Status (rufs_utimens path tv s)"
| "fuse_call (Release path) s = answer Status (rufs_release path s)"

text \<open>The states that calls lead to; a call that faults ends the run.\<close>

inductive fuse_run :: "fs \<Rightarrow> fs \<Rightarrow> bool" where
  start: "fuse_run s s"
| call: "fuse_run s s1 \<Longrightarrow> fuse_call c s1 = Inr (r, s2) \<Longrightarrow> fuse_run s s2"

lemma answer_Inr: "answer f r = Inr (x, s) \<longleftrightarrow> (\<exists>y. r = Inr (y, s) \<and> x = f y)"
  by (auto simp: answer_def split: sum.splits)

lemma with_mutex_Inr:
  assumes "with_mutex body s = Inr (r, s')"
  obtains s1 where "body (s\<lparr>fs_mutex := True\<rparr>) = Inr (r, s1)" "s' = s1\<lparr>fs_mutex := False\<rparr>" "\<not> fs_mutex s"
  using assms by (auto simp: with_mutex_def split: if_splits sum.splits prod.splits)

subsection \<open>The geometry of the disk\<close>

text \<open>Every operation keeps \<open>mounted\<close>, whatever the pointers and numbers in the inodes are.\<close>

named_theorems keeps_mounted

lemma length_bio_read [simp]: "mounted s \<Longrightarrow> length (bio_read s b) = 4096"
  by (auto simp: bio_read_def mounted_def BLOCK_SIZE_def split: option.split)

lemma mounted_bio_write: "mounted s \<Longrightarrow> length buf = 4096 \<Longrightarrow> mounted (bio_write s b buf)"
  by (auto simp: bio_write_def mounted_def BLOCK_SIZE_def split: option.split)

lemma mounted_writei_any:
  assumes "mounted s" and "wf_inode i"
  shows "mounted (snd (writei s n i))"
  using mounted_writei [OF assms] assms(1) by (cases "unat n \<le> 1024") (auto simp: writei_def MAX_INUM_def)

lemma writei_keeps [keeps_mounted]: "writei s n i = (r, s') \<Longrightarrow> mounted s \<Longrightarrow> wf_inode i \<Longrightarrow> mounted s'"
  using mounted_writei_any [of s i n] by simp

lemma get_avail_keeps [keeps_mounted]:
  "get_avail_ino s = Inr (r, s') \<Longrightarrow> mounted s \<Longrightarrow> mounted s'"
  "get_avail_blkno s = Inr (r, s') \<Longrightarrow> mounted s \<Longrightarrow> mounted s'"
  by (auto simp: get_avail_ino_mounted get_avail_blkno_mounted mounted_def split: option.splits)

lemma touch_dir_keeps:
  assumes "mounted s" and "wf_inode i"
  shows "mounted (touch_dir s i sz)"
  using assms unfolding touch_dir_def Let_def get_time_def
  by (simp, intro mounted_writei_any) (simp_all add: st_size_def st_mtime_def st_atime_def)

lemma strcpy_length: "strcpy dst src = Inr nm \<Longrightarrow> length nm = length dst"
  by (auto simp: strcpy_def split: if_splits)

lemma set_entry_keeps:
  assumes "mounted s" and "k < 19" and "length table = 4096" and "length nm = 208"
  shows "mounted (bio_write s b (set_entry table k (entry_at table k\<lparr>d_name := nm, d_ino := f, d_len := l, d_valid := v\<rparr>)))"
  using assms by (intro mounted_bio_write length_set_entry) (simp_all add: wf_dirent_def)

lemma entry_name_length: "mounted s \<Longrightarrow> k < 19 \<Longrightarrow> length (d_name (entry_at (bio_read s b) k)) = 208"
  using wf_entry_at [of "bio_read s b" k] by (simp add: wf_dirent_def)

lemma dir_add_keeps [keeps_mounted]:
  assumes "dir_add s i f nm = Inr (r, s')" and "mounted s" and "wf_inode i"
  shows "mounted s'"
  using assms mountedD(6) [OF assms(2)]
  by (auto simp: dir_add_def Let_def find_Some_iff entry_name_length dest!: strcpy_length
      intro!: touch_dir_keeps set_entry_keeps split: if_splits option.splits sum.splits)

lemma dir_remove_keeps [keeps_mounted]:
  assumes "dir_remove s i nm = Inr (r, s')" and "mounted s" and "wf_inode i"
  shows "mounted s'"
  using assms mountedD(6) [OF assms(2)]
  by (auto simp: dir_remove_def Let_def find_Some_iff entry_name_length dest!: strcpy_length
      intro!: touch_dir_keeps set_entry_keeps split: if_splits option.splits sum.splits)

lemma set_indirect_wf: "set_indirect k v i = Inr i' \<Longrightarrow> wf_inode i \<Longrightarrow> wf_inode i'"
  by (auto simp: set_indirect_def wf_inode_def stat32_def split: if_splits)

lemma clear_loops_wf:
  assumes "clear_indirect_loop 16 (clear_direct_loop 16 i) = Inr i'" and "wf_inode i"
  shows "wf_inode i'"
proof -
  have "wf_inode (clear_direct_loop 16 i)" using assms(2) by (simp add: clear_direct_loop_16 wf_inode_def)
  then show ?thesis using clear_indirect_loop_ok [of 16 "clear_direct_loop 16 i"] assms(1) by auto
qed

lemma init_inode_keeps [keeps_mounted]:
  "init_inode s i n typ' = Inr (i', s') \<Longrightarrow> mounted s \<Longrightarrow> wf_inode i \<Longrightarrow> mounted s'"
  using init_inode_spec [of i s n typ'] by auto

lemma init_inode_wf: "init_inode s i n typ' = Inr (i', s') \<Longrightarrow> wf_inode i \<Longrightarrow> wf_inode i'"
  using init_inode_spec [of i s n typ'] by auto

lemma init_dirent_table_length:
  assumes "init_dirent_table s t cur par = Inr t'" and "mounted s" and "length t = 4096"
  shows "length t' = 4096"
  using init_table_loop_spec [OF assms(3), of 19 cur par] assms(1) mountedD(6) [OF assms(2)]
  by (auto simp: init_dirent_table_def)

lemma unset_bitmap_length: "unset_bitmap b i = Inr b' \<Longrightarrow> length b' = length b"
  by (auto simp: unset_bitmap_def Let_def split: if_splits)

lemma clear_inode_keeps [keeps_mounted]:
  assumes "clear_inode s n = Inr s'" and "mounted s"
  shows "mounted s'"
proof -
  let ?i = "(readi s (of_int n))\<lparr>ino := 0, ilink := 0, isize := 0, itype := 0, valid := 0\<rparr>"
  obtain i where i: "clear_indirect_loop 16 (clear_direct_loop 16 ?i) = Inr i"
    using assms(1) by (auto simp: clear_inode_def split: sum.splits)
  have "wf_inode i" using clear_loops_wf [OF i] assms(2) by simp
  then have "mounted (snd (writei s (of_int n) i))" by (rule mounted_writei_any [OF assms(2)])
  then show ?thesis
    using assms(1) i by (auto simp: clear_inode_def Let_def split: sum.splits prod.splits
        dest!: unset_bitmap_length intro!: mounted_bio_write)
qed

lemma clear_data_block_keeps [keeps_mounted]:
  assumes "clear_data_block s b = Inr s'" and "mounted s"
  shows "mounted s'"
proof -
  have "mounted (bio_write s b (replicate BLOCK_SIZE 0))"
    using assms(2) by (intro mounted_bio_write) (simp_all add: BLOCK_SIZE_def)
  then show ?thesis
    using assms(1) by (auto simp: clear_data_block_def Let_def split: sum.splits
        dest!: unset_bitmap_length intro!: mounted_bio_write)
qed

lemma clear_blocks_loop_keeps [keeps_mounted]:
  "clear_blocks_loop bs s = Inr s' \<Longrightarrow> mounted s \<Longrightarrow> mounted s'"
  by (induction bs arbitrary: s) (auto split: sum.splits if_splits dest: clear_data_block_keeps)

lemma clear_ptrs_loop_keeps [keeps_mounted]:
  "clear_ptrs_loop ps s = Inr s' \<Longrightarrow> mounted s \<Longrightarrow> mounted s'"
  by (induction ps arbitrary: s) (auto split: sum.splits if_splits dest: clear_data_block_keeps)

lemma clear_tables_loop_keeps [keeps_mounted]:
  "clear_tables_loop i ks s = Inr s' \<Longrightarrow> mounted s \<Longrightarrow> mounted s'"
  by (induction ks arbitrary: s)
    (auto split: sum.splits if_splits dest: clear_data_block_keeps clear_ptrs_loop_keeps)

lemma length_init_indirect_blk [simp]: "length init_indirect_blk = 4096"
  by (simp add: init_indirect_blk_def BLOCK_SIZE_def del: map_replicate)

lemma direct_block_keeps:
  "direct_block s i b = Inr (r, s') \<Longrightarrow> mounted s \<Longrightarrow> wf_inode i
    \<Longrightarrow> mounted s' \<and> (\<forall>p i'. r = Some (p, i') \<longrightarrow> wf_inode i')"
  by (auto simp: direct_block_def Let_def split: if_splits sum.splits dest: get_avail_keeps)

lemma indirect_table_keeps:
  "indirect_table s i b = Inr (r, s') \<Longrightarrow> mounted s \<Longrightarrow> wf_inode i
    \<Longrightarrow> mounted s' \<and> (\<forall>p i'. r = Some (p, i') \<longrightarrow> wf_inode i')"
  by (auto simp: indirect_table_def split: if_splits sum.splits
      dest!: get_avail_keeps set_indirect_wf intro!: mounted_bio_write)

lemma indirect_block_keeps:
  assumes "indirect_block s i b = Inr (r, s')" and "mounted s" and "wf_inode i"
  shows "mounted s' \<and> (\<forall>p i'. r = Some (p, i') \<longrightarrow> wf_inode i')"
proof -
  have "blk_index b < 1024" by (simp add: blk_index_def indir_cap_def BLOCK_SIZE_def)
  then have fit: "4 * blk_index b + 4 \<le> 4096" by simp
  show ?thesis
    using assms fit by (auto simp: indirect_block_def Let_def split: if_splits sum.splits option.splits
        dest!: indirect_table_keeps get_avail_keeps intro!: mounted_bio_write)
qed

lemma write_loop_keeps:
  assumes "write_loop buffer b ofs n i s = Inr (r, s')" and "mounted s" and "wf_inode i"
  shows "mounted s' \<and> (\<forall>i'. r = Written i' \<longrightarrow> wf_inode i')"
  using assms
proof (induction buffer b ofs n i s rule: write_loop.induct)
  case (1 buffer b ofs n i s)
  let ?get = "if b \<le> 15 then direct_block s i b else indirect_block s i b"
  show ?case
  proof (cases "n = 0")
    case True
    then show ?thesis using 1(2-4) by (subst (asm) write_loop.simps) auto
  next
    case False
    then obtain q s1 where q: "?get = Inr (q, s1)"
      using 1(2) by (subst (asm) write_loop.simps) (auto split: sum.splits)
    have k: "mounted s1" "\<forall>p i'. q = Some (p, i') \<longrightarrow> wf_inode i'"
      using q 1(3,4) direct_block_keeps indirect_block_keeps by (metis (no_types, lifting))+
    show ?thesis
    proof (cases q)
      case None
      then show ?thesis using 1(2) False q k by (subst (asm) write_loop.simps) (auto split: if_splits)
    next
      case (Some pi)
      then obtain p i' where pi: "q = Some (p, i')" by (cases pi) simp
      let ?n = "min n (BLOCK_SIZE - nat ofs)"
      let ?s = "bio_write s1 p (splice (nat ofs) (take ?n buffer) (bio_read s1 p))"
      have ofs: "0 \<le> ofs" "ofs < int BLOCK_SIZE" "?n \<le> length buffer"
        and rec: "write_loop buffer (b + 1) 0 (n - ?n) i' ?s = Inr (r, s')"
        using 1(2) False q pi write_loop.simps [of buffer b ofs n i s] by (simp_all add: Let_def split: if_splits) auto
      have "mounted ?s" using k(1) ofs by (intro mounted_bio_write) (simp_all add: BLOCK_SIZE_def)
      then show ?thesis
        by (rule 1(1) [OF False q refl pi refl _ refl _ rec, rotated 2]) (use ofs k(2) pi in auto)
    qed
  qed
qed

subsection \<open>Every call keeps the geometry\<close>

text \<open>The inode that a path leads to has been read from the disk.\<close>

lemma node_wf: "get_node_by_path s path n = Inr (Some i) \<Longrightarrow> mounted s \<Longrightarrow> wf_inode i"
  by (auto simp: get_node_by_path_def split: option.splits if_splits)

lemma wf_stat_time [simp]:
  "wf_inode i \<Longrightarrow> wf_inode (stat64 st_atime w i)" "wf_inode i \<Longrightarrow> wf_inode (stat64 st_mtime w i)"
  "wf_inode i \<Longrightarrow> wf_inode (stat64 st_size w i)" "wf_inode i \<Longrightarrow> wf_inode (stat32 st_mode m i)"
  by (simp_all add: st_atime_def st_mtime_def st_size_def st_mode_def)

lemma remove_node_keeps [keeps_mounted]:
  "remove_node path i s = Inr (r, s') \<Longrightarrow> mounted s \<Longrightarrow> mounted s'"
  by (auto simp: remove_node_def split: sum.splits option.splits prod.splits
      dest: clear_inode_keeps node_wf intro: dir_remove_keeps)

lemma queries_keep [keeps_mounted]:
  "rufs_getattr path s = Inr (r, s') \<Longrightarrow> mounted s \<Longrightarrow> mounted s'"
  "rufs_open path s = Inr (q, s') \<Longrightarrow> mounted s \<Longrightarrow> mounted s'"
  "rufs_opendir path s = Inr (q, s') \<Longrightarrow> mounted s \<Longrightarrow> mounted s'"
  "rufs_readdir path filler b s = Inr (p, s') \<Longrightarrow> mounted s \<Longrightarrow> mounted s'"
  unfolding rufs_getattr_def rufs_open_def rufs_opendir_def rufs_readdir_def
  by (auto elim!: with_mutex_Inr split: sum.splits option.splits)

lemma rufs_create_keeps [keeps_mounted]:
  "rufs_create path mode s = Inr (r, s') \<Longrightarrow> mounted s \<Longrightarrow> mounted s'"
  unfolding rufs_create_def
  by (auto elim!: with_mutex_Inr split: sum.splits option.splits prod.splits if_splits dest!: node_wf get_avail_keeps)
    (metis dir_add_keeps init_inode_keeps init_inode_wf wf_readi wf_stat_time(4) writei_keeps)+

lemma rufs_mkdir_keeps [keeps_mounted]:
  assumes "rufs_mkdir path s = Inr (r, s')" and "mounted s"
  shows "mounted s'"
proof -
  have table: "mounted x" if "writei (bio_write z b t) k (j\<lparr>direct_ptr := (direct_ptr j)[0 := p]\<rparr>) = (q, x)" "mounted z" "wf_inode j"
      "init_dirent_table z (bio_read z b) cur par = Inr t" for x y z b t k p q j cur par
    using that init_dirent_table_length [OF that(4)]
    by (intro writei_keeps [OF that(1)] mounted_bio_write) simp_all
  show ?thesis
    using assms unfolding rufs_mkdir_def
    by (auto elim!: with_mutex_Inr simp: Let_def split: sum.splits option.splits prod.splits if_splits
        dest!: node_wf get_avail_keeps)
      (metis dir_add_keeps init_inode_keeps init_inode_wf wf_readi table)+
qed

lemma rufs_rmdir_keeps [keeps_mounted]:
  "rufs_rmdir path s = Inr (r, s') \<Longrightarrow> mounted s \<Longrightarrow> mounted s'"
  unfolding rufs_rmdir_def Let_def
  by (auto elim!: with_mutex_Inr split: sum.splits option.splits if_splits)
    (metis clear_blocks_loop_keeps remove_node_keeps mounted_more(2,8))

lemma rufs_unlink_keeps [keeps_mounted]:
  "rufs_unlink path s = Inr (r, s') \<Longrightarrow> mounted s \<Longrightarrow> mounted s'"
  unfolding rufs_unlink_def
  by (auto elim!: with_mutex_Inr split: sum.splits option.splits if_splits)
    (metis clear_blocks_loop_keeps clear_tables_loop_keeps remove_node_keeps mounted_more(8))

lemma rufs_read_keeps [keeps_mounted]:
  "rufs_read path b n ofs s = Inr (r, s') \<Longrightarrow> mounted s \<Longrightarrow> mounted s'"
  unfolding rufs_read_def Let_def get_time_def
  by (auto elim!: with_mutex_Inr split: sum.splits option.splits prod.splits if_splits dest!: node_wf)
    (metis writei_keeps wf_stat_time(1) mounted_more(7,8))

lemma rufs_write_keeps [keeps_mounted]:
  assumes "rufs_write path b n ofs s = Inr (r, s')" and "mounted s"
  shows "mounted s'"
proof -
  have fin: "mounted z" if "writei (x\<lparr>ticks := t\<rparr>) k (stat64 st_size v ((stat64 st_mtime w i)\<lparr>isize := u\<rparr>)) = (q, z)"
      "mounted x" "wf_inode i" for x z t k v w i u q
    using that by (intro writei_keeps [OF that(1)]) simp_all
  show ?thesis
    using assms unfolding rufs_write_def
    by (auto elim!: with_mutex_Inr simp: Let_def get_time_def split: sum.splits option.splits prod.splits if_splits write_end.splits
        dest!: node_wf write_loop_keeps)
      (metis fin)
qed

subsection \<open>Runs\<close>

lemma no_effect [simp]:
  "rufs_releasedir p s = Inr (0, s)" "rufs_truncate p sz s = Inr (0, s)" "rufs_release p s = Inr (0, s)"
  "rufs_flush p s = Inr (0, s)" "rufs_utimens p tv s = Inr (0, s)"
  by (simp_all add: rufs_releasedir_def rufs_truncate_def rufs_release_def rufs_flush_def rufs_utimens_def)

lemma mutex_released:
  "rufs_getattr p s = Inr (a, s') \<Longrightarrow> \<not> fs_mutex s'" "rufs_readdir p filler b s = Inr (q, s') \<Longrightarrow> \<not> fs_mutex s'"
  "rufs_opendir p s = Inr (r, s') \<Longrightarrow> \<not> fs_mutex s'" "rufs_mkdir p s = Inr (r, s') \<Longrightarrow> \<not> fs_mutex s'"
  "rufs_rmdir p s = Inr (r, s') \<Longrightarrow> \<not> fs_mutex s'" "rufs_create p mode s = Inr (r, s') \<Longrightarrow> \<not> fs_mutex s'"
  "rufs_open p s = Inr (r, s') \<Longrightarrow> \<not> fs_mutex s'" "rufs_read p buf n ofs s = Inr (c, s') \<Longrightarrow> \<not> fs_mutex s'"
  "rufs_write p buf n ofs s = Inr (r, s') \<Longrightarrow> \<not> fs_mutex s'" "rufs_unlink p s = Inr (r, s') \<Longrightarrow> \<not> fs_mutex s'"
  by (auto simp: rufs_getattr_def rufs_readdir_def rufs_opendir_def rufs_mkdir_def rufs_rmdir_def rufs_create_def
      rufs_open_def rufs_read_def rufs_write_def rufs_unlink_def elim: with_mutex_Inr)

lemma fuse_call_keeps:
  assumes "fuse_call c s = Inr (r, s')" and "mounted s" and "\<not> fs_mutex s"
  shows "mounted s' \<and> \<not> fs_mutex s'"
  using assms by (cases c) (auto simp: answer_Inr dest: keeps_mounted mutex_released)

lemma fuse_run_keeps:
  assumes "fuse_run s s'" and "mounted s" and "\<not> fs_mutex s"
  shows "mounted s' \<and> \<not> fs_mutex s'"
  using assms by induction (auto dest: fuse_call_keeps)

lemma rufs_init_formats:
  assumes "\<not> diskfile s" and "\<not> disk_file s"
  shows "\<exists>s'. rufs_init s = Inr s' \<and> dir_ok s' 0 \<and> \<not> fs_mutex s' \<and> dir_map s' 0 = [dotdot \<mapsto> 0, dot \<mapsto> 0]
    \<and> dir_block s' 0 = 67 \<and> direct_ptr (readi s' 0) = (replicate 16 (-1))[0 := 67] \<and> indirect_ptr (readi s' 0) ! 0 = -1
    \<and> (\<forall>j < MAX_INUM. lb_get (disk s' 1) j \<longleftrightarrow> j = 0) \<and> (\<forall>j < MAX_DNUM. lb_get (disk s' 2) j \<longleftrightarrow> j = 0) \<and> \<not> dir_full s' 0"
proof -
  obtain s' where s': "rufs_mkfs s = Inr (0, s')" "dir_ok s' 0" "dir_map s' 0 = [dotdot \<mapsto> 0, dot \<mapsto> 0]" "diskfile s'"
      "dir_block s' 0 = 67" "direct_ptr (readi s' 0) = (replicate 16 (-1))[0 := 67]" "indirect_ptr (readi s' 0) ! 0 = -1"
      "\<forall>j < MAX_INUM. lb_get (disk s' 1) j \<longleftrightarrow> j = 0" "\<forall>j < MAX_DNUM. lb_get (disk s' 2) j \<longleftrightarrow> j = 0" "\<not> dir_full s' 0"
    using rufs_mkfs_spec [OF assms] by blast
  have "rufs_init s = Inr (s'\<lparr>fs_mutex := False\<rparr>)"
    using assms s'(1,4) by (simp add: rufs_init_def dev_open_def)
  then show ?thesis using s' by (intro exI [of _ "s'\<lparr>fs_mutex := False\<rparr>"]) simp
qed

text \<open>C9: In every state that calls of FUSE can lead to after the first mount has formatted the disk, the
  disk is open with the geometry it was given, all blocks have their size, every inode read from the disk
  has all its fields, and the mutex is free: no operation, on whatever path and with whatever
  numbers in its inode, returns with the mutex held or the geometry changed.\<close>

theorem rufs_runs_typed:
  assumes "\<not> diskfile s0" and "\<not> disk_file s0" and "rufs_init s0 = Inr s" and "fuse_run s s'"
  shows "mounted s' \<and> \<not> fs_mutex s' \<and> (\<forall>n. wf_inode (readi s' n)) \<and> (\<forall>k. length (disk s' k) = BLOCK_SIZE)"
proof -
  have "mounted s" "\<not> fs_mutex s" using rufs_init_formats [OF assms(1,2)] assms(3) by (auto simp: dir_ok_def)
  from fuse_run_keeps [OF assms(4) this] show ?thesis by (simp add: mounted_def [of s'])
qed

theorem rufs_runs_typed_witness:
  "\<exists>s s'. rufs_init no_disk = Inr s \<and> fuse_call (Opendir [47]) s = Inr (Status 0, s') \<and> mounted s' \<and> \<not> fs_mutex s'"
proof -
  have n: "\<not> diskfile no_disk" "\<not> disk_file no_disk" by (simp_all add: no_disk_def)
  obtain s where s: "rufs_init no_disk = Inr s" "\<not> fs_mutex s" using rufs_init_formats [OF n] by blast
  have "comps [47] = []" "hd [47] = slash" by (simp_all add: comps.simps slash_def)
  then have run: "fuse_call (Opendir [47]) s = Inr (Status 0, s)"
    using s(2) by (simp add: answer_def rufs_opendir_def with_mutex_def get_node_absolute)
  from rufs_runs_typed [OF n s(1) fuse_run.call [OF fuse_run.start run]] show ?thesis using s(1) run by blast
qed

end
