(* ===== verification/Fs_Tree.thy ===== *)
theory Fs_Tree
  imports Fs_Calls
begin

text \<open>
  What the file system promises about names, without blocks, tables and bitmaps: a tree of directories,
  each a map from names to inode numbers, and the operations on it as transitions.  The transitions
  leave open which unused number a new node gets and when an operation is refused for lack of
  space.
\<close>

subsection \<open>Trees of names\<close>

record tree =
  dirs :: "16 word \<Rightarrow> (byte list \<Rightarrow> 16 word option) option"
  files :: "16 word set"

definition nodes :: "tree \<Rightarrow> 16 word set" where
  "nodes T = dom (dirs T) \<union> files T"

definition self_names :: "byte list set" where
  "self_names = {dot, dotdot}"

primrec tree_walk :: "tree \<Rightarrow> 16 word \<Rightarrow> byte list list \<Rightarrow> 16 word option" where
  "tree_walk T n [] = Some n"
| "tree_walk T n (nm # nms) =
     (case dirs T n of None \<Rightarrow> None
      | Some e \<Rightarrow> (case e nm of None \<Rightarrow> None | Some k \<Rightarrow> tree_walk T k nms))"

text \<open>The walk never looks up a name in a file.\<close>

primrec dirs_only :: "tree \<Rightarrow> 16 word \<Rightarrow> byte list list \<Rightarrow> bool" where
  "dirs_only T n [] = True"
| "dirs_only T n (nm # nms) =
     (case dirs T n of None \<Rightarrow> False
      | Some e \<Rightarrow> (case e nm of None \<Rightarrow> True | Some k \<Rightarrow> dirs_only T k nms))"

text \<open>
  Inode 0 is the root; entries lead to nodes; besides \<open>"."\<close> and \<open>".."\<close> a node has one name, the root
  none; \<open>".."\<close> is the directory that holds the name.
\<close>

definition entry :: "tree \<Rightarrow> 16 word \<Rightarrow> byte list \<Rightarrow> 16 word \<Rightarrow> bool" where
  "entry T n nm k \<longleftrightarrow> (\<exists>e. dirs T n = Some e \<and> e nm = Some k)"

definition tree_ok :: "tree \<Rightarrow> bool" where
  "tree_ok T \<longleftrightarrow> dom (dirs T) \<inter> files T = {} \<and> entry T 0 dotdot 0
     \<and> (\<forall>n \<in> dom (dirs T). entry T n dot n)
     \<and> (\<forall>n nm k. entry T n nm k \<longrightarrow> k \<in> nodes T)
     \<and> (\<forall>n nm k. entry T n nm k \<longrightarrow> nm \<notin> self_names \<longrightarrow> k \<noteq> 0
         \<and> (\<forall>n' nm'. entry T n' nm' k \<longrightarrow> nm' \<notin> self_names \<longrightarrow> n' = n \<and> nm' = nm))
     \<and> (\<forall>c \<in> dom (dirs T). c \<noteq> 0 \<longrightarrow>
         (\<exists>p nm. entry T c dotdot p \<and> nm \<notin> self_names \<and> entry T p nm c))"

text \<open>A new file, a new directory, and the removal of a node under its name.\<close>

definition add_file :: "tree \<Rightarrow> 16 word \<Rightarrow> byte list \<Rightarrow> 16 word \<Rightarrow> tree" where
  "add_file T n nm k = T\<lparr>dirs := (dirs T)(n := map_option (\<lambda>e. e(nm \<mapsto> k)) (dirs T n)), files := insert k (files T)\<rparr>"

definition add_dir :: "tree \<Rightarrow> 16 word \<Rightarrow> byte list \<Rightarrow> 16 word \<Rightarrow> tree" where
  "add_dir T n nm k = T\<lparr>dirs := (dirs T)(n := map_option (\<lambda>e. e(nm \<mapsto> k)) (dirs T n), k \<mapsto> [dotdot \<mapsto> n, dot \<mapsto> k])\<rparr>"

definition drop_node :: "tree \<Rightarrow> 16 word \<Rightarrow> tree" where
  "drop_node T k = T\<lparr>dirs := (dirs T)(k := None), files := files T - {k}\<rparr>"

definition remove_name :: "tree \<Rightarrow> 16 word \<Rightarrow> byte list \<Rightarrow> 16 word \<Rightarrow> tree" where
  "remove_name T n nm k = (let T = drop_node T k in T\<lparr>dirs := (dirs T)(n := map_option (\<lambda>e. e(nm := None)) (dirs T n))\<rparr>)"

subsection \<open>Calls as transitions\<close>

text \<open>The operations that only look, and the answer they give to a node that is there.\<close>

primrec asks :: "fuse_op \<Rightarrow> byte list option" where
  "asks (Getattr path) = Some path" | "asks (Readdir path) = Some path" | "asks (Opendir path) = Some path"
| "asks (Releasedir path) = None" | "asks (Mkdir path) = None" | "asks (Rmdir path) = None"
| "asks (Create path mode) = None" | "asks (Open path) = Some path" | "asks (Read path b n ofs) = None"
| "asks (Write path b n ofs) = None" | "asks (Unlink path) = None" | "asks (Truncate path n) = None"
| "asks (Flush path) = None" | "asks (Utimens path tv) = None" | "asks (Release path) = None"

primrec status :: "reply \<Rightarrow> int" where
  "status (Status r) = r" | "status (Attributes r a) = r" | "status (Names r nms) = r" | "status (Contents r b) = r"

text \<open>The names in the answer are those of the directory, each once.\<close>

primrec lists :: "reply \<Rightarrow> byte list set \<Rightarrow> bool" where
  "lists (Status r) N = True" | "lists (Attributes r a) N = (a \<noteq> None)"
| "lists (Names r nms) N = (distinct nms \<and> set nms = N)" | "lists (Contents r b) N = True"

definition ignored :: "fuse_op \<Rightarrow> bool" where
  "ignored c \<longleftrightarrow> (\<exists>p n tv. c = Releasedir p \<or> c = Truncate p n \<or> c = Flush p \<or> c = Utimens p tv \<or> c = Release p)"

definition makes :: "fuse_op \<Rightarrow> byte list \<Rightarrow> bool" where
  "makes c path \<longleftrightarrow> c = Mkdir path \<or> (\<exists>mode. c = Create path mode)"

definition transfers :: "fuse_op \<Rightarrow> byte list \<Rightarrow> bool" where
  "transfers c path \<longleftrightarrow> (\<exists>b n ofs. c = Read path b n ofs \<or> c = Write path b n ofs)"

definition removes :: "fuse_op \<Rightarrow> byte list \<Rightarrow> bool" where
  "removes c path \<longleftrightarrow> c = Rmdir path \<or> c = Unlink path"

inductive tree_step :: "tree \<Rightarrow> fuse_op \<Rightarrow> reply \<Rightarrow> tree \<Rightarrow> bool" where
  ignore: "ignored c \<Longrightarrow> tree_step T c (Status 0) T"
| found: "asks c = Some path \<Longrightarrow> tree_walk T 0 (comps path) = Some k \<Longrightarrow> status r = 0
    \<Longrightarrow> (\<forall>e. dirs T k = Some e \<longrightarrow> lists r (dom e)) \<Longrightarrow> tree_step T c r T"
| transferred: "transfers c path \<Longrightarrow> tree_walk T 0 (comps path) = Some k \<Longrightarrow> k \<in> files T \<Longrightarrow> tree_step T c r T"
| not_found: "asks c = Some path \<or> removes c path \<or> transfers c path \<Longrightarrow> tree_walk T 0 (comps path) = None
    \<Longrightarrow> status r = - ENOENT \<Longrightarrow> tree_step T c r T"
| no_parent: "makes c path \<Longrightarrow> tree_walk T 0 (comps (dirname path)) = None
    \<Longrightarrow> tree_step T c (Status (- ENOENT)) T"
| name_taken: "makes c path \<Longrightarrow> tree_walk T 0 (comps (dirname path)) = Some n \<Longrightarrow> dirs T n = Some e
    \<Longrightarrow> e (basename path) \<noteq> None \<Longrightarrow> tree_step T c (Status (- EEXIST)) T"
| no_space: "makes c path \<Longrightarrow> tree_walk T 0 (comps (dirname path)) = Some n
    \<Longrightarrow> tree_step T c (Status (- ENOSPC)) T"
| made_dir: "tree_walk T 0 (comps (dirname path)) = Some n \<Longrightarrow> dirs T n = Some e \<Longrightarrow> e (basename path) = None
    \<Longrightarrow> k \<notin> nodes T \<Longrightarrow> tree_step T (Mkdir path) (Status 0) (add_dir T n (basename path) k)"
| made_file: "tree_walk T 0 (comps (dirname path)) = Some n \<Longrightarrow> dirs T n = Some e \<Longrightarrow> e (basename path) = None
    \<Longrightarrow> k \<notin> nodes T \<Longrightarrow> tree_step T (Create path mode) (Status 0) (add_file T n (basename path) k)"
| removed: "removes c path \<Longrightarrow> tree_walk T 0 (comps (dirname path)) = Some n \<Longrightarrow> dirs T n = Some e
    \<Longrightarrow> e (basename path) = Some k \<Longrightarrow> tree_step T c (Status 0) (remove_name T n (basename path) k)"

text \<open>
  What the kernel makes sure of before it calls the file system: paths are absolute and go through
  directories, names fit into an entry, a directory that is removed is empty and is not the root, and the
  path to it does not use \<open>"."\<close> or \<open>".."\<close>.  What is read or written is a file, within its sixteen direct
  blocks, at most one page at a time for a write.
\<close>

definition path_ok :: "tree \<Rightarrow> byte list \<Rightarrow> bool" where
  "path_ok T path \<longleftrightarrow> path \<noteq> [] \<and> hd path = slash \<and> dirs_only T 0 (comps path)"

definition can_make :: "tree \<Rightarrow> byte list \<Rightarrow> bool" where
  "can_make T path \<longleftrightarrow> path_ok T path \<and> comps path \<noteq> [] \<and> name_ok (basename path)"

definition is_leaf :: "tree \<Rightarrow> 16 word \<Rightarrow> bool" where
  "is_leaf T k \<longleftrightarrow> (\<forall>e. dirs T k = Some e \<longrightarrow> dom e \<subseteq> self_names)"

definition can_remove :: "tree \<Rightarrow> byte list \<Rightarrow> bool" where
  "can_remove T path \<longleftrightarrow> path_ok T path \<and> comps path \<noteq> [] \<and> set (comps path) \<inter> self_names = {}
     \<and> (\<forall>k. tree_walk T 0 (comps path) = Some k \<longrightarrow> is_leaf T k)"

definition can_transfer :: "tree \<Rightarrow> byte list \<Rightarrow> bool" where
  "can_transfer T path \<longleftrightarrow> path_ok T path \<and> (\<forall>k. tree_walk T 0 (comps path) = Some k \<longrightarrow> k \<in> files T)"

primrec allowed :: "tree \<Rightarrow> fuse_op \<Rightarrow> bool" where
  "allowed T (Getattr path) = path_ok T path"
| "allowed T (Readdir path) = (path_ok T path \<and> (\<forall>k. tree_walk T 0 (comps path) = Some k \<longrightarrow> k \<in> dom (dirs T)))"
| "allowed T (Opendir path) = path_ok T path"
| "allowed T (Releasedir path) = True"
| "allowed T (Mkdir path) = can_make T path"
| "allowed T (Rmdir path) = can_remove T path"
| "allowed T (Create path mode) = can_make T path"
| "allowed T (Open path) = path_ok T path"
| "allowed T (Read path b n ofs) = (can_transfer T path \<and> unat ofs + unat n \<le> 16 * 4096 \<and> unat n \<le> length b)"
| "allowed T (Write path b n ofs) = (can_transfer T path \<and> unat ofs div 4096 \<le> 15 \<and> 0 < unat n
     \<and> unat ofs mod 4096 + unat n \<le> 4096 \<and> unat n \<le> length b)"
| "allowed T (Unlink path) = can_remove T path"
| "allowed T (Truncate path n) = True"
| "allowed T (Flush path) = True"
| "allowed T (Utimens path tv) = True"
| "allowed T (Release path) = True"

subsection \<open>The transitions keep the tree\<close>

lemma tree_walk_append:
  "tree_walk T n (xs @ ys) = Option.bind (tree_walk T n xs) (\<lambda>k. tree_walk T k ys)"
  by (induction xs arbitrary: n) (simp_all split: option.split)

lemma dirs_only_append:
  "dirs_only T n (xs @ ys) \<longleftrightarrow> dirs_only T n xs \<and> (\<forall>k. tree_walk T n xs = Some k \<longrightarrow> dirs_only T k ys)"
  by (induction xs arbitrary: n) (auto split: option.splits)

lemma nodes_simps [simp]:
  "nodes (drop_node T k) = nodes T - {k}"
  by (auto simp: nodes_def drop_node_def)

lemma tree_okD:
  assumes "tree_ok T"
  shows "dom (dirs T) \<inter> files T = {}" "entry T 0 dotdot 0"
    "n \<in> dom (dirs T) \<Longrightarrow> entry T n dot n" "entry T n nm k \<Longrightarrow> k \<in> nodes T"
    "entry T n nm k \<Longrightarrow> nm \<notin> self_names \<Longrightarrow> k \<noteq> 0"
    "entry T n nm k \<Longrightarrow> nm \<notin> self_names \<Longrightarrow> entry T n' nm' k \<Longrightarrow> nm' \<notin> self_names \<Longrightarrow> n' = n \<and> nm' = nm"
    "n \<in> dom (dirs T) \<Longrightarrow> n \<noteq> 0 \<Longrightarrow> \<exists>p nm. entry T n dotdot p \<and> nm \<notin> self_names \<and> entry T p nm n"
  using assms unfolding tree_ok_def by blast+

lemma entry_dom: "entry T n nm k \<Longrightarrow> n \<in> dom (dirs T)"
  by (auto simp: entry_def)

lemma dom_nodes: "n \<in> dom (dirs T) \<Longrightarrow> n \<in> nodes T"
  by (simp add: nodes_def)

lemma self_entries:
  assumes "tree_ok T" and "dirs T n = Some e" and "e nm = None"
  shows "nm \<notin> self_names"
proof -
  have n: "n \<in> dom (dirs T)" using assms(2) by auto
  have "\<exists>p. entry T n dotdot p" using tree_okD(2,7) [OF assms(1)] n by (cases "n = 0") blast+
  then show ?thesis using tree_okD(3) [OF assms(1) n] assms(2,3) by (auto simp: entry_def self_names_def)
qed

lemma root_in: "tree_ok T \<Longrightarrow> 0 \<in> dom (dirs T)"
  using tree_okD(2) entry_dom by blast

lemma entry_add_file:
  assumes "dirs T n = Some e" and "e nm = None"
  shows "entry (add_file T n nm k) m x j \<longleftrightarrow> entry T m x j \<or> m = n \<and> x = nm \<and> j = k"
  using assms by (auto simp: entry_def add_file_def)

lemma entry_add_dir:
  assumes "dirs T n = Some e" and "e nm = None" and "k \<notin> nodes T"
  shows "entry (add_dir T n nm k) m x j \<longleftrightarrow> entry T m x j \<or> m = n \<and> x = nm \<and> j = k
    \<or> m = k \<and> (x = dotdot \<and> j = n \<or> x = dot \<and> j = k)"
  using assms by (auto simp: entry_def add_dir_def nodes_def)

lemma dom_add:
  assumes "dirs T n = Some e"
  shows "dom (dirs (add_file T n nm k)) = dom (dirs T)" "files (add_file T n nm k) = insert k (files T)"
    "dom (dirs (add_dir T n nm k)) = insert k (dom (dirs T))" "files (add_dir T n nm k) = files T"
  using assms by (auto simp: add_file_def add_dir_def split: if_splits)

lemma nodes_add [simp]:
  assumes "dirs T n = Some e"
  shows "nodes (add_file T n nm k) = insert k (nodes T)" "nodes (add_dir T n nm k) = insert k (nodes T)"
  using dom_add [OF assms] by (auto simp: nodes_def)

lemma tree_okI:
  assumes "dom (dirs T) \<inter> files T = {}" and "entry T 0 dotdot 0" and "\<And>n. n \<in> dom (dirs T) \<Longrightarrow> entry T n dot n"
    and "\<And>n nm k. entry T n nm k \<Longrightarrow> k \<in> nodes T" and "\<And>n nm k. entry T n nm k \<Longrightarrow> nm \<notin> self_names \<Longrightarrow> k \<noteq> 0"
    and "\<And>n nm k n' nm'. entry T n nm k \<Longrightarrow> nm \<notin> self_names \<Longrightarrow> entry T n' nm' k \<Longrightarrow> nm' \<notin> self_names \<Longrightarrow> n' = n \<and> nm' = nm"
    and "\<And>n. n \<in> dom (dirs T) \<Longrightarrow> n \<noteq> 0 \<Longrightarrow> \<exists>p nm. entry T n dotdot p \<and> nm \<notin> self_names \<and> entry T p nm n"
  shows "tree_ok T"
  unfolding tree_ok_def using assms by (intro conjI ballI allI impI) blast+

lemma add_file_ok:
  assumes ok: "tree_ok T" and n: "dirs T n = Some e" "e nm = None" and k: "k \<notin> nodes T"
  shows "tree_ok (add_file T n nm k)"
proof -
  note E = entry_add_file [OF n] and D = dom_add(1,2) [OF n(1)] and O = tree_okD [OF ok]
  have k0: "k \<noteq> 0" using k root_in [OF ok] dom_nodes by blast
  have ke: "\<not> entry T m x k" for m x using k O(4) by blast
  show ?thesis
  proof (rule tree_okI, unfold E D nodes_add [OF n(1)], goal_cases)
    case 1
    then show ?case using O(1) k by (auto simp: nodes_def)
  next
    case (6 m x j m' x')
    then show ?case using O(6) ke by (cases "j = k") blast+
  next
    case (7 c)
    then show ?case using O(7) by blast
  qed (use O(2-5) k0 in blast)+
qed

lemma add_dir_ok:
  assumes ok: "tree_ok T" and n: "dirs T n = Some e" "e nm = None" and k: "k \<notin> nodes T"
  shows "tree_ok (add_dir T n nm k)"
proof -
  note E = entry_add_dir [OF n k] and D = dom_add(3,4) [OF n(1)] and O = tree_okD [OF ok]
  have nm: "nm \<notin> self_names" by (rule self_entries [OF ok n])
  have k0: "k \<noteq> 0" using k root_in [OF ok] dom_nodes by blast
  have nn: "n \<in> nodes T" using n(1) by (auto simp: nodes_def)
  have ke: "\<not> entry T m x k" for m x using k O(4) by blast
  have s: "dotdot \<in> self_names" "dot \<in> self_names" by (simp_all add: self_names_def)
  show ?thesis
  proof (rule tree_okI, unfold E D nodes_add [OF n(1)], goal_cases)
    case 1
    then show ?case using O(1) k by (auto simp: nodes_def)
  next
    case (4 m x j)
    then show ?case using O(4) nn by blast
  next
    case (5 m x j)
    then show ?case using O(5) k0 s by blast
  next
    case (6 m x j m' x')
    then show ?case using O(6) ke s by (cases "j = k") blast+
  next
    case (7 c)
    then show ?case using O(7) nm by (cases "c = k") blast+
  qed (use O(2,3) in blast)+
qed

text \<open>Removal of a file or of an empty directory.\<close>

lemma entry_remove:
  assumes "entry T n nm k" and "n \<noteq> k"
  shows "entry (remove_name T n nm k) m x j \<longleftrightarrow> entry T m x j \<and> m \<noteq> k \<and> (m = n \<longrightarrow> x \<noteq> nm)"
  using assms by (auto simp: entry_def remove_name_def drop_node_def split: if_splits)

lemma dom_remove:
  "dom (dirs (remove_name T n nm k)) = dom (dirs T) - {k}" "files (remove_name T n nm k) = files T - {k}"
  by (auto simp: remove_name_def drop_node_def split: if_splits)

lemma nodes_remove [simp]: "nodes (remove_name T n nm k) = nodes T - {k}"
  by (auto simp: nodes_def dom_remove)

lemma leaf_entry: "is_leaf T k \<Longrightarrow> entry T k x j \<Longrightarrow> x \<in> self_names"
  by (auto simp: is_leaf_def entry_def)

lemma remove_ok:
  assumes ok: "tree_ok T" and e: "entry T n nm k" and nm: "nm \<notin> self_names" and leaf: "is_leaf T k"
  shows "n \<noteq> k" and "tree_ok (remove_name T n nm k)"
proof -
  note O = tree_okD [OF ok]
  show nk: "n \<noteq> k" using leaf_entry [OF leaf] e nm by blast
  note E = entry_remove [OF e nk] and D = dom_remove [of T n nm k]
  have k0: "k \<noteq> 0" by (rule O(5) [OF e nm])
  have s: "dotdot \<in> self_names" "dot \<in> self_names" by (simp_all add: self_names_def)
  have fresh: "j \<noteq> k" if m: "entry T m x j" "m \<noteq> k" "m = n \<longrightarrow> x \<noteq> nm" for m x j
  proof
    assume j: "j = k"
    show False
    proof (cases "x \<in> self_names")
      case False
      then show False using O(6) [OF e nm, of m x] m j by blast
    next
      case True
      have md: "m \<in> dom (dirs T)" using m(1) entry_dom by blast
      have "x = dotdot" using True O(3) [OF md] m(1,2) j by (auto simp: self_names_def entry_def)
      show False
      proof (cases "m = 0")
        case True
        then show False using O(2) m(1) \<open>x = dotdot\<close> j k0 by (auto simp: entry_def)
      next
        case False
        then obtain p y where p: "entry T m dotdot p" "y \<notin> self_names" "entry T p y m" using O(7) [OF md] by blast
        then have "p = k" using m(1) \<open>x = dotdot\<close> j by (auto simp: entry_def)
        then show False using leaf_entry [OF leaf] p(2,3) by blast
      qed
    qed
  qed
  show "tree_ok (remove_name T n nm k)"
  proof (rule tree_okI, unfold E D nodes_remove, goal_cases)
    case 1
    then show ?case using O(1) by blast
  next
    case 2
    then show ?case using O(2) k0 nm s by blast
  next
    case (3 m)
    then show ?case using O(3) nm s by blast
  next
    case (4 m x j)
    then show ?case using O(4) fresh by blast
  next
    case (5 m x j)
    then show ?case using O(5) by blast
  next
    case (6 m x j m' x')
    then show ?case using O(6) by blast
  next
    case (7 c)
    then obtain p y where p: "entry T c dotdot p" "y \<notin> self_names" "entry T p y c" using O(7) by blast
    have "p \<noteq> k" using leaf_entry [OF leaf] p(2,3) by blast
    moreover have "\<not> (p = n \<and> y = nm)" using p(3) e 7(1) by (auto simp: entry_def)
    ultimately show ?case using p 7(1) nm s by blast
  qed
qed

lemma comps_split:
  assumes "path \<noteq> []" and "hd path = slash" and "comps path \<noteq> []"
  shows "comps path = comps (dirname path) @ [basename path]"
  using assms(1,2) by (cases rule: absolute_cases) (use assms(3) in auto)

lemma removes_allowed: "removes c path \<Longrightarrow> allowed T c \<Longrightarrow> can_remove T path"
  by (auto simp: removes_def)

lemma makes_allowed: "makes c path \<Longrightarrow> allowed T c \<Longrightarrow> can_make T path"
  by (auto simp: makes_def)

lemma removed_leaf:
  assumes "can_remove T path" and "tree_walk T 0 (comps (dirname path)) = Some n" and "dirs T n = Some e"
    and "e (basename path) = Some k"
  shows "is_leaf T k" and "tree_walk T 0 (comps path) = Some k" and "basename path \<notin> self_names"
proof -
  have c: "comps path = comps (dirname path) @ [basename path]"
    using assms(1) by (intro comps_split) (simp_all add: can_remove_def path_ok_def)
  then show "basename path \<notin> self_names" using assms(1) by (auto simp: can_remove_def)
  from c show "tree_walk T 0 (comps path) = Some k" using assms(2-4) by (simp add: tree_walk_append)
  then show "is_leaf T k" using assms(1) by (simp add: can_remove_def)
qed

text \<open>Every transition keeps the tree well formed.\<close>

lemma tree_step_ok:
  assumes "tree_step T c r T'" and "allowed T c" and "tree_ok T"
  shows "tree_ok T'"
  using assms
proof (cases rule: tree_step.cases)
  case (made_dir path n e k)
  then show ?thesis using add_dir_ok [OF assms(3)] by simp
next
  case (made_file path n e k mode)
  then show ?thesis using add_file_ok [OF assms(3)] by simp
next
  case (removed path n e k)
  have c: "can_remove T path" using removes_allowed [OF removed(3) assms(2)] .
  have "entry T n (basename path) k" using removed(5,6) by (auto simp: entry_def)
  then show ?thesis
    using remove_ok(2) [OF assms(3)] removed_leaf(1,3) [OF c removed(4-6)] removed(2) by simp
qed simp_all

subsection \<open>Making and removing again\<close>

definition extends :: "tree \<Rightarrow> tree \<Rightarrow> bool" where
  "extends T T' \<longleftrightarrow> (\<forall>n e. dirs T n = Some e \<longrightarrow> (\<exists>e'. dirs T' n = Some e' \<and> e \<subseteq>\<^sub>m e'))"

lemma walk_extends:
  assumes "extends T T'" and "tree_walk T n nms = Some k"
  shows "tree_walk T' n nms = Some k \<and> dirs_only T' n nms"
  using assms(2)
proof (induction nms arbitrary: n)
  case (Cons nm nms)
  then obtain e j where e: "dirs T n = Some e" "e nm = Some j" "tree_walk T j nms = Some k" by (auto split: option.splits)
  then obtain e' where "dirs T' n = Some e'" "e \<subseteq>\<^sub>m e'" using assms(1) by (auto simp: extends_def)
  moreover from this have "e' nm = Some j" using e(2) by (force simp: map_le_def)
  ultimately show ?case using Cons.IH [OF e(3)] by simp
qed simp

lemma extends_add:
  assumes "dirs T n = Some e" and "e nm = None" and "k \<notin> nodes T"
  shows "extends T (add_dir T n nm k)" "extends T (add_file T n nm k)"
  using assms by (auto simp: extends_def add_dir_def add_file_def nodes_def map_le_def)

lemma remove_add:
  assumes "dirs T n = Some e" and "e nm = None" and "k \<notin> nodes T"
  shows "remove_name (add_dir T n nm k) n nm k = T" "remove_name (add_file T n nm k) n nm k = T"
proof -
  have k: "dirs T k = None" "k \<notin> files T" "n \<noteq> k" using assms(1,3) by (auto simp: nodes_def)
  have d: "(dirs T)(k := None, n \<mapsto> e(nm := None)) = dirs T"
  proof -
    have "e(nm := None) = e" using assms(2) by auto
    then show ?thesis using assms(1) k(1) by (simp only:) (simp add: fun_eq_iff)
  qed
  show "remove_name (add_dir T n nm k) n nm k = T" "remove_name (add_file T n nm k) n nm k = T"
    using assms(1) k by (simp_all add: remove_name_def drop_node_def add_dir_def add_file_def Let_def d)
qed

text \<open>A node that was just made under a path is a leaf there.\<close>

lemma made_removable:
  assumes mk: "can_make T path" and plain: "set (comps path) \<inter> self_names = {}"
    and n: "tree_walk T 0 (comps (dirname path)) = Some n" "dirs T n = Some e" "e (basename path) = None" "k \<notin> nodes T"
    and T': "T' = add_dir T n (basename path) k \<or> T' = add_file T n (basename path) k"
  shows "can_remove T' path" "tree_walk T' 0 (comps (dirname path)) = Some n" "tree_walk T' 0 (comps path) = Some k"
    "\<exists>e'. dirs T' n = Some e' \<and> e' (basename path) = Some k"
proof -
  have p: "path \<noteq> []" "hd path = slash" "comps path \<noteq> []" using mk by (simp_all add: can_make_def path_ok_def)
  note C = comps_split [OF p]
  have "extends T T'" using T' extends_add [OF n(2-4)] by auto
  note W = walk_extends [OF this n(1)]
  show d: "\<exists>e'. dirs T' n = Some e' \<and> e' (basename path) = Some k"
  proof -
    have "n \<noteq> k" using n(2,4) by (auto simp: nodes_def)
    then show ?thesis using T' n(2) by (auto simp: add_dir_def add_file_def)
  qed
  show "tree_walk T' 0 (comps (dirname path)) = Some n" using W by simp
  show w: "tree_walk T' 0 (comps path) = Some k" using W C d by (auto simp: tree_walk_append)
  have "is_leaf T' k"
    using T' n(2,4) by (auto simp: is_leaf_def self_names_def add_dir_def add_file_def nodes_def split: if_splits)
  moreover have "dirs_only T' 0 (comps path)" using W C d by (auto simp: dirs_only_append)
  ultimately show "can_remove T' path" using p plain w by (simp add: can_remove_def path_ok_def)
qed

end
