(* ===== verification/Fs_Rel.thy ===== *)
theory Fs_Rel
  imports Fs_Tree
begin

text \<open>
  How the disk of \<open>Level - 4/rufs.c\<close> holds a tree of names.  \<open>fs_rel s T\<close> says that its nodes are
  numbered inodes that the bitmap marks as used, with data blocks of their own that the other bitmap marks as
  used, and that the tables of its directories stand for the maps of the tree.  More may be marked as used
  than the tree needs.
\<close>

subsection \<open>A tree on the disk\<close>

definition node_blocks :: "fs \<Rightarrow> 16 word \<Rightarrow> nat set" where
  "node_blocks s k = blocks_of (direct_ptr (readi s k))"

definition node_rel :: "fs \<Rightarrow> 16 word \<Rightarrow> bool" where
  "node_rel s k \<longleftrightarrow> unat k < MAX_INUM \<and> ino (readi s k) = k \<and> lb_get (disk s 1) (unat k)
     \<and> pointers_ok (direct_ptr (readi s k)) \<and> indirect_ptr (readi s k) ! 0 = -1
     \<and> (\<forall>b \<in> node_blocks s k. lb_get (disk s 2) (b - 67))"

definition dir_rel :: "fs \<Rightarrow> 16 word \<Rightarrow> (byte list \<Rightarrow> 16 word option) \<Rightarrow> bool" where
  "dir_rel s n e \<longleftrightarrow> dir_ok s n \<and> dir_block s n \<in> node_blocks s n \<and> dir_map s n = e"

definition fs_rel :: "fs \<Rightarrow> tree \<Rightarrow> bool" where
  "fs_rel s T \<longleftrightarrow> mounted s \<and> (\<forall>k \<in> nodes T. node_rel s k)
     \<and> (\<forall>j \<in> nodes T. \<forall>k \<in> nodes T. j \<noteq> k \<longrightarrow> node_blocks s j \<inter> node_blocks s k = {})
     \<and> (\<forall>n e. dirs T n = Some e \<longrightarrow> dir_rel s n e)"

lemma fs_relD:
  assumes "fs_rel s T"
  shows "mounted s" "k \<in> nodes T \<Longrightarrow> node_rel s k"
    "j \<in> nodes T \<Longrightarrow> k \<in> nodes T \<Longrightarrow> j \<noteq> k \<Longrightarrow> node_blocks s j \<inter> node_blocks s k = {}"
    "dirs T n = Some e \<Longrightarrow> dir_rel s n e"
  using assms by (simp_all add: fs_rel_def)

lemma node_relD:
  assumes "node_rel s k"
  shows "unat k < MAX_INUM" "ino (readi s k) = k" "lb_get (disk s 1) (unat k)" "pointers_ok (direct_ptr (readi s k))"
    "indirect_ptr (readi s k) ! 0 = -1" "b \<in> node_blocks s k \<Longrightarrow> lb_get (disk s 2) (b - 67)"
  using assms by (simp_all add: node_rel_def)

lemma rel_mutex [simp]: "fs_rel (s\<lparr>fs_mutex := b\<rparr>) T = fs_rel s T" "fs_rel (s\<lparr>data_bitmap := d\<rparr>) T = fs_rel s T"
  by (simp_all add: fs_rel_def node_rel_def node_blocks_def dir_rel_def)

lemma dir_nodes: "dirs T n = Some e \<Longrightarrow> n \<in> nodes T"
  by (auto simp: nodes_def)

lemma block_in_data: "pointers_ok ps \<Longrightarrow> b \<in> blocks_of ps \<Longrightarrow> 67 \<le> b \<and> b < 16451"
  by (auto simp: pointers_ok_def blocks_of_def data_block_def)

lemma same_node_blocks: "same_node (readi s k) (readi s' k) \<Longrightarrow> node_blocks s' k = node_blocks s k"
  by (simp add: same_node_def node_blocks_def)

text \<open>The table of a directory is in no other node's blocks.\<close>

lemma dir_block_apart:
  assumes "fs_rel s T" and "dirs T n = Some e" and "k \<in> nodes T" and "k \<noteq> n"
  shows "dir_block s n \<notin> node_blocks s k"
  using fs_relD(3) [OF assms(1) dir_nodes [OF assms(2)] assms(3)] fs_relD(4) [OF assms(1,2)] assms(4)
  by (auto simp: dir_rel_def)

subsection \<open>Changes of the disk that keep the relation\<close>

text \<open>One directory gets a new map, everything else of the tree is left alone.\<close>

lemma rel_update:
  assumes rel: "fs_rel s T" and m: "mounted s'" and n: "n \<in> dom (dirs T)"
    and node: "\<And>k. k \<in> nodes T \<Longrightarrow> k \<noteq> n \<Longrightarrow> readi s' k = readi s k" "same_node (readi s n) (readi s' n)"
    and bits: "\<And>k. k \<in> nodes T \<Longrightarrow> lb_get (disk s' 1) (unat k)"
      "\<And>k b. k \<in> nodes T \<Longrightarrow> b \<in> node_blocks s k \<Longrightarrow> lb_get (disk s' 2) (b - 67)"
    and tables: "\<And>k e. dirs T k = Some e \<Longrightarrow> k \<noteq> n \<Longrightarrow> disk s' (dir_block s k) = disk s (dir_block s k)"
    and dir: "dir_ok s' n" "dir_map s' n = e" "dir_block s' n = dir_block s n"
  shows "fs_rel s' (T\<lparr>dirs := (dirs T)(n \<mapsto> e)\<rparr>)"
proof -
  let ?T = "T\<lparr>dirs := (dirs T)(n \<mapsto> e)\<rparr>"
  note R = fs_relD [OF rel]
  have nodes: "nodes ?T = nodes T" using n by (auto simp: nodes_def)
  have same: "same_node (readi s k) (readi s' k)" if "k \<in> nodes T" for k
    using node that by (cases "k = n") simp_all
  note blocks = same_node_blocks [OF same]
  have "node_rel s' k" if k: "k \<in> nodes T" for k
    using R(2) [OF k] same [OF k] bits(1) [OF k] bits(2) [OF k] blocks [OF k] by (simp add: node_rel_def same_node_def)
  moreover have "dir_rel s' k e'" if k: "dirs ?T k = Some e'" for k e'
  proof (cases "k = n")
    case True
    obtain e0 where "dirs T n = Some e0" using n by blast
    from R(4) [OF this] show ?thesis
      using k True dir blocks [OF dom_nodes [OF n]] by (simp add: dir_rel_def)
  next
    case False
    then have d: "dirs T k = Some e'" using k by simp
    have D: "dir_ok s k" "dir_block s k \<in> node_blocks s k" "dir_map s k = e'" using R(4) [OF d] by (simp_all add: dir_rel_def)
    note F = dir_frame [OF D(1) m node(1) [OF dir_nodes [OF d] False] tables [OF d False]]
    show ?thesis using F(1-3) D(2,3) blocks [OF dir_nodes [OF d]] by (simp add: dir_rel_def)
  qed
  ultimately show ?thesis using m R(3) blocks by (simp add: fs_rel_def nodes)
qed

text \<open>Nothing of the tree changes; more may be marked as used.\<close>

definition reserved :: "fs \<Rightarrow> fs \<Rightarrow> bool" where
  "reserved s s' \<longleftrightarrow> mounted s' \<and> (\<forall>k. unat k < MAX_INUM \<longrightarrow> readi s' k = readi s k)
     \<and> (\<forall>j. 67 \<le> j \<longrightarrow> disk s' j = disk s j) \<and> (\<forall>j. lb_get (disk s 1) j \<longrightarrow> lb_get (disk s' 1) j)
     \<and> (\<forall>j. lb_get (disk s 2) j \<longrightarrow> lb_get (disk s' 2) j)"

lemma reserved_refl: "mounted s \<Longrightarrow> reserved s s"
  by (simp add: reserved_def)

lemma reserved_trans: "reserved s s1 \<Longrightarrow> reserved s1 s2 \<Longrightarrow> reserved s s2"
  by (simp add: reserved_def)

lemma reserved_mutex [simp]: "reserved (s\<lparr>fs_mutex := b\<rparr>) s' = reserved s s'" "reserved s (s'\<lparr>fs_mutex := b\<rparr>) = reserved s s'"
  by (simp_all add: reserved_def)

lemma rel_reserved:
  assumes rel: "fs_rel s T" and r: "reserved s s'"
  shows "fs_rel s' T"
proof -
  note R = fs_relD [OF rel]
  have m: "mounted s'" and node: "readi s' k = readi s k" if "k \<in> nodes T" for k
    using r node_relD(1) [OF R(2) [OF that]] by (simp_all add: reserved_def)
  have blocks: "node_blocks s' k = node_blocks s k" if "k \<in> nodes T" for k using node [OF that] by (simp add: node_blocks_def)
  have "node_rel s' k" if k: "k \<in> nodes T" for k
    using R(2) [OF k] node [OF k] blocks [OF k] r by (simp add: node_rel_def reserved_def)
  moreover have "dir_rel s' n e" if n: "dirs T n = Some e" for n e
  proof -
    have D: "dir_ok s n" "dir_block s n \<in> node_blocks s n" "dir_map s n = e" using R(4) [OF n] by (simp_all add: dir_rel_def)
    then have "disk s' (dir_block s n) = disk s (dir_block s n)" using r by (simp add: dir_ok_def reserved_def)
    moreover have "mounted s'" using r by (simp add: reserved_def)
    ultimately show ?thesis
      using dir_frame [OF D(1) _ node [OF dir_nodes [OF n]]] D(2,3) blocks [OF dir_nodes [OF n]] by (simp add: dir_rel_def)
  qed
  ultimately show ?thesis using r R(3) blocks by (simp add: fs_rel_def reserved_def)
qed

text \<open>A node more, a node less.\<close>

lemma rel_new_dir:
  assumes "fs_rel s T" and "k \<notin> nodes T" and "node_rel s k" and "\<And>j. j \<in> nodes T \<Longrightarrow> node_blocks s j \<inter> node_blocks s k = {}"
    and "dir_rel s k e"
  shows "fs_rel s (T\<lparr>dirs := (dirs T)(k \<mapsto> e)\<rparr>)"
proof -
  have "nodes (T\<lparr>dirs := (dirs T)(k \<mapsto> e)\<rparr>) = insert k (nodes T)" by (auto simp: nodes_def)
  then show ?thesis using assms by (auto simp: fs_rel_def)
qed

lemma rel_new_file:
  assumes "fs_rel s T" and "k \<notin> nodes T" and "node_rel s k" and "\<And>j. j \<in> nodes T \<Longrightarrow> node_blocks s j \<inter> node_blocks s k = {}"
  shows "fs_rel s (T\<lparr>files := insert k (files T)\<rparr>)"
proof -
  have "nodes (T\<lparr>files := insert k (files T)\<rparr>) = insert k (nodes T)" by (auto simp: nodes_def)
  then show ?thesis using assms by (auto simp: fs_rel_def)
qed

lemma rel_drop: "fs_rel s T \<Longrightarrow> fs_rel s (drop_node T k)"
  by (auto simp: fs_rel_def drop_node_def nodes_def split: if_splits)

subsection \<open>Paths\<close>

lemma rel_walk:
  assumes "fs_rel s T" and "dirs_only T n nms" and "[] \<notin> set nms"
  shows "walk_names s n nms = tree_walk T n nms"
  using assms(2,3)
proof (induction nms arbitrary: n)
  case (Cons nm nms)
  then obtain e where e: "dirs T n = Some e" by (auto split: option.splits)
  have "dir_map s n nm = e nm" using fs_relD(4) [OF assms(1) e] by (auto simp: dir_rel_def)
  then have "map_option d_ino (dir_find s n nm) = e nm" using Cons.prems(2) by (auto simp: dir_map_def)
  then show ?case using Cons e by (auto split: option.splits)
qed simp

lemma rel_path:
  assumes "fs_rel s T" and "path_ok T path"
  shows "get_node_by_path (s\<lparr>fs_mutex := b\<rparr>) path 0 = Inr (map_option (readi s) (tree_walk T 0 (comps path)))"
proof -
  have "readi (s\<lparr>fs_mutex := b\<rparr>) = readi s" by (rule ext) simp
  then show ?thesis
    using assms rel_walk [OF assms(1) _ comps_nonempty] by (simp add: path_ok_def get_node_absolute)
qed

lemma path_ok_dirname:
  assumes "path_ok T path" and "comps path \<noteq> []"
  shows "path_ok T (dirname path)"
proof -
  have p: "path \<noteq> []" "hd path = slash" using assms(1) by (simp_all add: path_ok_def)
  have "dirs_only T 0 (comps (dirname path) @ [basename path])"
    using assms(1) comps_split [OF p assms(2)] by (simp add: path_ok_def)
  then show ?thesis using dirname_absolute [OF p] by (simp add: path_ok_def dirs_only_append)
qed

text \<open>The directory that a new name goes to.\<close>

lemma parent_dir:
  assumes "path_ok T path" and "comps path \<noteq> []" and "tree_walk T 0 (comps (dirname path)) = Some n"
  shows "\<exists>e. dirs T n = Some e"
proof -
  have p: "path \<noteq> []" "hd path = slash" using assms(1) by (simp_all add: path_ok_def)
  have "dirs_only T 0 (comps (dirname path) @ [basename path])"
    using assms(1) comps_split [OF p assms(2)] by (simp add: path_ok_def)
  then show ?thesis using assms(3) by (auto simp: dirs_only_append split: option.splits)
qed

end
