(* ===== verification/Fs_Refine.thy ===== *)
theory Fs_Refine
  imports Fs_Rel Simulation
begin

text \<open>
  The calls of \<open>Level - 4/rufs.c\<close> implement the transitions of the tree of names: one lemma per kind of
  call, for every branch of it, and the theorem on sequences of calls from the formatted disk on.
\<close>

subsection \<open>Calls that only look\<close>

text \<open>The call returns, releases the mutex and is a transition.\<close>

definition refines :: "fs \<Rightarrow> tree \<Rightarrow> fuse_op \<Rightarrow> bool" where
  "refines s T c \<longleftrightarrow> (\<exists>r s' T'. fuse_call c s = Inr (r, s') \<and> tree_step T c r T' \<and> fs_rel s' T')"

lemma refinesI: "fuse_call c s = Inr (r, s') \<Longrightarrow> tree_step T c r T' \<Longrightarrow> fs_rel s' T' \<Longrightarrow> refines s T c"
  by (auto simp: refines_def)

lemma refines_ignored:
  assumes "ignored c" and "fs_rel s T"
  shows "refines s T c"
  by (rule refinesI [OF _ ignore [OF assms(1)] assms(2)]) (use assms(1) in \<open>auto simp: ignored_def answer_def\<close>)

lemma unlocked: "\<not> fs_mutex s \<Longrightarrow> s\<lparr>fs_mutex := False\<rparr> = s"
  by simp

lemma rel_lookup:
  assumes "fs_rel s T" and "path_ok T path" and "\<not> fs_mutex s"
  shows "rufs_open path s = Inr (if tree_walk T 0 (comps path) = None then - ENOENT else 0, s)"
    "rufs_opendir path s = Inr (if tree_walk T 0 (comps path) = None then - ENOENT else 0, s)"
    "\<exists>a. rufs_getattr path s = Inr ((if tree_walk T 0 (comps path) = None then (- ENOENT, None) else (0, Some a)), s)"
    "tree_walk T 0 (comps path) = None \<Longrightarrow> rufs_readdir path filler buf s = Inr ((- ENOENT, buf), s)"
  using assms(3) rel_path [OF assms(1,2), of True]
  by (cases "tree_walk T 0 (comps path)";
      simp add: rufs_open_def rufs_opendir_def rufs_getattr_def rufs_readdir_def with_mutex_def)+

lemma refines_asks:
  assumes rel: "fs_rel s T" and a: "asks c = Some path" "allowed T c" and m: "\<not> fs_mutex s"
  shows "refines s T c"
proof -
  have p: "path_ok T path" using a by (cases c) auto
  note L = rel_lookup [OF rel p m]
  show ?thesis
  proof (cases "tree_walk T 0 (comps path)")
    case None
    have "\<exists>r. fuse_call c s = Inr (r, s) \<and> status r = - ENOENT"
      using a(1) None L(1-3) L(4) [OF None, of collect "[]"] by (cases c) (auto simp: answer_def)
    then obtain r where r: "fuse_call c s = Inr (r, s)" "status r = - ENOENT" by blast
    show ?thesis
      by (rule refinesI [OF r(1) _ rel]) (use not_found [of c path T r] a(1) None r(2) in blast)
  next
    case (Some k)
    have "\<exists>r. fuse_call c s = Inr (r, s) \<and> status r = 0 \<and> (\<forall>e. dirs T k = Some e \<longrightarrow> lists r (dom e))"
    proof (cases "c = Readdir path")
      case False
      then show ?thesis using a(1) Some L(1-3) by (cases c) (auto simp: answer_def)
    next
      case True
      then obtain e where e: "dirs T k = Some e" using a(2) Some by auto
      then have D: "dir_ok s k" "dir_map s k = e" using fs_relD(4) [OF rel] by (auto simp: dir_rel_def)
      have "walk_names s 0 (comps path) = Some k"
        using rel_walk [OF rel _ comps_nonempty] p Some by (simp add: path_ok_def)
      then obtain names where "rufs_readdir path collect [] s = Inr ((0, names), s)" "distinct names" "set names = dom e"
        using rufs_readdir_lists [of path s k] D m p by (auto simp: path_ok_def)
      then show ?thesis using True e by (auto simp: answer_def)
    qed
    then obtain r where r: "fuse_call c s = Inr (r, s)" "status r = 0" "\<forall>e. dirs T k = Some e \<longrightarrow> lists r (dom e)" by blast
    show ?thesis by (rule refinesI [OF r(1) found [OF a(1) Some r(2,3)] rel])
  qed
qed

subsection \<open>Calls that are refused\<close>

lemma get_avail_reserved:
  assumes "mounted s"
  shows "get_avail_ino s = Inr (r, s') \<Longrightarrow> reserved s s'" "get_avail_blkno s = Inr (r, s') \<Longrightarrow> reserved s s'"
proof -
  assume run: "get_avail_ino s = Inr (r, s')"
  have ms: "mounted s'" by (rule get_avail_keeps(1) [OF run assms])
  have "readi s' k = readi s k" if "unat k < MAX_INUM" for k
    using run get_avail_ino_mounted [OF assms]
    by (intro readi_other_block [OF assms ms that]) (auto split: option.splits)
  moreover have "lb_get (lb_set (disk s 1) i) j" if "first_clear MAX_INUM (disk s 1) = Some i" "lb_get (disk s 1) j" for i j
    using that(2) first_clear_Some [OF that(1)] mountedD(7) [OF assms] by (subst lb_get_set) (simp_all add: MAX_INUM_def)
  ultimately show "reserved s s'"
    using ms run get_avail_ino_mounted [OF assms] by (auto simp: reserved_def split: option.splits)
next
  assume run: "get_avail_blkno s = Inr (r, s')"
  have ms: "mounted s'" by (rule get_avail_keeps(2) [OF run assms])
  have "readi s' k = readi s k" if "unat k < MAX_INUM" for k
    using run get_avail_blkno_mounted [OF assms]
    by (intro readi_other_block [OF assms ms that]) (auto split: option.splits)
  moreover have "lb_get (lb_set (disk s 2) i) j" if "first_clear MAX_DNUM (disk s 2) = Some i" "lb_get (disk s 2) j" for i j
    using that(2) first_clear_Some [OF that(1)] mountedD(7) [OF assms] by (subst lb_get_set) (simp_all add: MAX_DNUM_def)
  ultimately show "reserved s s'"
    using ms run get_avail_blkno_mounted [OF assms] by (auto simp: reserved_def split: option.splits)
qed

lemma reserved_dir:
  assumes "reserved s s'" and "dir_ok s n"
  shows "dir_ok s' n" "dir_map s' n = dir_map s n" "dir_full s' n = dir_full s n" "readi s' n = readi s n"
proof -
  have n: "unat n < MAX_INUM" "67 \<le> dir_block s n" using assms(2) by (simp_all add: dir_ok_def)
  show r: "readi s' n = readi s n" using assms(1) n(1) by (simp add: reserved_def)
  show "dir_ok s' n" "dir_map s' n = dir_map s n" "dir_full s' n = dir_full s n"
    using dir_frame [OF assms(2) _ r] assms(1) n(2) by (simp_all add: reserved_def)
qed

lemma avail_results:
  assumes "mounted s"
  shows "\<exists>s'. get_avail_ino s = Inr (case first_clear MAX_INUM (disk s 1) of None \<Rightarrow> -1 | Some k \<Rightarrow> int k, s') \<and> reserved s s'
      \<and> disk s' 2 = disk s 2"
    "\<exists>s'. get_avail_blkno s = Inr (case first_clear MAX_DNUM (disk s 2) of None \<Rightarrow> -1 | Some d \<Rightarrow> int (67 + d), s') \<and> reserved s s'"
proof -
  show "\<exists>s'. get_avail_ino s = Inr (case first_clear MAX_INUM (disk s 1) of None \<Rightarrow> -1 | Some k \<Rightarrow> int k, s') \<and> reserved s s'
      \<and> disk s' 2 = disk s 2"
    using get_avail_ino_mounted [OF assms] get_avail_reserved(1) [OF assms]
    by (cases "first_clear MAX_INUM (disk s 1)") auto
  show "\<exists>s'. get_avail_blkno s = Inr (case first_clear MAX_DNUM (disk s 2) of None \<Rightarrow> -1 | Some d \<Rightarrow> int (67 + d), s') \<and> reserved s s'"
    using get_avail_blkno_mounted [OF assms] get_avail_reserved(2) [OF assms]
    by (cases "first_clear MAX_DNUM (disk s 2)") auto
qed

text \<open>\<open>dir_add\<close> refuses a name that is there and a full directory.\<close>

lemma dir_add_refuses:
  assumes "dir_ok s n" and "name_ok nm" and "dir_map s n nm \<noteq> None \<or> dir_full s n"
  shows "dir_add s (readi s n) f nm = Inr (if dir_map s n nm = None then - ENOSPC else - EEXIST, s)"
  using dir_add_cases(1,2) [OF assms(1,2) refl] assms(3) by auto

lemma create_refused:
  assumes new: "new_name s path n" and m: "\<not> fs_mutex s" and k0: "first_clear MAX_INUM (disk s 1) \<noteq> Some 0"
    and why: "first_clear MAX_INUM (disk s 1) = None \<or> dir_map s n (basename path) \<noteq> None \<or> dir_full s n"
  shows "\<exists>s' r. rufs_create path mode s = Inr (r, s') \<and> reserved s s'
    \<and> (r = - ENOSPC \<or> r = - EEXIST \<and> dir_map s n (basename path) \<noteq> None)"
proof -
  let ?s = "s\<lparr>fs_mutex := True\<rparr>"
  have N: "name_ok (basename path)" "dir_ok ?s n" "mounted ?s" using new by (simp_all add: new_name_def dir_ok_def)
  obtain s1 where s1: "get_avail_ino ?s = Inr (case first_clear MAX_INUM (disk s 1) of None \<Rightarrow> -1 | Some k \<Rightarrow> int k, s1)" "reserved ?s s1"
    using avail_results(1) [OF N(3)] by auto
  note D = reserved_dir [OF s1(2) N(2)]
  show ?thesis
  proof (cases "first_clear MAX_INUM (disk s 1)")
    case None
    then have "rufs_create path mode s = Inr (- ENOSPC, s1\<lparr>fs_mutex := False\<rparr>)"
      using m parent_found [OF new] s1(1) by (simp add: rufs_create_def with_mutex_def)
    then show ?thesis using s1(2) by auto
  next
    case (Some k)
    then have k: "0 < k" using k0 by (cases k) auto
    have "dir_add s1 (readi s n) (of_int (int k)) (basename path)
        = Inr (if dir_map s n (basename path) = None then - ENOSPC else - EEXIST, s1)"
      using dir_add_refuses [OF D(1) N(1)] D(2-4) why Some by simp
    then have "rufs_create path mode s = Inr (if dir_map s n (basename path) = None then - ENOSPC else - EEXIST, s1\<lparr>fs_mutex := False\<rparr>)"
      using m parent_found [OF new] s1(1) Some k by (simp add: rufs_create_def with_mutex_def ENOSPC_def EEXIST_def)
    then show ?thesis using s1(2) by auto
  qed
qed

lemma mkdir_refused:
  assumes new: "new_name s path n" and m: "\<not> fs_mutex s" and k0: "first_clear MAX_INUM (disk s 1) \<noteq> Some 0"
    and why: "first_clear MAX_INUM (disk s 1) = None \<or> first_clear MAX_DNUM (disk s 2) = None
      \<or> dir_map s n (basename path) \<noteq> None \<or> dir_full s n"
  shows "\<exists>s' r. rufs_mkdir path s = Inr (r, s') \<and> reserved s s'
    \<and> (r = - ENOSPC \<or> r = - EEXIST \<and> dir_map s n (basename path) \<noteq> None)"
proof -
  let ?s = "s\<lparr>fs_mutex := True\<rparr>"
  have N: "name_ok (basename path)" "dir_ok ?s n" "mounted ?s" using new by (simp_all add: new_name_def dir_ok_def)
  obtain s1 where s1: "get_avail_ino ?s = Inr (case first_clear MAX_INUM (disk s 1) of None \<Rightarrow> -1 | Some k \<Rightarrow> int k, s1)" "reserved ?s s1"
      "disk s1 2 = disk s 2"
    using avail_results(1) [OF N(3)] by auto
  have m1: "mounted s1" using s1(2) by (simp add: reserved_def)
  obtain s2 where s2: "get_avail_blkno s1 = Inr (case first_clear MAX_DNUM (disk s 2) of None \<Rightarrow> -1 | Some d \<Rightarrow> int (67 + d), s2)" "reserved s1 s2"
    using avail_results(2) [OF m1] s1(3) by auto
  have r2: "reserved ?s s2" by (rule reserved_trans [OF s1(2) s2(2)])
  note D = reserved_dir [OF r2 N(2)]
  show ?thesis
  proof (cases "first_clear MAX_INUM (disk s 1)")
    case None
    then have "rufs_mkdir path s = Inr (- ENOSPC, s1\<lparr>fs_mutex := False\<rparr>)"
      using m parent_found [OF new] s1(1) by (simp add: rufs_mkdir_def with_mutex_def)
    then show ?thesis using s1(2) by auto
  next
    case (Some k)
    then have k: "0 < k" using k0 by (cases k) auto
    show ?thesis
    proof (cases "first_clear MAX_DNUM (disk s 2)")
      case None
      then have "rufs_mkdir path s = Inr (- ENOSPC, s2\<lparr>fs_mutex := False\<rparr>)"
        using m parent_found [OF new] s1(1) s2(1) Some k by (simp add: rufs_mkdir_def with_mutex_def)
      then show ?thesis using r2 by auto
    next
      case d: (Some d)
      have "dir_add s2 (readi s n) (of_int (int k)) (basename path)
          = Inr (if dir_map s n (basename path) = None then - ENOSPC else - EEXIST, s2)"
        using dir_add_refuses [OF D(1) N(1)] D(2-4) why Some d by simp
      then have "rufs_mkdir path s = Inr (if dir_map s n (basename path) = None then - ENOSPC else - EEXIST, s2\<lparr>fs_mutex := False\<rparr>)"
        using m parent_found [OF new] s1(1) s2(1) Some k d by (simp add: rufs_mkdir_def with_mutex_def ENOSPC_def EEXIST_def)
      then show ?thesis using r2 by auto
    qed
  qed
qed

subsection \<open>Calls that make a node\<close>

lemma node_number: "k < MAX_INUM \<Longrightarrow> unat (of_nat k :: 16 word) = k"
  by (simp only: unat_of_nat) (simp add: MAX_INUM_def)

text \<open>The directory and the number of a new node.\<close>

lemma new_place:
  assumes rel: "fs_rel s T" and ok: "tree_ok T" and mk: "can_make T path"
    and n: "tree_walk T 0 (comps (dirname path)) = Some n"
  shows "\<exists>e. dirs T n = Some e \<and> dir_rel s n e" "new_name s path n" "first_clear MAX_INUM (disk s 1) \<noteq> Some 0"
    "first_clear MAX_INUM (disk s 1) = Some k \<Longrightarrow> of_nat k \<notin> nodes T"
proof -
  have p: "path_ok T path" "comps path \<noteq> []" "name_ok (basename path)" using mk by (simp_all add: can_make_def)
  obtain e where e: "dirs T n = Some e" using parent_dir [OF p(1,2) n] by blast
  have D: "dir_rel s n e" by (rule fs_relD(4) [OF rel e])
  show "\<exists>e. dirs T n = Some e \<and> dir_rel s n e" using e D by blast
  have "path_ok T (dirname path)" by (rule path_ok_dirname [OF p(1,2)])
  then have "walk_names s 0 (comps (dirname path)) = Some n"
    using rel_walk [OF rel _ comps_nonempty] n by (simp add: path_ok_def)
  moreover have "lb_get (disk s 1) (unat n)" by (rule node_relD(3) [OF fs_relD(2) [OF rel dir_nodes [OF e]]])
  ultimately show "new_name s path n" using p D by (simp add: new_name_def path_ok_def dir_rel_def)
  have "0 \<in> nodes T" by (rule dom_nodes [OF root_in [OF ok]])
  then have "lb_get (disk s 1) 0" using node_relD(3) [OF fs_relD(2) [OF rel]] by force
  then show "first_clear MAX_INUM (disk s 1) \<noteq> Some 0" using first_clear_Some by fastforce
  show "of_nat k \<notin> nodes T" if "first_clear MAX_INUM (disk s 1) = Some k"
    using node_relD(3) [OF fs_relD(2) [OF rel]] first_clear_Some [OF that] node_number [of k] by force
qed

lemma create_made:
  assumes rel: "fs_rel s T" and m: "\<not> fs_mutex s" and new: "new_name s path n" and e: "dirs T n = Some e" "e (basename path) = None"
    and room: "\<not> dir_full s n" and k: "first_clear MAX_INUM (disk s 1) = Some k" "0 < k" "of_nat k \<notin> nodes T"
  shows "\<exists>s'. rufs_create path mode s = Inr (0, s') \<and> fs_rel s' (add_file T n (basename path) (of_nat k))"
proof -
  let ?k = "of_nat k :: 16 word"
  have D: "dir_ok s n" "dir_map s n = e" using fs_relD(4) [OF rel e(1)] by (simp_all add: dir_rel_def)
  have "dir_map s n (basename path) = None" using D(2) e(2) by simp
  from file_created [OF new m this room k(1,2), of mode]
  obtain s' where s': "rufs_create path mode s = Inr (0, s')" "dir_ok s' n" "dir_map s' n = (dir_map s n)(basename path \<mapsto> ?k)"
      "ino (readi s' ?k) = ?k" "direct_ptr (readi s' ?k) = replicate 16 (-1)"
      "\<forall>m. unat m < MAX_INUM \<longrightarrow> m \<noteq> n \<longrightarrow> m \<noteq> ?k \<longrightarrow> readi s' m = readi s m"
      "\<forall>j. lb_get (disk s' 1) j \<longleftrightarrow> j = k \<or> lb_get (disk s 1) j"
      "\<forall>j. j \<noteq> 1 \<longrightarrow> (j < 3 \<or> 67 \<le> j) \<longrightarrow> j \<noteq> dir_block s n \<longrightarrow> disk s' j = disk s j"
      "dir_block s' n = dir_block s n" "same_node (readi s n) (readi s' n)" "indirect_ptr (readi s' ?k) ! 0 = -1"
    by blast
  have ms: "mounted s'" using s'(2) by (simp add: dir_ok_def)
  note R = fs_relD [OF rel]
  have "disk s' 2 = disk s 2" using s'(8) D(1) by (simp add: dir_ok_def)
  then have b2: "lb_get (disk s' 2) (b - 67)" if "j \<in> nodes T" "b \<in> node_blocks s j" for j b
    using node_relD(6) [OF R(2) [OF that(1)] that(2)] by simp
  have nodes: "readi s' j = readi s j" if "j \<in> nodes T" "j \<noteq> n" for j
    using that s'(6) k(3) node_relD(1) [OF R(2) [OF that(1)]] by metis
  have tables: "disk s' (dir_block s j) = disk s (dir_block s j)" if j: "dirs T j = Some e'" "j \<noteq> n" for j e'
  proof -
    have "dir_block s j \<in> node_blocks s j" "67 \<le> dir_block s j" using R(4) [OF j(1)] by (simp_all add: dir_rel_def dir_ok_def)
    moreover from this have "dir_block s j \<noteq> dir_block s n" using dir_block_apart [OF rel e(1) dir_nodes [OF j(1)] j(2)] by metis
    ultimately show ?thesis using s'(8) by simp
  qed
  have "fs_rel s' (T\<lparr>dirs := (dirs T)(n \<mapsto> e(basename path \<mapsto> ?k))\<rparr>)"
    by (rule rel_update [OF rel ms _ nodes s'(10) _ b2 tables s'(2) _ s'(9)])
      (use e(1) s'(3,7) D(2) node_relD(3) [OF R(2)] in auto)
  moreover have none: "node_blocks s' ?k = {}" by (auto simp: node_blocks_def blocks_of_def s'(5))
  moreover have "node_rel s' ?k"
    using s'(4,5,7,11) none node_number [of k] first_clear_Some [OF k(1)] by (simp add: node_rel_def pointers_ok_def)
  moreover have "nodes (T\<lparr>dirs := (dirs T)(n \<mapsto> e(basename path \<mapsto> ?k))\<rparr>) = nodes T" using e(1) by (auto simp: nodes_def)
  ultimately have "fs_rel s' ((T\<lparr>dirs := (dirs T)(n \<mapsto> e(basename path \<mapsto> ?k))\<rparr>)\<lparr>files := insert ?k (files T)\<rparr>)"
    using rel_new_file [of s' "T\<lparr>dirs := (dirs T)(n \<mapsto> e(basename path \<mapsto> ?k))\<rparr>" ?k] k(3) by simp
  then show ?thesis using s'(1) e(1) by (auto simp: add_file_def)
qed

lemma first_pointer: "set ((replicate 16 (-1 :: 32 word))[0 := p]) = {p, -1}"
  by (auto simp: numeral_eq_Suc)

lemma mkdir_made:
  assumes rel: "fs_rel s T" and m: "\<not> fs_mutex s" and new: "new_name s path n" and e: "dirs T n = Some e" "e (basename path) = None"
    and room: "\<not> dir_full s n" and k: "first_clear MAX_INUM (disk s 1) = Some k" "0 < k" "of_nat k \<notin> nodes T"
    and d: "first_clear MAX_DNUM (disk s 2) = Some d"
  shows "\<exists>s'. rufs_mkdir path s = Inr (0, s') \<and> fs_rel s' (add_dir T n (basename path) (of_nat k))"
proof -
  let ?k = "of_nat k :: 16 word" and ?b = "67 + of_nat d :: 32 word"
  note R = fs_relD [OF rel]
  have D: "dir_ok s n" "dir_map s n = e" "dir_block s n \<in> node_blocks s n" using R(4) [OF e(1)] by (simp_all add: dir_rel_def)
  have db: "d < 16384" "\<not> lb_get (disk s 2) d" using first_clear_Some [OF d] by (simp_all add: MAX_DNUM_def)
  have ub: "unat ?b = 67 + d" using db(1) unat_base_plus [of 67 d] by simp
  have free: "67 + d \<notin> node_blocks s j" if "j \<in> nodes T" for j
    using node_relD(6) [OF R(2) [OF that], of "67 + d"] db(2) by auto
  have "dir_map s n (basename path) = None" "lb_get (disk s 2) (dir_block s n - 67)"
    using D e(2) node_relD(6) [OF R(2) [OF dir_nodes [OF e(1)]]] by simp_all
  from directory_made [OF new m this(1) room k(1,2) d this(2)]
  obtain s' where s': "rufs_mkdir path s = Inr (0, s')" "dir_ok s' n" "dir_map s' n = (dir_map s n)(basename path \<mapsto> ?k)"
      "dir_ok s' ?k" "dir_map s' ?k = [dotdot \<mapsto> n, dot \<mapsto> ?k]"
      "\<forall>m. unat m < MAX_INUM \<longrightarrow> m \<noteq> n \<longrightarrow> m \<noteq> ?k \<longrightarrow> readi s' m = readi s m"
      "\<forall>j. lb_get (disk s' 1) j \<longleftrightarrow> j = k \<or> lb_get (disk s 1) j" "\<forall>j. lb_get (disk s' 2) j \<longleftrightarrow> j = d \<or> lb_get (disk s 2) j"
      "\<forall>j. 67 \<le> j \<longrightarrow> j \<noteq> dir_block s n \<longrightarrow> j \<noteq> 67 + d \<longrightarrow> disk s' j = disk s j"
      "dir_block s' n = dir_block s n" "same_node (readi s n) (readi s' n)"
      "direct_ptr (readi s' ?k) = (replicate 16 (-1))[0 := ?b]" "indirect_ptr (readi s' ?k) ! 0 = -1"
    by blast
  have ms: "mounted s'" using s'(2) by (simp add: dir_ok_def)
  have nodes: "readi s' j = readi s j" if "j \<in> nodes T" "j \<noteq> n" for j
    using that s'(6) k(3) node_relD(1) [OF R(2) [OF that(1)]] by metis
  have tables: "disk s' (dir_block s j) = disk s (dir_block s j)" if j: "dirs T j = Some e'" "j \<noteq> n" for j e'
  proof -
    have "dir_block s j \<in> node_blocks s j" "67 \<le> dir_block s j" using R(4) [OF j(1)] by (simp_all add: dir_rel_def dir_ok_def)
    moreover from this have "dir_block s j \<noteq> dir_block s n" "dir_block s j \<noteq> 67 + d"
      using dir_block_apart [OF rel e(1) dir_nodes [OF j(1)] j(2)] free [OF dir_nodes [OF j(1)]] by metis+
    ultimately show ?thesis using s'(9) by simp
  qed
  let ?T = "T\<lparr>dirs := (dirs T)(n \<mapsto> e(basename path \<mapsto> ?k))\<rparr>"
  have rel': "fs_rel s' ?T"
    by (rule rel_update [OF rel ms _ nodes s'(11) _ _ tables s'(2) _ s'(10)])
      (use e(1) s'(3,7,8) D(2) node_relD(3,6) [OF R(2)] in auto)
  have "?b \<noteq> -1" using data_block_simps(1) [of ?b] db(1) ub by (simp add: data_block_def)
  then have "{p \<in> {?b, -1}. p \<noteq> -1} = {?b}" by auto
  then have blk: "node_blocks s' ?k = {67 + d}" using ub by (simp add: node_blocks_def blocks_of_def s'(12) first_pointer)
  have dk: "dir_block s' ?k = 67 + d" using ub by (simp add: dir_block_def s'(12))
  have same: "node_blocks s' j = node_blocks s j" if "j \<in> nodes T" for j
    using that nodes s'(11) by (cases "j = n") (simp_all add: same_node_blocks)
  have "node_rel s' ?k"
    using s'(4,7,8,12,13) blk node_number [of k] first_clear_Some [OF k(1)] db(1) ub
    by (simp add: node_rel_def pointers_ok_def data_block_def dir_ok_def first_pointer)
  moreover have "dir_rel s' ?k [dotdot \<mapsto> n, dot \<mapsto> ?k]" using s'(4,5) blk dk by (simp add: dir_rel_def)
  moreover have "nodes ?T = nodes T" using e(1) by (auto simp: nodes_def)
  ultimately have "fs_rel s' (?T\<lparr>dirs := (dirs ?T)(?k \<mapsto> [dotdot \<mapsto> n, dot \<mapsto> ?k])\<rparr>)"
    using rel_new_dir [OF rel', of ?k "[dotdot \<mapsto> n, dot \<mapsto> ?k]"] k(3) blk same free by simp
  then show ?thesis using s'(1) e(1) by (auto simp: add_dir_def)
qed

lemma refines_makes:
  assumes rel: "fs_rel s T" and ok: "tree_ok T" and c: "makes c path" "can_make T path" and m: "\<not> fs_mutex s"
  shows "refines s T c"
proof (cases "tree_walk T 0 (comps (dirname path))")
  case None
  have "path_ok T (dirname path)" using c(2) path_ok_dirname by (simp add: can_make_def)
  then have "get_node_by_path (s\<lparr>fs_mutex := True\<rparr>) (dirname path) 0 = Inr None" using rel_path [OF rel] None by simp
  then have "fuse_call c s = Inr (Status (- ENOENT), s)"
    using c(1) m by (auto simp: makes_def answer_def rufs_mkdir_def rufs_create_def with_mutex_def)
  then show ?thesis by (rule refinesI [OF _ no_parent [OF c(1) None] rel])
next
  case (Some n)
  note N = new_place [OF rel ok c(2) Some]
  obtain e where e: "dirs T n = Some e" "dir_rel s n e" using N(1) by blast
  then have D: "dir_map s n = e" by (simp add: dir_rel_def)
  have refused: "refines s T c" if "fuse_call c s = Inr (Status r, s')" "reserved s s'"
      "r = - ENOSPC \<or> r = - EEXIST \<and> dir_map s n (basename path) \<noteq> None" for r s'
    using that(3)
  proof
    assume "r = - ENOSPC"
    then show ?thesis using refinesI [OF that(1) _ rel_reserved [OF rel that(2)]] no_space [OF c(1) Some] by blast
  next
    assume "r = - EEXIST \<and> dir_map s n (basename path) \<noteq> None"
    then show ?thesis using refinesI [OF that(1) _ rel_reserved [OF rel that(2)]] name_taken [OF c(1) Some e(1)] D by blast
  qed
  show ?thesis
  proof (cases "c = Mkdir path")
    case True
    show ?thesis
    proof (cases "first_clear MAX_INUM (disk s 1) = None \<or> first_clear MAX_DNUM (disk s 2) = None
        \<or> dir_map s n (basename path) \<noteq> None \<or> dir_full s n")
      case refuse: True
      from mkdir_refused [OF N(2) m N(3) this] show ?thesis using refused True by (auto simp: answer_def)
    next
      case False
      then obtain k d where k: "first_clear MAX_INUM (disk s 1) = Some k" "first_clear MAX_DNUM (disk s 2) = Some d" by auto
      have k0: "0 < k" "of_nat k \<notin> nodes T" using N(3,4) k(1) by (cases k; auto)+
      have en: "e (basename path) = None" using False D by simp
      obtain s' where "rufs_mkdir path s = Inr (0, s')" "fs_rel s' (add_dir T n (basename path) (of_nat k))"
        using mkdir_made [OF rel m N(2) e(1) en _ k(1) k0 k(2)] False by blast
      then show ?thesis
        using refinesI [OF _ made_dir [OF Some e(1) en k0(2)]] True by (simp add: answer_def)
    qed
  next
    case False
    then obtain mode where cr: "c = Create path mode" using c(1) by (auto simp: makes_def)
    show ?thesis
    proof (cases "first_clear MAX_INUM (disk s 1) = None \<or> dir_map s n (basename path) \<noteq> None \<or> dir_full s n")
      case True
      from create_refused [OF N(2) m N(3) this, of mode] show ?thesis using refused cr by (auto simp: answer_def)
    next
      case False
      then obtain k where k: "first_clear MAX_INUM (disk s 1) = Some k" by auto
      have k0: "0 < k" "of_nat k \<notin> nodes T" using N(3,4) k(1) by (cases k; auto)+
      have en: "e (basename path) = None" using False D by simp
      obtain s' where "rufs_create path mode s = Inr (0, s')" "fs_rel s' (add_file T n (basename path) (of_nat k))"
        using create_made [OF rel m N(2) e(1) en _ k k0] False by blast
      then show ?thesis
        using refinesI [OF _ made_file [OF Some e(1) en k0(2)]] cr by (simp add: answer_def)
    qed
  qed
qed

subsection \<open>Calls that remove a node\<close>

lemma visits_tree:
  assumes "fs_rel s T" and "tree_walk T n nms = Some j" and "[] \<notin> set nms" and "m \<in> set (visits s n nms)"
  shows "\<exists>e nm. dirs T m = Some e \<and> nm \<in> set nms \<and> e nm \<noteq> None"
  using assms(2-4)
proof (induction nms arbitrary: n)
  case (Cons nm nms)
  then obtain e k where e: "dirs T n = Some e" "e nm = Some k" "tree_walk T k nms = Some j" by (auto split: option.splits)
  have "dir_map s n nm = Some k" using fs_relD(4) [OF assms(1) e(1)] e(2) by (auto simp: dir_rel_def)
  then obtain d where d: "dir_find s n nm = Some d" "d_ino d = k" using Cons.prems(2) by (auto simp: dir_map_def)
  have "m = n \<or> m \<in> set (visits s k nms)" using Cons.prems(3) d by simp
  then show ?case
  proof
    assume "m = n"
    then show ?thesis using e(1,2) by auto
  next
    assume "m \<in> set (visits s k nms)"
    then show ?thesis using Cons.IH [OF e(3)] Cons.prems(2) by auto
  qed
qed simp

lemma rel_removable:
  assumes rel: "fs_rel s T" and ok: "tree_ok T" and c: "can_remove T path"
    and n: "tree_walk T 0 (comps (dirname path)) = Some n" "dirs T n = Some e" "e (basename path) = Some k"
  shows "removable s path n k" "indirect_ptr (readi s k) ! 0 = -1" "k \<in> nodes T" "n \<noteq> k"
proof -
  note R = fs_relD [OF rel] and L = removed_leaf [OF c n]
  have p: "path \<noteq> []" "hd path = slash" "path_ok T path" "comps path \<noteq> []" "set (comps path) \<inter> self_names = {}"
    using c by (simp_all add: can_remove_def path_ok_def)
  have en: "entry T n (basename path) k" using n(2,3) by (auto simp: entry_def)
  show k: "k \<in> nodes T" by (rule tree_okD(4) [OF ok en])
  show nk: "n \<noteq> k" by (rule remove_ok(1) [OF ok en L(3) L(1)])
  note K = node_relD [OF R(2) [OF k]]
  show "indirect_ptr (readi s k) ! 0 = -1" by (rule K(5))
  have D: "dir_ok s n" "dir_map s n = e" using R(4) [OF n(2)] by (simp_all add: dir_rel_def)
  have "walk_names s 0 (comps path) = Some k"
    using rel_walk [OF rel _ comps_nonempty] L(2) p(3) by (simp add: path_ok_def)
  then have at: "file_at s path k" using p(1,2) R(1) K(1,2) by (simp add: file_at_def)
  have walk: "walk_names s 0 (comps (dirname path)) = Some n"
    using rel_walk [OF rel _ comps_nonempty] n(1) path_ok_dirname [OF p(3,4)] by (simp add: path_ok_def)
  have split: "comps path = comps (dirname path) @ [basename path]" by (rule comps_split [OF p(1,2,4)])
  have "path_apart s (comps (dirname path)) k (blocks_of (direct_ptr (readi s k)))"
    unfolding path_apart_def
  proof
    fix m
    assume "m \<in> set (visits s 0 (comps (dirname path)))"
    then obtain e' nm where m: "dirs T m = Some e'" "nm \<in> set (comps (dirname path))" "e' nm \<noteq> None"
      using visits_tree [OF rel n(1) comps_nonempty] by blast
    have "nm \<notin> self_names" using m(2) p(5) split by auto
    then have mk: "m \<noteq> k" using m(1,3) L(1) by (auto simp: is_leaf_def)
    then show "dir_ok s m \<and> m \<noteq> k \<and> dir_block s m \<notin> blocks_of (direct_ptr (readi s k))"
      using R(4) [OF m(1)] dir_block_apart [OF rel m(1) k] by (auto simp: dir_rel_def node_blocks_def)
  qed
  moreover have "dir_block s n \<notin> blocks_of (direct_ptr (readi s k))"
    using dir_block_apart [OF rel n(2) k] nk by (auto simp: node_blocks_def)
  moreover have "basename path \<noteq> []" using comps_nonempty [of path] split by auto
  ultimately show "removable s path n k"
    using at D walk nk n(3) K(4) by (simp add: removable_def)
qed

lemma rel_removed:
  assumes rel: "fs_rel s T" and k: "k \<in> nodes T" and n: "dirs T n = Some e" "n \<noteq> k" and rm: "removed s path n k s'"
  shows "fs_rel s' (remove_name T n (basename path) k)"
proof -
  let ?T = "drop_node T k"
  note R = fs_relD [OF rel]
  have rel0: "fs_rel s ?T" by (rule rel_drop [OF rel])
  have e: "dirs ?T n = Some e" using n by (simp add: drop_node_def)
  have ms: "mounted s'" using rm by (simp add: removed_def dir_ok_def)
  have map: "dir_map s' n = e(basename path := None)" using rm R(4) [OF n(1)] by (simp add: removed_def dir_rel_def)
  have same: "same_node (readi s n) (readi s' n)" using rm by (simp add: removed_def)
  have nodes: "readi s' j = readi s j" if "j \<in> nodes ?T" "j \<noteq> n" for j
    using that rm node_relD(1) [OF R(2)] by (auto simp: removed_def)
  have b1: "lb_get (disk s' 1) (unat j)" if "j \<in> nodes ?T" for j
    using that rm node_relD(3) [OF R(2), of j] by (auto simp: removed_def simp flip: word_unat_eq_iff)
  have b2: "lb_get (disk s' 2) (b - 67)" if j: "j \<in> nodes ?T" "b \<in> node_blocks s j" for j b
  proof -
    have "67 \<le> b" using block_in_data j node_relD(4) [OF R(2), of j] by (simp add: node_blocks_def)
    moreover have "b \<notin> node_blocks s k" using R(3) [of j k] j k by auto
    ultimately show ?thesis
      using j rm node_relD(6) [OF R(2), of j b] by (simp add: removed_def node_blocks_def)
  qed
  have tables: "disk s' (dir_block s j) = disk s (dir_block s j)" if j: "dirs ?T j = Some e'" "j \<noteq> n" for j e'
  proof -
    have d: "dirs T j = Some e'" "j \<noteq> k" using j(1) by (auto simp: drop_node_def split: if_splits)
    have b: "dir_block s j \<in> node_blocks s j" "67 \<le> dir_block s j" using R(4) [OF d(1)] by (simp_all add: dir_rel_def dir_ok_def)
    moreover have "dir_block s j \<noteq> dir_block s n" using dir_block_apart [OF rel n(1) dir_nodes [OF d(1)] j(2)] b(1) by metis
    moreover have "dir_block s j \<notin> node_blocks s k" by (rule dir_block_apart [OF rel d(1) k]) (use d(2) in simp)
    ultimately show ?thesis using rm by (simp add: removed_def node_blocks_def)
  qed
  have "fs_rel s' (?T\<lparr>dirs := (dirs ?T)(n \<mapsto> e(basename path := None))\<rparr>)"
    by (rule rel_update [OF rel0 ms _ nodes same b1 b2 tables _ map])
      (use e rm same in \<open>auto simp: removed_def dir_block_def same_node_def\<close>)
  then show ?thesis using e by (simp add: remove_name_def Let_def)
qed

lemma refines_removes:
  assumes rel: "fs_rel s T" and ok: "tree_ok T" and c: "removes c path" "can_remove T path" and m: "\<not> fs_mutex s"
  shows "refines s T c"
proof (cases "tree_walk T 0 (comps path)")
  case None
  have "path_ok T path" using c(2) by (simp add: can_remove_def)
  then have "get_node_by_path (s\<lparr>fs_mutex := True\<rparr>) path 0 = Inr None" using rel_path [OF rel] None by simp
  then have "fuse_call c s = Inr (Status (- ENOENT), s)"
    using c(1) m by (auto simp: removes_def answer_def rufs_rmdir_def rufs_unlink_def with_mutex_def)
  then show ?thesis by (rule refinesI [OF _ not_found rel]) (use c(1) None in auto)
next
  case (Some k)
  have p: "path \<noteq> []" "hd path = slash" "comps path \<noteq> []" using c(2) by (simp_all add: can_remove_def path_ok_def)
  obtain n e where n: "tree_walk T 0 (comps (dirname path)) = Some n" "dirs T n = Some e" "e (basename path) = Some k"
    using Some comps_split [OF p] by (auto simp: tree_walk_append bind_eq_Some_conv split: option.splits)
  note K = rel_removable [OF rel ok c(2) n]
  have "\<exists>s'. fuse_call c s = Inr (Status 0, s') \<and> removed s path n k s'"
    using c(1) rufs_unlink_removed [OF K(1) m K(2)] rufs_rmdir_removed [OF K(1) m] by (auto simp: removes_def answer_def)
  then obtain s' where "fuse_call c s = Inr (Status 0, s')" "removed s path n k s'" by blast
  then show ?thesis
    using refinesI [OF _ removed [OF c(1) n]] rel_removed [OF rel K(3) n(2) K(4)] by blast
qed

subsection \<open>Reading and writing\<close>

text \<open>A file's inode and blocks change, and nothing else of the tree.\<close>

lemma rel_file:
  assumes rel: "fs_rel s T" and ok: "tree_ok T" and k: "k \<in> files T" and m: "mounted s'"
    and others: "\<And>j. unat j < MAX_INUM \<Longrightarrow> j \<noteq> k \<Longrightarrow> readi s' j = readi s j"
    and node: "ino (readi s' k) = k" "pointers_ok (direct_ptr (readi s' k))" "indirect_ptr (readi s' k) ! 0 = -1"
    and new: "\<And>b. b \<in> node_blocks s' k \<Longrightarrow> b \<in> node_blocks s k \<or> \<not> lb_get (disk s 2) (b - 67)"
    and bits: "disk s' 1 = disk s 1" "\<And>j. lb_get (disk s 2) j \<Longrightarrow> lb_get (disk s' 2) j"
      "\<And>b. b \<in> node_blocks s' k \<Longrightarrow> lb_get (disk s' 2) (b - 67)"
    and blocks: "\<And>b. 67 \<le> b \<Longrightarrow> b \<notin> node_blocks s' k \<Longrightarrow> disk s' b = disk s b"
  shows "fs_rel s' T"
proof -
  note R = fs_relD [OF rel]
  have kn: "k \<in> nodes T" using k by (simp add: nodes_def)
  have same: "readi s' j = readi s j" if "j \<in> nodes T" "j \<noteq> k" for j
    using that others node_relD(1) [OF R(2)] by blast
  then have nb: "node_blocks s' j = node_blocks s j" if "j \<in> nodes T" "j \<noteq> k" for j
    using that by (simp add: node_blocks_def)
  have apart: "b \<notin> node_blocks s' k" if j: "j \<in> nodes T" "j \<noteq> k" and b: "b \<in> node_blocks s j" for j b
    using R(3) [OF j(1) kn j(2)] b new [of b] node_relD(6) [OF R(2) [OF j(1)] b] by blast
  have "node_rel s' j" if j: "j \<in> nodes T" for j
  proof (cases "j = k")
    case True
    then show ?thesis
      using node bits(1,3) node_relD(1,3) [OF R(2) [OF kn]] by (simp add: node_rel_def)
  next
    case False
    then show ?thesis using R(2) [OF j] same [OF j] nb [OF j] bits(1,2) by (simp add: node_rel_def)
  qed
  moreover have "node_blocks s' i \<inter> node_blocks s' j = {}" if ij: "i \<in> nodes T" "j \<in> nodes T" "i \<noteq> j" for i j
  proof -
    consider "i = k" | "j = k" | "i \<noteq> k" "j \<noteq> k" by blast
    then show ?thesis
    proof cases
      case 1
      then show ?thesis using ij apart [of j] nb [of j] by auto
    next
      case 2
      then show ?thesis using ij apart [of i] nb [of i] by auto
    next
      case 3
      then show ?thesis using R(3) [OF ij] nb ij by simp
    qed
  qed
  moreover have "dir_rel s' n e" if n: "dirs T n = Some e" for n e
  proof -
    have nk: "n \<noteq> k" using tree_okD(1) [OF ok] n k by auto
    have D: "dir_ok s n" "dir_block s n \<in> node_blocks s n" "dir_map s n = e" "67 \<le> dir_block s n"
      using R(4) [OF n] by (simp_all add: dir_rel_def dir_ok_def)
    have "disk s' (dir_block s n) = disk s (dir_block s n)"
      using blocks [OF D(4)] apart [OF dir_nodes [OF n] nk D(2)] by blast
    from dir_frame [OF D(1) m same [OF dir_nodes [OF n] nk] this] show ?thesis
      using D(2,3) nb [OF dir_nodes [OF n] nk] by (simp add: dir_rel_def)
  qed
  ultimately show ?thesis using m by (simp add: fs_rel_def)
qed

text \<open>A read within the direct blocks returns.\<close>

lemma read_loop_returns:
  assumes "0 \<le> b" and "0 \<le> ofs" and "ofs < 4096" and "int n + ofs \<le> (16 - b) * 4096" and "n \<le> length buffer" and "mounted s"
  shows "\<exists>l buffer'. read_loop s i b ofs n buffer = Inr (l, buffer')"
  using assms
proof (induction s i b ofs n buffer rule: read_loop.induct)
  case (1 s i b ofs n buffer)
  show ?case
  proof (cases "n = 0")
    case True
    then show ?thesis by (simp add: read_loop.simps)
  next
    case False
    then have "0 < (16 - b) * 4096" using 1(3,5) by linarith
    then have b: "b \<le> 15" by (simp add: zero_less_mult_iff)
    show ?thesis
    proof (cases "direct_ptr i ! nat b = -1")
      case True
      then show ?thesis using False b 1(2) by (subst read_loop.simps) (simp add: block_ptr_def)
    next
      case p: False
      let ?p = "direct_ptr i ! nat b" and ?n = "min n (BLOCK_SIZE - nat ofs)"
      have bp: "block_ptr s i b = Inr (Some ?p)" using p b 1(2) by (simp add: block_ptr_def)
      have in_block: "\<not> (ofs < 0 \<or> int BLOCK_SIZE \<le> ofs)" "\<not> length buffer < ?n" using 1(3,4,6) by (simp_all add: BLOCK_SIZE_def)
      let ?buf = "splice 0 (bytes_at (nat ofs) ?n (bio_read s ?p)) buffer"
      have "length (bytes_at (nat ofs) ?n (bio_read s ?p)) = ?n" using 1(3,4,7) by (simp add: BLOCK_SIZE_def)
      then have len: "length ?buf = length buffer" using in_block(2) by (intro length_splice) (simp only: not_less add_0)
      have "int (n - ?n) + 0 \<le> (16 - (b + 1)) * 4096 \<or> n - ?n = 0"
        using 1(3-5) by (auto simp: BLOCK_SIZE_def min_def)
      then have "\<exists>l buffer'. read_loop s i (b + 1) 0 (n - ?n) ?buf = Inr (l, buffer')"
      proof
        assume "int (n - ?n) + 0 \<le> (16 - (b + 1)) * 4096"
        then show ?thesis
          using 1(1) [OF False bp refl in_block(1) refl in_block(2)] 1(2,6,7) len le_trans [OF diff_le_self 1(6)] by simp
      qed (simp add: read_loop.simps)
      moreover have "read_loop s i b ofs n buffer = read_loop s i (b + 1) 0 (n - ?n) ?buf"
        using False bp in_block by (subst read_loop.simps) (auto simp: Let_def)
      ultimately show ?thesis by simp
    qed
  qed
qed

lemma file_in_tree:
  assumes rel: "fs_rel s T" and c: "can_transfer T path" and k: "tree_walk T 0 (comps path) = Some k"
  shows "file_at s path k" "k \<in> files T"
proof -
  show kf: "k \<in> files T" using c k by (simp add: can_transfer_def)
  have "node_rel s k" using fs_relD(2) [OF rel] kf by (simp add: nodes_def)
  moreover have "walk_names s 0 (comps path) = Some k"
    using rel_walk [OF rel _ comps_nonempty] c k by (simp add: can_transfer_def path_ok_def)
  ultimately show "file_at s path k"
    using c fs_relD(1) [OF rel] by (simp add: file_at_def node_rel_def can_transfer_def path_ok_def)
qed

lemma refines_read:
  assumes rel: "fs_rel s T" and ok: "tree_ok T" and c: "can_transfer T path" and m: "\<not> fs_mutex s"
    and k: "tree_walk T 0 (comps path) = Some k" and sz: "unat ofs + unat n \<le> 16 * 4096" "unat n \<le> length buffer"
  shows "\<exists>r s'. rufs_read path buffer n ofs s = Inr (r, s') \<and> fs_rel s' T"
proof -
  let ?s = "s\<lparr>fs_mutex := True\<rparr>" and ?i = "readi s k"
  note F = file_in_tree [OF rel c k]
  have D: "mounted s" "unat k < MAX_INUM" "ino ?i = k" using F(1) by (simp_all add: file_at_def)
  have "of_nat (unat ofs) = ofs" "unat ofs < 2147483648" using sz(1) by simp_all
  note pos = position_small [OF this(2), unfolded this(1)]
  have "int l + int a \<le> (16 - int b) * 4096" if "4096 * b + a = x" "x + l \<le> 16 * 4096" for l a b x :: nat
    using that by simp
  from this [OF mult_div_mod_eq sz(1)] have "int (unat n) + int (unat ofs mod 4096) \<le> (16 - int (unat ofs div 4096)) * 4096"
    .
  then obtain l b where run: "read_loop ?s ?i (start_block ofs) (offset_in_block ofs) (unat n) buffer = Inr (l, b)"
    using read_loop_returns [of "int (unat ofs div 4096)" "int (unat ofs mod 4096)" "unat n" buffer ?s ?i] sz(2) D(1) pos(1,2) by auto
  note node = file_found [OF F(1), of True]
  show ?thesis
  proof (cases "unat (ofs + n) > unat (isize ?i) \<or> 0 < l")
    case True
    then show ?thesis using m node run rel by (auto simp: rufs_read_def with_mutex_def)
  next
    case False
    define i where "i = stat64 st_atime (clock s (ticks s)) ?i"
    define s1 where "s1 = ?s\<lparr>ticks := Suc (ticks s)\<rparr>"
    have m1: "mounted s1" using D(1) by (simp add: s1_def)
    have i: "wf_inode i" "ino i = k" "direct_ptr i = direct_ptr ?i" "indirect_ptr i = indirect_ptr ?i"
      using D by (simp_all add: i_def)
    obtain r s2 where w: "writei s1 k i = (r, s2)" by (metis surj_pair)
    then have "s2 = snd (writei s1 k i)" by simp
    note W = inode_stored [OF m1 i(1) D(2) this]
    have "rufs_read path buffer n ofs s = Inr ((as_int n, b), s2\<lparr>fs_mutex := False\<rparr>)"
      using m node run False w by (simp add: rufs_read_def with_mutex_def get_time_def i_def [symmetric] s1_def [symmetric] i(2) D(3))
    moreover have "fs_rel s2 T"
    proof -
      have K: "node_rel s k" using fs_relD(2) [OF rel] F(2) by (simp add: nodes_def)
      have r2: "direct_ptr (readi s2 k) = direct_ptr ?i" "indirect_ptr (readi s2 k) = indirect_ptr ?i" "ino (readi s2 k) = k"
        using W(2) i by simp_all
      then have nb: "node_blocks s2 k = node_blocks s k" by (simp add: node_blocks_def)
      have dsk: "disk s2 j = disk s j" if "j < 3 \<or> 67 \<le> j" for j using W(1) that by (auto simp: only_inode_def s1_def)
      have "mounted s2" "\<And>j. j \<noteq> k \<Longrightarrow> readi s2 j = readi s j" using W(1) by (simp_all add: only_inode_def s1_def)
      then show ?thesis
        using nb dsk r2 node_relD(4-6) [OF K] dsk [of 1] dsk [of 2] by (intro rel_file [OF rel ok F(2)]) auto
    qed
    then have "fs_rel (s2\<lparr>fs_mutex := False\<rparr>) T" by simp
    ultimately show ?thesis by blast
  qed
qed

lemma refines_write:
  assumes rel: "fs_rel s T" and ok: "tree_ok T" and c: "can_transfer T path" and m: "\<not> fs_mutex s"
    and k: "tree_walk T 0 (comps path) = Some k"
    and sz: "unat ofs div 4096 \<le> 15" "0 < unat n" "unat ofs mod 4096 + unat n \<le> 4096" "unat n \<le> length buffer"
  shows "\<exists>r s'. rufs_write path buffer n ofs s = Inr (r, s') \<and> fs_rel s' T"
proof -
  let ?i = "readi s k" and ?b = "unat ofs div 4096"
  note F = file_in_tree [OF rel c k]
  have K: "node_rel s k" using fs_relD(2) [OF rel] F(2) by (simp add: nodes_def)
  note N = node_relD [OF K]
  have small: "unat ofs + unat n < 2147483648" using sz(1,3) by linarith
  have e: "of_nat (unat ofs) = ofs" "of_nat (unat n) = n" by simp_all
  show ?thesis
  proof (cases "unat ofs \<le> unat (isize ?i)")
    case False
    have "sint ofs = int (unat ofs)" using sint_of_nat_small(1) [of "unat ofs"] small unfolding e by simp
    then have "sint ofs > uint (isize ?i)" using False by (simp only: uint_nat of_nat_less_iff not_le)
    then have "rufs_write path buffer n ofs s = Inr (0, s\<lparr>fs_mutex := False\<rparr>)"
      using m file_found [OF F(1), of True] by (simp add: rufs_write_def with_mutex_def)
    then show ?thesis using rel by auto
  next
    case le: True
    let ?p = "direct_ptr ?i ! ?b"
    have len: "length (direct_ptr ?i) = 16" using wf_readi [OF fs_relD(1) [OF rel]] by (simp add: wf_inode_def)
    have pset: "?p \<in> set (direct_ptr ?i)" using len sz(1) by simp
    show ?thesis
    proof (cases "?p = -1")
      case False
      then have p: "data_block ?p" using N(4) pset by (auto simp: pointers_ok_def)
      obtain s' where s': "rufs_write path buffer n ofs s = Inr (int (unat n), s')" "mounted s'"
          "\<forall>j. (j < 3 \<or> 67 \<le> j) \<longrightarrow> j \<noteq> unat ?p \<longrightarrow> disk s' j = disk s j" "\<forall>m. unat m < MAX_INUM \<longrightarrow> m \<noteq> k \<longrightarrow> readi s' m = readi s m"
          "direct_ptr (readi s' k) = direct_ptr ?i" "ino (readi s' k) = k" "indirect_ptr (readi s' k) = indirect_ptr ?i"
        using write_block [OF F(1) m le small sz(1) p sz(2-4) refl] unfolding e by blast
      have nb: "node_blocks s' k = node_blocks s k" using s'(5) by (simp add: node_blocks_def)
      have pin: "unat ?p \<in> node_blocks s k" using pset False by (auto simp: node_blocks_def blocks_of_def)
      have "67 \<le> unat ?p" using p by (simp add: data_block_def)
      then have low: "disk s' 1 = disk s 1" "disk s' 2 = disk s 2" using s'(3) by auto
      have "disk s' b = disk s b" if "67 \<le> b" "b \<notin> node_blocks s' k" for b using that s'(3) nb pin by auto
      then have "fs_rel s' T"
        by (intro rel_file [OF rel ok F(2) s'(2)]) (use s'(4-7) N(4-6) nb low in auto)
      then show ?thesis using s'(1) by blast
    next
      case True
      note W = write_new [OF F(1) m le small refl sz(1) True sz(2-4), unfolded e]
      show ?thesis
      proof (cases "first_clear MAX_DNUM (disk s 2)")
        case None
        then show ?thesis using W rel by (auto simp del: fs.update_convs)
      next
        case (Some d)
        have db: "d < 16384" "\<not> lb_get (disk s 2) d" using first_clear_Some [OF Some] by (simp_all add: MAX_DNUM_def)
        let ?q = "67 + of_nat d :: 32 word"
        have uq: "unat ?q = 67 + d" using db(1) unat_base_plus [of 67 d] by simp
        obtain s' where s': "rufs_write path buffer n ofs s = Inr (int (unat n), s')" "mounted s'"
            "direct_ptr (readi s' k) = (direct_ptr ?i)[?b := ?q]" "\<forall>j. lb_get (disk s' 2) j \<longleftrightarrow> j = d \<or> lb_get (disk s 2) j"
            "\<forall>j. (j < 2 \<or> 67 \<le> j) \<longrightarrow> j \<noteq> 67 + d \<longrightarrow> disk s' j = disk s j"
            "\<forall>m. unat m < MAX_INUM \<longrightarrow> m \<noteq> k \<longrightarrow> readi s' m = readi s m" "ino (readi s' k) = k" "indirect_ptr (readi s' k) = indirect_ptr ?i"
          using W Some by auto
        have dq: "data_block ?q" using db(1) uq by (simp add: data_block_def)
        have sub: "set (direct_ptr (readi s' k)) \<subseteq> insert ?q (set (direct_ptr ?i))" unfolding s'(3) by (rule set_update_subset_insert)
        have inb: "b = 67 + d \<or> b \<in> node_blocks s k" if "b \<in> node_blocks s' k" for b
          using that sub uq by (auto simp: node_blocks_def blocks_of_def)
        have qin: "67 + d \<in> node_blocks s' k"
        proof -
          have "?q \<in> set (direct_ptr (readi s' k))" using s'(3) len sz(1) by (simp add: set_update_memI)
          then show ?thesis using data_block_simps(1) [OF dq] uq by (force simp: node_blocks_def blocks_of_def)
        qed
        have "pointers_ok (direct_ptr (readi s' k))" using sub N(4) dq by (auto simp: pointers_ok_def)
        moreover have "disk s' 1 = disk s 1" using s'(5) by simp
        moreover have "disk s' b = disk s b" if "67 \<le> b" "b \<notin> node_blocks s' k" for b using that s'(5) qin by auto
        moreover have "b \<in> node_blocks s k \<or> \<not> lb_get (disk s 2) (b - 67)" if "b \<in> node_blocks s' k" for b using inb [OF that] db(2) by auto
        moreover have "lb_get (disk s' 2) (b - 67)" if "b \<in> node_blocks s' k" for b using inb [OF that] s'(4) N(6) by auto
        ultimately have "fs_rel s' T"
          by (intro rel_file [OF rel ok F(2) s'(2)]) (use s'(4,6-8) N(5) in auto)
        then show ?thesis using s'(1) by blast
      qed
    qed
  qed
qed

lemma refines_transfers:
  assumes rel: "fs_rel s T" and ok: "tree_ok T" and c: "transfers c path" "allowed T c" and m: "\<not> fs_mutex s"
  shows "refines s T c"
proof (cases "tree_walk T 0 (comps path)")
  case None
  have "path_ok T path" using c by (auto simp: transfers_def can_transfer_def)
  then have "get_node_by_path (s\<lparr>fs_mutex := True\<rparr>) path 0 = Inr None" using rel_path [OF rel] None by simp
  then have "\<exists>r. fuse_call c s = Inr (r, s) \<and> status r = - ENOENT"
    using c(1) m by (auto simp: transfers_def answer_def rufs_read_def rufs_write_def with_mutex_def)
  then obtain r where r: "fuse_call c s = Inr (r, s)" "status r = - ENOENT" by blast
  show ?thesis by (rule refinesI [OF r(1) not_found rel]) (use c(1) None r(2) in auto)
next
  case (Some k)
  have t: "can_transfer T path" using c by (auto simp: transfers_def)
  then have kf: "k \<in> files T" using Some by (simp add: can_transfer_def)
  have "\<exists>r s'. fuse_call c s = Inr (r, s') \<and> fs_rel s' T"
    using c(1) unfolding transfers_def
  proof (elim exE disjE)
    fix b n ofs
    assume d: "c = Read path b n ofs"
    then obtain r s' where "rufs_read path b n ofs s = Inr (r, s')" "fs_rel s' T"
      using c(2) refines_read [OF rel ok t m Some, of ofs n b] by auto
    then show ?thesis using d by (cases r) (simp add: answer_def)
  next
    fix b n ofs
    assume d: "c = Write path b n ofs"
    then show ?thesis using c(2) refines_write [OF rel ok t m Some, of ofs n b] by (auto simp: answer_def)
  qed
  then show ?thesis using transferred [OF c(1) Some kf] by (auto simp: refines_def)
qed

subsection \<open>Calls and runs of calls\<close>

lemma op_kinds:
  obtains "ignored c" | path where "asks c = Some path" | path where "makes c path" | path where "removes c path"
  | path where "transfers c path"
  by (cases c) (auto simp: ignored_def makes_def removes_def transfers_def)

lemma fuse_call_refines:
  assumes "fs_rel s T" and "tree_ok T" and "\<not> fs_mutex s" and "allowed T c"
  shows "\<exists>r s' T'. fuse_call c s = Inr (r, s') \<and> tree_step T c r T' \<and> fs_rel s' T' \<and> tree_ok T' \<and> \<not> fs_mutex s'"
proof -
  have "refines s T c"
  proof (cases c rule: op_kinds)
    case 1
    then show ?thesis by (rule refines_ignored [OF _ assms(1)])
  next
    case (2 path)
    then show ?thesis by (rule refines_asks [OF assms(1) _ assms(4,3)])
  next
    case (3 path)
    then show ?thesis using refines_makes [OF assms(1,2) 3 makes_allowed [OF 3 assms(4)] assms(3)] by simp
  next
    case (4 path)
    then show ?thesis using refines_removes [OF assms(1,2) 4 removes_allowed [OF 4 assms(4)] assms(3)] by simp
  next
    case (5 path)
    then show ?thesis by (rule refines_transfers [OF assms(1,2) _ assms(4,3)])
  qed
  then obtain r s' T' where r: "fuse_call c s = Inr (r, s')" "tree_step T c r T'" "fs_rel s' T'"
    by (auto simp: refines_def)
  moreover have "tree_ok T'" by (rule tree_step_ok [OF r(2) assms(4,2)])
  moreover have "\<not> fs_mutex s'" using fuse_call_keeps [OF r(1) fs_relD(1) [OF assms(1)] assms(3)] by blast
  ultimately show ?thesis by blast
qed

text \<open>The state holds the tree and waits for the next call.\<close>

definition holds :: "fs \<Rightarrow> tree \<Rightarrow> bool" where
  "holds s T \<longleftrightarrow> fs_rel s T \<and> tree_ok T \<and> \<not> fs_mutex s"

interpretation fs_sim: simulation fuse_call tree_step allowed holds
  by unfold_locales (use fuse_call_refines in \<open>auto simp: holds_def\<close>)

inductive_cases make_step: "tree_step T (Mkdir path) r T'"

text \<open>The tree of a fresh disk.\<close>

definition root_tree :: tree where
  "root_tree = \<lparr>dirs = [0 \<mapsto> [dotdot \<mapsto> 0, dot \<mapsto> 0]], files = {}\<rparr>"

lemma root_tree_ok: "tree_ok root_tree"
proof -
  have e: "entry root_tree n nm k \<longleftrightarrow> n = 0 \<and> nm \<in> self_names \<and> k = 0" for n nm k
    by (auto simp: entry_def root_tree_def self_names_def)
  have "nodes root_tree = {0}" "dom (dirs root_tree) = {0}" by (auto simp: nodes_def root_tree_def)
  then show ?thesis by (simp add: tree_ok_def e) (simp add: self_names_def root_tree_def)
qed

lemma formatted_holds:
  assumes "\<not> diskfile s" and "\<not> disk_file s" and "rufs_init s = Inr s'"
  shows "holds s' root_tree"
proof -
  have F: "dir_ok s' 0" "\<not> fs_mutex s'" "dir_map s' 0 = [dotdot \<mapsto> 0, dot \<mapsto> 0]" "dir_block s' 0 = 67"
      "direct_ptr (readi s' 0) = (replicate 16 (-1))[0 := 67]" "indirect_ptr (readi s' 0) ! 0 = -1"
      "\<forall>j < MAX_INUM. lb_get (disk s' 1) j \<longleftrightarrow> j = 0" "\<forall>j < MAX_DNUM. lb_get (disk s' 2) j \<longleftrightarrow> j = 0"
    using rufs_init_formats [OF assms(1,2)] assms(3) by auto
  have "{p \<in> {67, -1 :: 32 word}. p \<noteq> -1} = {67}" by auto
  then have b: "node_blocks s' 0 = {67}" by (simp add: node_blocks_def blocks_of_def F(5) first_pointer)
  have "node_rel s' 0"
    using F b by (simp add: node_rel_def dir_ok_def pointers_ok_def data_block_def first_pointer MAX_INUM_def MAX_DNUM_def)
  then have "fs_rel s' root_tree"
    using F b by (auto simp: fs_rel_def nodes_def root_tree_def dir_rel_def dir_ok_def)
  then show "holds s' root_tree" using F(2) root_tree_ok by (simp add: holds_def)
qed

text \<open>C1: From the formatting mount on, every client that respects what the kernel checks, its next call
  depending on the answers so far, gets its calls answered without a fault, a dead lock or an endless loop, as the
  tree of names answers them: each call is a transition of the specification, and afterwards the disk
  holds the tree that these transitions lead to.  In particular a call changes no name but its own, a refused call
  and reads and writes of files change none, and listings give exactly the names of the directory.\<close>

theorem rufs_implements_tree:
  assumes "\<not> diskfile s0" and "\<not> disk_file s0" and "rufs_init s0 = Inr s" and "obeys tree_step allowed cl root_tree"
  shows "\<exists>rs s' T'. run_client fuse_call cl s = Inr (rs, s') \<and> spec_run tree_step root_tree cl rs T' \<and> holds s' T'"
  by (rule fs_sim.runs [OF formatted_holds [OF assms(1-3)] assms(4)])

lemma path_a_comps: "comps path_a = [[97]]"
  by (simp add: path_a_def comps.simps slash_def)

lemma root_allows: "obeys tree_step allowed (scripted [Mkdir path_a, Rmdir path_a]) root_tree"
proof -
  have s: "[97] \<notin> self_names" by (simp add: self_names_def dot_def dotdot_def)
  have d: "dirs root_tree 0 = Some [dotdot \<mapsto> 0, dot \<mapsto> 0]" "[dotdot \<mapsto> 0, dot \<mapsto> (0 :: 16 word)] [97] = None"
    by (simp_all add: root_tree_def dot_def dotdot_def)
  have root: "can_remove root_tree path_a" "can_make root_tree path_a"
    using d s by (simp_all add: can_remove_def can_make_def path_ok_def path_a_comps name_ok_def)
  have made: "can_remove (add_dir root_tree 0 [97] k) path_a" if k: "k \<notin> nodes root_tree" for k
  proof -
    have k0: "k \<noteq> 0" using k by (auto simp: nodes_def root_tree_def)
    then have e: "dirs (add_dir root_tree 0 [97] k) 0 = Some [dotdot \<mapsto> 0, dot \<mapsto> 0, [97] \<mapsto> k]"
      "dirs (add_dir root_tree 0 [97] k) k = Some [dotdot \<mapsto> 0, dot \<mapsto> k]"
      by (simp_all add: add_dir_def d)
    have "is_leaf (add_dir root_tree 0 [97] k) k" using e(2) by (auto simp: is_leaf_def self_names_def)
    then show ?thesis using e s by (simp add: can_remove_def path_ok_def path_a_comps)
  qed
  have "can_remove T' path_a" if "tree_step root_tree (Mkdir path_a) r T'" for r T'
    using that by (rule make_step) (simp_all add: root made removes_def)
  then show ?thesis using root(2) by simp
qed

theorem rufs_implements_tree_witness:
  "\<exists>s rs s' T'. rufs_init no_disk = Inr s \<and> run_client fuse_call (scripted [Mkdir path_a, Rmdir path_a]) s = Inr (rs, s')
    \<and> spec_run tree_step root_tree (scripted [Mkdir path_a, Rmdir path_a]) rs T' \<and> holds s' T'"
proof -
  have n: "\<not> diskfile no_disk" "\<not> disk_file no_disk" by (simp_all add: no_disk_def)
  obtain s where s: "rufs_init no_disk = Inr s" using rufs_init_formats [OF n] by blast
  from rufs_implements_tree [OF n s root_allows] show ?thesis using s by blast
qed

subsection \<open>Making and removing again\<close>

inductive_cases tree_step_elim: "tree_step T c r T'"

lemma made_step:
  assumes "tree_step T c (Status 0) T'" and "makes c path"
  obtains n e k where "tree_walk T 0 (comps (dirname path)) = Some n" "dirs T n = Some e" "e (basename path) = None"
    "k \<notin> nodes T" "T' = add_dir T n (basename path) k \<or> T' = add_file T n (basename path) k"
  using assms(1)
  by (rule tree_step_elim)
    (use assms(2) in \<open>auto simp: makes_def ignored_def removes_def transfers_def ENOENT_def EEXIST_def ENOSPC_def\<close>)

lemma removed_step:
  assumes "tree_step T d r T'" and "removes d path" and "tree_walk T 0 (comps path) = Some k"
    and "tree_walk T 0 (comps (dirname path)) = Some n" and "dirs T n = Some e" and "e (basename path) = Some k"
  shows "r = Status 0 \<and> T' = remove_name T n (basename path) k"
  using assms(1)
  by (rule tree_step_elim)
    (use assms(2-6) in \<open>auto simp: makes_def ignored_def removes_def transfers_def\<close>)

text \<open>C10: Making a file or a directory and removing it again gives back the tree of names as it was,
  with either of the two calls that remove.\<close>

theorem make_remove_roundtrip:
  assumes "holds s T" and "can_make T path" and "set (comps path) \<inter> self_names = {}"
    and "makes c path" and "removes d path" and "fuse_call c s = Inr (Status 0, s1)"
  shows "\<exists>s2. fuse_call d s1 = Inr (Status 0, s2) \<and> holds s2 T"
proof -
  have "allowed T c" using assms(2,4) by (auto simp: makes_def)
  then obtain T1 where T1: "tree_step T c (Status 0) T1" "holds s1 T1"
    using fs_sim.simulates [OF assms(1)] assms(6) by fastforce
  obtain n e k where n: "tree_walk T 0 (comps (dirname path)) = Some n" "dirs T n = Some e" "e (basename path) = None"
      "k \<notin> nodes T" "T1 = add_dir T n (basename path) k \<or> T1 = add_file T n (basename path) k"
    using made_step [OF T1(1) assms(4)] .
  note M = made_removable [OF assms(2,3) n]
  have "allowed T1 d" using M(1) assms(5) by (auto simp: removes_def)
  then obtain r s2 T2 where d: "fuse_call d s1 = Inr (r, s2)" "tree_step T1 d r T2" "holds s2 T2"
    using fs_sim.simulates [OF T1(2)] by blast
  obtain e' where "dirs T1 n = Some e'" "e' (basename path) = Some k" using M(4) by blast
  then have "r = Status 0" "T2 = remove_name T1 n (basename path) k"
    using removed_step [OF d(2) assms(5) M(3,2)] by auto
  moreover have "remove_name T1 n (basename path) k = T" using n(5) remove_add [OF n(2-4)] by blast
  ultimately show ?thesis using d by auto
qed

theorem make_remove_roundtrip_witness:
  "\<exists>s s1 s2. holds s root_tree \<and> rufs_mkdir path_a s = Inr (0, s1) \<and> rufs_rmdir path_a s1 = Inr (0, s2) \<and> holds s2 root_tree"
proof -
  have n: "\<not> diskfile no_disk" "\<not> disk_file no_disk" by (simp_all add: no_disk_def)
  obtain s where s: "rufs_init no_disk = Inr s" "dir_ok s 0" "\<not> fs_mutex s" "\<not> dir_full s 0"
      "\<forall>j < MAX_INUM. lb_get (disk s 1) j \<longleftrightarrow> j = 0" "\<forall>j < MAX_DNUM. lb_get (disk s 2) j \<longleftrightarrow> j = 0"
    using rufs_init_formats [OF n] by blast
  have h: "holds s root_tree" by (rule formatted_holds [OF n s(1)])
  then have rel: "fs_rel s root_tree" by (simp add: holds_def)
  have mk: "can_make root_tree path_a" using root_allows by simp
  note N = fresh_new_name [OF s(2,5)]
  have d: "first_clear MAX_DNUM (disk s 2) = Some 1"
    unfolding first_clear_def find_Some_iff using s(6) by (intro exI [of _ 1]) (simp add: MAX_DNUM_def)
  have root: "dirs root_tree 0 = Some [dotdot \<mapsto> 0, dot \<mapsto> 0]" "of_nat 1 \<notin> nodes root_tree"
    by (simp_all add: root_tree_def nodes_def)
  obtain s1 where s1: "rufs_mkdir path_a s = Inr (0, s1)"
    using mkdir_made [OF rel s(3) N(1) root(1) _ s(4) N(2) _ root(2) d] by (auto simp: dot_def dotdot_def)
  have plain: "set (comps path_a) \<inter> self_names = {}" by (simp add: path_a_comps self_names_def dot_def dotdot_def)
  from make_remove_roundtrip [OF h mk plain, of "Mkdir path_a" "Rmdir path_a" s1] show ?thesis
    using h s1 by (auto simp: answer_def makes_def removes_def split: sum.splits)
qed

end
