(* ===== verification/Fs_Nondir.thy ===== *)
theory Fs_Nondir
  imports Fs_File
begin

text \<open>
  \<open>rufs_create\<close> and \<open>rufs_mkdir\<close> of \<open>Level - 4/rufs.c\<close> never ask whether the parent is a directory: what they do
  below a regular file without data, whose first pointer is \<open>-1\<close>.
\<close>

lemma no_block: "block_index (-1) = None"
  by (simp add: block_index_def BLOCK_SIZE_def)

text \<open>An inode without a first block: nothing is found in it, and adding a name only changes its size.\<close>

lemma dir_find_no_block:
  assumes "direct_ptr (readi s n) ! 0 = -1" and "name \<noteq> []"
  shows "dir_find s n name = None"
proof -
  have "bio_read s (-1) = zero_block" by (simp add: bio_read_def no_block zero_block_def)
  then show ?thesis using assms by (simp add: dir_find_def find_None_iff zero_entry)
qed

lemma dir_add_no_block:
  assumes m: "mounted s" and n: "unat n < MAX_INUM" "ino (readi s n) = n" "direct_ptr (readi s n) ! 0 = -1" and name: "name_ok name"
  shows "\<exists>s'. dir_add s (readi s n) f name = Inr (0, s') \<and> only_inode s n s' \<and> isize (readi s' n) = isize (readi s n) + 214
    \<and> same_node (readi s n) (readi s' n) \<and> fs_mutex s' = fs_mutex s"
proof -
  let ?i = "readi s n"
  have z: "bio_read s (-1) = zero_block" "bio_write s (-1) b = s" for b
    by (simp_all add: bio_read_def bio_write_def no_block zero_block_def)
  have "nat (max_dir_entries s) = Suc 18" using mountedD(6) [OF m] by simp
  then have "find (\<lambda>k. d_valid (entry_at zero_block k) = 0) [0..<nat (max_dir_entries s)] = Some 0"
    by (simp add: upt_conv_Cons zero_entry)
  moreover have "length (d_name (entry_at zero_block 0)) = 208"
    using wf_entry_at [of zero_block 0] by (simp add: wf_dirent_def zero_block_def BLOCK_SIZE_def)
  then obtain nm where "strcpy (d_name (entry_at zero_block 0)) name = Inr nm"
    using strcpy_short [of name "d_name (entry_at zero_block 0)"] name by (auto simp: name_ok_def)
  moreover have "dir_find s n name = None" using name by (intro dir_find_no_block n(3)) (simp add: name_ok_def)
  ultimately have run: "dir_add s ?i f name = Inr (0, touch_dir s ?i (isize ?i + 214))"
    using n(2,3) z by (simp add: dir_add_def Let_def sizeof_dirent_def)
  define s1 where "s1 = s\<lparr>ticks := Suc (Suc (ticks s))\<rparr>"
  define j where "j = stat64 st_atime (clock s (Suc (ticks s))) (stat64 st_mtime (clock s (ticks s))
      (stat64 st_size (ucast (isize ?i + 214)) (?i\<lparr>isize := isize ?i + 214\<rparr>)))"
  have j: "wf_inode j" "ino j = n" "isize j = isize ?i + 214" "same_node ?i j"
    using wf_readi [OF m] n(2) by (simp_all add: j_def st_size_def st_mtime_def st_atime_def same_node_def)
  have t: "touch_dir s ?i (isize ?i + 214) = snd (writei s1 n j)"
    using n(2) by (simp add: touch_dir_def Let_def get_time_def j_def s1_def stat64_def)
  have m1: "mounted s1" using m by (simp add: s1_def)
  note W = inode_stored [OF m1 j(1) n(1) t]
  show ?thesis
    using run W j by (intro exI [of _ "touch_dir s ?i (isize ?i + 214)"]) (simp add: s1_def same_node_def)
qed

text \<open>C39: Creating a name below a regular file that has no data returns 0, as if it had worked: no entry
  is written, since the file's first pointer \<open>-1\<close> makes the write fail silently, the file's size grows by the size of
  an entry, and an inode stays marked as used that no name leads to.\<close>

theorem rufs_create_below_file:
  assumes "file_at s (dirname path) n" and "itype (readi s n) = 0" and "direct_ptr (readi s n) ! 0 = -1" and "\<not> fs_mutex s"
    and "path \<noteq> []" and "hd path = slash" and "name_ok (basename path)"
    and "first_clear MAX_INUM (disk s 1) = Some k" and "0 < k" and "lb_get (disk s 1) (unat n)"
  shows "\<exists>s'. rufs_create path mode s = Inr (0, s') \<and> dir_find s' n (basename path) = None
    \<and> isize (readi s' n) = isize (readi s n) + 214 \<and> lb_get (disk s' 1) k \<and> valid (readi s' (of_nat k)) = 1
    \<and> (\<forall>m. unat m < MAX_INUM \<longrightarrow> m \<noteq> n \<longrightarrow> m \<noteq> of_nat k \<longrightarrow> readi s' m = readi s m)
    \<and> (\<forall>j. 67 \<le> j \<longrightarrow> disk s' j = disk s j)"
proof -
  let ?s = "s\<lparr>fs_mutex := True\<rparr>" and ?k = "of_nat k :: 16 word" and ?nm = "basename path"
  have D: "mounted ?s" "unat n < MAX_INUM" "ino (readi s n) = n" using assms(1) by (simp_all add: file_at_def)
  have kb: "k < MAX_INUM" "\<not> lb_get (disk s 1) k" using first_clear_Some [OF assms(8)] by auto
  have uk: "unat ?k = k" using kb(1) by (simp only: unat_of_nat) (simp add: MAX_INUM_def)
  then have km: "unat ?k < MAX_INUM" "?k \<noteq> n" using kb assms(10) by auto
  have ik: "of_int (int k) = ?k" by simp
  define s1 where "s1 = ?s\<lparr>total_inodes_used := total_inodes_used s + 1, inode_bitmap := lb_set (disk s 1) k,
    disk := (disk s)(1 := lb_set (disk s 1) k)\<rparr>"
  have a: "get_avail_ino ?s = Inr (int k, s1)" using get_avail_ino_mounted [OF D(1)] assms(8) by (simp add: s1_def)
  have m1: "mounted s1" using D(1) by (simp add: s1_def mounted_def)
  have r1: "readi s1 m = readi s m" if "unat m < MAX_INUM" for m
    using D(1) m1 that by (intro readi_other_block) (simp_all add: s1_def)
  obtain s2 where s2: "dir_add s1 (readi s1 n) ?k ?nm = Inr (0, s2)" "only_inode s1 n s2"
      "isize (readi s2 n) = isize (readi s n) + 214" "same_node (readi s n) (readi s2 n)" "fs_mutex s2"
    using dir_add_no_block [OF m1 D(2) _ _ assms(7), of ?k] D(3) assms(3) r1 [OF D(2)] by (auto simp: s1_def)
  have m2: "mounted s2" using s2(2) by (simp add: only_inode_def)
  obtain i where i: "init_inode s2 (readi s2 ?k) ?k 0 = Inr (i, s2\<lparr>ticks := ticks s2 + 3\<rparr>)" "wf_inode i" "valid i = 1"
    using init_inode_spec [OF wf_readi [OF m2], of s2 ?k ?k 0] by blast
  define s3 where "s3 = s2\<lparr>ticks := ticks s2 + 3\<rparr>"
  define j where "j = stat32 st_mode (0x8000 OR mode) i"
  have j: "wf_inode j" "valid j = 1" using i(2,3) by (simp_all add: j_def st_mode_def)
  have m3: "mounted s3" using m2 by (simp add: s3_def)
  obtain r s4 where w: "writei s3 ?k j = (r, s4)" by (metis surj_pair)
  then have s4: "s4 = snd (writei s3 ?k j)" by simp
  note W = inode_stored [OF m3 j(1) km(1) s4]
  have "r = 0" using w writei_mounted [OF m3, of ?k j] km(1) by (simp add: MAX_INUM_def)
  then have run: "rufs_create path mode s = Inr (0, s4\<lparr>fs_mutex := False\<rparr>)"
    using assms(4,9) file_found [OF assms(1), of True] a s2(1) i(1) w r1 [OF D(2)]
    by (simp add: rufs_create_def with_mutex_def s3_def [symmetric] j_def [symmetric] ik)
  have node: "readi s4 n = readi s2 n" using W(1) km(2) by (simp add: only_inode_def s3_def)
  have others: "readi s4 m = readi s m" if "unat m < MAX_INUM" "m \<noteq> n" "m \<noteq> ?k" for m
    using W(1) s2(2) that r1 by (simp add: only_inode_def s3_def)
  have blocks: "disk s4 x = disk s1 x" if "x < 3 \<or> 67 \<le> x" for x using W(1) s2(2) that by (auto simp: only_inode_def s3_def)
  have "k < 8 * length (disk s 1)" using kb(1) mountedD(7) [OF D(1)] by (simp add: MAX_INUM_def)
  then have "lb_get (disk s4 1) k" using blocks [of 1] lb_get_set by (simp add: s1_def)
  moreover have "dir_find s4 n ?nm = None"
    using node s2(4) assms(3,7) by (intro dir_find_no_block) (simp_all add: same_node_def name_ok_def)
  moreover have "disk s4 x = disk s x" if "67 \<le> x" for x using blocks that by (simp add: s1_def)
  ultimately show ?thesis
    using run node s2(3) W(2) j(2) others by (intro exI [of _ "s4\<lparr>fs_mutex := False\<rparr>"]) simp
qed

lemma fresh_empty_file:
  "\<exists>s. file_at s path_a 1 \<and> itype (readi s 1) = 0 \<and> isize (readi s 1) = 0 \<and> direct_ptr (readi s 1) ! 0 = -1 \<and> \<not> fs_mutex s
    \<and> first_clear MAX_INUM (disk s 1) = Some 2 \<and> lb_get (disk s 1) 1"
proof -
  obtain s where s: "dir_ok s 0" "dir_map s 0 = [dotdot \<mapsto> 0, dot \<mapsto> 0]" "\<not> dir_full s 0" "\<not> fs_mutex s"
      "\<forall>j < MAX_INUM. lb_get (disk s 1) j \<longleftrightarrow> j = 0"
    using fresh_fs by blast
  note N = fresh_new_name [OF s(1,5)]
  have none: "dir_map s 0 (basename path_a) = None" using s(2) by (simp add: dot_def dotdot_def)
  obtain s' where s': "\<not> fs_mutex s'" "dir_ok s' 0" "dir_map s' 0 = (dir_map s 0)([97] \<mapsto> 1)" "isize (readi s' 1) = 0"
      "itype (readi s' 1) = 0" "ino (readi s' 1) = 1" "direct_ptr (readi s' 1) = replicate 16 (-1)"
      "\<forall>j. lb_get (disk s' 1) j \<longleftrightarrow> j = 1 \<or> lb_get (disk s 1) j"
    using file_created [OF N(1) s(4) none s(3) N(2), of 0] by auto
  have "dir_map s' 0 [97] = Some 1" using s'(3) by simp
  then obtain e where "dir_find s' 0 [97] = Some e" "d_ino e = 1" by (auto simp: dir_map_def)
  moreover have "comps path_a = [[97]]" by (simp add: path_a_def comps.simps slash_def)
  ultimately have "file_at s' path_a 1"
    using s'(2,6) by (simp add: file_at_def dir_ok_def MAX_INUM_def)
  moreover have "first_clear MAX_INUM (disk s' 1) = Some 2"
    unfolding first_clear_def find_Some_iff using s'(8) s(5) by (intro exI [of _ 2]) (auto simp: MAX_INUM_def)
  ultimately show ?thesis using s' by (intro exI [of _ s']) simp
qed

theorem rufs_create_below_file_witness:
  "\<exists>s s'. rufs_create [47, 97, 47, 98] 0x1A4 s = Inr (0, s') \<and> itype (readi s 1) = 0 \<and> dir_find s' 1 [98] = None
    \<and> isize (readi s' 1) = 214 \<and> lb_get (disk s' 1) 2"
proof -
  obtain s where s: "file_at s path_a 1" "itype (readi s 1) = 0" "isize (readi s 1) = 0" "direct_ptr (readi s 1) ! 0 = -1"
      "\<not> fs_mutex s" "first_clear MAX_INUM (disk s 1) = Some 2" "lb_get (disk s 1) 1"
    using fresh_empty_file by blast
  have p: "dirname [47, 97, 47, 98] = path_a" "basename [47, 97, 47, 98] = [98]" "name_ok [98]"
    by (simp_all add: dirname_def basename_def strip_def slash_def path_a_def name_ok_def)
  then show ?thesis
    using rufs_create_below_file [of s "[47, 97, 47, 98]" 1 2 "0x1A4"] s by (auto simp: slash_def)
qed

end
