(* ===== verification/Spec2Isabelle.thy ===== *)
theory Spec2Isabelle
  imports Bit_Shifting Threads_Race Vm_Heap Frag_Matrix Wk_Signal Wk_Mutex Fs_Refine Fs_Nondir
begin

text \<open>
  A verification development of the C programs of this repository: the bit and thread exercises
  (\<open>Level - 1\<close>), a user-level thread library (\<open>Level - 2\<close>), a virtual memory manager in two variants
  (\<open>Level -3\<close>) and a file system for FUSE (\<open>Level - 4\<close>).  The levels are separate programs; within a
  level the theories follow the calls of the code from the bottom to the top.

  \<^bold>\<open>Shared.\<close>  \<open>Prelude\<close> holds the machine types, the faults of C (null pointer, access out of bounds, negative
  size, freed memory used, invalid pointer freed, dead lock, endless loop, \<open>exit\<close>), byte-addressed memory with 32-bit loads and stores, C division and
  the lemmas on them.  Every operation returns \<open>fault + value\<close>; an \<open>Inl\<close> is an end of the call that is
  not a return.  \<open>Bit_Array\<close> states the contract of an array of bits (a locale with get, set and
  clear laws), which the bitmaps of levels 1, 3 and 4 interpret.  \<open>Simulation\<close>: programs that call a library, their next call
  depending on the answers so far (\<open>client\<close>), their runs on the code and on a specification, and the locale
  \<open>simulation\<close>, which carries a simulation of single calls over to whole runs; levels 2, 3 and 4 interpret it.

  \<^bold>\<open>Level 1.\<close>  \<open>Bit_Shifting\<close>: the three functions of \<open>bit-shifting.c\<close>.  \<open>Threads_Race\<close>: the two unsynchronised threads of
  \<open>threads.c\<close> as interleaved loads and stores of 32-bit integers, with the bounds of the counter and both extreme outcomes
  for every \<open>loop\<close> below \<open>2^30\<close>, from where on \<open>x=x+1\<close> can overflow.

  \<^bold>\<open>Level 2\<close> (\<open>worker.c\<close>, \<open>worker.h\<close>).  \<open>Wk_Queue\<close>: linked queues on a heap of nodes, related to the
  list of their nodes; the locale \<open>fifo_queue\<close> is what the schedulers rely on.  \<open>Wk_Threads\<close>: the
  globals of the library as the record \<open>worker\<close>, and every operation of it from \<open>worker_create\<close> to the two
  schedulers, \<open>worker_join\<close> and the mutexes; one operation is one step up to the next context switch
  (\<open>wstep\<close>, \<open>wreach\<close>).  The timer signal is such a step too (\<open>interrupt_handler\<close>), so it arrives between the operations, although
  \<open>worker_create\<close>, the mutexes and \<open>sched_mlfq\<close> run with the signal enabled; \<open>Wk_Mutex\<close> and \<open>Wk_Signal\<close> open up the last two.
  The state says which control blocks were freed and which stacks are allocated: continuing a freed main thread and freeing
  an invalid stack pointer are faults.  \<open>Wk_Sched\<close>: round robin gives every ready thread its turn; under MLFQ no thread is ever
  demoted, in all reachable states; joins.  \<open>Wk_Mutex\<close>: \<open>worker_mutex_lock\<close> and
  \<open>worker_mutex_unlock\<close> once more, access by access, since they run with the timer enabled: mutual
  exclusion in all interleavings, and the two races of the unlock.  \<open>Wk_Pool\<close>: under round robin the calls on threads implement a
  queue of thread numbers (\<open>pool\<close>, \<open>pool_step\<close>); \<open>pool_rel\<close> relates it to the nodes, control blocks and queues.
  \<open>Wk_Mlfq\<close>: on the first level of the feedback queues every call does what round robin does (\<open>flat\<close> takes that
  level for the ready queue), so the queue of thread numbers specifies both schedulers; the one difference is the stack that
  the feedback queue frees when a thread exits, which for the main thread is an uninitialised pointer.  \<open>Wk_Signal\<close>:
  \<open>sched_mlfq\<close> in steps with signals between them, which lose a thread or free a stack twice.

  \<^bold>\<open>Level 3\<close> (\<open>my_vm.c\<close>, \<open>my_vm.h\<close>).  \<open>Vm_Address\<close>: the widths the code computes, extraction and composition of
  addresses.  \<open>Vm_Bitmap\<close>: the physical and virtual bitmaps and the two searches, equal to reference searches.
  \<open>Vm_TLB\<close>: the translation cache; the locale \<open>xlat_cache\<close> states that what it answers is what was
  entered.  \<open>Vm_Paging\<close>: the state \<open>vm\<close>, setup, page walk and mapping; \<open>vm_rel s pt dm\<close> relates a state to the
  frames of the page tables (\<open>pt\<close>) and of the virtual pages (\<open>dm\<close>), \<open>vm_inv\<close> is the invariant.  \<open>Vm_Alloc\<close>, \<open>Vm_Free\<close>:
  \<open>t_malloc\<close> and \<open>t_free\<close> refine adding and removing pages of \<open>dm\<close>.  \<open>Vm_Access\<close>: through \<open>put_value\<close>
  and \<open>get_value\<close> the mapped pages are one array of bytes, \<open>vread\<close>.  \<open>Vm_Matrix\<close>: \<open>mat_mult\<close> stores the matrix product
  modulo \<open>2^32\<close>.  \<open>Vm_Heap\<close>: the five functions together implement one flat memory of bytes (\<open>heap\<close>, \<open>heap_step\<close>).
  The variant \<open>my_vm_internal_fragmentation.c\<close>: \<open>Frag_Lists\<close> (the lists of partially used pages and of the blocks of a page,
  addresses with 4 KB pages), \<open>Frag_Alloc\<close> (paging, allocation, release), \<open>Frag_Share\<close> (the invariant
  \<open>frag_inv\<close> of the lists, sharing and releasing), \<open>Frag_Access\<close> (\<open>put_value\<close>, \<open>get_value\<close> with their checks),
  \<open>Frag_Blocks\<close> (blocks that share a page do not disturb each other), \<open>Frag_Matrix\<close> (\<open>mat_mult\<close> on such blocks).  What
  is the same text in both variants is defined once, with the widths of the address as an argument.

  \<^bold>\<open>Level 4\<close> (\<open>rufs.c\<close>, \<open>rufs.h\<close>, \<open>block.c\<close>).  \<open>Fs_Disk\<close>: the disk as blocks of bytes, and the on-disk structures with
  their encodings.  \<open>Fs_Inode\<close>: bitmaps and inode table; reading an inode back gives what was
  written.  \<open>Fs_Dir\<close>: directory blocks; \<open>dir_map\<close> is the map from names to inode numbers that a directory block
  stands for.  \<open>Fs_Path\<close>: path names.  \<open>Fs_Ops\<close>: formatting, mounting and the directory operations, with
  \<open>dir_add\<close> and \<open>dir_remove\<close> refining insertion into and deletion from that map.  \<open>Fs_Namespace\<close>: creating
  files and directories, listing.  \<open>Fs_File\<close>: reading and writing file contents.  \<open>Fs_Remove\<close>: unlinking and
  removal.  \<open>Fs_Nondir\<close>: creation below a path that is no directory.  \<open>Fs_Calls\<close>: the table \<open>rufs_ope\<close> that the
  code hands to FUSE, with \<open>fuse_call\<close> for one call and \<open>fuse_run\<close> for the states that calls lead to; every call keeps
  the geometry of the disk and releases the mutex.  \<open>Fs_Tree\<close> is the specification of the whole file system, a
  tree of names with one transition per call (\<open>tree_step\<close>); \<open>Fs_Rel\<close> relates a disk to the tree it holds
  (\<open>fs_rel\<close>: each directory block stands for its node of the tree, inodes and blocks in use are marked and not shared);
  \<open>Fs_Refine\<close> proves the simulation for every operation and interprets the locale \<open>simulation\<close> with it, which carries it
  over to every client from the formatting mount on.

  \<^bold>\<open>Bounds.\<close>  Nothing uses fuel.  Loops of the code are structural recursions or functions with a measure; the walks along a
  linked list of level 2 are partial functions, whose None is the fault \<open>Diverges\<close>, and the theorems about
  them show that they return on a list without a cycle.  Integers have the width the build gives them:
  32 bits for levels 1 to 3 (level 3 is compiled with \<open>-m32\<close>), x86-64 for level 4.  The three specifications bound their
  clients: \<open>heap_allows\<close> admits fewer than 16375 pages in all, which leaves frames for the page tables, one page per release and short
  transfers on the client's own memory only; \<open>pool_allows\<close> admits 10000 threads, the length of \<open>return_values\<close>,
  and one waiting thread at a time, since \<open>delete_from_queue\<close> loses nodes of longer queues; \<open>allowed\<close> is described below.

  \<^bold>\<open>Parameters.\<close>  The answers of \<open>malloc\<close> and \<open>getcontext\<close>, the clock and the contents of fresh memory are components of the
  state.  The invariants and the theorems on single operations leave them arbitrary, but for a \<open>malloc\<close> they assume to succeed where they
  say so.  The refinement of level 2 starts a process with \<open>process_start\<close>, where \<open>malloc\<close> and \<open>getcontext\<close> succeed and the two
  queues, which \<open>init\<close> leaves uninitialised, are in zeroed memory; under the feedback queues the
  uninitialised stack pointer of the main thread is \<open>NULL\<close> as well; the clock and the other uninitialised memory are arbitrary.  In level 3 the state has the
  answers of \<open>malloc\<close> for the simulated memory and for list nodes (\<open>vm_start block nodes m\<close>; \<open>block_ok\<close>
  is a block that was allocated); the smaller allocations for bitmaps, the head of the TLB and the arrays of frames are taken to
  succeed.  The block device below \<open>block.c\<close> is a function from block numbers to
  bytes that is zero where nothing was written.

  \<^bold>\<open>Not modelled.\<close>  Level 3 and 4 hold one global mutex during every operation and are modelled by single calls: a call that finds the
  mutex locked is the fault \<open>Deadlock\<close>.  Machine contexts and stacks of level 2 hold no data of the library.
  \<open>signal.c\<close> patches its return address on the machine stack.  Printing, the test and benchmark programs, the
  call of \<open>fuse_main\<close> and \<open>update_partial_list_free\<close>, which nothing calls, are left out.  What the kernel checks before it
  calls a file system (that the parent of a new name is a directory, that reads and writes go to regular files) is the
  condition \<open>allowed\<close> of the refinement; \<open>Fs_Nondir\<close> shows what the code does without it.  The refinement also keeps to what the
  code does correctly: a removed directory is empty, a write stays within one of the 16 direct blocks and a read below
  their end; the theorems of \<open>Fs_Remove\<close> and \<open>Fs_File\<close> say what happens beyond.
\<close>

end
